(* ===== verification/Ipc_Prelude.thy ===== *)
theory Ipc_Prelude
  imports Main "HOL-Library.Word"
begin

text \<open>
  Shared vocabulary of the development: the C types and the error numbers the sources use, the
  results of system calls, the generic transition systems (reachable states and the invariant
  contract), and the lemmas on lists and words that the component theories share.
\<close>

section \<open>Collections\<close>

named_theorems errno_simps \<open>facts about error numbers and results of calls\<close>
named_theorems inv_defs \<open>definitions of the invariants of the step relations\<close>

section \<open>C types\<close>

type_synonym byte = "8 word"
type_synonym uint = "32 word"
type_synonym errno = int

text \<open>
  The error numbers are small positive integers, so that the tests of the sources
  (\<open>!= 0\<close>, \<open>== -1\<close>, \<open>== EINTR\<close>) are tests on integers here too. The values are those of Linux;
  nothing depends on them but that they are positive and distinct.
\<close>

abbreviation (input) ENOENT :: errno where "ENOENT \<equiv> 2"
abbreviation (input) ESRCH :: errno where "ESRCH \<equiv> 3"
abbreviation (input) EINTR :: errno where "EINTR \<equiv> 4"
abbreviation (input) EIO :: errno where "EIO \<equiv> 5"
abbreviation (input) EBADF :: errno where "EBADF \<equiv> 9"
abbreviation (input) EAGAIN :: errno where "EAGAIN \<equiv> 11"
abbreviation (input) ENOMEM :: errno where "ENOMEM \<equiv> 12"
abbreviation (input) EACCES :: errno where "EACCES \<equiv> 13"
abbreviation (input) EBUSY :: errno where "EBUSY \<equiv> 16"
abbreviation (input) EEXIST :: errno where "EEXIST \<equiv> 17"
abbreviation (input) EINVAL :: errno where "EINVAL \<equiv> 22"
abbreviation (input) ERANGE :: errno where "ERANGE \<equiv> 34"
abbreviation (input) EDEADLK :: errno where "EDEADLK \<equiv> 35"
abbreviation (input) EMSGSIZE :: errno where "EMSGSIZE \<equiv> 90"
abbreviation (input) ETIMEDOUT :: errno where "ETIMEDOUT \<equiv> 110"

text \<open>
  The flags of \<open>open\<close> and the permission bits are separate bits of a machine word, as in C.
\<close>

abbreviation (input) O_RDONLY :: uint where "O_RDONLY \<equiv> 0"
abbreviation (input) O_WRONLY :: uint where "O_WRONLY \<equiv> 1"
abbreviation (input) O_RDWR :: uint where "O_RDWR \<equiv> 2"
abbreviation (input) O_CREAT :: uint where "O_CREAT \<equiv> 64"
abbreviation (input) O_EXCL :: uint where "O_EXCL \<equiv> 128"
abbreviation (input) O_NONBLOCK :: uint where "O_NONBLOCK \<equiv> 2048"
abbreviation (input) S_IXUSR :: uint where "S_IXUSR \<equiv> 64"

text \<open>
  A C function that reports failure by \<open>-1\<close> and \<open>errno\<close> returns \<open>Inl errno\<close>, otherwise \<open>Inr\<close> of
  its result.
\<close>

type_synonym 'a result = "errno + 'a"

text \<open>A signed \<open>long\<close> converted to \<open>unsigned long\<close>, as in a comparison with a \<open>size_t\<close>.\<close>

definition ulong_of :: "int \<Rightarrow> nat" where
  "ulong_of i = nat (i mod 2 ^ 64)"

lemma ulong_of_nonneg [simp]: "0 \<le> i \<Longrightarrow> i < 2 ^ 63 \<Longrightarrow> ulong_of i = nat i"
  by (simp add: ulong_of_def)

section \<open>Calls that run under a mutex\<close>

text \<open>
  A function that works under a mutex and a condition variable runs from its
  \<open>pthread_mutex_lock\<close> to the next point where it gives the mutex up without any other thread
  touching the shared data. Such a section ends in one of four ways: the call returns (the mutex
  is unlocked, with the conditions signalled and the signals sent on the way as a list of
  events), the thread is parked in \<open>pthread_cond_wait\<close>, the program aborts in \<open>err_dump\<close>, or a
  loop of the section never ends.
\<close>

datatype ('s, 'e, 'r) cs_outcome =
    Returns 's "'e list" 'r
  | Waits 's
  | Aborts 's
  | Diverges

section \<open>Wrapper functions\<close>

text \<open>
  A wrapper function (its name starts with a capital) returns what the wrapped function returns,
  or ends the process in \<open>err_sys\<close> with a message and \<open>errno\<close>; other code ends the process in
  \<open>err_quit\<close> or in \<open>exit\<close>.
\<close>

datatype 'a called =
    Done 'a
  | Err_sys string errno
  | Err_quit string
  | Exit int

text \<open>A wrapper of a function that returns 0 or an error number, and of one that sets \<open>errno\<close>.\<close>

definition wrap0 :: "string \<Rightarrow> int \<Rightarrow> unit called" where
  "wrap0 msg n = (if n = 0 then Done () else Err_sys msg n)"

definition wrap1 :: "string \<Rightarrow> 'a result \<Rightarrow> 'a called" where
  "wrap1 msg r = (case r of Inl e \<Rightarrow> Err_sys msg e | Inr v \<Rightarrow> Done v)"

fun map_outcome :: "('a \<Rightarrow> 'b) \<Rightarrow> ('s, 'e, 'a) cs_outcome \<Rightarrow> ('s, 'e, 'b) cs_outcome" where
  "map_outcome f (Returns s evs r) = Returns s evs (f r)"
| "map_outcome f (Waits s) = Waits s"
| "map_outcome f (Aborts s) = Aborts s"
| "map_outcome f Diverges = Diverges"

section \<open>Transition systems\<close>

text \<open>
  A component with several threads or processes is a set of initial states and a step relation.
  The reachable states are the least set closed under steps.
\<close>

inductive reach :: "('s \<Rightarrow> bool) \<Rightarrow> ('s \<Rightarrow> 's \<Rightarrow> bool) \<Rightarrow> 's \<Rightarrow> bool"
  for start :: "'s \<Rightarrow> bool" and step :: "'s \<Rightarrow> 's \<Rightarrow> bool" where
  reach_start: "start s \<Longrightarrow> reach start step s"
| reach_step: "reach start step s \<Longrightarrow> step s t \<Longrightarrow> reach start step t"

text \<open>A path of steps given as the list of the states after the first one.\<close>

fun path_steps :: "('s \<Rightarrow> 's \<Rightarrow> bool) \<Rightarrow> 's \<Rightarrow> 's list \<Rightarrow> bool" where
  "path_steps step s [] = True"
| "path_steps step s (t # ts) = (step s t \<and> path_steps step t ts)"

lemma reach_path: "reach start step s \<Longrightarrow> path_steps step s ts \<Longrightarrow> reach start step (last (s # ts))"
proof (induction ts arbitrary: s)
  case (Cons t ts)
  from Cons.prems have "reach start step t" and "path_steps step t ts"
    by (auto intro: reach_step)
  then have "reach start step (last (t # ts))" by (rule Cons.IH)
  then show ?case by simp
qed simp

text \<open>
  The invariant contract: a predicate that holds at the start and that every step keeps. Each
  machine of the development interprets it on its own step relation.
\<close>

locale inductive_invariant =
  fixes start :: "'s \<Rightarrow> bool"
    and step :: "'s \<Rightarrow> 's \<Rightarrow> bool"
    and I :: "'s \<Rightarrow> bool"
  assumes inv_start: "start s \<Longrightarrow> I s"
    and inv_step: "I s \<Longrightarrow> step s t \<Longrightarrow> I t"
begin

lemma inv_reach: "reach start step s \<Longrightarrow> I s"
  by (induction rule: reach.induct) (auto intro: inv_start inv_step)

lemma inv_path: "I s \<Longrightarrow> path_steps step s ts \<Longrightarrow> t \<in> set ts \<Longrightarrow> I t"
  by (induction ts arbitrary: s) (auto intro: inv_step)

end

text \<open>
  The contract of a program that ends: a bound on the steps that are left, and a step as long as it has
  not finished.
\<close>

locale ending_runs = inductive_invariant start step I
  for start :: "'s \<Rightarrow> bool" and step :: "'s \<Rightarrow> 's \<Rightarrow> bool" and I :: "'s \<Rightarrow> bool" +
  fixes left :: "'s \<Rightarrow> int"
    and finished :: "'s \<Rightarrow> bool"
  assumes left_step: "I s \<Longrightarrow> step s t \<Longrightarrow> left t < left s"
    and left_nonneg: "I s \<Longrightarrow> 0 \<le> left s"
    and goes_on: "I s \<Longrightarrow> \<not> finished s \<Longrightarrow> \<exists>t. step s t"
begin

lemma ends:
  "I s \<Longrightarrow> path_steps step s ts \<Longrightarrow>
    I (last (s # ts)) \<and> int (length ts) \<le> left s \<and> (finished (last (s # ts)) \<or> (\<exists>t. step (last (s # ts)) t))"
proof (induction ts arbitrary: s)
  case Nil
  then show ?case using goes_on [of s] left_nonneg [of s] by auto
next
  case (Cons t ts)
  then have "I t" and "left t < left s" by (auto intro: inv_step left_step)
  with Cons.IH [of t] Cons.prems(2) show ?case by auto
qed

end

section \<open>Threads as lists of program counters\<close>

text \<open>
  The threads of a machine are numbered and their program counters are the entries of a list.
  How many threads are at a given point is \<^const>\<open>count_list\<close>; a step changes one entry.
\<close>

lemma count_list_le_length: "count_list xs a \<le> length xs"
  by (induction xs) auto

lemma count_list_pos_nth: "i < length xs \<Longrightarrow> xs ! i = a \<Longrightarrow> 0 < count_list xs a"
proof -
  assume "i < length xs" and "xs ! i = a"
  then have "a \<in> set xs" by (metis nth_mem)
  then show "0 < count_list xs a" by (metis count_list_0_iff gr_zeroI)
qed

lemma count_list_posD: "0 < count_list xs a \<Longrightarrow> \<exists>i < length xs. xs ! i = a"
  by (metis count_list_0_iff in_set_conv_nth less_numeral_extra(3))

lemma count_list_update:
  "i < length xs \<Longrightarrow>
    int (count_list (xs[i := x]) a) =
      int (count_list xs a) - (if xs ! i = a then 1 else 0) + (if x = a then 1 else 0)"
proof (induction xs arbitrary: i)
  case (Cons y ys)
  then show ?case
  proof (cases i)
    case (Suc j)
    with Cons.prems have "j < length ys" by simp
    from Cons.IH [OF this] Suc show ?thesis by (simp split: if_splits)
  qed simp
qed simp

text \<open>Two entries with the same value are counted twice.\<close>

lemma count_list_two:
  assumes "i < length xs" and "j < length xs" and "i \<noteq> j" and "xs ! i = a" and "xs ! j = a"
  shows "2 \<le> count_list xs a"
  using assms
proof (induction xs arbitrary: i j)
  case (Cons y ys)
  then show ?case
    by (cases i; cases j) (auto dest: count_list_pos_nth simp: Suc_le_eq)
qed simp

text \<open>The count as an integer, for sums and differences.\<close>

definition cnt :: "'a \<Rightarrow> 'a list \<Rightarrow> int" where
  "cnt a xs = int (count_list xs a)"

lemma cnt_update:
  "i < length xs \<Longrightarrow>
    cnt a (xs[i := x]) = cnt a xs - (if xs ! i = a then 1 else 0) + (if x = a then 1 else 0)"
  by (simp add: cnt_def count_list_update)

lemma cnt_nonneg: "0 \<le> cnt a xs"
  by (simp add: cnt_def)

lemma cnt_pos_nth: "i < length xs \<Longrightarrow> xs ! i = a \<Longrightarrow> 1 \<le> cnt a xs"
  using count_list_pos_nth [of i xs a] by (simp add: cnt_def)

lemma cnt_zero_iff: "cnt a xs = 0 \<longleftrightarrow> a \<notin> set xs"
  by (simp add: cnt_def count_list_0_iff)

lemma cnt_pos_iff: "0 < cnt a xs \<longleftrightarrow> a \<in> set xs"
  using cnt_zero_iff [of a xs] cnt_nonneg [of a xs] by linarith

lemma cnt_replicate: "cnt a (replicate n b) = (if a = b then int n else 0)"
  by (induction n) (auto simp: cnt_def)

text \<open>What the threads hold together: a weight of each point, added up over the threads.\<close>

definition total_of :: "('p \<Rightarrow> int) \<Rightarrow> 'p list \<Rightarrow> int" where
  "total_of f ps = sum_list (map f ps)"

lemma total_update:
  "j < length ps \<Longrightarrow> total_of f (ps[j := p]) = total_of f ps - f (ps ! j) + f p"
proof (induction ps arbitrary: j)
  case (Cons q ps)
  then show ?case by (cases j) (auto simp: total_of_def)
qed simp

lemma total_replicate [simp]: "total_of f (replicate n p) = int n * f p"
  by (simp add: total_of_def sum_list_replicate)

lemma total_nonneg: "(\<And>p. 0 \<le> f p) \<Longrightarrow> 0 \<le> total_of f ps"
  by (induction ps) (auto simp: total_of_def)

lemma total_le_length: "(\<And>p. f p \<le> 1) \<Longrightarrow> total_of f ps \<le> int (length ps)"
proof (induction ps)
  case (Cons p ps)
  have "total_of f ps \<le> int (length ps)" and "f p \<le> 1" using Cons by blast+
  then show ?case by (simp add: total_of_def)
qed (simp add: total_of_def)

lemma total_nth: "(\<And>p. 0 \<le> f p) \<Longrightarrow> j < length ps \<Longrightarrow> f (ps ! j) \<le> total_of f ps"
proof (induction ps arbitrary: j)
  case (Cons q ps)
  have "0 \<le> f q" and "0 \<le> total_of f ps" using Cons.prems(1) by (blast intro: total_nonneg)+
  with Cons show ?case by (cases j) (auto simp: total_of_def intro: add_increasing)
qed simp

lemma total_pos: "(\<And>p. 0 \<le> f p) \<Longrightarrow> 0 < total_of f ps \<Longrightarrow> \<exists>j < length ps. 0 < f (ps ! j)"
proof (induction ps)
  case (Cons q ps)
  show ?case
  proof (cases "0 < f q")
    case False
    with Cons.prems(1) [of q] Cons.prems(2) have "0 < total_of f ps" by (simp add: total_of_def)
    with Cons.IH Cons.prems(1) show ?thesis by fastforce
  qed (auto intro: exI [of _ 0])
qed (simp add: total_of_def)

lemma total_eq_length: "(\<And>p. p \<in> set ps \<Longrightarrow> f p = 1) \<Longrightarrow> total_of f ps = int (length ps)"
  by (induction ps) (auto simp: total_of_def)

lemma total_eq_0: "(\<And>p. p \<in> set ps \<Longrightarrow> f p = 0) \<Longrightarrow> total_of f ps = 0"
  by (induction ps) (auto simp: total_of_def)

lemma sum_list_update_int:
  "j < length xs \<Longrightarrow> sum_list (xs[j := x]) = sum_list xs - xs ! j + (x :: int)"
  using total_update [of j xs id x] by (simp add: total_of_def)

text \<open>A change of one thread adds one program counter.\<close>

lemma in_set_updateD: "x \<in> set (xs[j := y]) \<Longrightarrow> x = y \<or> x \<in> set xs"
  using set_update_subset_insert [of xs j y] by auto

section \<open>Circular buffers\<close>

text \<open>The \<open>n\<close> entries of a circular buffer of size \<open>m\<close> from index \<open>c\<close> on.\<close>

definition ring :: "nat \<Rightarrow> 'a list \<Rightarrow> nat \<Rightarrow> nat \<Rightarrow> 'a list" where
  "ring m b c n = map (\<lambda>k. b ! ((c + k) mod m)) [0..<n]"

lemma ring_0 [simp]: "ring m b c 0 = []"
  by (simp add: ring_def)

lemma length_ring [simp]: "length (ring m b c n) = n"
  by (simp add: ring_def)

lemma ring_Suc: "ring m b c (Suc n) = b ! (c mod m) # ring m b (Suc c mod m) n"
proof (rule nth_equalityI)
  fix i assume "i < length (ring m b c (Suc n))"
  then show "ring m b c (Suc n) ! i = (b ! (c mod m) # ring m b (Suc c mod m) n) ! i"
    by (cases i) (simp_all add: ring_def mod_simps del: upt_Suc)
qed simp

lemma mod_window:
  assumes "k < n" and "n < (m :: nat)"
  shows "(c + k) mod m \<noteq> (c + n) mod m"
proof
  assume "(c + k) mod m = (c + n) mod m"
  then have "m dvd (c + n) - (c + k)" using assms(1) by (metis add_left_mono mod_eq_dvd_iff_nat less_imp_le)
  with assms show False by (auto dest: dvd_imp_le)
qed

lemma ring_put:
  assumes "length b = m" and "n < m"
  shows "ring m (b[(c + n) mod m := x]) c (Suc n) = ring m b c n @ [x]"
proof -
  have "(c + n) mod m < length b" using assms by simp
  moreover have "(c + n) mod m \<noteq> (c + k) mod m" if "k < n" for k using mod_window [OF that assms(2), of c] by simp
  ultimately show ?thesis by (auto simp: ring_def)
qed

lemma ring_same:
  assumes "length b = m" and "n < m"
  shows "ring m (b[(c + n) mod m := x]) c n = ring m b c n"
  using ring_put [OF assms, of c x] by (simp add: ring_def)

text \<open>\<open>if (++i >= NBUFF) i = 0\<close>.\<close>

lemma ring_next: "i < m \<Longrightarrow> (if m \<le> Suc i then 0 else Suc i) = Suc i mod m"
  by (cases "Suc i = m") auto

section \<open>Condition variables\<close>

text \<open>
  \<open>pthread_cond_signal\<close> moves one of the parked threads, whichever, and does nothing when there is
  none; \<open>pthread_cond_broadcast\<close> moves all of them.
\<close>

inductive cond_signal :: "('p \<Rightarrow> bool) \<Rightarrow> ('p \<Rightarrow> 'p) \<Rightarrow> 'p list \<Rightarrow> 'p list \<Rightarrow> bool"
  for waiting :: "'p \<Rightarrow> bool" and wakes :: "'p \<Rightarrow> 'p" where
  signal_none: "\<not> list_ex waiting pcs \<Longrightarrow> cond_signal waiting wakes pcs pcs"
| signal_one: "i < length pcs \<Longrightarrow> waiting (pcs ! i) \<Longrightarrow>
    cond_signal waiting wakes pcs (pcs[i := wakes (pcs ! i)])"

definition cond_broadcast :: "('p \<Rightarrow> bool) \<Rightarrow> ('p \<Rightarrow> 'p) \<Rightarrow> 'p list \<Rightarrow> 'p list" where
  "cond_broadcast waiting wakes pcs = map (\<lambda>p. if waiting p then wakes p else p) pcs"

inductive_cases cond_signalE: "cond_signal waiting wakes pcs pcs'"

text \<open>How a signal and a broadcast to the threads at \<open>a\<close>, which go to \<open>b\<close>, change the counts.\<close>

lemma cnt_signal:
  assumes "cond_signal (\<lambda>p. p = a) (\<lambda>_. b) pcs pcs'" and "a \<noteq> b"
  shows "c \<noteq> a \<Longrightarrow> c \<noteq> b \<Longrightarrow> cnt c pcs' = cnt c pcs"
    and "cnt a pcs' + cnt b pcs' = cnt a pcs + cnt b pcs"
    and "0 < cnt a pcs \<Longrightarrow> 0 < cnt b pcs'"
    and "cnt b pcs \<le> cnt b pcs'"
proof -
  from assms(1) have "c \<noteq> a \<and> c \<noteq> b \<longrightarrow> cnt c pcs' = cnt c pcs"
    and "cnt a pcs' + cnt b pcs' = cnt a pcs + cnt b pcs"
    and "(0 < cnt a pcs \<longrightarrow> 0 < cnt b pcs') \<and> cnt b pcs \<le> cnt b pcs'"
    using assms(2) cnt_nonneg [of b pcs]
    by (auto elim!: cond_signalE simp: cnt_update list_ex_iff cnt_zero_iff)
      (metis cnt_zero_iff less_irrefl)
  then show "c \<noteq> a \<Longrightarrow> c \<noteq> b \<Longrightarrow> cnt c pcs' = cnt c pcs"
    and "cnt a pcs' + cnt b pcs' = cnt a pcs + cnt b pcs"
    and "0 < cnt a pcs \<Longrightarrow> 0 < cnt b pcs'" and "cnt b pcs \<le> cnt b pcs'" by auto
qed

lemma cnt_broadcast:
  assumes "a \<noteq> b"
  shows "c \<noteq> a \<Longrightarrow> c \<noteq> b \<Longrightarrow> cnt c (cond_broadcast (\<lambda>p. p = a) (\<lambda>_. b) pcs) = cnt c pcs"
    and "cnt a (cond_broadcast (\<lambda>p. p = a) (\<lambda>_. b) pcs) = 0"
    and "cnt b (cond_broadcast (\<lambda>p. p = a) (\<lambda>_. b) pcs) = cnt a pcs + cnt b pcs"
  using assms by (induction pcs) (auto simp: cnt_def cond_broadcast_def)

end
