(* ===== verification/Mqueue.thy ===== *)
theory Mqueue
  imports Ipc_Prelude
begin

unbundle bit_operations_syntax

text \<open>
  The message queues of \<open>src/my_pxmsg_mmap\<close>: the header, the messages and the free list in the
  mapped file (\<open>mqueue.h\<close>), and the operations \<open>mymq_send\<close>, \<open>mymq_receive\<close>, \<open>mymq_notify\<close>,
  \<open>mymq_getattr\<close>, \<open>mymq_setattr\<close> and \<open>mymq_close\<close> as the sections they run under \<open>mqh_lock\<close>.
  A function that may wait has a second definition for the section after the wait.
\<close>

section \<open>The mapped file\<close>

record mymq_attr =
  mq_flags :: uint
  mq_maxmsg :: int
  mq_msgsize :: int
  mq_curmsgs :: int

datatype sigev_kind = SIGEV_NONE | SIGEV_SIGNAL | SIGEV_THREAD

record sigevent =
  sigev_notify :: sigev_kind
  sigev_signo :: int
  sigev_value :: int

record mymq_hdr =
  mqh_attr :: mymq_attr
  mqh_head :: nat
  mqh_free :: nat
  mqh_nwait :: int
  mqh_pid :: int
  mqh_event :: sigevent

record mymsg_hdr =
  msg_next :: nat
  msg_len :: nat
  msg_prio :: uint

record mymq_info =
  mqi_magic :: int
  mqi_flags :: uint

text \<open>
  The mapped region: its header, the message header at each byte offset, and the bytes of the
  message data at their byte offsets. Offset 0 is the null index of the linked lists.
\<close>

record mapped =
  mq_hdr :: mymq_hdr
  msgs :: "nat \<Rightarrow> mymsg_hdr"
  bytes :: "nat \<Rightarrow> byte"

abbreviation (input) MQI_MAGIC :: int where "MQI_MAGIC \<equiv> 0x98765432"

text \<open>\<open>sizeof(long)\<close> and \<open>sizeof(struct mymsg_hdr)\<close> on an LP64 machine (two longs, an int, padding).\<close>

abbreviation (input) sizeof_long :: nat where "sizeof_long \<equiv> 8"
abbreviation (input) sizeof_msghdr :: nat where "sizeof_msghdr \<equiv> 24"

text \<open>The rounding of \<open>MSGSIZE\<close>, in the unsigned 64-bit arithmetic that \<open>sizeof\<close> brings in.\<close>

definition MSGSIZE :: "nat \<Rightarrow> nat" where
  "MSGSIZE i = (((i + sizeof_long - 1) mod 2 ^ 64) div sizeof_long) * sizeof_long"

text \<open>What a section does to the outside: wakes a waiter of \<open>mqh_wait\<close>, or queues a signal.\<close>

datatype mq_event = Cond_signal | Sigqueue int int int

text \<open>\<open>pmsghdr\<close> points at the head field of the header or at a message: \<open>msg_next\<close> is first in both.\<close>

datatype prev_ptr = At_head | At_msg nat

definition set_msg_next :: "nat \<Rightarrow> nat \<Rightarrow> mapped \<Rightarrow> mapped" where
  "set_msg_next i v m = m\<lparr>msgs := (msgs m)(i := (msgs m i)\<lparr>msg_next := v\<rparr>)\<rparr>"

definition set_prev_next :: "prev_ptr \<Rightarrow> nat \<Rightarrow> mapped \<Rightarrow> mapped" where
  "set_prev_next p v m =
    (case p of
      At_head \<Rightarrow> m\<lparr>mq_hdr := (mq_hdr m)\<lparr>mqh_head := v\<rparr>\<rparr>
    | At_msg i \<Rightarrow> set_msg_next i v m)"

definition memcpy_to :: "(nat \<Rightarrow> byte) \<Rightarrow> nat \<Rightarrow> byte list \<Rightarrow> nat \<Rightarrow> byte" where
  "memcpy_to b at ptr = (\<lambda>a. if at \<le> a \<and> a < at + length ptr then ptr ! (a - at) else b a)"

definition memcpy_from :: "(nat \<Rightarrow> byte) \<Rightarrow> nat \<Rightarrow> nat \<Rightarrow> byte list" where
  "memcpy_from b at len = map b [at..<at + len]"

definition set_curmsgs :: "int \<Rightarrow> mapped \<Rightarrow> mapped" where
  "set_curmsgs c m =
    m\<lparr>mq_hdr := (mq_hdr m)\<lparr>mqh_attr := (mqh_attr (mq_hdr m))\<lparr>mq_curmsgs := c\<rparr>\<rparr>\<rparr>"

abbreviation attr_of :: "mapped \<Rightarrow> mymq_attr" where
  "attr_of m \<equiv> mqh_attr (mq_hdr m)"

section \<open>mymq_send\<close>

text \<open>The search for the place of the new message: the first message of lower priority.\<close>

partial_function (option) send_find ::
  "(nat \<Rightarrow> mymsg_hdr) \<Rightarrow> uint \<Rightarrow> nat \<Rightarrow> prev_ptr \<Rightarrow> (nat \<times> prev_ptr) option" where
  "send_find ms prio index pmsg =
    (if index \<noteq> 0 then
       if msg_prio (ms index) < prio then Some (index, pmsg)
       else send_find ms prio (msg_next (ms index)) (At_msg index)
     else Some (0, pmsg))"

text \<open>
  The message is linked in before the message found, or at the end; the order of the two stores
  follows the two branches of the code.
\<close>

definition send_link :: "prev_ptr \<Rightarrow> nat \<Rightarrow> nat \<Rightarrow> mapped \<Rightarrow> mapped" where
  "send_link pmsg freeindex index m =
    (if index \<noteq> 0 then set_prev_next pmsg freeindex (set_msg_next freeindex index m)
     else set_msg_next freeindex 0 (set_prev_next pmsg freeindex m))"

text \<open>From the removal of a free message to the unlock.\<close>

definition send_put ::
  "byte list \<Rightarrow> uint \<Rightarrow> mapped \<Rightarrow> mq_event list \<Rightarrow> (mapped, mq_event, unit result) cs_outcome" where
  "send_put ptr prio m evs =
    (let freeindex = mqh_free (mq_hdr m) in
     if freeindex = 0 then Aborts m
     else
       let m1 = m\<lparr>msgs := (msgs m)(freeindex :=
                    (msgs m freeindex)\<lparr>msg_prio := prio, msg_len := length ptr\<rparr>),
                  bytes := memcpy_to (bytes m) (freeindex + sizeof_msghdr) ptr\<rparr>;
           m2 = m1\<lparr>mq_hdr := (mq_hdr m1)\<lparr>mqh_free := msg_next (msgs m1 freeindex)\<rparr>\<rparr>
       in case send_find (msgs m2) prio (mqh_head (mq_hdr m2)) At_head of
            None \<Rightarrow> Diverges
          | Some (index, pmsg) \<Rightarrow>
              let m3 = send_link pmsg freeindex index m2;
                  evs' = (if mq_curmsgs (attr_of m3) = 0 then evs @ [Cond_signal] else evs)
              in Returns (set_curmsgs (mq_curmsgs (attr_of m3) + 1) m3) evs' (Inr ()))"

text \<open>The notification of a registered process when a message arrives at an empty queue.\<close>

definition send_notify :: "mapped \<Rightarrow> mapped \<times> mq_event list" where
  "send_notify m =
    (let h = mq_hdr m in
     if mqh_pid h \<noteq> 0 \<and> mqh_nwait h = 0 then
       (m\<lparr>mq_hdr := h\<lparr>mqh_pid := 0\<rparr>\<rparr>,
        if sigev_notify (mqh_event h) = SIGEV_SIGNAL
        then [Sigqueue (mqh_pid h) (sigev_signo (mqh_event h)) (sigev_value (mqh_event h))]
        else [])
     else (m, []))"

text \<open>\<open>n\<close> is what \<open>pthread_mutex_lock\<close> returned.\<close>

definition mymq_send ::
  "int \<Rightarrow> mymq_info \<Rightarrow> byte list \<Rightarrow> uint \<Rightarrow> mapped \<Rightarrow> (mapped, mq_event, unit result) cs_outcome" where
  "mymq_send n mqinfo ptr prio m =
    (if mqi_magic mqinfo \<noteq> MQI_MAGIC then Returns m [] (Inl EBADF)
     else if n \<noteq> 0 then Returns m [] (Inl n)
     else if ulong_of (mq_msgsize (attr_of m)) < length ptr then Returns m [] (Inl EMSGSIZE)
     else if mq_curmsgs (attr_of m) = 0 then
       (case send_notify m of (m', evs) \<Rightarrow> send_put ptr prio m' evs)
     else if mq_maxmsg (attr_of m) \<le> mq_curmsgs (attr_of m) then
       (if mqi_flags mqinfo AND O_NONBLOCK \<noteq> 0 then Returns m [] (Inl EAGAIN) else Waits m)
     else send_put ptr prio m [])"

text \<open>The section after \<open>pthread_cond_wait\<close> returned: the loop tests the queue again.\<close>

definition mymq_send_wakeup ::
  "byte list \<Rightarrow> uint \<Rightarrow> mapped \<Rightarrow> (mapped, mq_event, unit result) cs_outcome" where
  "mymq_send_wakeup ptr prio m =
    (if mq_maxmsg (attr_of m) \<le> mq_curmsgs (attr_of m) then Waits m
     else send_put ptr prio m [])"

section \<open>mymq_receive\<close>

definition set_nwait :: "int \<Rightarrow> mapped \<Rightarrow> mapped" where
  "set_nwait k m = m\<lparr>mq_hdr := (mq_hdr m)\<lparr>mqh_nwait := k\<rparr>\<rparr>"

definition receive_get :: "mapped \<Rightarrow> (mapped, mq_event, (byte list \<times> uint) result) cs_outcome" where
  "receive_get m =
    (let index = mqh_head (mq_hdr m) in
     if index = 0 then Aborts m
     else
       let msghdr = msgs m index;
           m1 = m\<lparr>mq_hdr := (mq_hdr m)\<lparr>mqh_head := msg_next msghdr\<rparr>\<rparr>;
           data = memcpy_from (bytes m1) (index + sizeof_msghdr) (msg_len msghdr);
           m2 = set_msg_next index (mqh_free (mq_hdr m1)) m1;
           m3 = m2\<lparr>mq_hdr := (mq_hdr m2)\<lparr>mqh_free := index\<rparr>\<rparr>;
           evs = (if mq_curmsgs (attr_of m3) = mq_maxmsg (attr_of m3) then [Cond_signal] else [])
       in Returns (set_curmsgs (mq_curmsgs (attr_of m3) - 1) m3) evs
            (Inr (data, msg_prio msghdr)))"

definition mymq_receive ::
  "int \<Rightarrow> mymq_info \<Rightarrow> nat \<Rightarrow> mapped \<Rightarrow> (mapped, mq_event, (byte list \<times> uint) result) cs_outcome" where
  "mymq_receive n mqinfo maxlen m =
    (if mqi_magic mqinfo \<noteq> MQI_MAGIC then Returns m [] (Inl EBADF)
     else if n \<noteq> 0 then Returns m [] (Inl n)
     else if maxlen < ulong_of (mq_msgsize (attr_of m)) then Returns m [] (Inl EMSGSIZE)
     else if mq_curmsgs (attr_of m) = 0 then
       (if mqi_flags mqinfo AND O_NONBLOCK \<noteq> 0 then Returns m [] (Inl EAGAIN)
        else Waits (set_nwait (mqh_nwait (mq_hdr m) + 1) m))
     else receive_get m)"

definition mymq_receive_wakeup ::
  "mapped \<Rightarrow> (mapped, mq_event, (byte list \<times> uint) result) cs_outcome" where
  "mymq_receive_wakeup m =
    (if mq_curmsgs (attr_of m) = 0 then Waits m
     else receive_get (set_nwait (mqh_nwait (mq_hdr m) - 1) m))"

section \<open>mymq_notify, mymq_getattr, mymq_setattr, mymq_close\<close>

text \<open>
  \<open>pid\<close> is what \<open>getpid\<close> returns and \<open>kill0\<close> the result of \<open>kill(pid, 0)\<close> for each process.
\<close>

definition mymq_notify ::
  "int \<Rightarrow> int \<Rightarrow> (int \<Rightarrow> unit result) \<Rightarrow> mymq_info \<Rightarrow> sigevent option \<Rightarrow> mapped
    \<Rightarrow> (mapped, mq_event, unit result) cs_outcome" where
  "mymq_notify n pid kill0 mqinfo notification m =
    (if mqi_magic mqinfo \<noteq> MQI_MAGIC then Returns m [] (Inl EBADF)
     else if n \<noteq> 0 then Returns m [] (Inl n)
     else let h = mq_hdr m in
       case notification of
         None \<Rightarrow>
           Returns (if mqh_pid h = pid then m\<lparr>mq_hdr := h\<lparr>mqh_pid := 0\<rparr>\<rparr> else m) [] (Inr ())
       | Some ev \<Rightarrow>
           if mqh_pid h \<noteq> 0 \<and> kill0 (mqh_pid h) \<noteq> Inl ESRCH then Returns m [] (Inl EBUSY)
           else Returns (m\<lparr>mq_hdr := h\<lparr>mqh_pid := pid, mqh_event := ev\<rparr>\<rparr>) [] (Inr ()))"

definition mymq_getattr ::
  "int \<Rightarrow> mymq_info \<Rightarrow> mapped \<Rightarrow> (mapped, mq_event, mymq_attr result) cs_outcome" where
  "mymq_getattr n mqinfo m =
    (if mqi_magic mqinfo \<noteq> MQI_MAGIC then Returns m [] (Inl EBADF)
     else if n \<noteq> 0 then Returns m [] (Inl n)
     else Returns m []
       (Inr \<lparr>mq_flags = mqi_flags mqinfo, mq_maxmsg = mq_maxmsg (attr_of m),
              mq_msgsize = mq_msgsize (attr_of m), mq_curmsgs = mq_curmsgs (attr_of m)\<rparr>))"

text \<open>
  \<open>mymq_setattr\<close> writes the per-open flags and hands back the old attributes (\<open>omqstat\<close>); it does
  not write the mapped queue.
\<close>

definition mymq_setattr ::
  "int \<Rightarrow> mymq_info \<Rightarrow> mymq_attr \<Rightarrow> mapped \<Rightarrow> mymq_info \<times> mymq_attr result" where
  "mymq_setattr n mqinfo mqstat m =
    (if mqi_magic mqinfo \<noteq> MQI_MAGIC then (mqinfo, Inl EBADF)
     else if n \<noteq> 0 then (mqinfo, Inl n)
     else
       let omqstat = \<lparr>mq_flags = mqi_flags mqinfo, mq_maxmsg = mq_maxmsg (attr_of m),
                      mq_msgsize = mq_msgsize (attr_of m), mq_curmsgs = mq_curmsgs (attr_of m)\<rparr>
       in (if mq_flags mqstat AND O_NONBLOCK \<noteq> 0
           then mqinfo\<lparr>mqi_flags := mqi_flags mqinfo OR O_NONBLOCK\<rparr>
           else mqinfo\<lparr>mqi_flags := mqi_flags mqinfo AND NOT O_NONBLOCK\<rparr>,
           Inr omqstat))"

text \<open>
  The size of the mapped file: the header (\<open>hsz\<close> is \<open>sizeof(struct mymq_hdr)\<close>, which depends on the
  thread library) and the messages with their data areas, in unsigned 64-bit arithmetic.
\<close>

definition mq_filesize :: "nat \<Rightarrow> int \<Rightarrow> int \<Rightarrow> nat" where
  "mq_filesize hsz maxmsg msgsize =
    (hsz + ulong_of maxmsg * (sizeof_msghdr + MSGSIZE (ulong_of msgsize))) mod 2 ^ 64"

text \<open>
  \<open>mymq_close\<close> unregisters the process, unmaps the region (\<open>munmap\<close> is asked for the whole file
  size and answers with a result) and invalidates the descriptor. The result is the mapped queue,
  the descriptor and what the call returns.
\<close>

definition mymq_close ::
  "nat \<Rightarrow> int \<Rightarrow> int \<Rightarrow> (int \<Rightarrow> unit result) \<Rightarrow> (nat \<Rightarrow> unit result) \<Rightarrow> mymq_info \<Rightarrow> mapped
    \<Rightarrow> mapped \<times> mymq_info \<times> unit result" where
  "mymq_close hsz n pid kill0 munmap mqinfo m =
    (if mqi_magic mqinfo \<noteq> MQI_MAGIC then (m, mqinfo, Inl EBADF)
     else case mymq_notify n pid kill0 mqinfo None m of
       Returns m' evs (Inl e) \<Rightarrow> (m', mqinfo, Inl e)
     | Returns m' evs (Inr _) \<Rightarrow>
         (case munmap (mq_filesize hsz (mq_maxmsg (attr_of m')) (mq_msgsize (attr_of m'))) of
            Inl e \<Rightarrow> (m', mqinfo, Inl e)
          | Inr _ \<Rightarrow> (m', mqinfo\<lparr>mqi_magic := 0\<rparr>, Inr ()))
     | _ \<Rightarrow> (m, mqinfo, Inl EIO))"

section \<open>The initial queue of mymq_open\<close>

text \<open>The loop that puts all messages on the free list; \<open>n\<close> counts the iterations left.\<close>

fun init_free :: "nat \<Rightarrow> nat \<Rightarrow> nat \<Rightarrow> (nat \<Rightarrow> mymsg_hdr) \<Rightarrow> nat \<Rightarrow> mymsg_hdr" where
  "init_free 0 index stride ms = ms(index := (ms index)\<lparr>msg_next := 0\<rparr>)"
| "init_free (Suc n) index stride ms =
    init_free n (index + stride) stride (ms(index := (ms index)\<lparr>msg_next := index + stride\<rparr>))"

definition mq_init :: "nat \<Rightarrow> mymq_attr \<Rightarrow> mapped \<Rightarrow> mapped" where
  "mq_init hsz attr m =
    m\<lparr>mq_hdr := (mq_hdr m)\<lparr>
        mqh_attr := \<lparr>mq_flags = 0, mq_maxmsg = mq_maxmsg attr, mq_msgsize = mq_msgsize attr,
                     mq_curmsgs = 0\<rparr>,
        mqh_nwait := 0, mqh_pid := 0, mqh_head := 0, mqh_free := hsz\<rparr>,
      msgs := init_free (nat (mq_maxmsg attr - 1)) hsz
                (sizeof_msghdr + MSGSIZE (ulong_of (mq_msgsize attr))) (msgs m)\<rparr>"

text \<open>The descriptor that \<open>mymq_open\<close> allocates.\<close>

definition mq_opened :: "uint \<Rightarrow> mymq_info" where
  "mq_opened nonblock = \<lparr>mqi_magic = MQI_MAGIC, mqi_flags = nonblock\<rparr>"

end
