(* ===== verification/Mqueue_Correct.thy ===== *)
theory Mqueue_Correct
  imports Mqueue "HOL-Library.Multiset"
begin

unbundle bit_operations_syntax

text \<open>
  Correctness of the message queues: the linked lists in the mapped file as lists of offsets, the
  well-formedness of a mapped queue, and the refinement of a list of messages in order of
  priority by \<open>mymq_send\<close> and \<open>mymq_receive\<close>.
\<close>

section \<open>Linked lists of offsets\<close>

primrec msg_path :: "(nat \<Rightarrow> mymsg_hdr) \<Rightarrow> nat \<Rightarrow> nat list \<Rightarrow> nat \<Rightarrow> bool" where
  "msg_path ms i [] j \<longleftrightarrow> i = j"
| "msg_path ms i (a # as) j \<longleftrightarrow> i = a \<and> a \<noteq> 0 \<and> msg_path ms (msg_next (ms a)) as j"

abbreviation msg_chain :: "(nat \<Rightarrow> mymsg_hdr) \<Rightarrow> nat \<Rightarrow> nat list \<Rightarrow> bool" where
  "msg_chain ms i as \<equiv> msg_path ms i as 0"

lemma msg_path_append [simp]:
  "msg_path ms i (as @ bs) j \<longleftrightarrow> (\<exists>k. msg_path ms i as k \<and> msg_path ms k bs j)"
  by (induction as arbitrary: i) auto

lemma msg_path_upd [simp]: "a \<notin> set as \<Longrightarrow> msg_path (ms(a := h)) i as j \<longleftrightarrow> msg_path ms i as j"
  by (induction as arbitrary: i) auto

lemma msg_path_cong:
  "(\<And>x. x \<in> set as \<Longrightarrow> msg_next (ms x) = msg_next (ms' x)) \<Longrightarrow>
    msg_path ms i as j \<longleftrightarrow> msg_path ms' i as j"
  by (induction as arbitrary: i) auto

lemma msg_chain_zero [simp]: "msg_chain ms 0 as \<longleftrightarrow> as = []"
  by (cases as) auto

lemma msg_path_no_zero: "msg_path ms i as j \<Longrightarrow> 0 \<notin> set as"
  by (induction as arbitrary: i) auto

text \<open>The index a list starts with, and the pointer to its last link.\<close>

definition first_of :: "nat list \<Rightarrow> nat" where
  "first_of as = (case as of [] \<Rightarrow> 0 | a # _ \<Rightarrow> a)"

definition last_link :: "prev_ptr \<Rightarrow> nat list \<Rightarrow> prev_ptr" where
  "last_link p as = (if as = [] then p else At_msg (last as))"

lemma first_of_simps [simp]: "first_of [] = 0" "first_of (a # as) = a"
  by (simp_all add: first_of_def)

lemma last_link_simps [simp]:
  "last_link p [] = p" "last_link p (as @ [a]) = At_msg a"
  by (simp_all add: last_link_def)

lemma last_link_Cons [simp]: "last_link p (a # as) = last_link (At_msg a) as"
  by (simp add: last_link_def)

lemma msg_chain_first: "msg_chain ms i as \<Longrightarrow> i = first_of as"
  by (cases as) auto

text \<open>The search loop ends on every list and finds the end of the entries that stay in front.\<close>

lemma send_find_chain:
  "msg_chain ms i xs \<Longrightarrow>
    send_find ms prio i p =
      Some (first_of (dropWhile (\<lambda>x. prio \<le> msg_prio (ms x)) xs),
            last_link p (takeWhile (\<lambda>x. prio \<le> msg_prio (ms x)) xs))"
proof (induction xs arbitrary: i p)
  case Nil
  then show ?case by (simp add: send_find.simps)
next
  case (Cons x xs)
  then have x: "i = x" "x \<noteq> 0" "msg_chain ms (msg_next (ms x)) xs" by auto
  show ?case
  proof (cases "msg_prio (ms x) < prio")
    case True
    then have "\<not> prio \<le> msg_prio (ms x)" by simp
    with True x show ?thesis by (simp add: send_find.simps [of ms prio x])
  next
    case False
    then have "prio \<le> msg_prio (ms x)" by simp
    with False x show ?thesis
      using Cons.IH [OF x(3), of "At_msg x"] by (simp add: send_find.simps [of ms prio x])
  qed
qed

section \<open>Well-formed queues\<close>

text \<open>The offsets of a list, following at most \<open>n\<close> links.\<close>

primrec mq_walk :: "(nat \<Rightarrow> mymsg_hdr) \<Rightarrow> nat \<Rightarrow> nat \<Rightarrow> nat list" where
  "mq_walk ms 0 i = []"
| "mq_walk ms (Suc n) i = (if i = 0 then [] else i # mq_walk ms n (msg_next (ms i)))"

lemma mq_walk_chain: "msg_chain ms i xs \<Longrightarrow> length xs \<le> n \<Longrightarrow> mq_walk ms n i = xs"
proof (induction xs arbitrary: i n)
  case Nil
  then show ?case by (cases n) auto
next
  case (Cons x xs)
  then show ?case by (cases n) auto
qed

abbreviation maxmsg_of :: "mapped \<Rightarrow> nat" where "maxmsg_of m \<equiv> nat (mq_maxmsg (attr_of m))"
abbreviation msgsize_of :: "mapped \<Rightarrow> nat" where "msgsize_of m \<equiv> nat (mq_msgsize (attr_of m))"

definition queued :: "mapped \<Rightarrow> nat list" where
  "queued m = mq_walk (msgs m) (maxmsg_of m) (mqh_head (mq_hdr m))"

definition freed :: "mapped \<Rightarrow> nat list" where
  "freed m = mq_walk (msgs m) (maxmsg_of m) (mqh_free (mq_hdr m))"

text \<open>The offset of message \<open>k\<close>, for a header of \<open>hsz\<close> bytes and messages of \<open>msgsize\<close> bytes.\<close>

definition slot :: "nat \<Rightarrow> nat \<Rightarrow> nat \<Rightarrow> nat" where
  "slot hsz msgsize k = hsz + k * (sizeof_msghdr + MSGSIZE msgsize)"

definition slots :: "nat \<Rightarrow> mapped \<Rightarrow> nat set" where
  "slots hsz m = slot hsz (msgsize_of m) ` {..<maxmsg_of m}"

text \<open>The attributes are usable: positive, and the file size fits a \<open>long\<close>.\<close>

definition attr_ok :: "nat \<Rightarrow> int \<Rightarrow> int \<Rightarrow> bool" where
  "attr_ok hsz maxmsg msgsize \<longleftrightarrow>
    0 < hsz \<and> 0 < maxmsg \<and> 0 < msgsize \<and> msgsize < 2 ^ 62 \<and>
    hsz + nat maxmsg * (sizeof_msghdr + MSGSIZE (nat msgsize)) < 2 ^ 63"

definition mq_wf :: "nat \<Rightarrow> mapped \<Rightarrow> bool" where
  "mq_wf hsz m \<longleftrightarrow>
    attr_ok hsz (mq_maxmsg (attr_of m)) (mq_msgsize (attr_of m)) \<and>
    msg_chain (msgs m) (mqh_head (mq_hdr m)) (queued m) \<and>
    msg_chain (msgs m) (mqh_free (mq_hdr m)) (freed m) \<and>
    distinct (queued m @ freed m) \<and>
    set (queued m @ freed m) = slots hsz m \<and>
    mq_curmsgs (attr_of m) = int (length (queued m)) \<and>
    sorted_wrt (\<ge>) (map (\<lambda>x. msg_prio (msgs m x)) (queued m)) \<and>
    (\<forall>x \<in> set (queued m). msg_len (msgs m x) \<le> msgsize_of m)"

text \<open>What the queue holds: the priorities and the bytes of its messages, first to be received first.\<close>

definition msg_data :: "mapped \<Rightarrow> nat \<Rightarrow> byte list" where
  "msg_data m x = memcpy_from (bytes m) (x + sizeof_msghdr) (msg_len (msgs m x))"

definition mq_abs :: "mapped \<Rightarrow> (uint \<times> byte list) list" where
  "mq_abs m = map (\<lambda>x. (msg_prio (msgs m x), msg_data m x)) (queued m)"

text \<open>The specification of \<open>mq_send\<close>: the message goes behind those of the same or a higher priority.\<close>

definition mq_insert :: "uint \<Rightarrow> byte list \<Rightarrow> (uint \<times> byte list) list \<Rightarrow> (uint \<times> byte list) list" where
  "mq_insert prio data q =
    takeWhile (\<lambda>x. prio \<le> fst x) q @ (prio, data) # dropWhile (\<lambda>x. prio \<le> fst x) q"

subsection \<open>The layout of the file\<close>

lemma MSGSIZE_small:
  assumes "n < 2 ^ 62"
  shows "MSGSIZE n = ((n + 7) div 8) * 8"
proof -
  from assms have "(n + 7) mod 2 ^ 64 = n + 7" by (intro mod_less) simp
  then show ?thesis by (simp add: MSGSIZE_def)
qed

lemma MSGSIZE_ge: "n < 2 ^ 62 \<Longrightarrow> n \<le> MSGSIZE n"
  by (simp only: MSGSIZE_small)

lemma MSGSIZE_aligned: "MSGSIZE n mod sizeof_long = 0"
  by (simp add: MSGSIZE_def)

lemma MSGSIZE_tight: "n < 2 ^ 62 \<Longrightarrow> MSGSIZE n < n + sizeof_long"
  by (simp only: MSGSIZE_small)

lemma slot_inj: "slot hsz sz j = slot hsz sz k \<longleftrightarrow> j = k"
  by (simp add: slot_def)

lemma slot_apart:
  assumes "j \<noteq> k"
  shows "slot hsz sz j + sizeof_msghdr + MSGSIZE sz \<le> slot hsz sz k \<or>
    slot hsz sz k + sizeof_msghdr + MSGSIZE sz \<le> slot hsz sz j"
proof -
  have *: "slot hsz sz i + sizeof_msghdr + MSGSIZE sz \<le> slot hsz sz l" if "i < l" for i l
  proof -
    from that obtain d where l: "l = Suc (i + d)" by (auto simp: less_iff_Suc_add)
    show ?thesis by (simp add: slot_def l algebra_simps)
  qed
  from assms show ?thesis using * [of j k] * [of k j] by (cases "j < k") auto
qed

lemma card_slots: "card (slots hsz m) = maxmsg_of m"
  by (simp add: slots_def card_image inj_on_def slot_inj)

lemma slots_apart:
  assumes "x \<in> slots hsz m" and "y \<in> slots hsz m" and "x \<noteq> y"
  shows "x + sizeof_msghdr + MSGSIZE (msgsize_of m) \<le> y \<or>
    y + sizeof_msghdr + MSGSIZE (msgsize_of m) \<le> x"
proof -
  from assms obtain j k where "x = slot hsz (msgsize_of m) j" and "y = slot hsz (msgsize_of m) k"
    and "j \<noteq> k" by (auto simp: slots_def)
  then show ?thesis using slot_apart [of j k hsz "msgsize_of m"] by simp
qed

lemma slots_positive: "0 < hsz \<Longrightarrow> x \<in> slots hsz m \<Longrightarrow> 0 < x"
  by (auto simp: slots_def slot_def)

text \<open>Copying into the data area of one message leaves the data of the other messages alone.\<close>

lemma memcpy_from_to: "memcpy_from (memcpy_to b at ptr) at (length ptr) = ptr"
  unfolding memcpy_from_def memcpy_to_def by (rule nth_equalityI) auto

lemma memcpy_from_other:
  "at' + len \<le> at \<or> at + length ptr \<le> at' \<Longrightarrow>
    memcpy_from (memcpy_to b at ptr) at' len = memcpy_from b at' len"
  by (auto simp: memcpy_from_def memcpy_to_def)

subsection \<open>Establishing well-formedness\<close>

lemma mq_wf_intro:
  assumes "attr_ok hsz (mq_maxmsg (attr_of m)) (mq_msgsize (attr_of m))"
    and "msg_chain (msgs m) (mqh_head (mq_hdr m)) xs"
    and "msg_chain (msgs m) (mqh_free (mq_hdr m)) ys"
    and "distinct (xs @ ys)" and "set (xs @ ys) = slots hsz m"
    and "mq_curmsgs (attr_of m) = int (length xs)"
    and "sorted_wrt (\<ge>) (map (\<lambda>x. msg_prio (msgs m x)) xs)"
    and "\<forall>x \<in> set xs. msg_len (msgs m x) \<le> msgsize_of m"
  shows "mq_wf hsz m \<and> queued m = xs \<and> freed m = ys"
proof -
  from assms(4,5) have "length (xs @ ys) = maxmsg_of m"
    using distinct_card [OF assms(4)] card_slots [of hsz m] by simp
  then have "length xs \<le> maxmsg_of m" and "length ys \<le> maxmsg_of m" by auto
  then have "queued m = xs" and "freed m = ys"
    using assms(2,3) by (simp_all add: queued_def freed_def mq_walk_chain)
  with assms show ?thesis by (simp add: mq_wf_def)
qed

lemma mq_wf_lengths:
  assumes "mq_wf hsz m"
  shows "length (queued m) + length (freed m) = maxmsg_of m"
proof -
  from assms have d: "distinct (queued m @ freed m)" and "set (queued m @ freed m) = slots hsz m"
    by (auto simp: mq_wf_def)
  then show ?thesis using distinct_card [OF d] card_slots [of hsz m] by simp
qed

lemma mq_abs_length: "length (mq_abs m) = length (queued m)"
  by (simp add: mq_abs_def)

text \<open>A well-formed queue is empty or full as its counter says, and then its lists are empty or not.\<close>

lemma mq_wf_room:
  assumes "mq_wf hsz m" and "mq_curmsgs (attr_of m) < mq_maxmsg (attr_of m)"
  obtains f ys where "freed m = f # ys" and "mqh_free (mq_hdr m) = f" and "f \<noteq> 0"
    and "msg_chain (msgs m) (msg_next (msgs m f)) ys"
proof -
  from assms have "int (length (queued m)) < mq_maxmsg (attr_of m)" by (simp add: mq_wf_def)
  with mq_wf_lengths [OF assms(1)] have "0 < length (freed m)" by linarith
  then obtain f ys where fy: "freed m = f # ys" by (cases "freed m") auto
  moreover from assms(1) fy have "msg_chain (msgs m) (mqh_free (mq_hdr m)) (f # ys)"
    by (simp add: mq_wf_def)
  ultimately show ?thesis using that by auto
qed

lemma mq_wf_nonempty:
  assumes "mq_wf hsz m" and "mq_curmsgs (attr_of m) \<noteq> 0"
  obtains h xs where "queued m = h # xs" and "mqh_head (mq_hdr m) = h" and "h \<noteq> 0"
    and "msg_chain (msgs m) (msg_next (msgs m h)) xs"
proof -
  from assms have "queued m \<noteq> []" by (auto simp: mq_wf_def)
  then obtain h xs where hx: "queued m = h # xs" by (cases "queued m") auto
  moreover from assms(1) hx have "msg_chain (msgs m) (mqh_head (mq_hdr m)) (h # xs)"
    by (simp add: mq_wf_def)
  ultimately show ?thesis using that by auto
qed

section \<open>Linking a message in\<close>

lemma send_link_frame [simp]:
  "bytes (send_link p f i m) = bytes m"
  "msg_prio (msgs (send_link p f i m) x) = msg_prio (msgs m x)"
  "msg_len (msgs (send_link p f i m) x) = msg_len (msgs m x)"
  "mqh_attr (mq_hdr (send_link p f i m)) = attr_of m"
  "mqh_free (mq_hdr (send_link p f i m)) = mqh_free (mq_hdr m)"
  "mqh_nwait (mq_hdr (send_link p f i m)) = mqh_nwait (mq_hdr m)"
  "mqh_pid (mq_hdr (send_link p f i m)) = mqh_pid (mq_hdr m)"
  "mqh_event (mq_hdr (send_link p f i m)) = mqh_event (mq_hdr m)"
  by (simp_all add: send_link_def set_prev_next_def set_msg_next_def split: prev_ptr.split)

lemma send_link_next_other:
  "x \<noteq> f \<Longrightarrow> x \<notin> set as \<Longrightarrow>
    msg_next (msgs (send_link (last_link At_head as) f i m) x) = msg_next (msgs m x)"
  by (auto simp: send_link_def set_prev_next_def set_msg_next_def last_link_def
      split: prev_ptr.split)

lemma send_link_chain:
  assumes ch: "msg_chain (msgs m) (mqh_head (mq_hdr m)) (as @ bs)"
    and d: "distinct (as @ bs)" and f: "f \<notin> set (as @ bs)" "f \<noteq> 0"
  shows "msg_chain (msgs (send_link (last_link At_head as) f (first_of bs) m))
    (mqh_head (mq_hdr (send_link (last_link At_head as) f (first_of bs) m))) (as @ f # bs)"
proof (cases as rule: rev_cases)
  case Nil
  with ch have "mqh_head (mq_hdr m) = first_of bs" by (auto dest: msg_chain_first)
  moreover from this Nil ch have "msg_chain (msgs m) (first_of bs) bs" by simp
  ultimately show ?thesis
    using Nil f by (auto simp: send_link_def set_prev_next_def set_msg_next_def)
next
  case (snoc cs l)
  with ch have cs: "msg_path (msgs m) (mqh_head (mq_hdr m)) cs l" "l \<noteq> 0"
    and bs: "msg_chain (msgs m) (msg_next (msgs m l)) bs" by auto
  then have nl: "msg_next (msgs m l) = first_of bs" by (auto dest: msg_chain_first)
  from snoc d f have "l \<noteq> f" "l \<notin> set cs" "l \<notin> set bs" "f \<notin> set cs" "f \<notin> set bs" by auto
  with snoc cs bs nl f(2) show ?thesis
    by (auto simp: send_link_def set_prev_next_def set_msg_next_def fun_upd_twist)
qed

section \<open>The sections refine operations on the list of messages\<close>

text \<open>
  Taking a free message and filling it in: everything but the message itself, the data area behind
  it and the head of the free list is as before.
\<close>

definition send_fill :: "byte list \<Rightarrow> uint \<Rightarrow> mapped \<Rightarrow> mapped" where
  "send_fill ptr prio m =
    (let f = mqh_free (mq_hdr m) in
     m\<lparr>msgs := (msgs m)(f := (msgs m f)\<lparr>msg_prio := prio, msg_len := length ptr\<rparr>),
       bytes := memcpy_to (bytes m) (f + sizeof_msghdr) ptr,
       mq_hdr := (mq_hdr m)\<lparr>mqh_free := msg_next (msgs m f)\<rparr>\<rparr>)"

lemma send_put_fill:
  assumes ch: "msg_chain (msgs m) (mqh_head (mq_hdr m)) (as @ bs)"
    and split: "as = takeWhile (\<lambda>x. prio \<le> msg_prio (msgs m x)) (as @ bs)"
    and f: "mqh_free (mq_hdr m) = f" "f \<noteq> 0" "f \<notin> set (as @ bs)"
  shows "send_put ptr prio m evs =
    Returns (set_curmsgs (mq_curmsgs (attr_of m) + 1)
        (send_link (last_link At_head as) f (first_of bs) (send_fill ptr prio m)))
      (if mq_curmsgs (attr_of m) = 0 then evs @ [Cond_signal] else evs) (Inr ())"
proof -
  let ?m2 = "send_fill ptr prio m"
  have same: "msg_prio (msgs ?m2 x) = msg_prio (msgs m x)" if "x \<in> set (as @ bs)" for x
    using that f by (auto simp: send_fill_def Let_def)
  have ch2: "msg_chain (msgs ?m2) (mqh_head (mq_hdr m)) (as @ bs)"
    using ch f by (simp add: send_fill_def Let_def)
  have tw: "takeWhile (\<lambda>x. prio \<le> msg_prio (msgs ?m2 x)) (as @ bs) = as"
    using split same by (metis (mono_tags, lifting) takeWhile_cong)
  have dw: "dropWhile (\<lambda>x. prio \<le> msg_prio (msgs ?m2 x)) (as @ bs) = bs"
    using tw by (metis append_same_eq same_append_eq takeWhile_dropWhile_id)
  have find: "send_find (msgs ?m2) prio (mqh_head (mq_hdr m)) At_head =
      Some (first_of bs, last_link At_head as)"
    using send_find_chain [OF ch2, of prio At_head] tw dw by simp
  show ?thesis
    using f find by (simp add: send_put_def Let_def send_fill_def)
qed

lemma send_fill_simps [simp]:
  "mqh_attr (mq_hdr (send_fill ptr prio m)) = attr_of m"
  "mqh_head (mq_hdr (send_fill ptr prio m)) = mqh_head (mq_hdr m)"
  "mqh_free (mq_hdr (send_fill ptr prio m)) = msg_next (msgs m (mqh_free (mq_hdr m)))"
  "mqh_nwait (mq_hdr (send_fill ptr prio m)) = mqh_nwait (mq_hdr m)"
  "mqh_pid (mq_hdr (send_fill ptr prio m)) = mqh_pid (mq_hdr m)"
  "mqh_event (mq_hdr (send_fill ptr prio m)) = mqh_event (mq_hdr m)"
  "bytes (send_fill ptr prio m) = memcpy_to (bytes m) (mqh_free (mq_hdr m) + sizeof_msghdr) ptr"
  "msgs (send_fill ptr prio m) =
    (msgs m)(mqh_free (mq_hdr m) :=
      (msgs m (mqh_free (mq_hdr m)))\<lparr>msg_prio := prio, msg_len := length ptr\<rparr>)"
  by (simp_all add: send_fill_def Let_def)

lemma set_curmsgs_simps [simp]:
  "msgs (set_curmsgs c m) = msgs m"
  "bytes (set_curmsgs c m) = bytes m"
  "mqh_attr (mq_hdr (set_curmsgs c m)) = (attr_of m)\<lparr>mq_curmsgs := c\<rparr>"
  "mqh_head (mq_hdr (set_curmsgs c m)) = mqh_head (mq_hdr m)"
  "mqh_free (mq_hdr (set_curmsgs c m)) = mqh_free (mq_hdr m)"
  "mqh_nwait (mq_hdr (set_curmsgs c m)) = mqh_nwait (mq_hdr m)"
  "mqh_pid (mq_hdr (set_curmsgs c m)) = mqh_pid (mq_hdr m)"
  "mqh_event (mq_hdr (set_curmsgs c m)) = mqh_event (mq_hdr m)"
  by (simp_all add: set_curmsgs_def)

lemma sorted_wrt_dropWhile_low:
  fixes p :: "'a \<Rightarrow> 'b::linorder"
  shows "sorted_wrt (\<ge>) (map p xs) \<Longrightarrow> y \<in> set (dropWhile (\<lambda>x. b \<le> p x) xs) \<Longrightarrow> p y < b"
proof (induction xs)
  case (Cons x xs)
  then show ?case by (cases "b \<le> p x") auto
qed simp

text \<open>What a section leaves as it was: the attributes but the count, and the registration.\<close>

definition same_setup :: "mapped \<Rightarrow> mapped \<Rightarrow> bool" where
  "same_setup m m' \<longleftrightarrow>
    mq_flags (attr_of m') = mq_flags (attr_of m) \<and>
    mq_maxmsg (attr_of m') = mq_maxmsg (attr_of m) \<and>
    mq_msgsize (attr_of m') = mq_msgsize (attr_of m) \<and>
    mqh_nwait (mq_hdr m') = mqh_nwait (mq_hdr m) \<and>
    mqh_pid (mq_hdr m') = mqh_pid (mq_hdr m) \<and>
    mqh_event (mq_hdr m') = mqh_event (mq_hdr m)"

text \<open>The data of a queued message survives the filling of another one.\<close>

lemma send_fill_data_other:
  assumes wf: "mq_wf hsz m" and x: "x \<in> set (queued m)" and f: "mqh_free (mq_hdr m) = f"
    and fs: "f \<in> set (freed m)" and len: "length ptr \<le> msgsize_of m"
  shows "msg_data (send_fill ptr prio m) x = msg_data m x"
proof -
  from wf x fs have mem: "x \<in> slots hsz m" "f \<in> slots hsz m" and ne: "x \<noteq> f"
    by (auto simp: mq_wf_def)
  from wf have sz: "msgsize_of m < 2 ^ 62" by (auto simp: mq_wf_def attr_ok_def)
  from wf x have "msg_len (msgs m x) \<le> msgsize_of m" by (simp add: mq_wf_def)
  moreover note MSGSIZE_ge [OF sz]
  ultimately have "x + sizeof_msghdr + msg_len (msgs m x) \<le> f + sizeof_msghdr \<or>
      f + sizeof_msghdr + length ptr \<le> x + sizeof_msghdr"
    using slots_apart [OF mem ne] len by linarith
  then show ?thesis
    using ne f by (simp add: msg_data_def memcpy_from_other)
qed

lemma send_put_correct:
  assumes wf: "mq_wf hsz m" and room: "mq_curmsgs (attr_of m) < mq_maxmsg (attr_of m)"
    and len: "length ptr \<le> msgsize_of m"
  shows "\<exists>m'. send_put ptr prio m evs =
      Returns m' (if mq_curmsgs (attr_of m) = 0 then evs @ [Cond_signal] else evs) (Inr ()) \<and>
    mq_wf hsz m' \<and> mq_abs m' = mq_insert prio ptr (mq_abs m) \<and> same_setup m m'"
proof -
  obtain f ys where fy: "freed m = f # ys" and f: "mqh_free (mq_hdr m) = f" "f \<noteq> 0"
    and chy: "msg_chain (msgs m) (msg_next (msgs m f)) ys"
    using mq_wf_room [OF wf room] .
  define P where "P = (\<lambda>x. prio \<le> msg_prio (msgs m x))"
  define as where "as = takeWhile P (queued m)"
  define bs where "bs = dropWhile P (queued m)"
  have q: "queued m = as @ bs" by (simp add: as_def bs_def)
  from wf q fy have d: "distinct (as @ bs @ f # ys)" and st: "set (as @ bs @ f # ys) = slots hsz m"
    and ch: "msg_chain (msgs m) (mqh_head (mq_hdr m)) (as @ bs)"
    and srt: "sorted_wrt (\<ge>) (map (\<lambda>x. msg_prio (msgs m x)) (as @ bs))"
    and lens: "\<forall>x \<in> set (as @ bs). msg_len (msgs m x) \<le> msgsize_of m"
    and cur: "mq_curmsgs (attr_of m) = int (length (as @ bs))"
    and aok: "attr_ok hsz (mq_maxmsg (attr_of m)) (mq_msgsize (attr_of m))"
    by (auto simp: mq_wf_def)
  let ?m2 = "send_fill ptr prio m"
  let ?m3 = "send_link (last_link At_head as) f (first_of bs) ?m2"
  let ?m' = "set_curmsgs (mq_curmsgs (attr_of m) + 1) ?m3"
  have put: "send_put ptr prio m evs = Returns ?m'
      (if mq_curmsgs (attr_of m) = 0 then evs @ [Cond_signal] else evs) (Inr ())"
  proof -
    have "as = takeWhile (\<lambda>x. prio \<le> msg_prio (msgs m x)) (as @ bs)"
      using as_def by (simp only: q P_def)
    moreover have "f \<notin> set (as @ bs)" using d by auto
    ultimately show ?thesis using send_put_fill [OF ch] f by blast
  qed
  have chx: "msg_chain (msgs ?m3) (mqh_head (mq_hdr ?m3)) (as @ f # bs)"
    using send_link_chain [of ?m2 as bs f] ch d f by auto
  have chf: "msg_chain (msgs ?m3) (msg_next (msgs m f)) ys"
  proof -
    have "msg_next (msgs ?m3 x) = msg_next (msgs m x)" if "x \<in> set ys" for x
      using that d f send_link_next_other [of x f as "first_of bs" ?m2] by auto
    then show ?thesis using chy msg_path_cong by metis
  qed
  have lo: "msg_prio (msgs m y) < prio" if "y \<in> set bs" for y
    using sorted_wrt_dropWhile_low [OF srt [folded q], of y prio] that
    by (simp add: bs_def P_def)
  have hi: "prio \<le> msg_prio (msgs m y)" if "y \<in> set as" for y
    using that by (auto simp: as_def P_def dest: set_takeWhileD)
  have "mq_wf hsz ?m' \<and> queued ?m' = as @ f # bs \<and> freed ?m' = ys"
  proof (rule mq_wf_intro)
    have ps: "map (\<lambda>x. msg_prio (msgs ?m' x)) (as @ f # bs) =
        map (\<lambda>x. msg_prio (msgs m x)) as @ prio # map (\<lambda>x. msg_prio (msgs m x)) bs"
      using d f by auto
    show "sorted_wrt (\<ge>) (map (\<lambda>x. msg_prio (msgs ?m' x)) (as @ f # bs))"
      unfolding ps
      using srt hi lo by (auto simp: sorted_wrt_append intro: order.strict_implies_order)
  qed (use aok chx chf d st cur lens len f in \<open>auto simp: slots_def\<close>)
  then have wf': "mq_wf hsz ?m'" and q': "queued ?m' = as @ f # bs" by auto
  have dat: "msg_data ?m' x = msg_data m x" if "x \<in> set (as @ bs)" for x
    using send_fill_data_other [OF wf, of x f ptr prio] that q fy f len by (simp add: msg_data_def)
  have "mq_abs ?m' = mq_insert prio ptr (mq_abs m)"
  proof -
    have "mq_abs ?m' = map (\<lambda>x. (msg_prio (msgs m x), msg_data m x)) as @
        (prio, ptr) # map (\<lambda>x. (msg_prio (msgs m x), msg_data m x)) bs"
      using d f dat by (auto simp: mq_abs_def q' msg_data_def memcpy_from_to)
    then show ?thesis
      by (simp add: mq_insert_def mq_abs_def takeWhile_map dropWhile_map o_def as_def bs_def P_def)
  qed
  with put wf' show ?thesis by (auto simp: same_setup_def)
qed

lemma receive_get_correct:
  assumes wf: "mq_wf hsz m" and ne: "mq_curmsgs (attr_of m) \<noteq> 0"
  shows "\<exists>m' data prio. receive_get m =
      Returns m' (if mq_curmsgs (attr_of m) = mq_maxmsg (attr_of m) then [Cond_signal] else [])
        (Inr (data, prio)) \<and>
    mq_wf hsz m' \<and> mq_abs m = (prio, data) # mq_abs m' \<and> same_setup m m'"
proof -
  obtain h xs where hx: "queued m = h # xs" and h: "mqh_head (mq_hdr m) = h" "h \<noteq> 0"
    and ch: "msg_chain (msgs m) (msg_next (msgs m h)) xs"
    using mq_wf_nonempty [OF wf ne] .
  let ?m' = "set_curmsgs (mq_curmsgs (attr_of m) - 1)
    (m\<lparr>mq_hdr := (mq_hdr m)\<lparr>mqh_head := msg_next (msgs m h), mqh_free := h\<rparr>,
       msgs := (msgs m)(h := (msgs m h)\<lparr>msg_next := mqh_free (mq_hdr m)\<rparr>)\<rparr>)"
  have get: "receive_get m = Returns ?m'
      (if mq_curmsgs (attr_of m) = mq_maxmsg (attr_of m) then [Cond_signal] else [])
      (Inr (msg_data m h, msg_prio (msgs m h)))"
    using h by (simp add: receive_get_def Let_def msg_data_def set_msg_next_def)
  from wf hx have d: "distinct (h # xs @ freed m)" and "set (h # xs @ freed m) = slots hsz m"
    and chf: "msg_chain (msgs m) (mqh_free (mq_hdr m)) (freed m)"
    by (auto simp: mq_wf_def)
  have ps: "map (\<lambda>x. msg_prio (msgs ?m' x)) xs = map (\<lambda>x. msg_prio (msgs m x)) xs"
    using d by auto
  have "mq_wf hsz ?m' \<and> queued ?m' = xs \<and> freed ?m' = h # freed m"
  proof (rule mq_wf_intro)
    show "sorted_wrt (\<ge>) (map (\<lambda>x. msg_prio (msgs ?m' x)) xs)"
      unfolding ps using wf hx by (simp add: mq_wf_def)
  qed (use wf hx h ch chf d in \<open>auto simp: mq_wf_def slots_def\<close>)
  then have wf': "mq_wf hsz ?m'" and q': "queued ?m' = xs" by auto
  have "mq_abs m = (msg_prio (msgs m h), msg_data m h) # mq_abs ?m'"
    using d by (auto simp: mq_abs_def hx q' msg_data_def)
  with get wf' show ?thesis by (auto simp: same_setup_def)
qed

section \<open>A contract for message queues\<close>

text \<open>
  What a client relies on: a bounded queue of messages with priorities, whose content is the list
  of its messages in the order in which they are received.
\<close>

fun send_all :: "(byte list \<Rightarrow> uint \<Rightarrow> 'q \<Rightarrow> 'q option) \<Rightarrow> (uint \<times> byte list) list \<Rightarrow> 'q \<Rightarrow> 'q option" where
  "send_all send [] q = Some q"
| "send_all send ((p, d) # ms) q =
    (case send d p q of None \<Rightarrow> None | Some q' \<Rightarrow> send_all send ms q')"

fun recv_all :: "('q \<Rightarrow> ((uint \<times> byte list) \<times> 'q) option) \<Rightarrow> nat \<Rightarrow> 'q \<Rightarrow>
    ((uint \<times> byte list) list \<times> 'q) option" where
  "recv_all recv 0 q = Some ([], q)"
| "recv_all recv (Suc n) q =
    (case recv q of
      None \<Rightarrow> None
    | Some (x, q') \<Rightarrow> map_option (\<lambda>(xs, q''). (x # xs, q'')) (recv_all recv n q'))"

text \<open>The order of reception: higher priorities first, and first come first served among equals.\<close>

abbreviation prio_key :: "uint \<times> byte list \<Rightarrow> int" where
  "prio_key x \<equiv> - uint (fst x)"

lemma mq_insert_low:
  assumes "sorted (map prio_key q)" and "y \<in> set (dropWhile (\<lambda>x. p \<le> fst x) q)"
  shows "fst y < p"
proof -
  have "sorted_wrt (\<ge>) (map fst q)"
    using assms(1) by (simp add: sorted_map sorted_wrt_map word_le_def)
  from sorted_wrt_dropWhile_low [OF this assms(2)] show ?thesis .
qed

lemma mq_insert_sorted:
  assumes "sorted (map prio_key q)"
  shows "sorted (map prio_key (mq_insert p d q))"
proof -
  let ?hi = "takeWhile (\<lambda>x. p \<le> fst x) q" and ?lo = "dropWhile (\<lambda>x. p \<le> fst x) q"
  have hi: "uint p \<le> uint (fst y)" if "y \<in> set ?hi" for y
    using that by (auto simp: word_le_def dest: set_takeWhileD)
  have lo: "uint (fst y) \<le> uint p" if "y \<in> set ?lo" for y
    using mq_insert_low [OF assms that] by (simp add: word_less_def)
  have "sorted (map prio_key (?hi @ ?lo))" using assms by simp
  then have "sorted (map prio_key ?hi)" and "sorted (map prio_key ?lo)"
    unfolding map_append sorted_append by auto
  moreover have "uint (fst y) \<le> uint (fst x)" if "x \<in> set ?hi" "y \<in> set ?lo" for x y
    using hi [OF that(1)] lo [OF that(2)] by simp
  ultimately show ?thesis
    unfolding mq_insert_def using hi lo by (auto simp: sorted_append)
qed

lemma mq_insert_filter:
  assumes "sorted (map prio_key q)"
  shows "filter (\<lambda>x. k = prio_key x) (mq_insert p d q) = filter (\<lambda>x. k = prio_key x) (q @ [(p, d)])"
proof -
  let ?hi = "takeWhile (\<lambda>x. p \<le> fst x) q" and ?lo = "dropWhile (\<lambda>x. p \<le> fst x) q"
  have q: "filter P q = filter P ?hi @ filter P ?lo" for P
    by (metis filter_append takeWhile_dropWhile_id)
  have "filter (\<lambda>x. k = prio_key x) ?lo = []" if "k = - uint p"
    using that mq_insert_low [OF assms] by (fastforce simp: filter_empty_conv word_less_def)
  then show ?thesis by (auto simp: mq_insert_def q)
qed

lemma mq_insert_sort:
  assumes "q = sort_key prio_key xs"
  shows "mq_insert p d q = sort_key prio_key (xs @ [(p, d)])"
proof (rule sym, rule properties_for_sort_key)
  have srt: "sorted (map prio_key q)" by (simp add: assms)
  have "mset q = mset (takeWhile (\<lambda>x. p \<le> fst x) q) + mset (dropWhile (\<lambda>x. p \<le> fst x) q)"
    by (metis mset_append takeWhile_dropWhile_id)
  then have "mset (mq_insert p d q) = mset (q @ [(p, d)])"
    unfolding mq_insert_def by simp
  then show "mset (mq_insert p d q) = mset (xs @ [(p, d)])" by (simp add: assms)
  show "filter (\<lambda>x. prio_key k = prio_key x) (mq_insert p d q) =
      filter (\<lambda>x. prio_key k = prio_key x) (xs @ [(p, d)])" for k
  proof -
    have "filter (\<lambda>x. prio_key k = prio_key x) q = filter (\<lambda>x. prio_key k = prio_key x) xs"
      unfolding eq_commute [of "prio_key k"] assms by (rule sort_key_stable)
    then show ?thesis by (simp only: mq_insert_filter [OF srt] filter_append)
  qed
  show "sorted (map prio_key (mq_insert p d q))" using srt by (rule mq_insert_sorted)
qed

locale prio_queue =
  fixes inv :: "'q \<Rightarrow> bool"
    and content :: "'q \<Rightarrow> (uint \<times> byte list) list"
    and capacity :: "'q \<Rightarrow> nat"
    and limit :: "'q \<Rightarrow> nat"
    and send :: "byte list \<Rightarrow> uint \<Rightarrow> 'q \<Rightarrow> 'q option"
    and recv :: "'q \<Rightarrow> ((uint \<times> byte list) \<times> 'q) option"
  assumes send_ok:
    "inv q \<Longrightarrow> length d \<le> limit q \<Longrightarrow> length (content q) < capacity q \<Longrightarrow>
      \<exists>q'. send d p q = Some q' \<and> inv q' \<and> content q' = mq_insert p d (content q) \<and>
        capacity q' = capacity q \<and> limit q' = limit q"
    and recv_ok:
    "inv q \<Longrightarrow> content q \<noteq> [] \<Longrightarrow>
      \<exists>q'. recv q = Some (hd (content q), q') \<and> inv q' \<and> content q' = tl (content q)"
begin

lemma send_all_content:
  assumes "inv q" and "content q = sort_key prio_key xs"
    and "length xs + length ms \<le> capacity q" and "\<forall>x \<in> set ms. length (snd x) \<le> limit q"
  shows "\<exists>q'. send_all send ms q = Some q' \<and> inv q' \<and> content q' = sort_key prio_key (xs @ ms)"
  using assms
proof (induction ms arbitrary: q xs)
  case (Cons x ms)
  obtain p d where x: "x = (p, d)" by (cases x)
  from Cons.prems x have "length d \<le> limit q" and "length (content q) < capacity q" by auto
  from send_ok [OF Cons.prems(1) this, of p] obtain q' where q': "send d p q = Some q'" "inv q'"
    "content q' = mq_insert p d (content q)" "capacity q' = capacity q" "limit q' = limit q"
    by blast
  have "content q' = sort_key prio_key (xs @ [x])"
    using q'(3) mq_insert_sort [OF Cons.prems(2)] x by simp
  from Cons.IH [OF q'(2) this] Cons.prems(3,4) q' x show ?case by simp
qed simp

lemma recv_all_content:
  "inv q \<Longrightarrow> n \<le> length (content q) \<Longrightarrow>
    \<exists>q'. recv_all recv n q = Some (take n (content q), q') \<and> inv q' \<and> content q' = drop n (content q)"
proof (induction n arbitrary: q)
  case (Suc n)
  then have ne: "content q \<noteq> []" by auto
  from recv_ok [OF Suc.prems(1) ne] obtain q' where q': "recv q = Some (hd (content q), q')"
    "inv q'" "content q' = tl (content q)" by blast
  with Suc.prems have "n \<le> length (content q')" by auto
  from Suc.IH [OF q'(2) this] q' ne show ?case
    by (auto simp: take_Suc drop_Suc)
qed simp

lemma delivery_order:
  assumes "inv q" and "content q = []" and "length ms \<le> capacity q"
    and "\<forall>x \<in> set ms. length (snd x) \<le> limit q"
  shows "\<exists>q' q''. send_all send ms q = Some q' \<and>
    recv_all recv (length ms) q' = Some (sort_key prio_key ms, q'') \<and> inv q'' \<and> content q'' = []"
proof -
  from send_all_content [OF assms(1), of "[]" ms] assms obtain q' where
    q': "send_all send ms q = Some q'" "inv q'" "content q' = sort_key prio_key ms" by auto
  from recv_all_content [OF q'(2), of "length ms"] q' show ?thesis by auto
qed

end

section \<open>The queue that mymq_open creates\<close>

lemma init_free_other:
  "x < index \<Longrightarrow> init_free n index stride ms x = ms x"
  by (induction n index stride ms rule: init_free.induct) auto

lemma init_free_chain:
  assumes "0 < index" and "0 < stride"
  shows "msg_chain (init_free n index stride ms) index (map (\<lambda>k. index + k * stride) [0..<Suc n])"
  using assms
proof (induction n index stride ms rule: init_free.induct)
  case (2 n index stride ms)
  let ?ms = "ms(index := (ms index)\<lparr>msg_next := index + stride\<rparr>)"
  have offs: "map (\<lambda>k. index + k * stride) [0..<Suc (Suc n)] =
      index # map (\<lambda>k. index + stride + k * stride) [0..<Suc n]"
    by (subst upt_rec) (simp add: map_Suc_upt [symmetric] o_def algebra_simps del: upt_Suc)
  have "msg_next (init_free n (index + stride) stride ?ms index) = index + stride"
    using 2(3) by (simp add: init_free_other)
  with 2 show ?case unfolding offs by (simp add: fun_upd_def del: upt_Suc)
qed simp

lemma mq_init_correct:
  assumes "attr_ok hsz (mq_maxmsg attr) (mq_msgsize attr)"
  shows "mq_wf hsz (mq_init hsz attr m) \<and> mq_abs (mq_init hsz attr m) = []"
proof -
  let ?m = "mq_init hsz attr m" and ?sz = "nat (mq_msgsize attr)" and ?n = "nat (mq_maxmsg attr)"
  define stride where "stride = sizeof_msghdr + MSGSIZE ?sz"
  have n: "Suc (nat (mq_maxmsg attr - 1)) = ?n" using assms unfolding attr_ok_def by linarith
  have u: "ulong_of (mq_msgsize attr) = ?sz" using assms by (simp add: attr_ok_def)
  have ms: "msgs ?m = init_free (nat (mq_maxmsg attr - 1)) hsz stride (msgs m)"
    by (simp add: mq_init_def u stride_def)
  let ?ys = "map (\<lambda>k. hsz + k * stride) [0..<?n]"
  have ch: "msg_chain (msgs ?m) hsz ?ys"
    unfolding ms n [symmetric] using assms by (intro init_free_chain) (auto simp: attr_ok_def stride_def)
  have "mq_wf hsz ?m \<and> queued ?m = [] \<and> freed ?m = ?ys"
  proof (rule mq_wf_intro)
    show "msg_chain (msgs ?m) (mqh_free (mq_hdr ?m)) ?ys" using ch by (simp add: mq_init_def)
    show "distinct ([] @ ?ys)" by (simp add: distinct_map inj_on_def stride_def)
    show "set ([] @ ?ys) = slots hsz ?m"
      by (auto simp: slots_def slot_def mq_init_def stride_def)
  qed (use assms in \<open>auto simp: mq_init_def\<close>)
  then show ?thesis by (simp add: mq_abs_def)
qed

section \<open>The calls on a well-formed queue\<close>

abbreviation is_open :: "mymq_info \<Rightarrow> bool" where
  "is_open mqinfo \<equiv> mqi_magic mqinfo = MQI_MAGIC"

abbreviation is_full :: "mapped \<Rightarrow> bool" where
  "is_full m \<equiv> mq_maxmsg (attr_of m) \<le> mq_curmsgs (attr_of m)"

lemma mq_wf_attr [simp]:
  assumes "mq_wf hsz m"
  shows "ulong_of (mq_msgsize (attr_of m)) = msgsize_of m" "0 < mq_maxmsg (attr_of m)"
  using assms by (auto simp: mq_wf_def attr_ok_def)

lemma mq_wf_empty: "mq_wf hsz m \<Longrightarrow> mq_abs m = [] \<longleftrightarrow> mq_curmsgs (attr_of m) = 0"
  by (auto simp: mq_wf_def mq_abs_def)

lemma mq_wf_count: "mq_wf hsz m \<Longrightarrow> mq_curmsgs (attr_of m) = int (length (mq_abs m))"
  by (simp add: mq_wf_def mq_abs_def)

text \<open>The fields that well-formedness and content do not read.\<close>

lemma mq_frame_hdr:
  assumes "msgs m' = msgs m" and "bytes m' = bytes m" and "attr_of m' = attr_of m"
    and "mqh_head (mq_hdr m') = mqh_head (mq_hdr m)" and "mqh_free (mq_hdr m') = mqh_free (mq_hdr m)"
  shows "mq_wf hsz m' \<longleftrightarrow> mq_wf hsz m" and "mq_abs m' = mq_abs m"
proof -
  have q: "queued m' = queued m" "freed m' = freed m"
    using assms by (simp_all add: queued_def freed_def)
  then show "mq_wf hsz m' \<longleftrightarrow> mq_wf hsz m" using assms by (simp add: mq_wf_def slots_def)
  show "mq_abs m' = mq_abs m" using assms q by (simp add: mq_abs_def msg_data_def)
qed

lemma send_notify_frame:
  "mq_wf hsz (fst (send_notify m)) \<longleftrightarrow> mq_wf hsz m" "mq_abs (fst (send_notify m)) = mq_abs m"
  "attr_of (fst (send_notify m)) = attr_of m"
  "mqh_nwait (mq_hdr (fst (send_notify m))) = mqh_nwait (mq_hdr m)"
  by (rule mq_frame_hdr; simp add: send_notify_def Let_def)+
    (simp_all add: send_notify_def Let_def)

lemma set_nwait_frame:
  "mq_wf hsz (set_nwait k m) \<longleftrightarrow> mq_wf hsz m" "mq_abs (set_nwait k m) = mq_abs m"
  "attr_of (set_nwait k m) = attr_of m" "mqh_nwait (mq_hdr (set_nwait k m)) = k"
  by (rule mq_frame_hdr; simp add: set_nwait_def)+ (simp_all add: set_nwait_def)

text \<open>The events of a successful send: the notification, then the wakeup of a receiver.\<close>

definition send_events :: "mapped \<Rightarrow> mq_event list" where
  "send_events m =
    (if mq_curmsgs (attr_of m) = 0 then snd (send_notify m) @ [Cond_signal] else [])"

lemma mymq_send_ok:
  assumes wf: "mq_wf hsz m" and "is_open mqinfo" and len: "length ptr \<le> msgsize_of m"
    and room: "\<not> is_full m"
  shows "\<exists>m'. mymq_send 0 mqinfo ptr prio m = Returns m' (send_events m) (Inr ()) \<and>
    mq_wf hsz m' \<and> mq_abs m' = mq_insert prio ptr (mq_abs m) \<and>
    mq_maxmsg (attr_of m') = mq_maxmsg (attr_of m) \<and>
    mq_msgsize (attr_of m') = mq_msgsize (attr_of m) \<and> mqh_nwait (mq_hdr m') = mqh_nwait (mq_hdr m)"
proof (cases "mq_curmsgs (attr_of m) = 0")
  case True
  let ?m = "fst (send_notify m)"
  have "mq_wf hsz ?m" and "mq_curmsgs (attr_of ?m) < mq_maxmsg (attr_of ?m)"
    and "length ptr \<le> msgsize_of ?m"
    using wf room len by (auto simp: send_notify_frame)
  from send_put_correct [OF this, of prio "snd (send_notify m)"] obtain m' where
    "send_put ptr prio ?m (snd (send_notify m)) = Returns m' (send_events m) (Inr ())"
    "mq_wf hsz m'" "mq_abs m' = mq_insert prio ptr (mq_abs m)" "same_setup ?m m'"
    using True by (auto simp: send_notify_frame send_events_def)
  moreover have "mymq_send 0 mqinfo ptr prio m = send_put ptr prio ?m (snd (send_notify m))"
    using assms True by (simp add: mymq_send_def case_prod_beta)
  ultimately show ?thesis by (auto simp: same_setup_def send_notify_frame)
next
  case False
  have "mymq_send 0 mqinfo ptr prio m = send_put ptr prio m []"
    using assms False by (simp add: mymq_send_def)
  with send_put_correct [OF wf _ len, of prio "[]"] room False show ?thesis
    by (auto simp: same_setup_def send_events_def)
qed

lemma mymq_receive_ok:
  assumes wf: "mq_wf hsz m" and "is_open mqinfo" and "msgsize_of m \<le> maxlen"
    and ne: "mq_abs m \<noteq> []"
  shows "\<exists>m' evs data prio. mymq_receive 0 mqinfo maxlen m = Returns m' evs (Inr (data, prio)) \<and>
    mq_wf hsz m' \<and> mq_abs m = (prio, data) # mq_abs m' \<and> same_setup m m'"
proof -
  have c: "mq_curmsgs (attr_of m) \<noteq> 0" using wf ne by (simp add: mq_wf_empty)
  have "mymq_receive 0 mqinfo maxlen m = receive_get m"
    using assms c by (simp add: mymq_receive_def)
  with receive_get_correct [OF wf c] show ?thesis by auto
qed

section \<open>The contract interpreted\<close>

text \<open>The calls of one process on its descriptor, when no lock fails: accepted or not.\<close>

definition mq_try_send :: "mymq_info \<Rightarrow> byte list \<Rightarrow> uint \<Rightarrow> mapped \<Rightarrow> mapped option" where
  "mq_try_send mqinfo ptr prio m =
    (case mymq_send 0 mqinfo ptr prio m of Returns m' _ (Inr _) \<Rightarrow> Some m' | _ \<Rightarrow> None)"

definition mq_try_recv :: "mymq_info \<Rightarrow> mapped \<Rightarrow> ((uint \<times> byte list) \<times> mapped) option" where
  "mq_try_recv mqinfo m =
    (case mymq_receive 0 mqinfo (msgsize_of m) m of
      Returns m' _ (Inr (data, prio)) \<Rightarrow> Some ((prio, data), m') | _ \<Rightarrow> None)"

interpretation mq: prio_queue "mq_wf hsz" mq_abs maxmsg_of msgsize_of
  "mq_try_send (mq_opened flags)" "mq_try_recv (mq_opened flags)" for hsz flags
proof
  have op: "is_open (mq_opened flags)" by (simp add: mq_opened_def)
  fix q and d :: "byte list" and p
  assume q: "mq_wf hsz q" and d: "length d \<le> msgsize_of q" and "length (mq_abs q) < maxmsg_of q"
  then have "\<not> is_full q" using mq_wf_count [OF q] by auto
  from mymq_send_ok [OF q op d this, of p]
  show "\<exists>q'. mq_try_send (mq_opened flags) d p q = Some q' \<and> mq_wf hsz q' \<and>
      mq_abs q' = mq_insert p d (mq_abs q) \<and> maxmsg_of q' = maxmsg_of q \<and> msgsize_of q' = msgsize_of q"
    by (auto simp: mq_try_send_def)
next
  have op: "is_open (mq_opened flags)" by (simp add: mq_opened_def)
  fix q
  assume "mq_wf hsz q" and "mq_abs q \<noteq> []"
  from mymq_receive_ok [OF this(1) op order_refl this(2)]
  show "\<exists>q'. mq_try_recv (mq_opened flags) q = Some (hd (mq_abs q), q') \<and> mq_wf hsz q' \<and>
      mq_abs q' = tl (mq_abs q)"
    by (auto simp: mq_try_recv_def)
qed

section \<open>Properties\<close>

text \<open>
  A concrete queue for the witnesses: a file of zeroes, initialised for three messages of at most
  eight bytes behind a header of 200 bytes.
\<close>

definition zero_file :: mapped where
  "zero_file = \<lparr>mq_hdr = \<lparr>mqh_attr = \<lparr>mq_flags = 0, mq_maxmsg = 0, mq_msgsize = 0, mq_curmsgs = 0\<rparr>,
      mqh_head = 0, mqh_free = 0, mqh_nwait = 0, mqh_pid = 0,
      mqh_event = \<lparr>sigev_notify = SIGEV_NONE, sigev_signo = 0, sigev_value = 0\<rparr>\<rparr>,
    msgs = (\<lambda>_. \<lparr>msg_next = 0, msg_len = 0, msg_prio = 0\<rparr>), bytes = (\<lambda>_. 0)\<rparr>"

definition small_attr :: mymq_attr where
  "small_attr = \<lparr>mq_flags = 0, mq_maxmsg = 3, mq_msgsize = 8, mq_curmsgs = 0\<rparr>"

definition small_queue :: mapped where
  "small_queue = mq_init 200 small_attr zero_file"

lemma small_attr_ok: "attr_ok 200 (mq_maxmsg small_attr) (mq_msgsize small_attr)"
  by (simp add: attr_ok_def small_attr_def MSGSIZE_def)

lemma small_queue_wf: "mq_wf 200 small_queue" "mq_abs small_queue = []"
  using mq_init_correct [OF small_attr_ok] by (simp_all add: small_queue_def)

lemma small_queue_attr:
  "attr_of small_queue = \<lparr>mq_flags = 0, mq_maxmsg = 3, mq_msgsize = 8, mq_curmsgs = 0\<rparr>"
  by (simp add: small_queue_def mq_init_def small_attr_def)

text \<open>The same queue after one message of priority 5 was sent.\<close>

definition small_queue1 :: mapped where
  "small_queue1 = the (mq_try_send (mq_opened 0) [1, 2, 3] 5 small_queue)"

lemma small_queue1_wf:
  "mq_wf 200 small_queue1" "mq_abs small_queue1 = [(5, [1, 2, 3])]" "msgsize_of small_queue1 = 8"
  "maxmsg_of small_queue1 = 3"
proof -
  have "length ([1, 2, 3] :: byte list) \<le> msgsize_of small_queue"
    and "length (mq_abs small_queue) < maxmsg_of small_queue"
    by (simp_all add: small_queue_wf small_queue_attr)
  from mq.send_ok [OF small_queue_wf(1) this, of 0 5]
  show "mq_wf 200 small_queue1" "mq_abs small_queue1 = [(5, [1, 2, 3])]"
    "msgsize_of small_queue1 = 8" "maxmsg_of small_queue1 = 3"
    by (auto simp: small_queue1_def small_queue_attr small_queue_wf mq_insert_def)
qed

text \<open>
  C1. On a well-formed queue with room, \<open>mymq_send\<close> by an open descriptor with a message of at most
  \<open>mq_msgsize\<close> bytes returns 0, leaves a well-formed queue, and the new content is the old one with
  the message inserted behind all messages of the same or a higher priority and before the rest.
\<close>

theorem mymq_send_refines_insert:
  assumes "mq_wf hsz m" and "mqi_magic mqinfo = MQI_MAGIC" and "length ptr \<le> msgsize_of m"
    and "mq_curmsgs (attr_of m) < mq_maxmsg (attr_of m)"
  shows "\<exists>m' evs. mymq_send 0 mqinfo ptr prio m = Returns m' evs (Inr ()) \<and>
    mq_wf hsz m' \<and> mq_abs m' = mq_insert prio ptr (mq_abs m)"
  using mymq_send_ok [OF assms(1-3)] assms(4) by fastforce

theorem mymq_send_refines_insert_witness:
  "\<exists>m' evs. mymq_send 0 (mq_opened 0) [1, 2, 3] 5 small_queue = Returns m' evs (Inr ()) \<and>
    mq_wf 200 m' \<and> mq_abs m' = mq_insert 5 [1, 2, 3] (mq_abs small_queue)"
  by (rule mymq_send_refines_insert)
    (simp_all add: small_queue_wf small_queue_attr mq_opened_def)

text \<open>
  C2. On a well-formed non-empty queue, \<open>mymq_receive\<close> by an open descriptor with a buffer of at
  least \<open>mq_msgsize\<close> bytes returns the first message of the queue, bytes and priority, and leaves a
  well-formed queue that holds the other messages in the same order.
\<close>

theorem mymq_receive_refines_take:
  assumes "mq_wf hsz m" and "mqi_magic mqinfo = MQI_MAGIC" and "msgsize_of m \<le> maxlen"
    and "mq_abs m \<noteq> []"
  shows "\<exists>m' evs data prio. mymq_receive 0 mqinfo maxlen m = Returns m' evs (Inr (data, prio)) \<and>
    mq_wf hsz m' \<and> mq_abs m = (prio, data) # mq_abs m'"
  using mymq_receive_ok [OF assms] by blast

theorem mymq_receive_refines_take_witness:
  "\<exists>m' evs data prio. mymq_receive 0 (mq_opened 0) 8 small_queue1 = Returns m' evs (Inr (data, prio)) \<and>
    mq_wf 200 m' \<and> mq_abs small_queue1 = (prio, data) # mq_abs m'"
  by (rule mymq_receive_refines_take) (simp_all add: small_queue1_wf mq_opened_def)

text \<open>
  C3. Messages are delivered by priority and first come first served: after any sequence of sends
  that fits an empty well-formed queue, receiving as many messages yields exactly the messages
  sent, stably sorted by decreasing priority, and leaves the queue empty.
\<close>

theorem mymq_delivery_order:
  assumes "mq_wf hsz m" and "mq_abs m = []" and "length ms \<le> maxmsg_of m"
    and "\<forall>x \<in> set ms. length (snd x) \<le> msgsize_of m"
  shows "\<exists>m' m''. send_all (mq_try_send (mq_opened flags)) ms m = Some m' \<and>
    recv_all (mq_try_recv (mq_opened flags)) (length ms) m' =
      Some (sort_key (\<lambda>x. - uint (fst x)) ms, m'') \<and>
    mq_wf hsz m'' \<and> mq_abs m'' = []"
  by (rule mq.delivery_order [OF assms])

theorem mymq_delivery_order_witness:
  "\<exists>m' m''. send_all (mq_try_send (mq_opened 0)) [(1, [7]), (3, [8])] small_queue = Some m' \<and>
    recv_all (mq_try_recv (mq_opened 0)) 2 m' = Some ([(3, [8]), (1, [7])], m'') \<and>
    mq_wf 200 m'' \<and> mq_abs m'' = []"
proof -
  have "sort_key (\<lambda>x. - uint (fst x)) [(1, [7]), (3, [8])] = [(3 :: uint, [8 :: byte]), (1, [7])]"
    by simp
  with mymq_delivery_order [of 200 small_queue "[(1, [7]), (3, [8])]" 0] show ?thesis
    by (simp add: small_queue_wf small_queue_attr numeral_2_eq_2)
qed

text \<open>
  C4. The calls on a well-formed queue never reach the internal-error branches: \<open>mymq_send\<close> never
  finds the free list empty (\<open>err_dump\<close>) and its search loop always ends. A failing call reports
  \<open>EBADF\<close>, the lock's error, \<open>EMSGSIZE\<close> or \<open>EAGAIN\<close> exactly in the cases the code names and leaves
  the queue as it was; the call blocks only on a full queue in blocking mode.
\<close>

theorem mymq_send_outcomes:
  assumes "mq_wf hsz m"
  shows "case mymq_send n mqinfo ptr prio m of
      Returns m' evs (Inr _) \<Rightarrow>
        mqi_magic mqinfo = MQI_MAGIC \<and> n = 0 \<and> length ptr \<le> msgsize_of m \<and>
        mq_curmsgs (attr_of m) < mq_maxmsg (attr_of m) \<and> mq_wf hsz m' \<and>
        mq_curmsgs (attr_of m') = mq_curmsgs (attr_of m) + 1
    | Returns m' evs (Inl e) \<Rightarrow>
        m' = m \<and> evs = [] \<and>
        e = (if mqi_magic mqinfo \<noteq> MQI_MAGIC then EBADF else if n \<noteq> 0 then n
             else if msgsize_of m < length ptr then EMSGSIZE else EAGAIN) \<and>
        (e = EAGAIN \<and> n \<noteq> EAGAIN \<longrightarrow>
          mq_curmsgs (attr_of m) = mq_maxmsg (attr_of m) \<and> mqi_flags mqinfo AND O_NONBLOCK \<noteq> 0)
    | Waits m' \<Rightarrow>
        m' = m \<and> mq_curmsgs (attr_of m) = mq_maxmsg (attr_of m) \<and>
        mqi_flags mqinfo AND O_NONBLOCK = 0
    | Aborts _ \<Rightarrow> False
    | Diverges \<Rightarrow> False"
proof (cases "is_open mqinfo \<and> n = 0 \<and> length ptr \<le> msgsize_of m \<and> \<not> is_full m")
  case True
  with mymq_send_ok [OF assms, of mqinfo ptr prio] obtain m' where
    "mymq_send 0 mqinfo ptr prio m = Returns m' (send_events m) (Inr ())" "mq_wf hsz m'"
    "mq_abs m' = mq_insert prio ptr (mq_abs m)" by blast
  moreover have "length (mq_insert prio ptr q) = Suc (length q)" for q
    unfolding mq_insert_def
    by (metis append_Cons length_Cons length_append add_Suc_right takeWhile_dropWhile_id)
  ultimately show ?thesis using True assms by (simp add: mq_wf_count)
next
  case False
  have le: "mq_curmsgs (attr_of m) \<le> mq_maxmsg (attr_of m)"
    using assms mq_wf_lengths [OF assms] by (auto simp: mq_wf_def attr_ok_def)
  from False assms le show ?thesis
    by (auto simp: mymq_send_def dest: mq_wf_attr(2))
qed

theorem mymq_send_outcomes_witness:
  "mq_wf 200 small_queue1 \<and> (case mymq_send 0 (mq_opened 0) [1] 9 small_queue1 of
      Returns m' evs (Inr _) \<Rightarrow> mq_wf 200 m' | _ \<Rightarrow> True)"
  using mymq_send_outcomes [OF small_queue1_wf(1),
      where n = 0 and mqinfo = "mq_opened 0" and ptr = "[1]" and prio = 9]
  by (simp add: small_queue1_wf split: cs_outcome.splits sum.splits)

text \<open>
  C5. Every outcome of \<open>mymq_receive\<close> on a well-formed queue. It returns a message, the first of the
  queue, only for an open descriptor, a lock that was taken and a buffer that is long enough, and it
  signals exactly when the queue was full. It fails with \<open>EBADF\<close>, the lock's error or \<open>EMSGSIZE\<close> in
  this order, and with \<open>EAGAIN\<close> only when all three tests pass, the queue is empty and the
  descriptor is non-blocking; a failing call leaves the queue as it was. It blocks only when the
  tests pass, the queue is empty and the descriptor is blocking, and then it has counted itself in
  \<open>mqh_nwait\<close>. It never finds the list empty against its count (\<open>err_dump\<close>).
\<close>

theorem mymq_receive_outcomes:
  assumes "mq_wf hsz m"
  shows "case mymq_receive n mqinfo maxlen m of
      Returns m' evs (Inr (data, prio)) \<Rightarrow>
        mqi_magic mqinfo = MQI_MAGIC \<and> n = 0 \<and> msgsize_of m \<le> maxlen \<and> length data \<le> msgsize_of m \<and>
        mq_wf hsz m' \<and> mq_abs m = (prio, data) # mq_abs m' \<and>
        evs = (if mq_curmsgs (attr_of m) = mq_maxmsg (attr_of m) then [Cond_signal] else [])
    | Returns m' evs (Inl e) \<Rightarrow>
        m' = m \<and> evs = [] \<and>
        e = (if mqi_magic mqinfo \<noteq> MQI_MAGIC then EBADF else if n \<noteq> 0 then n
             else if maxlen < msgsize_of m then EMSGSIZE else EAGAIN) \<and>
        (mqi_magic mqinfo = MQI_MAGIC \<and> n = 0 \<and> msgsize_of m \<le> maxlen \<longrightarrow>
          mq_abs m = [] \<and> mqi_flags mqinfo AND O_NONBLOCK \<noteq> 0)
    | Waits m' \<Rightarrow>
        mqi_magic mqinfo = MQI_MAGIC \<and> n = 0 \<and> msgsize_of m \<le> maxlen \<and>
        mq_abs m = [] \<and> mqi_flags mqinfo AND O_NONBLOCK = 0 \<and>
        mq_wf hsz m' \<and> mq_abs m' = [] \<and> mqh_nwait (mq_hdr m') = mqh_nwait (mq_hdr m) + 1
    | Aborts _ \<Rightarrow> False
    | Diverges \<Rightarrow> False"
proof (cases "is_open mqinfo \<and> n = 0 \<and> msgsize_of m \<le> maxlen \<and> mq_abs m \<noteq> []")
  case True
  with mymq_receive_ok [OF assms, of mqinfo maxlen] obtain m' evs data prio where
    r: "mymq_receive 0 mqinfo maxlen m = Returns m' evs (Inr (data, prio))" "mq_wf hsz m'"
    "mq_abs m = (prio, data) # mq_abs m'" by blast
  have "\<forall>x \<in> set (mq_abs m). length (snd x) \<le> msgsize_of m"
    using assms by (auto simp: mq_wf_def mq_abs_def msg_data_def memcpy_from_def)
  moreover have "evs = (if mq_curmsgs (attr_of m) = mq_maxmsg (attr_of m) then [Cond_signal] else [])"
    using r(1) True by (auto simp: mymq_receive_def receive_get_def Let_def set_msg_next_def split: if_splits)
  ultimately show ?thesis using r True by simp
next
  case False
  then show ?thesis
    using assms mq_wf_empty [OF assms]
    by (auto simp: mymq_receive_def set_nwait_frame)
qed

theorem mymq_receive_outcomes_witness:
  "case mymq_receive 0 (mq_opened 0) 8 small_queue1 of
      Returns m' evs (Inr (data, prio)) \<Rightarrow> mq_wf 200 m' \<and> [(5, [1, 2, 3])] = (prio, data) # mq_abs m'
    | Returns m' evs (Inl e) \<Rightarrow> False
    | Waits m' \<Rightarrow> False
    | _ \<Rightarrow> False"
  using mymq_receive_outcomes [OF small_queue1_wf(1),
      where n = 0 and mqinfo = "mq_opened 0" and maxlen = 8]
  by (auto simp: small_queue1_wf mq_opened_def split: cs_outcome.splits sum.splits)

text \<open>
  C8. The queue that \<open>mymq_open\<close> lays out in a new file is well-formed and empty, with every message
  on the free list, for all attributes whose file size fits a \<open>long\<close>.
\<close>

theorem mymq_open_initial_queue:
  assumes "attr_ok hsz (mq_maxmsg attr) (mq_msgsize attr)"
  shows "mq_wf hsz (mq_init hsz attr m) \<and> mq_abs (mq_init hsz attr m) = [] \<and>
    mqh_pid (mq_hdr (mq_init hsz attr m)) = 0 \<and> mqh_nwait (mq_hdr (mq_init hsz attr m)) = 0"
  using mq_init_correct [OF assms] by (simp add: mq_init_def)

theorem mymq_open_initial_queue_witness:
  "mq_wf 200 (mq_init 200 small_attr zero_file) \<and> mq_abs (mq_init 200 small_attr zero_file) = []"
  using mymq_open_initial_queue [OF small_attr_ok] by simp

text \<open>For usable attributes the size of the file is computed without wrap-around.\<close>

lemma mq_filesize_ok:
  assumes "attr_ok hsz maxmsg msgsize"
  shows "mq_filesize hsz maxmsg msgsize = hsz + nat maxmsg * (sizeof_msghdr + MSGSIZE (nat msgsize))"
proof -
  let ?sz = "nat msgsize" and ?n = "nat maxmsg"
  have sz: "?sz < 2 ^ 62" using assms by (auto simp: attr_ok_def nat_less_iff)
  have "?n * 1 \<le> ?n * (sizeof_msghdr + MSGSIZE ?sz)" by (intro mult_le_mono2) simp
  then have "?n < 2 ^ 63" using assms unfolding attr_ok_def by linarith
  then have "maxmsg < 2 ^ 63" using assms by (simp add: attr_ok_def nat_less_iff)
  then have "ulong_of maxmsg = ?n" "ulong_of msgsize = ?sz" using assms sz by (auto simp: attr_ok_def)
  then show ?thesis using assms by (simp add: mq_filesize_def attr_ok_def)
qed

text \<open>
  C9. The messages lie in the file and apart: for usable attributes, the header and the data area of
  every message end within the size computed for the file, and do not overlap those of any other
  message; so the copies of \<open>mymq_send\<close> stay inside the message they fill.
\<close>

theorem mq_layout_in_file:
  assumes "attr_ok hsz maxmsg msgsize" and "j < nat maxmsg"
  shows "hsz \<le> slot hsz (nat msgsize) j \<and>
    slot hsz (nat msgsize) j + sizeof_msghdr + nat msgsize \<le> mq_filesize hsz maxmsg msgsize \<and>
    (\<forall>k. k \<noteq> j \<longrightarrow>
      slot hsz (nat msgsize) j + sizeof_msghdr + nat msgsize \<le> slot hsz (nat msgsize) k \<or>
      slot hsz (nat msgsize) k + sizeof_msghdr + nat msgsize \<le> slot hsz (nat msgsize) j)"
proof -
  let ?sz = "nat msgsize" and ?n = "nat maxmsg"
  have fs: "mq_filesize hsz maxmsg msgsize = hsz + ?n * (sizeof_msghdr + MSGSIZE ?sz)"
    by (rule mq_filesize_ok [OF assms(1)])
  have ge: "?sz \<le> MSGSIZE ?sz" using assms(1) by (intro MSGSIZE_ge) (auto simp: attr_ok_def nat_less_iff)
  have "hsz \<le> slot hsz ?sz j" by (simp add: slot_def)
  moreover have "Suc j * (sizeof_msghdr + MSGSIZE ?sz) \<le> ?n * (sizeof_msghdr + MSGSIZE ?sz)"
    using assms(2) by (intro mult_le_mono1) simp
  then have "slot hsz ?sz j + sizeof_msghdr + ?sz \<le> mq_filesize hsz maxmsg msgsize"
    using ge by (simp add: fs slot_def)
  moreover have "slot hsz ?sz j + sizeof_msghdr + ?sz \<le> slot hsz ?sz k \<or>
      slot hsz ?sz k + sizeof_msghdr + ?sz \<le> slot hsz ?sz j" if "k \<noteq> j" for k
    using slot_apart [OF that, of hsz ?sz] ge by linarith
  ultimately show ?thesis by blast
qed

theorem mq_layout_in_file_witness:
  "slot 200 8 0 + sizeof_msghdr + 8 \<le> mq_filesize 200 3 8 \<and>
    slot 200 8 0 + sizeof_msghdr + 8 \<le> slot 200 8 1"
  using mq_layout_in_file [of 200 3 8 0] small_attr_ok
  by (auto simp: small_attr_def slot_def dest: spec [of _ 1])

text \<open>
  \<open>mymq_open\<close> does not check the multiplication of the attributes: for \<open>2^59\<close> messages of 8 bytes the
  size computed for the file wraps around to the size of the header alone, while the first message
  already lies behind it, so the free list is written outside the mapping.
\<close>

lemma mq_filesize_wraps:
  "hsz < 2 ^ 64 \<Longrightarrow> mq_filesize hsz (2 ^ 59) 8 = hsz \<and> mq_filesize hsz (2 ^ 59) 8 \<le> slot hsz 8 0"
  by (simp add: mq_filesize_def ulong_of_def MSGSIZE_def slot_def)

text \<open>
  Notification: when a message arrives at an empty queue, no receiver is blocked and a process is
  registered for a signal, \<open>mymq_send\<close> queues exactly one signal for it, with the number and value it
  registered, and removes the registration.
\<close>

lemma mymq_send_notifies:
  assumes "mq_wf hsz m" and "mqi_magic mqinfo = MQI_MAGIC" and "length ptr \<le> msgsize_of m"
    and "mq_abs m = []" and "mqh_pid (mq_hdr m) \<noteq> 0" and "mqh_nwait (mq_hdr m) = 0"
    and "sigev_notify (mqh_event (mq_hdr m)) = SIGEV_SIGNAL"
  shows "\<exists>m'. mymq_send 0 mqinfo ptr prio m = Returns m'
      [Sigqueue (mqh_pid (mq_hdr m)) (sigev_signo (mqh_event (mq_hdr m)))
         (sigev_value (mqh_event (mq_hdr m))), Cond_signal] (Inr ()) \<and>
    mqh_pid (mq_hdr m') = 0"
proof -
  let ?m = "fst (send_notify m)"
  have c: "mq_curmsgs (attr_of m) = 0" using assms(1,4) mq_wf_empty by blast
  then have "mq_wf hsz ?m" and "mq_curmsgs (attr_of ?m) < mq_maxmsg (attr_of ?m)"
    and "length ptr \<le> msgsize_of ?m"
    using assms(1,3) by (auto simp: send_notify_frame)
  from send_put_correct [OF this, of prio "snd (send_notify m)"] obtain m' where
    "send_put ptr prio ?m (snd (send_notify m)) =
      Returns m' (snd (send_notify m) @ [Cond_signal]) (Inr ())" "same_setup ?m m'"
    using c by (auto simp: send_notify_frame)
  moreover have "mymq_send 0 mqinfo ptr prio m = send_put ptr prio ?m (snd (send_notify m))"
    using assms c by (simp add: mymq_send_def case_prod_beta)
  ultimately show ?thesis
    using assms(5-7) by (auto simp: same_setup_def send_notify_def Let_def)
qed

text \<open>The empty queue with process 77 registered for signal 10 with value 4.\<close>

definition small_queue_reg :: mapped where
  "small_queue_reg = small_queue\<lparr>mq_hdr := (mq_hdr small_queue)\<lparr>mqh_pid := 77,
     mqh_event := \<lparr>sigev_notify = SIGEV_SIGNAL, sigev_signo = 10, sigev_value = 4\<rparr>\<rparr>\<rparr>"

lemma small_queue_reg_wf: "mq_wf 200 small_queue_reg" "mq_abs small_queue_reg = []"
  "attr_of small_queue_reg = attr_of small_queue" "mqh_nwait (mq_hdr small_queue_reg) = 0"
proof -
  have "mq_wf 200 small_queue_reg \<longleftrightarrow> mq_wf 200 small_queue"
    and "mq_abs small_queue_reg = mq_abs small_queue"
    by (rule mq_frame_hdr; simp add: small_queue_reg_def)+
  then show "mq_wf 200 small_queue_reg" "mq_abs small_queue_reg = []"
    by (simp_all add: small_queue_wf)
  show "attr_of small_queue_reg = attr_of small_queue" by (simp add: small_queue_reg_def)
  show "mqh_nwait (mq_hdr small_queue_reg) = 0"
    by (simp add: small_queue_reg_def small_queue_def mq_init_def)
qed

text \<open>
  A sender that had to wait for room sends no notification: if the receivers emptied the queue
  before it runs again, its message makes the queue non-empty, a process is registered and no
  receiver is blocked, and still no signal is queued and the registration stays.
\<close>

lemma mymq_send_wakeup_skips_notification:
  assumes "mq_wf hsz m" and "length ptr \<le> msgsize_of m" and "mq_abs m = []"
  shows "\<exists>m'. mymq_send_wakeup ptr prio m = Returns m' [Cond_signal] (Inr ()) \<and>
    mq_abs m' = [(prio, ptr)] \<and> mqh_pid (mq_hdr m') = mqh_pid (mq_hdr m)"
proof -
  have c: "mq_curmsgs (attr_of m) = 0" using assms(1,3) mq_wf_empty by blast
  have room: "mq_curmsgs (attr_of m) < mq_maxmsg (attr_of m)" using assms(1) c by simp
  from send_put_correct [OF assms(1) room assms(2), of prio "[]"] obtain m' where
    "send_put ptr prio m [] = Returns m' [Cond_signal] (Inr ())"
    "mq_abs m' = mq_insert prio ptr (mq_abs m)" "same_setup m m'" using c by auto
  with assms room show ?thesis
    by (auto simp: mymq_send_wakeup_def same_setup_def mq_insert_def)
qed

end
