(* ===== verification/Mqueue_Threads.thy ===== *)
theory Mqueue_Threads
  imports Mqueue_Correct
begin

text \<open>
  Any number of threads that send to and receive from one mapped queue. The sections of \<open>mymq_send\<close>
  and \<open>mymq_receive\<close> run one after the other (they hold \<open>mqh_lock\<close>); a thread that waits is parked on
  the one condition variable \<open>mqh_wait\<close> that senders and receivers share, until a signal or a
  spurious wakeup lets it run its section again.
\<close>

section \<open>The machine\<close>

datatype mq_pc =
    M_out
  | M_send "byte list" uint
  | M_send_woken "byte list" uint
  | M_recv
  | M_recv_woken

fun parked :: "mq_pc \<Rightarrow> bool" where
  "parked (M_send _ _) = True"
| "parked M_recv = True"
| "parked _ = False"

fun woken :: "mq_pc \<Rightarrow> bool" where
  "woken (M_send_woken _ _) = True"
| "woken M_recv_woken = True"
| "woken _ = False"

fun wake :: "mq_pc \<Rightarrow> mq_pc" where
  "wake (M_send ptr prio) = M_send_woken ptr prio"
| "wake M_recv = M_recv_woken"
| "wake pc = pc"

record mq_sys =
  mq_mem :: mapped
  mq_pcs :: "mq_pc list"

text \<open>
  \<open>pthread_cond_signal\<close> unblocks one of the parked threads, whichever, and does nothing when there
  is none.
\<close>

inductive cond_signalled :: "mq_event list \<Rightarrow> mq_pc list \<Rightarrow> mq_pc list \<Rightarrow> bool" where
  no_signal: "Cond_signal \<notin> set evs \<Longrightarrow> cond_signalled evs pcs pcs"
| no_waiter: "Cond_signal \<in> set evs \<Longrightarrow> \<forall>pc \<in> set pcs. \<not> parked pc \<Longrightarrow> cond_signalled evs pcs pcs"
| one_waiter: "Cond_signal \<in> set evs \<Longrightarrow> i < length pcs \<Longrightarrow> parked (pcs ! i) \<Longrightarrow>
    cond_signalled evs pcs (pcs[i := wake (pcs ! i)])"

inductive mq_step :: "mq_sys \<Rightarrow> mq_sys \<Rightarrow> bool" where
  send: "i < length pcs \<Longrightarrow> pcs ! i = M_out \<Longrightarrow>
    mymq_send 0 mqinfo ptr prio m = Returns m' evs r \<Longrightarrow> cond_signalled evs pcs pcs' \<Longrightarrow>
    mq_step \<lparr>mq_mem = m, mq_pcs = pcs\<rparr> \<lparr>mq_mem = m', mq_pcs = pcs'\<rparr>"
| send_park: "i < length pcs \<Longrightarrow> pcs ! i = M_out \<Longrightarrow>
    mymq_send 0 mqinfo ptr prio m = Waits m' \<Longrightarrow>
    mq_step \<lparr>mq_mem = m, mq_pcs = pcs\<rparr> \<lparr>mq_mem = m', mq_pcs = pcs[i := M_send ptr prio]\<rparr>"
| send_again: "i < length pcs \<Longrightarrow> pcs ! i = M_send_woken ptr prio \<Longrightarrow>
    mymq_send_wakeup ptr prio m = Returns m' evs r \<Longrightarrow>
    cond_signalled evs (pcs[i := M_out]) pcs' \<Longrightarrow>
    mq_step \<lparr>mq_mem = m, mq_pcs = pcs\<rparr> \<lparr>mq_mem = m', mq_pcs = pcs'\<rparr>"
| send_repark: "i < length pcs \<Longrightarrow> pcs ! i = M_send_woken ptr prio \<Longrightarrow>
    mymq_send_wakeup ptr prio m = Waits m' \<Longrightarrow>
    mq_step \<lparr>mq_mem = m, mq_pcs = pcs\<rparr> \<lparr>mq_mem = m', mq_pcs = pcs[i := M_send ptr prio]\<rparr>"
| recv: "i < length pcs \<Longrightarrow> pcs ! i = M_out \<Longrightarrow>
    mymq_receive 0 mqinfo maxlen m = Returns m' evs r \<Longrightarrow> cond_signalled evs pcs pcs' \<Longrightarrow>
    mq_step \<lparr>mq_mem = m, mq_pcs = pcs\<rparr> \<lparr>mq_mem = m', mq_pcs = pcs'\<rparr>"
| recv_park: "i < length pcs \<Longrightarrow> pcs ! i = M_out \<Longrightarrow>
    mymq_receive 0 mqinfo maxlen m = Waits m' \<Longrightarrow>
    mq_step \<lparr>mq_mem = m, mq_pcs = pcs\<rparr> \<lparr>mq_mem = m', mq_pcs = pcs[i := M_recv]\<rparr>"
| recv_again: "i < length pcs \<Longrightarrow> pcs ! i = M_recv_woken \<Longrightarrow>
    mymq_receive_wakeup m = Returns m' evs r \<Longrightarrow> cond_signalled evs (pcs[i := M_out]) pcs' \<Longrightarrow>
    mq_step \<lparr>mq_mem = m, mq_pcs = pcs\<rparr> \<lparr>mq_mem = m', mq_pcs = pcs'\<rparr>"
| recv_repark: "i < length pcs \<Longrightarrow> pcs ! i = M_recv_woken \<Longrightarrow>
    mymq_receive_wakeup m = Waits m' \<Longrightarrow>
    mq_step \<lparr>mq_mem = m, mq_pcs = pcs\<rparr> \<lparr>mq_mem = m', mq_pcs = pcs[i := M_recv]\<rparr>"
| spurious: "i < length pcs \<Longrightarrow> parked (pcs ! i) \<Longrightarrow>
    mq_step \<lparr>mq_mem = m, mq_pcs = pcs\<rparr> \<lparr>mq_mem = m, mq_pcs = pcs[i := wake (pcs ! i)]\<rparr>"
| notify: "i < length pcs \<Longrightarrow> pcs ! i = M_out \<Longrightarrow>
    mymq_notify 0 pid kill0 mqinfo ev m = Returns m' evs r \<Longrightarrow>
    mq_step \<lparr>mq_mem = m, mq_pcs = pcs\<rparr> \<lparr>mq_mem = m', mq_pcs = pcs\<rparr>"

definition mq_start :: "nat \<Rightarrow> mymq_attr \<Rightarrow> mapped \<Rightarrow> nat \<Rightarrow> mq_sys \<Rightarrow> bool" where
  "mq_start hsz attr img nthreads s \<longleftrightarrow>
    s = \<lparr>mq_mem = mq_init hsz attr img, mq_pcs = replicate nthreads M_out\<rparr>"

section \<open>The sections in the machine\<close>

text \<open>What a section may do to the queue: keep it well-formed and change \<open>mqh_nwait\<close> by \<open>d\<close>.\<close>

definition mq_keeps :: "nat \<Rightarrow> mapped \<Rightarrow> int \<Rightarrow> mapped \<Rightarrow> bool" where
  "mq_keeps hsz m d m' \<longleftrightarrow>
    mq_wf hsz m' \<and> msgsize_of m' = msgsize_of m \<and>
    mqh_nwait (mq_hdr m') = mqh_nwait (mq_hdr m) + d"

lemma mq_keeps_refl: "mq_wf hsz m \<Longrightarrow> mq_keeps hsz m 0 m"
  by (simp add: mq_keeps_def)

lemma mymq_send_keeps:
  assumes wf: "mq_wf hsz m" and run: "mymq_send 0 mqinfo ptr prio m = Returns m' evs r"
  shows "mq_keeps hsz m 0 m'"
proof (cases "is_open mqinfo \<and> length ptr \<le> msgsize_of m \<and> \<not> is_full m")
  case True
  then show ?thesis
    using mymq_send_ok [OF wf, of mqinfo ptr prio] run by (auto simp: mq_keeps_def)
next
  case False
  then have "m' = m"
    using wf run by (auto simp: mymq_send_def dest: mq_wf_attr(2) split: if_splits)
  then show ?thesis using wf by (simp add: mq_keeps_refl)
qed

lemma put_get_never_wait:
  "send_put ptr prio m evs \<noteq> Waits m'" "receive_get m \<noteq> Waits m'"
  by (auto simp: send_put_def receive_get_def Let_def split: option.splits)

lemma mymq_send_parks:
  assumes "mq_wf hsz m" and "mymq_send 0 mqinfo ptr prio m = Waits m'"
  shows "m' = m \<and> length ptr \<le> msgsize_of m"
  using assms by (auto simp: mymq_send_def put_get_never_wait split: if_splits prod.splits)

lemma mymq_send_wakeup_keeps:
  assumes wf: "mq_wf hsz m" and len: "length ptr \<le> msgsize_of m"
    and run: "mymq_send_wakeup ptr prio m = Returns m' evs r"
  shows "mq_keeps hsz m 0 m'"
proof -
  from run have "\<not> is_full m" and put: "send_put ptr prio m [] = Returns m' evs r"
    by (auto simp: mymq_send_wakeup_def split: if_splits)
  with send_put_correct [OF wf _ len, of prio "[]"] show ?thesis
    by (auto simp: mq_keeps_def same_setup_def)
qed

lemma mymq_send_wakeup_parks: "mymq_send_wakeup ptr prio m = Waits m' \<Longrightarrow> m' = m"
  by (auto simp: mymq_send_wakeup_def put_get_never_wait split: if_splits)

lemma mymq_receive_keeps:
  assumes wf: "mq_wf hsz m" and run: "mymq_receive 0 mqinfo maxlen m = Returns m' evs r"
  shows "mq_keeps hsz m 0 m'"
proof (cases "is_open mqinfo \<and> msgsize_of m \<le> maxlen \<and> mq_abs m \<noteq> []")
  case True
  then show ?thesis
    using mymq_receive_ok [OF wf, of mqinfo maxlen] run by (auto simp: mq_keeps_def same_setup_def)
next
  case False
  then have "m' = m"
    using wf run mq_wf_empty [OF wf] by (auto simp: mymq_receive_def split: if_splits)
  then show ?thesis using wf by (simp add: mq_keeps_refl)
qed

lemma mymq_receive_parks:
  "mq_wf hsz m \<Longrightarrow> mymq_receive 0 mqinfo maxlen m = Waits m' \<Longrightarrow> mq_keeps hsz m 1 m'"
  by (auto simp: mymq_receive_def put_get_never_wait set_nwait_frame mq_keeps_def split: if_splits)

lemma mymq_receive_wakeup_keeps:
  assumes wf: "mq_wf hsz m" and run: "mymq_receive_wakeup m = Returns m' evs r"
  shows "mq_keeps hsz m (- 1) m'"
proof -
  let ?m = "set_nwait (mqh_nwait (mq_hdr m) - 1) m"
  from run have "mq_curmsgs (attr_of ?m) \<noteq> 0" and get: "receive_get ?m = Returns m' evs r"
    by (auto simp: mymq_receive_wakeup_def set_nwait_frame split: if_splits)
  moreover have "mq_wf hsz ?m" using wf by (simp add: set_nwait_frame)
  ultimately show ?thesis
    using receive_get_correct [of hsz ?m] by (auto simp: mq_keeps_def same_setup_def set_nwait_frame)
qed

lemma mymq_receive_wakeup_parks: "mymq_receive_wakeup m = Waits m' \<Longrightarrow> m' = m"
  by (auto simp: mymq_receive_wakeup_def put_get_never_wait split: if_splits)

lemma mymq_notify_keeps:
  assumes wf: "mq_wf hsz m" and run: "mymq_notify n pid kill0 mqinfo ev m = Returns m' evs r"
  shows "mq_keeps hsz m 0 m'"
proof -
  have "mq_wf hsz m' \<longleftrightarrow> mq_wf hsz m"
    by (rule mq_frame_hdr; use run in \<open>auto simp: mymq_notify_def Let_def split: if_splits option.splits\<close>)
  moreover have "attr_of m' = attr_of m \<and> mqh_nwait (mq_hdr m') = mqh_nwait (mq_hdr m)"
    using run by (auto simp: mymq_notify_def Let_def split: if_splits option.splits)
  ultimately show ?thesis using wf by (simp add: mq_keeps_def)
qed

section \<open>The invariant\<close>

text \<open>
  The queue is well-formed, \<open>mqh_nwait\<close> counts the threads that are inside the waiting loop of
  \<open>mymq_receive\<close>, and a waiting sender holds a message that fits.
\<close>

definition receivers :: "mq_pc list \<Rightarrow> int" where
  "receivers pcs = int (count_list pcs M_recv) + int (count_list pcs M_recv_woken)"

fun fits :: "nat \<Rightarrow> mq_pc \<Rightarrow> bool" where
  "fits n (M_send ptr _) = (length ptr \<le> n)"
| "fits n (M_send_woken ptr _) = (length ptr \<le> n)"
| "fits n _ = True"

definition mq_sys_inv :: "nat \<Rightarrow> mq_sys \<Rightarrow> bool" where
  [inv_defs]: "mq_sys_inv hsz s \<longleftrightarrow>
    mq_wf hsz (mq_mem s) \<and> mqh_nwait (mq_hdr (mq_mem s)) = receivers (mq_pcs s) \<and>
    (\<forall>pc \<in> set (mq_pcs s). fits (msgsize_of (mq_mem s)) pc)"

fun is_receiver :: "mq_pc \<Rightarrow> int" where
  "is_receiver M_recv = 1"
| "is_receiver M_recv_woken = 1"
| "is_receiver _ = 0"

lemma receivers_update:
  "i < length pcs \<Longrightarrow> receivers (pcs[i := pc]) = receivers pcs - is_receiver (pcs ! i) + is_receiver pc"
  by (cases "pcs ! i"; cases pc) (auto simp: receivers_def count_list_update)

lemma fits_update:
  "\<forall>pc \<in> set pcs. fits n pc \<Longrightarrow> fits n pc' \<Longrightarrow> \<forall>pc \<in> set (pcs[i := pc']). fits n pc"
  using set_update_subset_insert by fastforce

lemma wake_same:
  "parked pc \<Longrightarrow> is_receiver (wake pc) = is_receiver pc" "fits n pc \<Longrightarrow> fits n (wake pc)"
  by (cases pc; simp)+

lemma cond_signalled_same:
  assumes "cond_signalled evs pcs pcs'"
  shows "receivers pcs' = receivers pcs"
    and "\<forall>pc \<in> set pcs. fits n pc \<Longrightarrow> \<forall>pc \<in> set pcs'. fits n pc"
  using assms
proof (induction rule: cond_signalled.induct)
  case (one_waiter evs i pcs)
  {
    case 1
    then show ?case using one_waiter by (simp add: receivers_update wake_same)
  next
    case 2
    then show ?case using one_waiter by (intro fits_update) (auto intro: wake_same)
  }
qed auto

lemma mq_sys_inv_move:
  assumes "mq_sys_inv hsz \<lparr>mq_mem = m, mq_pcs = pcs\<rparr>" and "mq_keeps hsz m d m'"
    and "i < length pcs" and "is_receiver pc = is_receiver (pcs ! i) + d"
    and "fits (msgsize_of m) pc"
  shows "mq_sys_inv hsz \<lparr>mq_mem = m', mq_pcs = pcs[i := pc]\<rparr>"
  using assms fits_update [of pcs "msgsize_of m" pc i]
  by (simp add: mq_sys_inv_def mq_keeps_def receivers_update)

lemma mq_sys_inv_stay:
  assumes "mq_sys_inv hsz \<lparr>mq_mem = m, mq_pcs = pcs\<rparr>" and "i < length pcs"
    and "is_receiver pc = is_receiver (pcs ! i)" and "fits (msgsize_of m) pc"
  shows "mq_sys_inv hsz \<lparr>mq_mem = m, mq_pcs = pcs[i := pc]\<rparr>"
  using assms by (intro mq_sys_inv_move [where d = 0]) (simp_all add: mq_keeps_def mq_sys_inv_def)

lemma mq_sys_inv_signal:
  assumes "mq_sys_inv hsz \<lparr>mq_mem = m, mq_pcs = pcs\<rparr>" and "cond_signalled evs pcs pcs'"
  shows "mq_sys_inv hsz \<lparr>mq_mem = m, mq_pcs = pcs'\<rparr>"
  using assms cond_signalled_same [OF assms(2)] by (simp add: mq_sys_inv_def)

lemma mq_sys_inv_same_pcs:
  assumes "mq_sys_inv hsz \<lparr>mq_mem = m, mq_pcs = pcs\<rparr>" and "mq_keeps hsz m 0 m'"
  shows "mq_sys_inv hsz \<lparr>mq_mem = m', mq_pcs = pcs\<rparr>"
  using assms by (simp add: mq_sys_inv_def mq_keeps_def)

lemma mq_step_inv:
  assumes "mq_step s t" and "mq_sys_inv hsz s"
  shows "mq_sys_inv hsz t"
  using assms
proof (induction rule: mq_step.induct)
  case (send i pcs mqinfo ptr prio m m' evs r pcs')
  then have "mq_keeps hsz m 0 m'" by (auto intro: mymq_send_keeps simp: mq_sys_inv_def)
  with send show ?case by (blast intro: mq_sys_inv_same_pcs mq_sys_inv_signal)
next
  case (send_park i pcs mqinfo ptr prio m m')
  then have "m' = m \<and> length ptr \<le> msgsize_of m"
    using mymq_send_parks [of hsz m mqinfo ptr prio m'] by (simp add: mq_sys_inv_def)
  with send_park show ?case
    by (auto intro: mq_sys_inv_stay)
next
  case (send_again i pcs ptr prio m m' evs r pcs')
  then have "length ptr \<le> msgsize_of m" by (auto simp: mq_sys_inv_def dest!: nth_mem)
  with send_again have "mq_keeps hsz m 0 m'"
    by (auto intro: mymq_send_wakeup_keeps simp: mq_sys_inv_def)
  then have "mq_sys_inv hsz \<lparr>mq_mem = m', mq_pcs = pcs[i := M_out]\<rparr>"
    using send_again by (intro mq_sys_inv_move) auto
  with send_again show ?case by (blast intro: mq_sys_inv_signal)
next
  case (send_repark i pcs ptr prio m m')
  then have "m' = m" and "length ptr \<le> msgsize_of m"
    by (auto simp: mymq_send_wakeup_parks mq_sys_inv_def dest!: nth_mem)
  with send_repark show ?case
    by (auto intro: mq_sys_inv_stay)
next
  case (recv i pcs mqinfo maxlen m m' evs r pcs')
  then have "mq_keeps hsz m 0 m'" by (auto intro: mymq_receive_keeps simp: mq_sys_inv_def)
  with recv show ?case by (blast intro: mq_sys_inv_same_pcs mq_sys_inv_signal)
next
  case (recv_park i pcs mqinfo maxlen m m')
  then have "mq_keeps hsz m 1 m'" by (auto intro: mymq_receive_parks simp: mq_sys_inv_def)
  with recv_park show ?case by (intro mq_sys_inv_move) auto
next
  case (recv_again i pcs m m' evs r pcs')
  then have "mq_keeps hsz m (- 1) m'"
    by (auto intro: mymq_receive_wakeup_keeps simp: mq_sys_inv_def)
  then have "mq_sys_inv hsz \<lparr>mq_mem = m', mq_pcs = pcs[i := M_out]\<rparr>"
    using recv_again by (intro mq_sys_inv_move) auto
  with recv_again show ?case by (blast intro: mq_sys_inv_signal)
next
  case (recv_repark i pcs m m')
  then have "m' = m" by (simp add: mymq_receive_wakeup_parks)
  with recv_repark show ?case
    by (auto intro: mq_sys_inv_stay)
next
  case (spurious i pcs m)
  then have "fits (msgsize_of m) (pcs ! i)" by (simp add: mq_sys_inv_def)
  with spurious show ?case by (intro mq_sys_inv_stay) (simp_all add: wake_same)
next
  case (notify i pcs pid kill0 mqinfo ev m m' evs r)
  then have "mq_keeps hsz m 0 m'" by (auto intro: mymq_notify_keeps simp: mq_sys_inv_def)
  with notify show ?case by (blast intro: mq_sys_inv_same_pcs)
qed

lemma count_list_replicate_other: "a \<noteq> b \<Longrightarrow> count_list (replicate n a) b = 0"
  by (induction n) auto

lemma mq_start_inv:
  "attr_ok hsz (mq_maxmsg attr) (mq_msgsize attr) \<Longrightarrow> mq_start hsz attr img k s \<Longrightarrow> mq_sys_inv hsz s"
  using mq_init_correct [of hsz attr img]
  by (auto simp: mq_start_def mq_sys_inv_def receivers_def count_list_replicate_other mq_init_def)

text \<open>The invariant contract, for the initial queues that \<open>mymq_open\<close> makes of usable attributes.\<close>

interpretation mq_machine: inductive_invariant
  "\<lambda>s. attr_ok hsz (mq_maxmsg attr) (mq_msgsize attr) \<and> mq_start hsz attr img k s"
  mq_step "mq_sys_inv hsz" for hsz attr img k
  by unfold_locales (auto intro: mq_start_inv mq_step_inv)

section \<open>Properties\<close>

text \<open>
  C6. Whatever the interleaving of sends, receives, notifications, wakeups and spurious wakeups of
  any number of threads, the mapped queue stays well-formed and \<open>mqh_nwait\<close> is the number of threads
  in the waiting loop of \<open>mymq_receive\<close>.
\<close>

theorem mq_threads_safe:
  assumes "reach (\<lambda>s. attr_ok hsz (mq_maxmsg attr) (mq_msgsize attr) \<and> mq_start hsz attr img k s)
    mq_step s"
  shows "mq_wf hsz (mq_mem s) \<and> mqh_nwait (mq_hdr (mq_mem s)) = receivers (mq_pcs s)"
  using mq_machine.inv_reach [OF assms] by (simp add: mq_sys_inv_def)

text \<open>A run of three threads on a queue for three messages: two receivers wait, two messages come.\<close>

lemma lost_wakeup_run:
  "\<exists>m. reach (\<lambda>s. attr_ok 200 (mq_maxmsg small_attr) (mq_msgsize small_attr) \<and>
        mq_start 200 small_attr zero_file 3 s) mq_step
      \<lparr>mq_mem = m, mq_pcs = [M_out, M_recv, M_out]\<rparr> \<and> length (mq_abs m) = 1"
proof -
  let ?o = "mq_opened 0" and ?R = "reach (\<lambda>s. attr_ok 200 (mq_maxmsg small_attr)
    (mq_msgsize small_attr) \<and> mq_start 200 small_attr zero_file 3 s) mq_step"
  have op: "is_open ?o" by (simp add: mq_opened_def)
  let ?m2 = "set_nwait 2 (set_nwait 1 small_queue)"
  have nw: "mqh_nwait (mq_hdr small_queue) = 0" by (simp add: small_queue_def mq_init_def)
  have m2: "mq_wf 200 ?m2" "mq_abs ?m2 = []" "attr_of ?m2 = attr_of small_queue"
    by (simp_all add: set_nwait_frame small_queue_wf)
  have "?R \<lparr>mq_mem = small_queue, mq_pcs = [M_out, M_out, M_out]\<rparr>"
    by (rule reach_start) (simp add: mq_start_def small_queue_def small_attr_ok numeral_3_eq_3)
  moreover have recv: "mymq_receive 0 ?o 8 small_queue = Waits (set_nwait 1 small_queue)"
    "mymq_receive 0 ?o 8 (set_nwait 1 small_queue) = Waits ?m2"
    by (simp_all add: mymq_receive_def mq_opened_def set_nwait_frame small_queue_attr nw)
  ultimately have "?R \<lparr>mq_mem = set_nwait 1 small_queue, mq_pcs = [M_recv, M_out, M_out]\<rparr>"
    using mq_step.recv_park [OF _ _ recv(1), of 0 "[M_out, M_out, M_out]"] by (auto intro: reach_step)
  then have r2: "?R \<lparr>mq_mem = ?m2, mq_pcs = [M_recv, M_recv, M_out]\<rparr>"
    using mq_step.recv_park [OF _ _ recv(2), of 1 "[M_recv, M_out, M_out]"] by (auto intro: reach_step)
  have "\<not> is_full ?m2" and "length [] \<le> msgsize_of ?m2" by (simp_all add: m2 small_queue_attr)
  from mymq_send_ok [OF m2(1) op this(2,1), of 0] obtain m3 where
    s3: "mymq_send 0 ?o [] 0 ?m2 = Returns m3 (send_events ?m2) (Inr ())" and
    m3: "mq_wf 200 m3" "length (mq_abs m3) = 1" "mq_maxmsg (attr_of m3) = 3"
    by (auto simp: m2 small_queue_attr mq_insert_def)
  have "cond_signalled (send_events ?m2) [M_recv, M_recv, M_out] [M_recv_woken, M_recv, M_out]"
    using cond_signalled.one_waiter [of "send_events ?m2" 0 "[M_recv, M_recv, M_out]"]
    by (simp add: send_events_def m2 small_queue_attr)
  with r2 s3 have r3: "?R \<lparr>mq_mem = m3, mq_pcs = [M_recv_woken, M_recv, M_out]\<rparr>"
    using mq_step.send [of 2 "[M_recv, M_recv, M_out]"] by (auto intro: reach_step)
  have c3: "mq_curmsgs (attr_of m3) = 1" using m3 by (simp add: mq_wf_count)
  then have full3: "\<not> is_full m3" using m3 by simp
  from mymq_send_ok [OF m3(1) op _ full3, of "[]" 0] obtain m4 where
    s4: "mymq_send 0 ?o [] 0 m3 = Returns m4 (send_events m3) (Inr ())" and
    m4: "mq_wf 200 m4" "mq_abs m4 = mq_insert 0 [] (mq_abs m3)" "mq_maxmsg (attr_of m4) = 3"
    using m3 by auto
  have "cond_signalled (send_events m3) [M_recv_woken, M_recv, M_out] [M_recv_woken, M_recv, M_out]"
    by (rule cond_signalled.no_signal) (simp add: send_events_def c3)
  with r3 s4 have r4: "?R \<lparr>mq_mem = m4, mq_pcs = [M_recv_woken, M_recv, M_out]\<rparr>"
    using mq_step.send [of 2 "[M_recv_woken, M_recv, M_out]"] by (auto intro: reach_step)
  let ?m4 = "set_nwait (mqh_nwait (mq_hdr m4) - 1) m4"
  have l4: "length (mq_abs m4) = 2" using m4(2) m3(2) by (cases "mq_abs m3") (auto simp: mq_insert_def)
  then have c4: "mq_curmsgs (attr_of m4) = 2" using m4 by (simp add: mq_wf_count)
  then obtain m5 d p where get: "receive_get ?m4 = Returns m5 [] (Inr (d, p))"
    and a5: "mq_abs ?m4 = (p, d) # mq_abs m5"
    using receive_get_correct [of 200 ?m4] m4 by (auto simp: set_nwait_frame)
  have "mymq_receive_wakeup m4 = Returns m5 [] (Inr (d, p))"
    using get c4 by (simp add: mymq_receive_wakeup_def)
  moreover have "cond_signalled [] [M_out, M_recv, M_out] [M_out, M_recv, M_out]"
    by (rule cond_signalled.no_signal) simp
  ultimately have "?R \<lparr>mq_mem = m5, mq_pcs = [M_out, M_recv, M_out]\<rparr>"
    using r4 mq_step.recv_again [of 0 "[M_recv_woken, M_recv, M_out]"] by (auto intro: reach_step)
  with a5 l4 show ?thesis by (auto simp: set_nwait_frame)
qed

text \<open>
  C10. A wakeup can be lost: \<open>mymq_send\<close> signals only when the queue was empty, so with two waiting
  receivers and two messages sent before the first of them runs there is one signal only. A state
  is reachable in which the queue holds a message, a receiver is parked in \<open>mymq_receive\<close>, and no
  thread has been woken.
\<close>

theorem mq_lost_wakeup:
  "\<exists>s. reach (\<lambda>s. attr_ok 200 (mq_maxmsg small_attr) (mq_msgsize small_attr) \<and>
        mq_start 200 small_attr zero_file 3 s) mq_step s \<and>
    mq_abs (mq_mem s) \<noteq> [] \<and> M_recv \<in> set (mq_pcs s) \<and> \<not> list_ex woken (mq_pcs s)"
proof -
  obtain m where "reach (\<lambda>s. attr_ok 200 (mq_maxmsg small_attr) (mq_msgsize small_attr) \<and>
        mq_start 200 small_attr zero_file 3 s) mq_step
      \<lparr>mq_mem = m, mq_pcs = [M_out, M_recv, M_out]\<rparr>" and "length (mq_abs m) = 1"
    using lost_wakeup_run by blast
  then show ?thesis by (intro exI [of _ "\<lparr>mq_mem = m, mq_pcs = [M_out, M_recv, M_out]\<rparr>"]) auto
qed

theorem mq_threads_safe_witness:
  "\<exists>s :: mq_sys. mq_wf 200 (mq_mem s) \<and> mqh_nwait (mq_hdr (mq_mem s)) = receivers (mq_pcs s) \<and>
    receivers (mq_pcs s) = 1"
proof -
  obtain m where "reach (\<lambda>s. attr_ok 200 (mq_maxmsg small_attr) (mq_msgsize small_attr) \<and>
        mq_start 200 small_attr zero_file 3 s) mq_step
      \<lparr>mq_mem = m, mq_pcs = [M_out, M_recv, M_out]\<rparr>"
    using lost_wakeup_run by blast
  from mq_threads_safe [OF this] show ?thesis
    by (intro exI [of _ "\<lparr>mq_mem = m, mq_pcs = [M_out, M_recv, M_out]\<rparr>"]) (auto simp: receivers_def)
qed

section \<open>Every operation keeps the type of the image\<close>

text \<open>The section ends, without a failing check in the code, and leaves an image that is well-formed.\<close>

fun well_typed :: "nat \<Rightarrow> (mapped, 'e, 'r) cs_outcome \<Rightarrow> bool" where
  "well_typed hsz (Returns m evs r) = mq_wf hsz m"
| "well_typed hsz (Waits m) = mq_wf hsz m"
| "well_typed hsz _ = False"

lemma well_typedI:
  assumes "\<And>m evs r. out = Returns m evs r \<Longrightarrow> mq_keeps hsz m0 d m" and "\<And>m. out = Waits m \<Longrightarrow> mq_wf hsz m"
    and "\<And>m. out \<noteq> Aborts m" and "out \<noteq> Diverges"
  shows "well_typed hsz out"
  using assms by (cases out) (auto simp: mq_keeps_def)

lemma send_put_ends:
  assumes "mq_wf hsz m" and "\<not> is_full m" and "length ptr \<le> msgsize_of m"
  shows "send_put ptr prio m evs \<noteq> Aborts m'" "send_put ptr prio m evs \<noteq> Diverges"
  using send_put_correct [OF assms(1) _ assms(3), of prio evs] assms(2) by auto

lemma receive_get_ends:
  assumes "mq_wf hsz m" and "mq_curmsgs (attr_of m) \<noteq> 0"
  shows "receive_get m \<noteq> Aborts m'" "receive_get m \<noteq> Diverges"
  using receive_get_correct [OF assms] by auto

lemma locked_or_not:
  "mymq_send n mqinfo ptr prio m = mymq_send 0 mqinfo ptr prio m \<or> (\<exists>e. mymq_send n mqinfo ptr prio m = Returns m [] (Inl e))"
  "mymq_receive n mqinfo maxlen m = mymq_receive 0 mqinfo maxlen m \<or> (\<exists>e. mymq_receive n mqinfo maxlen m = Returns m [] (Inl e))"
  by (auto simp: mymq_send_def mymq_receive_def)

lemma mymq_send_typed:
  assumes wf: "mq_wf hsz m"
  shows "well_typed hsz (mymq_send n mqinfo ptr prio m)"
proof -
  have "mymq_send 0 mqinfo ptr prio m \<noteq> Aborts m'" "mymq_send 0 mqinfo ptr prio m \<noteq> Diverges" for m'
    using mymq_send_ok [OF wf, of mqinfo ptr prio] wf
    by (auto simp: mymq_send_def dest: mq_wf_attr(2) split: if_splits prod.splits)
  then have "well_typed hsz (mymq_send 0 mqinfo ptr prio m)"
    using mymq_send_keeps [OF wf] mymq_send_parks [OF wf, of mqinfo ptr prio] wf by (intro well_typedI) auto
  then show ?thesis using locked_or_not(1) [of n mqinfo ptr prio m] wf by auto
qed

lemma mymq_receive_typed:
  assumes wf: "mq_wf hsz m"
  shows "well_typed hsz (mymq_receive n mqinfo maxlen m)"
proof -
  have "mymq_receive 0 mqinfo maxlen m \<noteq> Aborts m'" "mymq_receive 0 mqinfo maxlen m \<noteq> Diverges" for m'
    using receive_get_ends [OF wf] by (auto simp: mymq_receive_def)
  then have "well_typed hsz (mymq_receive 0 mqinfo maxlen m)"
    using mymq_receive_keeps [OF wf] mymq_receive_parks [OF wf] by (intro well_typedI) (auto simp: mq_keeps_def)
  then show ?thesis using locked_or_not(2) [of n mqinfo maxlen m] wf by auto
qed

lemma mymq_wakeups_typed:
  assumes wf: "mq_wf hsz m"
  shows "length ptr \<le> msgsize_of m \<Longrightarrow> well_typed hsz (mymq_send_wakeup ptr prio m)"
    and "well_typed hsz (mymq_receive_wakeup m)"
proof -
  have wf': "mq_wf hsz (set_nwait k m)" for k using wf by (simp add: set_nwait_frame)
  show "well_typed hsz (mymq_send_wakeup ptr prio m)" if "length ptr \<le> msgsize_of m"
    using mymq_send_wakeup_keeps [OF wf that] mymq_send_wakeup_parks [of ptr prio m] wf send_put_ends [OF wf _ that]
    by (intro well_typedI) (auto simp: mymq_send_wakeup_def)
  show "well_typed hsz (mymq_receive_wakeup m)"
    using mymq_receive_wakeup_keeps [OF wf] mymq_receive_wakeup_parks [of m] wf receive_get_ends [OF wf']
    by (intro well_typedI) (auto simp: mymq_receive_wakeup_def set_nwait_frame)
qed

lemma mymq_notify_returns: "\<exists>m' r. mymq_notify n pid kill0 mqinfo ev m = Returns m' [] r"
  by (cases ev) (simp_all add: mymq_notify_def Let_def)

lemma mymq_notify_typed:
  assumes wf: "mq_wf hsz m"
  shows "well_typed hsz (mymq_notify n pid kill0 mqinfo ev m)"
  using mymq_notify_returns [of n pid kill0 mqinfo ev m] mymq_notify_keeps [OF wf] by (fastforce simp: mq_keeps_def)

lemma mymq_close_typed:
  assumes wf: "mq_wf hsz m"
  shows "mq_wf hsz (fst (mymq_close hsz n pid kill0 munmap mqinfo m))"
proof -
  obtain m' r where run: "mymq_notify n pid kill0 mqinfo None m = Returns m' [] r" using mymq_notify_returns by blast
  with mymq_notify_keeps [OF wf this] wf show ?thesis
    by (cases r) (auto simp: mymq_close_def mq_keeps_def split: sum.splits)
qed

text \<open>
  C7. The type of a mapped queue: every operation, called with whatever arguments and with whatever result
  of \<open>pthread_mutex_lock\<close>, and every section after a wait, ends on a well-formed image without running
  into a failing check and without looping, and leaves a well-formed image.
\<close>

theorem mymq_operations_typed:
  assumes "mq_wf hsz m"
  shows "well_typed hsz (mymq_send n mqinfo ptr prio m) \<and>
    well_typed hsz (mymq_receive n mqinfo maxlen m) \<and>
    (length ptr \<le> msgsize_of m \<longrightarrow> well_typed hsz (mymq_send_wakeup ptr prio m)) \<and>
    well_typed hsz (mymq_receive_wakeup m) \<and>
    well_typed hsz (mymq_notify n pid kill0 mqinfo ev m) \<and>
    well_typed hsz (mymq_getattr n mqinfo m) \<and>
    mq_wf hsz (fst (mymq_close hsz n pid kill0 munmap mqinfo m))"
proof -
  have "well_typed hsz (mymq_getattr n mqinfo m)" using assms by (simp add: mymq_getattr_def)
  then show ?thesis
    using mymq_send_typed [OF assms] mymq_receive_typed [OF assms] mymq_wakeups_typed [OF assms]
      mymq_notify_typed [OF assms] mymq_close_typed [OF assms] by blast
qed

theorem mymq_operations_typed_witness:
  "well_typed 200 (mymq_send 0 (mq_opened 0) [1, 2] 3 small_queue) \<and>
    well_typed 200 (mymq_receive 0 (mq_opened 0) 100 small_queue)"
  using mymq_operations_typed [OF small_queue_wf(1)] by blast

end
