(* ===== verification/Syscall.thy ===== *)
theory Syscall
  imports Ipc_Prelude "HOL-Library.Monad_Syntax"
begin

text \<open>
  System calls. Code that makes system calls runs against a list of answers, one for each call it
  makes, and keeps the trace of the calls with their answers; when the answers are used up, or an
  answer does not have the shape of the call's result, there is no run (\<open>None\<close>). A statement about
  all lists of answers is a statement about everything the system may do.
\<close>

section \<open>Calls and answers\<close>

datatype sys_call =
    Open string uint uint
  | Close int
  | Lseek int int
  | Write int nat
  | Read int nat
  | Mmap nat int
  | Munmap int nat
  | Malloc nat
  | Free int
  | Stat string
  | Fchmod int uint
  | Unlink string
  | Sleep nat
  | Sysconf string
  | Pthread string
  | Mkfifo string uint
  | Fcntl_getfl int
  | Fcntl_setfl int uint
  | Ftok string
  | Semget int nat uint
  | Sem_setval int nat
  | Sem_op int int
  | Sem_stat int
  | Sem_rmid int

datatype answer = Gives int | Fails errno | Stats uint int

type_synonym trace = "(sys_call \<times> answer) list"
type_synonym world = "answer list \<times> trace"

text \<open>A call that returns a number, or fails with an error number.\<close>

definition sys :: "sys_call \<Rightarrow> world \<Rightarrow> (int result \<times> world) option" where
  "sys c w =
    (case fst w of
      Gives v # as \<Rightarrow> Some (Inr v, (as, snd w @ [(c, Gives v)]))
    | Fails e # as \<Rightarrow> Some (Inl e, (as, snd w @ [(c, Fails e)]))
    | _ \<Rightarrow> None)"

text \<open>A call of the thread library, which returns 0 or an error number.\<close>

definition sys_pth :: "string \<Rightarrow> world \<Rightarrow> (int \<times> world) option" where
  "sys_pth f w =
    (case fst w of
      Gives v # as \<Rightarrow> Some (v, (as, snd w @ [(Pthread f, Gives v)]))
    | _ \<Rightarrow> None)"

text \<open>\<open>stat\<close>, with the mode and the size of the file.\<close>

definition sys_stat :: "string \<Rightarrow> world \<Rightarrow> ((uint \<times> int) result \<times> world) option" where
  "sys_stat path w =
    (case fst w of
      Stats m s # as \<Rightarrow> Some (Inr (m, s), (as, snd w @ [(Stat path, Stats m s)]))
    | Fails e # as \<Rightarrow> Some (Inl e, (as, snd w @ [(Stat path, Fails e)]))
    | _ \<Rightarrow> None)"

text \<open>\<open>IPC_STAT\<close> of a semaphore, with its \<open>sem_otime\<close> as the size of the answer.\<close>

definition sys_unless :: "bool \<Rightarrow> sys_call \<Rightarrow> world \<Rightarrow> (int result \<times> world) option" where
  "sys_unless skip c w = (if skip then Some (Inr 0, w) else sys c w)"

section \<open>What a trace leaves behind\<close>

text \<open>
  The resources that a trace has acquired and not asked to release: descriptors, mappings,
  allocated blocks, and files it created.
\<close>

record res =
  r_fds :: "int list"
  r_maps :: "int list"
  r_mems :: "int list"
  r_names :: "string list"

unbundle bit_operations_syntax

fun res_step :: "res \<Rightarrow> sys_call \<times> answer \<Rightarrow> res" where
  "res_step r (Open path flags mode, Gives fd) =
    r\<lparr>r_fds := fd # r_fds r, r_names := (if flags AND O_CREAT \<noteq> 0 then path # r_names r else r_names r)\<rparr>"
| "res_step r (Close fd, _) = r\<lparr>r_fds := remove1 fd (r_fds r)\<rparr>"
| "res_step r (Mmap len fd, Gives p) = r\<lparr>r_maps := p # r_maps r\<rparr>"
| "res_step r (Munmap p len, _) = r\<lparr>r_maps := remove1 p (r_maps r)\<rparr>"
| "res_step r (Malloc len, Gives p) = r\<lparr>r_mems := p # r_mems r\<rparr>"
| "res_step r (Free p, _) = r\<lparr>r_mems := remove1 p (r_mems r)\<rparr>"
| "res_step r (Mkfifo path mode, Gives _) = r\<lparr>r_names := path # r_names r\<rparr>"
| "res_step r (Unlink path, _) = r\<lparr>r_names := remove1 path (r_names r)\<rparr>"
| "res_step r _ = r"

abbreviation no_res :: res where
  "no_res \<equiv> \<lparr>r_fds = [], r_maps = [], r_mems = [], r_names = []\<rparr>"

definition left_by :: "trace \<Rightarrow> res" where
  "left_by tr = foldl res_step no_res tr"

lemma left_by_append [simp]: "left_by (tr @ es) = foldl res_step (left_by tr) es"
  by (simp add: left_by_def)

lemma left_by_Cons [simp]: "left_by (e # tr) = foldl res_step no_res (e # tr)"
  by (simp add: left_by_def)

lemma left_by_nil [simp]: "left_by [] = no_res"
  by (simp add: left_by_def)

text \<open>A call has one of two answers: the rules cut a run at its first call.\<close>

lemma bind_sysE:
  assumes "Option.bind (sys c w) f = Some x"
  obtains v as where "fst w = Gives v # as" and "f (Inr v, (as, snd w @ [(c, Gives v)])) = Some x"
  | e as where "fst w = Fails e # as" and "f (Inl e, (as, snd w @ [(c, Fails e)])) = Some x"
  using assms by (auto simp: sys_def split: list.splits answer.splits)

lemma bind_pthE:
  assumes "Option.bind (sys_pth c w) f = Some x"
  obtains v as where "fst w = Gives v # as" and "f (v, (as, snd w @ [(Pthread c, Gives v)])) = Some x"
  using assms by (auto simp: sys_pth_def split: list.splits answer.splits)

lemma bind_statE:
  assumes "Option.bind (sys_stat c w) f = Some x"
  obtains m s as where "fst w = Stats m s # as"
    and "f (Inr (m, s), (as, snd w @ [(Stat c, Stats m s)])) = Some x"
  | e as where "fst w = Fails e # as" and "f (Inl e, (as, snd w @ [(Stat c, Fails e)])) = Some x"
  using assms by (auto simp: sys_stat_def split: list.splits answer.splits)

lemma bind_SomeE:
  assumes "Option.bind m f = Some x"
  obtains y where "m = Some y" and "f y = Some x"
  using assms by (cases m) auto

lemmas call_elims = bind_sysE bind_pthE bind_statE

lemma sys_consumes:
  "sys c (Gives v # as, tr) = Some (Inr v, (as, tr @ [(c, Gives v)]))"
  "sys c (Fails e # as, tr) = Some (Inl e, (as, tr @ [(c, Fails e)]))"
  "sys_pth f (Gives v # as, tr) = Some (v, (as, tr @ [(Pthread f, Gives v)]))"
  "sys_stat p (Stats m s # as, tr) = Some (Inr (m, s), (as, tr @ [(Stat p, Stats m s)]))"
  "sys_stat p (Fails e # as, tr) = Some (Inl e, (as, tr @ [(Stat p, Fails e)]))"
  by (simp_all add: sys_def sys_pth_def sys_stat_def)

end
