(* ===== verification/Mqueue_Open.thy ===== *)
theory Mqueue_Open
  imports Mqueue Syscall
begin

text \<open>
  \<open>mymq_open\<close> of \<open>src/my_pxmsg_mmap/mq_open.c\<close> with all its system calls: the creation and
  initialisation of the file, the wait for another process to finish its initialisation, the race
  between creation and removal (\<open>goto again\<close>), and the error exits.
\<close>

section \<open>The code\<close>

abbreviation (input) MAX_TRIES :: nat where "MAX_TRIES \<equiv> 10"

definition defattr :: mymq_attr where
  "defattr = \<lparr>mq_flags = 0, mq_maxmsg = 128, mq_msgsize = 1024, mq_curmsgs = 0\<rparr>"

text \<open>
  What a successful open hands out: the allocated descriptor, the mapping, the flags in the
  descriptor, and the attributes with which it initialised the queue (\<^const>\<open>mq_init\<close>), if it did.
\<close>

record mq_handle =
  h_info :: int
  h_map :: int
  h_flags :: uint
  h_init :: "mymq_attr option"

text \<open>The label \<open>err\<close>: \<open>mptr\<close> and \<open>mqinfo\<close> are \<open>None\<close> while they are \<open>MAP_FAILED\<close> and \<open>NULL\<close>.\<close>

definition mq_open_err ::
  "string \<Rightarrow> bool \<Rightarrow> int option \<Rightarrow> nat \<Rightarrow> int option \<Rightarrow> int \<Rightarrow> errno \<Rightarrow> world
    \<Rightarrow> (mq_handle result \<times> world) option" where
  "mq_open_err pathname created mptr filesize mqinfo fd errno w =
    do {
      (_, w) \<leftarrow> (if created then sys (Unlink pathname) w else Some (Inr 0, w));
      (_, w) \<leftarrow> (case mptr of None \<Rightarrow> Some (Inr 0, w) | Some p \<Rightarrow> sys (Munmap p filesize) w);
      (_, w) \<leftarrow> (case mqinfo of None \<Rightarrow> Some (Inr 0, w) | Some q \<Rightarrow> sys (Free q) w);
      (_, w) \<leftarrow> sys (Close fd) w;
      Some (Inl errno, w)
    }"

text \<open>
  The mutex and the condition variable in the mapped header: 0, or the error number of the first
  call that failed. The attribute objects are destroyed in any case.
\<close>

definition mq_open_pthreads :: "world \<Rightarrow> (int \<times> world) option" where
  "mq_open_pthreads w =
    do {
      (i, w) \<leftarrow> sys_pth ''pthread_mutexattr_init'' w;
      if i \<noteq> 0 then Some (i, w) else do {
        (_, w) \<leftarrow> sys_pth ''pthread_mutexattr_setpshared'' w;
        (i, w) \<leftarrow> sys_pth ''pthread_mutex_init'' w;
        (_, w) \<leftarrow> sys_pth ''pthread_mutexattr_destroy'' w;
        if i \<noteq> 0 then Some (i, w) else do {
          (i, w) \<leftarrow> sys_pth ''pthread_condattr_init'' w;
          if i \<noteq> 0 then Some (i, w) else do {
            (_, w) \<leftarrow> sys_pth ''pthread_condattr_setpshared'' w;
            (i, w) \<leftarrow> sys_pth ''pthread_cond_init'' w;
            (_, w) \<leftarrow> sys_pth ''pthread_condattr_destroy'' w;
            Some (i, w)
          }
        }
      }
    }"

text \<open>From the successful creation of the file (\<open>created = 1\<close>) to the return.\<close>

definition mq_open_create ::
  "nat \<Rightarrow> string \<Rightarrow> uint \<Rightarrow> uint \<Rightarrow> mymq_attr option \<Rightarrow> int \<Rightarrow> world
    \<Rightarrow> (mq_handle result \<times> world) option" where
  "mq_open_create hsz pathname nonblock mode attr fd w =
    (let err = mq_open_err pathname True in
     if attr \<noteq> None \<and> (mq_maxmsg (the attr) \<le> 0 \<or> mq_msgsize (the attr) \<le> 0)
     then err None 0 None fd EINVAL w
     else
       let a = (case attr of None \<Rightarrow> defattr | Some a \<Rightarrow> a);
           filesize = mq_filesize hsz (mq_maxmsg a) (mq_msgsize a)
       in do {
         (r, w) \<leftarrow> sys (Lseek fd (int filesize - 1)) w;
         case r of Inl e \<Rightarrow> err None 0 None fd e w | Inr _ \<Rightarrow> do {
         (r, w) \<leftarrow> sys (Write fd 1) w;
         case r of Inl e \<Rightarrow> err None 0 None fd e w | Inr _ \<Rightarrow> do {
         (r, w) \<leftarrow> sys (Mmap filesize fd) w;
         case r of Inl e \<Rightarrow> err None 0 None fd e w | Inr mptr \<Rightarrow> do {
         (r, w) \<leftarrow> sys (Malloc 24) w;
         case r of Inl e \<Rightarrow> err (Some mptr) filesize None fd e w | Inr mqinfo \<Rightarrow> do {
         (i, w) \<leftarrow> mq_open_pthreads w;
         if i \<noteq> 0 then err (Some mptr) filesize (Some mqinfo) fd i w else do {
         (r, w) \<leftarrow> sys (Fchmod fd mode) w;
         case r of Inl e \<Rightarrow> err (Some mptr) filesize (Some mqinfo) fd e w | Inr _ \<Rightarrow> do {
         (_, w) \<leftarrow> sys (Close fd) w;
         Some (Inr \<lparr>h_info = mqinfo, h_map = mptr, h_flags = nonblock, h_init = Some a\<rparr>, w)
         }}}}}}
       })"

text \<open>
  The loop that waits for the initialisation: \<open>n\<close> tries are left. It ends with the size of the
  file, with \<open>goto again\<close>, or with an error.
\<close>

datatype tries = Ready int | Again | Failed errno

fun mq_open_tries :: "nat \<Rightarrow> string \<Rightarrow> uint \<Rightarrow> int \<Rightarrow> world \<Rightarrow> (tries \<times> world) option" where
  "mq_open_tries 0 pathname oflag fd w = Some (Failed ETIMEDOUT, w)"
| "mq_open_tries (Suc n) pathname oflag fd w =
    do {
      (r, w) \<leftarrow> sys_stat pathname w;
      case r of
        Inl e \<Rightarrow>
          if e = ENOENT \<and> oflag AND O_CREAT \<noteq> 0 then do {
            (_, w) \<leftarrow> sys (Close fd) w;
            Some (Again, w)
          } else Some (Failed e, w)
      | Inr (md, sz) \<Rightarrow>
          if md AND S_IXUSR = 0 then Some (Ready sz, w)
          else do {
            (_, w) \<leftarrow> sys (Sleep 1) w;
            mq_open_tries n pathname oflag fd w
          }
    }"

text \<open>The part after the wait: map the file and allocate the descriptor.\<close>

definition mq_open_map ::
  "string \<Rightarrow> uint \<Rightarrow> int \<Rightarrow> int \<Rightarrow> world \<Rightarrow> (mq_handle result \<times> world) option" where
  "mq_open_map pathname nonblock fd filesize w =
    do {
      (r, w) \<leftarrow> sys (Mmap (nat filesize) fd) w;
      case r of
        Inl e \<Rightarrow> mq_open_err pathname False None 0 None fd e w
      | Inr mptr \<Rightarrow> do {
          (_, w) \<leftarrow> sys (Close fd) w;
          (r, w) \<leftarrow> sys (Malloc 24) w;
          case r of
            Inl e \<Rightarrow> mq_open_err pathname False (Some mptr) (nat filesize) None fd e w
          | Inr mqinfo \<Rightarrow>
              Some (Inr \<lparr>h_info = mqinfo, h_map = mptr, h_flags = nonblock, h_init = None\<rparr>, w)
        }
    }"

text \<open>
  The whole function. \<open>mode0\<close> and \<open>attr\<close> are the optional arguments. The recursive calls are the
  jumps to \<open>again\<close>; \<open>oflag\<close> comes without \<open>O_NONBLOCK\<close>.
\<close>

partial_function (option) mq_open_again ::
  "nat \<Rightarrow> string \<Rightarrow> uint \<Rightarrow> uint \<Rightarrow> uint \<Rightarrow> mymq_attr option \<Rightarrow> world
    \<Rightarrow> (mq_handle result \<times> world) option" where
  "mq_open_again hsz pathname nonblock oflag mode attr w =
    do {
      (c, w) \<leftarrow> (if oflag AND O_CREAT \<noteq> 0
                then sys (Open pathname (oflag OR O_EXCL OR O_RDWR) (mode OR S_IXUSR)) w
                else Some (Inl EEXIST, w));
      (case c of
        Inr fd \<Rightarrow> mq_open_create hsz pathname nonblock mode attr fd w
      | Inl e \<Rightarrow>
          if oflag AND O_CREAT \<noteq> 0 \<and> \<not> (e = EEXIST \<and> oflag AND O_EXCL = 0) then Some (Inl e, w)
          else do {
            (r, w) \<leftarrow> sys (Open pathname O_RDWR 0) w;
            (case r of
              Inl e \<Rightarrow>
                if e = ENOENT \<and> oflag AND O_CREAT \<noteq> 0
                then mq_open_again hsz pathname nonblock oflag mode attr w
                else mq_open_err pathname False None 0 None (- 1) e w
            | Inr fd \<Rightarrow> do {
                (t, w) \<leftarrow> mq_open_tries MAX_TRIES pathname oflag fd w;
                (case t of
                  Again \<Rightarrow> mq_open_again hsz pathname nonblock oflag mode attr w
                | Failed e \<Rightarrow> mq_open_err pathname False None 0 None fd e w
                | Ready sz \<Rightarrow> mq_open_map pathname nonblock fd sz w)
              })
          })
    }"

definition mymq_open ::
  "nat \<Rightarrow> string \<Rightarrow> uint \<Rightarrow> uint \<Rightarrow> mymq_attr option \<Rightarrow> world \<Rightarrow> (mq_handle result \<times> world) option" where
  "mymq_open hsz pathname oflag mode0 attr w =
    mq_open_again hsz pathname (oflag AND O_NONBLOCK) (oflag AND NOT O_NONBLOCK)
      (mode0 AND NOT S_IXUSR) attr w"

definition mymq_unlink :: "string \<Rightarrow> world \<Rightarrow> (unit result \<times> world) option" where
  "mymq_unlink pathname w =
    do {
      (r, w) \<leftarrow> sys (Unlink pathname) w;
      Some (case r of Inl e \<Rightarrow> Inl e | Inr _ \<Rightarrow> Inr (), w)
    }"

section \<open>Nothing is left behind\<close>

text \<open>What a call may leave: after an error what was there before it, after success also the mapping,
  the descriptor block and, when it created the file, the name.\<close>

definition mq_leaves :: "string \<Rightarrow> res \<Rightarrow> mq_handle result \<Rightarrow> res \<Rightarrow> bool" where
  "mq_leaves pathname r0 r r1 \<longleftrightarrow>
    (case r of
      Inl e \<Rightarrow> r1 = r0
    | Inr h \<Rightarrow> r1 = r0\<lparr>r_maps := h_map h # r_maps r0, r_mems := h_info h # r_mems r0,
                      r_names := (if h_init h = None then r_names r0 else pathname # r_names r0)\<rparr>)"

lemma mq_leaves_error: "mq_leaves pathname r0 (Inl e) r1 \<longleftrightarrow> r1 = r0"
  by (simp add: mq_leaves_def)

lemma mq_open_pthreads_leaves:
  assumes "mq_open_pthreads w = Some (i, w')"
  shows "left_by (snd w') = left_by (snd w)"
  using assms unfolding mq_open_pthreads_def
  by (auto elim!: call_elims split: if_splits)

lemma mq_open_tries_leaves:
  "mq_open_tries n pathname oflag fd w = Some (t, w') \<Longrightarrow> left_by (snd w') =
    (if t = Again then (left_by (snd w))\<lparr>r_fds := remove1 fd (r_fds (left_by (snd w)))\<rparr> else left_by (snd w))"
proof (induction n arbitrary: w)
  case (Suc n)
  then show ?case by (auto elim!: call_elims split: if_splits)
qed auto

lemma bind_pthreadsE:
  assumes "Option.bind (mq_open_pthreads w) f = Some x"
  obtains i w' where "left_by (snd w') = left_by (snd w)" and "f (i, w') = Some x"
proof (cases "mq_open_pthreads w")
  case (Some y)
  with assms mq_open_pthreads_leaves [of w "fst y" "snd y"] that [of "snd y" "fst y"] show ?thesis by simp
qed (use assms in simp)

lemma mq_open_errE:
  assumes "mq_open_err pathname created mptr filesize mqinfo fd e w = Some (r, w')"
  obtains "r = Inl e" and "left_by (snd w') =
    (let r0 = left_by (snd w) in
     \<lparr>r_fds = remove1 fd (r_fds r0),
      r_maps = (case mptr of None \<Rightarrow> r_maps r0 | Some p \<Rightarrow> remove1 p (r_maps r0)),
      r_mems = (case mqinfo of None \<Rightarrow> r_mems r0 | Some q \<Rightarrow> remove1 q (r_mems r0)),
      r_names = (if created then remove1 pathname (r_names r0) else r_names r0)\<rparr>)"
  using assms unfolding mq_open_err_def Let_def
  by (cases created; cases mptr; cases mqinfo; auto elim!: call_elims)

lemmas mq_open_elims = call_elims bind_pthreadsE mq_open_errE

lemma mq_open_create_leaves:
  assumes "mq_open_create hsz pathname nonblock mode attr fd w = Some (r, w')"
    and "left_by (snd w) = r0\<lparr>r_fds := fd # r_fds r0, r_names := pathname # r_names r0\<rparr>"
  shows "mq_leaves pathname r0 r (left_by (snd w'))"
  using assms unfolding mq_open_create_def Let_def
  by (auto elim!: mq_open_elims simp: mq_leaves_def split: if_splits)

lemma mq_open_map_leaves:
  assumes "mq_open_map pathname nonblock fd filesize w = Some (r, w')"
    and "left_by (snd w) = r0\<lparr>r_fds := fd # r_fds r0\<rparr>" and "fd \<notin> set (r_fds r0)"
  shows "mq_leaves pathname r0 r (left_by (snd w'))"
  using assms unfolding mq_open_map_def
  by (auto elim!: mq_open_elims simp: mq_leaves_def remove1_idem)

lemma creat_flag: "(oflag OR 130) AND O_CREAT = oflag AND O_CREAT" for oflag :: uint
  by (simp add: bit.conj_disj_distrib2)

lemma bind_triesE:
  assumes "Option.bind (mq_open_tries n pathname oflag fd w) f = Some x"
  obtains t w' where "left_by (snd w') =
      (if t = Again then (left_by (snd w))\<lparr>r_fds := remove1 fd (r_fds (left_by (snd w)))\<rparr> else left_by (snd w))"
    and "f (t, w') = Some x"
proof (cases "mq_open_tries n pathname oflag fd w")
  case (Some y)
  with assms mq_open_tries_leaves [of n pathname oflag fd w "fst y" "snd y"] that [of "snd y" "fst y"]
  show ?thesis by simp
qed (use assms in simp)

text \<open>The two last parts of a call, from a trace that holds the descriptor only.\<close>

lemma mq_open_map_ends:
  "mq_open_map pathname nonblock fd sz w = Some (r, w') \<Longrightarrow>
    left_by (snd w) = \<lparr>r_fds = [fd], r_maps = [], r_mems = [], r_names = []\<rparr> \<longrightarrow>
    mq_leaves pathname no_res r (left_by (snd w'))"
  by (auto intro!: mq_open_map_leaves)

lemma mq_open_create_ends:
  "mq_open_create hsz pathname nonblock mode attr fd w = Some (r, w') \<Longrightarrow>
    left_by (snd w) = \<lparr>r_fds = [fd], r_maps = [], r_mems = [], r_names = [pathname]\<rparr> \<longrightarrow>
    mq_leaves pathname no_res r (left_by (snd w'))"
  by (auto intro!: mq_open_create_leaves)

lemma mq_open_again_leaves:
  assumes "mq_open_again hsz pathname nonblock oflag mode attr w = Some y" and "left_by (snd w) = no_res"
  shows "mq_leaves pathname no_res (fst y) (left_by (snd (snd y)))"
  using assms
proof (induction rule: mq_open_again.raw_induct [rotated, consumes 1, case_names again])
  case (again rec hsz pathname nonblock oflag mode attr w y)
  obtain r w' where y: "y = (r, w')" by (cases y)
  have IH: "rec hsz pathname nonblock oflag mode attr v = Some (r, w') \<Longrightarrow>
      left_by (snd v) = no_res \<longrightarrow> mq_leaves pathname no_res r (left_by (snd w'))" for v
    using again(1) [of hsz pathname nonblock oflag mode attr v y] y by simp
  show ?case
    using again(2,3) y
    by (cases "oflag AND O_CREAT = 0")
      (auto elim!: mq_open_elims bind_triesE split: if_splits tries.splits
        dest!: IH mq_open_map_ends mq_open_create_ends simp: mq_leaves_error creat_flag)
qed

section \<open>Properties\<close>

text \<open>
  C30. \<open>mymq_open\<close> cleans up on every error path, whatever the system answers: a call that fails
  leaves no descriptor, no mapping, no allocated block and no file that it created; a call that
  succeeds leaves the mapping, the descriptor block and, when it created the queue, the file, and
  no open descriptor.
\<close>

theorem mymq_open_leaves_nothing:
  assumes "mymq_open hsz pathname oflag mode attr (as, []) = Some (r, (as', tr))"
  shows "mq_leaves pathname no_res r (left_by tr)"
  using mq_open_again_leaves [of hsz pathname "oflag AND O_NONBLOCK" "oflag AND NOT O_NONBLOCK"
      "mode AND NOT S_IXUSR" attr "(as, [])" "(r, (as', tr))"] assms by (simp add: mymq_open_def)

text \<open>The answers of a system on which creating a queue succeeds.\<close>

definition all_succeed :: "answer list" where
  "all_succeed = [Gives 3, Gives 0, Gives 1, Gives 4096, Gives 77, Gives 0, Gives 0, Gives 0, Gives 0,
     Gives 0, Gives 0, Gives 0, Gives 0, Gives 0, Gives 0]"

theorem mymq_open_leaves_nothing_witness:
  "\<exists>h tr. mymq_open 200 ''/q'' (O_CREAT OR O_RDWR) 420 None (all_succeed, []) = Some (Inr h, ([], tr)) \<and>
    left_by tr = \<lparr>r_fds = [], r_maps = [4096], r_mems = [77], r_names = [''/q'']\<rparr>"
proof -
  have "\<exists>tr. mymq_open 200 ''/q'' (O_CREAT OR O_RDWR) 420 None (all_succeed, [])
      = Some (Inr \<lparr>h_info = 77, h_map = 4096, h_flags = 0, h_init = Some defattr\<rparr>, ([], tr))"
    unfolding mymq_open_def
    by (subst mq_open_again.simps)
      (simp add: all_succeed_def mq_open_create_def mq_open_pthreads_def sys_consumes Let_def)
  then obtain tr where run: "mymq_open 200 ''/q'' (O_CREAT OR O_RDWR) 420 None (all_succeed, [])
      = Some (Inr \<lparr>h_info = 77, h_map = 4096, h_flags = 0, h_init = Some defattr\<rparr>, ([], tr))" by blast
  from mymq_open_leaves_nothing [OF run] run show ?thesis by (auto simp: mq_leaves_def)
qed

lemma mq_open_tries_wait:
  assumes "md AND S_IXUSR \<noteq> 0"
  shows "mq_open_tries n pathname oflag fd (concat (replicate n [Stats md sz, Gives 0]) @ as, tr) =
    Some (Failed ETIMEDOUT, (as, tr @ concat (replicate n [(Stat pathname, Stats md sz), (Sleep 1, Gives 0)])))"
  using assms by (induction n arbitrary: tr) (simp_all add: sys_consumes)

text \<open>
  C31. A process that opens a queue whose creator never finishes gives up: when \<open>stat\<close> always shows
  the user-execute bit, \<open>mymq_open\<close> without \<open>O_CREAT\<close> looks 10 times, one second apart, closes the
  descriptor and fails with ETIMEDOUT.
\<close>

theorem mymq_open_times_out:
  assumes "md AND S_IXUSR \<noteq> 0"
  shows "mymq_open hsz pathname O_RDWR mode attr
      (Gives fd # concat (replicate 10 [Stats md sz, Gives 0]) @ [Gives 0], []) =
    Some (Inl ETIMEDOUT, ([], (Open pathname O_RDWR 0, Gives fd) #
      concat (replicate 10 [(Stat pathname, Stats md sz), (Sleep 1, Gives 0)]) @ [(Close fd, Gives 0)]))"
  unfolding mymq_open_def using mq_open_tries_wait [OF assms, of 10]
  by (subst mq_open_again.simps) (simp add: sys_consumes mq_open_err_def)

theorem mymq_open_times_out_witness:
  "\<exists>w. mymq_open 200 ''/q'' O_RDWR 0 None
    (Gives 3 # concat (replicate 10 [Stats 484 0, Gives 0]) @ [Gives 0], []) = Some (Inl ETIMEDOUT, w)"
  using mymq_open_times_out [of 484 200 "''/q''" 0 None 3 0] by auto

text \<open>
  When the descriptor block of an existing queue cannot be allocated, \<open>mymq_open\<close> closes the
  file descriptor twice: it was closed after the mapping, and the code at \<open>err\<close> closes it again.
\<close>

lemma mymq_open_closes_twice:
  assumes "md AND S_IXUSR = 0"
  shows "\<exists>tr. mymq_open hsz pathname O_RDWR mode attr
      ([Gives fd, Stats md sz, Gives p, Gives 0, Fails ENOMEM, Gives 0, Fails EBADF], []) =
        Some (Inl ENOMEM, ([], tr)) \<and>
    filter (\<lambda>c. fst c = Close fd) tr = [(Close fd, Gives 0), (Close fd, Fails EBADF)]"
  unfolding mymq_open_def using assms
  by (subst mq_open_again.simps)
    (simp add: sys_consumes mq_open_err_def mq_open_map_def eval_nat_numeral)

end
