(* ===== verification/Pxsem.thy ===== *)
theory Pxsem
  imports Ipc_Prelude
begin

text \<open>
  The three implementations of POSIX semaphores: on a mapped file with a mutex and a condition
  variable (\<open>src/my_pxsem_mmap\<close>), on a System V semaphore (\<open>src/my_pxsem_svsem\<close>) and on a FIFO
  (\<open>src/my_pxsem_fifo\<close>). The contract of a counting semaphore with a largest value is a locale,
  and each implementation interprets it.
\<close>

section \<open>The contract\<close>

text \<open>
  A semaphore has a value; a wait completes exactly when the value is positive, and takes one; a
  post completes below the largest value, and adds one. \<open>usable\<close> is what keeps the operations from
  failing.
\<close>

locale counting_sem =
  fixes sval :: "'s \<Rightarrow> nat"
    and swait :: "'s \<Rightarrow> 's option"
    and spost :: "'s \<Rightarrow> 's option"
    and usable :: "'s \<Rightarrow> bool"
    and limit :: nat
  assumes wait_blocks: "usable s \<Longrightarrow> sval s = 0 \<Longrightarrow> swait s = None"
    and wait_takes: "usable s \<Longrightarrow> 0 < sval s \<Longrightarrow>
      \<exists>s'. swait s = Some s' \<and> usable s' \<and> sval s' = sval s - 1"
    and post_adds: "usable s \<Longrightarrow> sval s < limit \<Longrightarrow>
      \<exists>s'. spost s = Some s' \<and> usable s' \<and> sval s' = sval s + 1"
begin

lemma wait_SomeD:
  "usable s \<Longrightarrow> swait s = Some s' \<Longrightarrow> usable s' \<and> 0 < sval s \<and> sval s' = sval s - 1"
  using wait_blocks [of s] wait_takes [of s] by (cases "sval s") auto

lemma post_SomeD:
  "usable s \<Longrightarrow> sval s < limit \<Longrightarrow> spost s = Some s' \<Longrightarrow> usable s' \<and> sval s' = sval s + 1"
  using post_adds [of s] by auto

lemma post_then_wait:
  assumes "usable s" and "sval s < limit" and "spost s = Some t"
  shows "\<exists>u. swait t = Some u \<and> usable u \<and> sval u = sval s"
  using post_SomeD [OF assms] wait_takes [of t] by auto

end

text \<open>The semaphore after a call that returned 0.\<close>

fun completes :: "('s, 'e, unit result) cs_outcome \<Rightarrow> 's option" where
  "completes (Returns s evs (Inr _)) = Some s"
| "completes _ = None"

section \<open>The mapped file\<close>

record mysem =
  sem_count :: uint
  sem_magic :: uint

abbreviation (input) SEM_MAGIC :: uint where "SEM_MAGIC \<equiv> 0x67458923"

datatype sem_event = Sem_signal

text \<open>\<open>n\<close> is what \<open>pthread_mutex_lock\<close> returned. The loop around \<open>pthread_cond_wait\<close> tests the count.\<close>

definition mysem_wait_wakeup :: "mysem \<Rightarrow> (mysem, sem_event, unit result) cs_outcome" where
  "mysem_wait_wakeup sem =
    (if sem_count sem = 0 then Waits sem
     else Returns (sem\<lparr>sem_count := sem_count sem - 1\<rparr>) [] (Inr ()))"

definition mysem_wait :: "int \<Rightarrow> mysem \<Rightarrow> (mysem, sem_event, unit result) cs_outcome" where
  "mysem_wait n sem =
    (if sem_magic sem \<noteq> SEM_MAGIC then Returns sem [] (Inl EINVAL)
     else if n \<noteq> 0 then Returns sem [] (Inl n)
     else mysem_wait_wakeup sem)"

definition mysem_post :: "int \<Rightarrow> mysem \<Rightarrow> (mysem, sem_event, unit result) cs_outcome" where
  "mysem_post n sem =
    (if sem_magic sem \<noteq> SEM_MAGIC then Returns sem [] (Inl EINVAL)
     else if n \<noteq> 0 then Returns sem [] (Inl n)
     else Returns (sem\<lparr>sem_count := sem_count sem + 1\<rparr>)
       (if sem_count sem = 0 then [Sem_signal] else []) (Inr ()))"

definition mysem_trywait :: "int \<Rightarrow> mysem \<Rightarrow> (mysem, sem_event, unit result) cs_outcome" where
  "mysem_trywait n sem =
    (if sem_magic sem \<noteq> SEM_MAGIC then Returns sem [] (Inl EINVAL)
     else if n \<noteq> 0 then Returns sem [] (Inl n)
     else if 0 < sem_count sem then Returns (sem\<lparr>sem_count := sem_count sem - 1\<rparr>) [] (Inr ())
     else Returns sem [] (Inl EAGAIN))"

text \<open>The unsigned count is stored into an \<open>int\<close>.\<close>

definition mysem_getvalue :: "int \<Rightarrow> mysem \<Rightarrow> int result" where
  "mysem_getvalue n sem =
    (if sem_magic sem \<noteq> SEM_MAGIC then Inl EINVAL
     else if n \<noteq> 0 then Inl n
     else Inr (sint (sem_count sem)))"

text \<open>\<open>munmap\<close> is the answer of the call.\<close>

definition mysem_close :: "unit result \<Rightarrow> mysem \<Rightarrow> unit result" where
  "mysem_close munmap sem = (if sem_magic sem \<noteq> SEM_MAGIC then Inl EINVAL else munmap)"

section \<open>The System V semaphore\<close>

text \<open>
  A System V semaphore of one member: its value and whether a \<open>semop\<close> was ever done
  (\<open>sem_otime\<close>). A call that would wait returns EINTR when a signal is caught meanwhile. An
  identifier with no semaphore (removed, or never made) gives EINVAL.
\<close>

record svsem =
  semval :: nat
  sem_otime :: bool

abbreviation (input) SEMVMX :: nat where "SEMVMX \<equiv> 32767"

definition semop :: "bool \<Rightarrow> int \<Rightarrow> bool \<Rightarrow> svsem option \<Rightarrow> (svsem option, unit, unit result) cs_outcome" where
  "semop sig sem_op nowait ks =
    (case ks of
      None \<Rightarrow> Returns ks [] (Inl EINVAL)
    | Some k \<Rightarrow>
        if 0 < sem_op then
          (if SEMVMX < semval k + nat sem_op then Returns ks [] (Inl ERANGE)
           else Returns (Some (k\<lparr>semval := semval k + nat sem_op, sem_otime := True\<rparr>)) [] (Inr ()))
        else if sem_op = 0 \<and> semval k = 0 \<or> sem_op < 0 \<and> nat (- sem_op) \<le> semval k then
          Returns (Some (k\<lparr>semval := semval k - nat (- sem_op), sem_otime := True\<rparr>)) [] (Inr ())
        else if nowait then Returns ks [] (Inl EAGAIN)
        else if sig then Returns ks [] (Inl EINTR)
        else Waits ks)"

record mysem_sv =
  sem_semid :: int
  sem_magic_sv :: uint

abbreviation (input) SEM_MAGIC_SV :: uint where "SEM_MAGIC_SV \<equiv> 0x45678923"

text \<open>\<open>ks\<close> is the semaphore that \<open>sem_semid\<close> names.\<close>

definition sv_call ::
  "bool \<Rightarrow> int \<Rightarrow> bool \<Rightarrow> mysem_sv \<Rightarrow> svsem option \<Rightarrow> (svsem option, unit, unit result) cs_outcome" where
  "sv_call sig sem_op nowait sem ks =
    (if sem_magic_sv sem \<noteq> SEM_MAGIC_SV then Returns ks [] (Inl EINVAL)
     else semop sig sem_op nowait ks)"

definition mysem_wait_sv :: "bool \<Rightarrow> mysem_sv \<Rightarrow> svsem option \<Rightarrow> (svsem option, unit, unit result) cs_outcome" where
  "mysem_wait_sv sig sem ks = sv_call sig (- 1) False sem ks"

definition mysem_post_sv :: "mysem_sv \<Rightarrow> svsem option \<Rightarrow> (svsem option, unit, unit result) cs_outcome" where
  "mysem_post_sv sem ks = sv_call False 1 False sem ks"

definition mysem_trywait_sv :: "mysem_sv \<Rightarrow> svsem option \<Rightarrow> (svsem option, unit, unit result) cs_outcome" where
  "mysem_trywait_sv sem ks = sv_call False (- 1) True sem ks"

definition mysem_getvalue_sv :: "mysem_sv \<Rightarrow> svsem option \<Rightarrow> int result" where
  "mysem_getvalue_sv sem ks =
    (if sem_magic_sv sem \<noteq> SEM_MAGIC_SV then Inl EINVAL
     else case ks of None \<Rightarrow> Inl EINVAL | Some k \<Rightarrow> Inr (int (semval k)))"

definition mysem_close_sv :: "mysem_sv \<Rightarrow> mysem_sv \<times> unit result" where
  "mysem_close_sv sem =
    (if sem_magic_sv sem \<noteq> SEM_MAGIC_SV then (sem, Inl EINVAL)
     else (sem\<lparr>sem_magic_sv := 0\<rparr>, Inr ()))"

section \<open>The FIFO\<close>

text \<open>
  The bytes in the FIFO and how many it holds. The read end blocks, the write end does not
  (\<open>O_NONBLOCK\<close> stays on \<open>sem_fd[1]\<close>). The process itself keeps the write end open, so a read of an
  empty FIFO waits.
\<close>

record fifo =
  fifo_bytes :: nat
  fifo_size :: nat

definition fifo_write1 :: "fifo \<Rightarrow> fifo \<times> nat result" where
  "fifo_write1 f =
    (if fifo_bytes f < fifo_size f then (f\<lparr>fifo_bytes := fifo_bytes f + 1\<rparr>, Inr 1) else (f, Inl EAGAIN))"

definition fifo_read1 :: "bool \<Rightarrow> fifo \<Rightarrow> (fifo, unit, nat result) cs_outcome" where
  "fifo_read1 sig f =
    (if 0 < fifo_bytes f then Returns (f\<lparr>fifo_bytes := fifo_bytes f - 1\<rparr>) [] (Inr 1)
     else if sig then Returns f [] (Inl EINTR)
     else Waits f)"

record mysem_fifo =
  sem_fd0 :: int
  sem_fd1 :: int
  sem_magic_fifo :: uint

abbreviation (input) SEM_MAGIC_FIFO :: uint where "SEM_MAGIC_FIFO \<equiv> 0x89674523"

text \<open>A count other than 1 gives -1 with whatever \<open>errno\<close> is; the model passes \<open>errno0\<close> for it.\<close>

definition mysem_post_fifo :: "errno \<Rightarrow> mysem_fifo \<Rightarrow> fifo \<Rightarrow> (fifo, unit, unit result) cs_outcome" where
  "mysem_post_fifo errno0 sem f =
    (if sem_magic_fifo sem \<noteq> SEM_MAGIC_FIFO then Returns f [] (Inl EINVAL)
     else case fifo_write1 f of
       (f', Inr n) \<Rightarrow> Returns f' [] (if n = 1 then Inr () else Inl errno0)
     | (f', Inl e) \<Rightarrow> Returns f' [] (Inl e))"

definition mysem_wait_fifo :: "bool \<Rightarrow> errno \<Rightarrow> mysem_fifo \<Rightarrow> fifo \<Rightarrow> (fifo, unit, unit result) cs_outcome" where
  "mysem_wait_fifo sig errno0 sem f =
    (if sem_magic_fifo sem \<noteq> SEM_MAGIC_FIFO then Returns f [] (Inl EINVAL)
     else case fifo_read1 sig f of
       Returns f' evs (Inr n) \<Rightarrow> Returns f' [] (if n = 1 then Inr () else Inl errno0)
     | Returns f' evs (Inl e) \<Rightarrow> Returns f' [] (Inl e)
     | Waits f' \<Rightarrow> Waits f'
     | _ \<Rightarrow> Diverges)"

text \<open>
  \<open>close0\<close> and \<open>close1\<close> are the answers of the two \<open>close\<close> calls; the second call is made only when
  the first succeeds. The result is the descriptors closed, the semaphore and the return value.
\<close>

definition mysem_close_fifo ::
  "unit result \<Rightarrow> unit result \<Rightarrow> mysem_fifo \<Rightarrow> int list \<times> mysem_fifo \<times> unit result" where
  "mysem_close_fifo close0 close1 sem =
    (if sem_magic_fifo sem \<noteq> SEM_MAGIC_FIFO then ([], sem, Inl EINVAL)
     else
       let sem' = sem\<lparr>sem_magic_fifo := 0\<rparr> in
       case close0 of
         Inl e \<Rightarrow> ([sem_fd0 sem], sem', Inl e)
       | Inr _ \<Rightarrow> ([sem_fd0 sem, sem_fd1 sem], sem', close1))"

section \<open>The implementations meet the contract\<close>

definition mmap_wait :: "mysem \<Rightarrow> mysem option" where
  "mmap_wait sem = completes (mysem_wait 0 sem)"

definition mmap_post :: "mysem \<Rightarrow> mysem option" where
  "mmap_post sem = completes (mysem_post 0 sem)"

lemmas mmap_sem_defs = mmap_wait_def mmap_post_def mysem_wait_def mysem_wait_wakeup_def mysem_post_def

lemma unat_dec: "x \<noteq> 0 \<Longrightarrow> unat (x - 1) = unat x - 1" for x :: uint
  by (metis unat_minus_one)

lemma unat_inc: "unat x < 4294967295 \<Longrightarrow> unat (x + 1) = unat x + 1" for x :: uint
  by (simp add: unat_word_ariths)

interpretation mmap_sem: counting_sem "\<lambda>sem. unat (sem_count sem)" mmap_wait mmap_post
  "\<lambda>sem. sem_magic sem = SEM_MAGIC" 4294967295
  by unfold_locales (auto simp: mmap_sem_defs unat_dec unat_inc unat_eq_zero)

text \<open>The System V semaphore and the FIFO come with the structure that names them.\<close>

definition sv_wait :: "mysem_sv \<times> svsem option \<Rightarrow> (mysem_sv \<times> svsem option) option" where
  "sv_wait s = map_option (Pair (fst s)) (completes (mysem_wait_sv False (fst s) (snd s)))"

definition sv_post :: "mysem_sv \<times> svsem option \<Rightarrow> (mysem_sv \<times> svsem option) option" where
  "sv_post s = map_option (Pair (fst s)) (completes (mysem_post_sv (fst s) (snd s)))"

definition sv_usable :: "mysem_sv \<times> svsem option \<Rightarrow> bool" where
  "sv_usable s \<longleftrightarrow> sem_magic_sv (fst s) = SEM_MAGIC_SV \<and> snd s \<noteq> None"

definition sv_value :: "mysem_sv \<times> svsem option \<Rightarrow> nat" where
  "sv_value s = (case snd s of None \<Rightarrow> 0 | Some k \<Rightarrow> semval k)"

lemmas sv_sem_defs = sv_wait_def sv_post_def sv_usable_def sv_value_def mysem_wait_sv_def
  mysem_post_sv_def sv_call_def semop_def

interpretation sv_sem: counting_sem sv_value sv_wait sv_post sv_usable SEMVMX
  by unfold_locales (auto simp: sv_sem_defs)

definition fifo_wait :: "mysem_fifo \<times> fifo \<Rightarrow> (mysem_fifo \<times> fifo) option" where
  "fifo_wait s = map_option (Pair (fst s)) (completes (mysem_wait_fifo False 0 (fst s) (snd s)))"

definition fifo_post :: "mysem_fifo \<times> fifo \<Rightarrow> (mysem_fifo \<times> fifo) option" where
  "fifo_post s = map_option (Pair (fst s)) (completes (mysem_post_fifo 0 (fst s) (snd s)))"

definition fifo_usable :: "nat \<Rightarrow> mysem_fifo \<times> fifo \<Rightarrow> bool" where
  "fifo_usable cap s \<longleftrightarrow> sem_magic_fifo (fst s) = SEM_MAGIC_FIFO \<and> fifo_size (snd s) = cap"

lemmas fifo_sem_defs = fifo_wait_def fifo_post_def fifo_usable_def mysem_wait_fifo_def
  mysem_post_fifo_def fifo_read1_def fifo_write1_def

interpretation fifo_sem: counting_sem "\<lambda>s. fifo_bytes (snd s)" fifo_wait fifo_post "fifo_usable cap" cap
  for cap
  by unfold_locales (auto simp: fifo_sem_defs)

section \<open>Scripts of operations\<close>

text \<open>
  A script of posts (\<open>True\<close>) and waits that do not stay blocked (\<open>False\<close>, skipped when the value
  is 0), with what each of them answered; and the same on a number.
\<close>

fun sem_script :: "('s \<Rightarrow> 's option) \<Rightarrow> ('s \<Rightarrow> 's option) \<Rightarrow> bool list \<Rightarrow> 's \<Rightarrow> bool list \<times> 's" where
  "sem_script swait spost [] s = ([], s)"
| "sem_script swait spost (b # bs) s =
    (case (if b then spost s else swait s) of
      None \<Rightarrow> (case sem_script swait spost bs s of (as, t) \<Rightarrow> (False # as, t))
    | Some s' \<Rightarrow> (case sem_script swait spost bs s' of (as, t) \<Rightarrow> (True # as, t)))"

fun count_script :: "bool list \<Rightarrow> nat \<Rightarrow> bool list \<times> nat" where
  "count_script [] n = ([], n)"
| "count_script (b # bs) n =
    (if b then (case count_script bs (n + 1) of (as, m) \<Rightarrow> (True # as, m))
     else if n = 0 then (case count_script bs n of (as, m) \<Rightarrow> (False # as, m))
     else (case count_script bs (n - 1) of (as, m) \<Rightarrow> (True # as, m)))"

context counting_sem
begin

lemma script_counts:
  "usable s \<Longrightarrow> sval s + length bs \<le> limit \<Longrightarrow>
    fst (sem_script swait spost bs s) = fst (count_script bs (sval s)) \<and>
    sval (snd (sem_script swait spost bs s)) = snd (count_script bs (sval s))"
proof (induction bs arbitrary: s)
  case (Cons b bs)
  show ?case
  proof (cases b)
    case True
    from Cons.prems post_adds [of s] obtain s' where
      "spost s = Some s'" "usable s'" "sval s' = sval s + 1" by auto
    with True Cons.IH [of s'] Cons.prems(2) show ?thesis by (auto split: prod.splits)
  next
    case False
    show ?thesis
    proof (cases "sval s = 0")
      case True
      with wait_blocks [of s] Cons.prems Cons.IH [of s] False show ?thesis
        by (auto split: prod.splits)
    next
      case pos: False
      with wait_takes [of s] Cons.prems(1) obtain s' where
        "swait s = Some s'" "usable s'" "sval s' = sval s - 1" by auto
      with False pos Cons.IH [of s'] Cons.prems(2) show ?thesis by (auto split: prod.splits)
    qed
  qed
qed simp

end

section \<open>Properties\<close>

text \<open>
  C14. The three implementations behave alike: on any script of posts and waits they give the
  answers of a counter, and end with its value, as long as the value cannot exceed the largest
  value of each (\<open>UINT_MAX\<close>, \<open>SEMVMX\<close> and the capacity of the FIFO).
\<close>

theorem pxsem_implementations_agree:
  assumes "sem_magic sem = SEM_MAGIC" and "unat (sem_count sem) = n" and "n + length bs \<le> 4294967295"
    and "sv_usable sv" and "sv_value sv = n" and "n + length bs \<le> SEMVMX"
    and "fifo_usable cap f" and "fifo_bytes (snd f) = n" and "n + length bs \<le> cap"
  shows "fst (sem_script mmap_wait mmap_post bs sem) = fst (count_script bs n) \<and>
    fst (sem_script sv_wait sv_post bs sv) = fst (count_script bs n) \<and>
    fst (sem_script fifo_wait fifo_post bs f) = fst (count_script bs n) \<and>
    unat (sem_count (snd (sem_script mmap_wait mmap_post bs sem))) = snd (count_script bs n) \<and>
    sv_value (snd (sem_script sv_wait sv_post bs sv)) = snd (count_script bs n) \<and>
    fifo_bytes (snd (snd (sem_script fifo_wait fifo_post bs f))) = snd (count_script bs n)"
  using assms mmap_sem.script_counts [of sem bs] sv_sem.script_counts [of sv bs]
    fifo_sem.script_counts [of cap f bs] by simp

definition mysem_of :: "nat \<Rightarrow> mysem" where
  "mysem_of n = \<lparr>sem_count = of_nat n, sem_magic = SEM_MAGIC\<rparr>"

definition sv_sem_of :: "nat \<Rightarrow> mysem_sv \<times> svsem option" where
  "sv_sem_of n = (\<lparr>sem_semid = 7, sem_magic_sv = SEM_MAGIC_SV\<rparr>, Some \<lparr>semval = n, sem_otime = True\<rparr>)"

definition fifo_sem_of :: "nat \<Rightarrow> nat \<Rightarrow> mysem_fifo \<times> fifo" where
  "fifo_sem_of cap n =
    (\<lparr>sem_fd0 = 3, sem_fd1 = 4, sem_magic_fifo = SEM_MAGIC_FIFO\<rparr>, \<lparr>fifo_bytes = n, fifo_size = cap\<rparr>)"

lemmas sem_of_defs = mysem_of_def sv_sem_of_def fifo_sem_of_def sv_usable_def sv_value_def fifo_usable_def

theorem pxsem_implementations_agree_witness:
  "fst (sem_script mmap_wait mmap_post [True, False, False, True] (mysem_of 0)) = [True, True, False, True]
    \<and> sv_value (snd (sem_script sv_wait sv_post [True, False, False, True] (sv_sem_of 0))) = 1"
  using pxsem_implementations_agree [of "mysem_of 0" 0 "[True, False, False, True]" "sv_sem_of 0" 4096
      "fifo_sem_of 4096 0"] by (simp add: sem_of_defs)

text \<open>
  Every branch of \<open>mysem_wait\<close>, \<open>mysem_trywait\<close> and \<open>mysem_post\<close> on the mapped semaphore: a
  semaphore that is not open gives EINVAL, a failing lock gives its error and changes nothing; a
  wait takes one or parks, \<open>mysem_trywait\<close> gives EAGAIN instead of parking, and a post adds one
  modulo \<open>2 ^ 32\<close> and signals when the count was 0.
\<close>

lemma mysem_outcomes:
  assumes "bad = (sem_magic sem \<noteq> SEM_MAGIC)" and "err = (if bad then EINVAL else n)"
  shows "(if bad \<or> n \<noteq> 0
      then mysem_wait n sem = Returns sem [] (Inl err) \<and> mysem_trywait n sem = Returns sem [] (Inl err) \<and>
        mysem_post n sem = Returns sem [] (Inl err)
      else if unat (sem_count sem) = 0
      then mysem_wait n sem = Waits sem \<and> mysem_trywait n sem = Returns sem [] (Inl EAGAIN) \<and>
        mysem_post n sem = Returns (sem\<lparr>sem_count := 1\<rparr>) [Sem_signal] (Inr ())
      else (\<exists>sem'. unat (sem_count sem') = unat (sem_count sem) - 1 \<and> sem_magic sem' = sem_magic sem \<and>
          mysem_wait n sem = Returns sem' [] (Inr ()) \<and> mysem_trywait n sem = Returns sem' [] (Inr ())) \<and>
        (\<exists>sem'. unat (sem_count sem') = (unat (sem_count sem) + 1) mod 2 ^ 32 \<and>
          mysem_post n sem = Returns sem' [] (Inr ())))"
  using assms
  by (auto simp: mysem_wait_def mysem_wait_wakeup_def mysem_trywait_def mysem_post_def unat_eq_zero
      unat_dec unat_word_ariths word_greater_zero_iff)

text \<open>
  The mapped semaphore has no largest value: a post at \<open>UINT_MAX\<close> succeeds and leaves the
  semaphore at 0, so that the next wait parks; and \<open>mysem_getvalue\<close> already reports a negative
  value from \<open>2 ^ 31\<close> on.
\<close>

lemma mysem_post_wraps:
  "completes (mysem_post 0 (mysem_of (2 ^ 32 - 1))) = Some (mysem_of 0) \<and>
    mysem_wait 0 (mysem_of 0) = Waits (mysem_of 0) \<and>
    mysem_getvalue 0 (mysem_of (2 ^ 31)) = Inr (- (2 ^ 31))"
  by (simp add: mysem_of_def mysem_post_def mysem_wait_def mysem_wait_wakeup_def mysem_getvalue_def)

text \<open>
  When the \<open>close\<close> of the read end fails, \<open>mysem_close\<close> of the FIFO semaphore does not close the
  write end, and the semaphore is invalid afterwards: the descriptor cannot be closed any more
  through it.
\<close>

lemma mysem_close_fifo_leaks:
  assumes "sem_magic_fifo sem = SEM_MAGIC_FIFO"
  shows "mysem_close_fifo (Inl e) close1 sem = ([sem_fd0 sem], sem\<lparr>sem_magic_fifo := 0\<rparr>, Inl e) \<and>
    mysem_close_fifo close0' close1' (sem\<lparr>sem_magic_fifo := 0\<rparr>) = ([], sem\<lparr>sem_magic_fifo := 0\<rparr>, Inl EINVAL)"
  using assms by (simp add: mysem_close_fifo_def)

end
