(* ===== verification/Pxsem_Threads.thy ===== *)
theory Pxsem_Threads
  imports Pxsem
begin

text \<open>
  Any number of threads that wait on and post to one mapped semaphore of \<open>src/my_pxsem_mmap\<close>, with
  the numbers of completed waits and posts as history. The sections under \<open>sem_mutex\<close> are the
  definitions of \<open>Pxsem\<close>; a parked thread is in \<open>pthread_cond_wait\<close> on \<open>sem_cond\<close>.
\<close>

section \<open>The machine\<close>

datatype sem_pc = S_out | S_parked | S_woken

record sem_sys =
  ss_sem :: mysem
  ss_pcs :: "sem_pc list"
  ss_taken :: nat
  ss_posted :: nat

abbreviation sem_signal :: "sem_event list \<Rightarrow> sem_pc list \<Rightarrow> sem_pc list \<Rightarrow> bool" where
  "sem_signal evs pcs pcs' \<equiv>
    (if evs = [] then pcs' = pcs else cond_signal (\<lambda>p. p = S_parked) (\<lambda>_. S_woken) pcs pcs')"

inductive sem_step :: "sem_sys \<Rightarrow> sem_sys \<Rightarrow> bool" where
  wait: "i < length (ss_pcs s) \<Longrightarrow> ss_pcs s ! i = S_out \<Longrightarrow>
    mysem_wait 0 (ss_sem s) = Returns sem evs (Inr ()) \<Longrightarrow>
    sem_step s (s\<lparr>ss_sem := sem, ss_taken := ss_taken s + 1\<rparr>)"
| park: "i < length (ss_pcs s) \<Longrightarrow> ss_pcs s ! i = S_out \<Longrightarrow>
    mysem_wait 0 (ss_sem s) = Waits sem \<Longrightarrow>
    sem_step s (s\<lparr>ss_sem := sem, ss_pcs := (ss_pcs s)[i := S_parked]\<rparr>)"
| again: "i < length (ss_pcs s) \<Longrightarrow> ss_pcs s ! i = S_woken \<Longrightarrow>
    mysem_wait_wakeup (ss_sem s) = Returns sem evs (Inr ()) \<Longrightarrow>
    sem_step s (s\<lparr>ss_sem := sem, ss_pcs := (ss_pcs s)[i := S_out], ss_taken := ss_taken s + 1\<rparr>)"
| repark: "i < length (ss_pcs s) \<Longrightarrow> ss_pcs s ! i = S_woken \<Longrightarrow>
    mysem_wait_wakeup (ss_sem s) = Waits sem \<Longrightarrow>
    sem_step s (s\<lparr>ss_sem := sem, ss_pcs := (ss_pcs s)[i := S_parked]\<rparr>)"
| spurious: "i < length (ss_pcs s) \<Longrightarrow> ss_pcs s ! i = S_parked \<Longrightarrow>
    sem_step s (s\<lparr>ss_pcs := (ss_pcs s)[i := S_woken]\<rparr>)"
| trywait: "i < length (ss_pcs s) \<Longrightarrow> ss_pcs s ! i = S_out \<Longrightarrow>
    mysem_trywait 0 (ss_sem s) = Returns sem evs (Inr ()) \<Longrightarrow>
    sem_step s (s\<lparr>ss_sem := sem, ss_taken := ss_taken s + 1\<rparr>)"
| post: "i < length (ss_pcs s) \<Longrightarrow> ss_pcs s ! i = S_out \<Longrightarrow>
    mysem_post 0 (ss_sem s) = Returns sem evs (Inr ()) \<Longrightarrow>
    sem_signal evs (ss_pcs s) pcs' \<Longrightarrow>
    sem_step s (s\<lparr>ss_sem := sem, ss_pcs := pcs', ss_posted := ss_posted s + 1\<rparr>)"

definition sem_start :: "nat \<Rightarrow> nat \<Rightarrow> sem_sys \<Rightarrow> bool" where
  "sem_start v nthreads s \<longleftrightarrow>
    s = \<lparr>ss_sem = mysem_of v, ss_pcs = replicate nthreads S_out, ss_taken = 0, ss_posted = 0\<rparr>"

section \<open>The invariant\<close>

definition sem_sys_inv :: "nat \<Rightarrow> sem_sys \<Rightarrow> bool" where
  [inv_defs]: "sem_sys_inv v s \<longleftrightarrow>
    (v + ss_posted s < 2 ^ 32 \<longrightarrow> unat (sem_count (ss_sem s)) + ss_taken s = v + ss_posted s)"

lemma wait_section:
  assumes "mysem_wait_wakeup sem = Returns sem' evs (Inr ()) \<or> mysem_wait 0 sem = Returns sem' evs (Inr ())
    \<or> mysem_trywait 0 sem = Returns sem' evs (Inr ())"
  shows "unat (sem_count sem) = unat (sem_count sem') + 1"
proof -
  from assms have "sem_count sem \<noteq> 0" and "sem' = sem\<lparr>sem_count := sem_count sem - 1\<rparr>"
    by (auto simp: mysem_wait_def mysem_wait_wakeup_def mysem_trywait_def split: if_splits)
  then show ?thesis by (simp add: unat_dec unat_gt_0)
qed

lemma wait_section_parks:
  "mysem_wait_wakeup sem = Waits sem' \<Longrightarrow> sem' = sem" "mysem_wait 0 sem = Waits sem' \<Longrightarrow> sem' = sem"
  by (auto simp: mysem_wait_def mysem_wait_wakeup_def split: if_splits)

lemma post_section:
  assumes "mysem_post 0 sem = Returns sem' evs (Inr ())" and "unat (sem_count sem) + 1 < 2 ^ 32"
  shows "unat (sem_count sem') = unat (sem_count sem) + 1"
  using assms by (auto simp: mysem_post_def unat_inc split: if_splits)

lemma sem_step_inv: "sem_step s t \<Longrightarrow> sem_sys_inv v s \<Longrightarrow> sem_sys_inv v t"
proof (induction rule: sem_step.induct)
  case (wait i s sem evs)
  then show ?case using wait_section [of "ss_sem s" sem evs] by (simp add: sem_sys_inv_def)
next
  case (again i s sem evs)
  then show ?case using wait_section [of "ss_sem s" sem evs] by (simp add: sem_sys_inv_def)
next
  case (trywait i s sem evs)
  then show ?case using wait_section [of "ss_sem s" sem evs] by (simp add: sem_sys_inv_def)
next
  case (post i s sem evs pcs')
  then show ?case using post_section [of "ss_sem s" sem evs] by (auto simp: sem_sys_inv_def)
qed (auto simp: sem_sys_inv_def dest: wait_section_parks)

interpretation sem_machine: inductive_invariant "sem_start v k" sem_step "sem_sys_inv v" for v k
proof unfold_locales
  show "sem_sys_inv v s" if "sem_start v k s" for s
    using that by (auto simp: sem_start_def sem_sys_inv_def mysem_of_def unat_of_nat)
qed (rule sem_step_inv)

section \<open>Properties\<close>

text \<open>
  C15. As long as the initial value and the posts stay below \<open>2 ^ 32\<close>, the count is the initial
  value plus the posts less the completed waits in every reachable state, so never more waits
  complete than the initial value and the posts allow, whatever the interleaving, the parked
  threads and the spurious wakeups.
\<close>

theorem sem_threads_safe:
  assumes "reach (sem_start v k) sem_step s" and "v + ss_posted s < 2 ^ 32"
  shows "unat (sem_count (ss_sem s)) + ss_taken s = v + ss_posted s \<and> ss_taken s \<le> v + ss_posted s"
  using sem_machine.inv_reach [OF assms(1)] assms(2) by (auto simp: sem_sys_inv_def)

text \<open>A run of three threads: two park, the third posts twice, and one of the parked runs.\<close>

lemma sem_lost_wakeup_run:
  "reach (sem_start 0 3) sem_step
    \<lparr>ss_sem = mysem_of 1, ss_pcs = [S_out, S_parked, S_out], ss_taken = 1, ss_posted = 2\<rparr>"
proof -
  let ?s = "\<lambda>n pcs k p. \<lparr>ss_sem = mysem_of n, ss_pcs = pcs, ss_taken = k, ss_posted = p\<rparr>"
  have w: "mysem_wait 0 (mysem_of 0) = Waits (mysem_of 0)"
    "mysem_wait_wakeup (mysem_of 2) = Returns (mysem_of 1) [] (Inr ())"
    "mysem_post 0 (mysem_of 0) = Returns (mysem_of 1) [Sem_signal] (Inr ())"
    "mysem_post 0 (mysem_of 1) = Returns (mysem_of 2) [] (Inr ())"
    by (simp_all add: mysem_wait_def mysem_wait_wakeup_def mysem_post_def mysem_of_def)
  have "reach (sem_start 0 3) sem_step (?s 0 [S_out, S_out, S_out] 0 0)"
    by (rule reach_start) (simp add: sem_start_def numeral_3_eq_3)
  moreover have "sem_step (?s 0 [S_out, S_out, S_out] 0 0) (?s 0 [S_parked, S_out, S_out] 0 0)"
    using sem_step.park [of 0 "?s 0 [S_out, S_out, S_out] 0 0"] w by simp
  moreover have "sem_step (?s 0 [S_parked, S_out, S_out] 0 0) (?s 0 [S_parked, S_parked, S_out] 0 0)"
    using sem_step.park [of 1 "?s 0 [S_parked, S_out, S_out] 0 0"] w by simp
  moreover have "sem_step (?s 0 [S_parked, S_parked, S_out] 0 0) (?s 1 [S_woken, S_parked, S_out] 0 1)"
    using sem_step.post [of 2 "?s 0 [S_parked, S_parked, S_out] 0 0"] w
      signal_one [of 0 "[S_parked, S_parked, S_out]" "\<lambda>p. p = S_parked" "\<lambda>_. S_woken"] by simp
  moreover have "sem_step (?s 1 [S_woken, S_parked, S_out] 0 1) (?s 2 [S_woken, S_parked, S_out] 0 2)"
    using sem_step.post [of 2 "?s 1 [S_woken, S_parked, S_out] 0 1"] w by (simp add: numeral_2_eq_2)
  moreover have "sem_step (?s 2 [S_woken, S_parked, S_out] 0 2) (?s 1 [S_out, S_parked, S_out] 1 2)"
    using sem_step.again [of 0 "?s 2 [S_woken, S_parked, S_out] 0 2"] w by simp
  ultimately show ?thesis by (meson reach_step)
qed

text \<open>
  A wakeup can be lost: \<open>mysem_post\<close> signals only when the count was 0, so two posts before the
  first woken thread runs signal once. A state is reachable in which the count is positive, a
  thread is parked in \<open>mysem_wait\<close>, and no thread has been woken.
\<close>

lemma sem_lost_wakeup:
  "\<exists>s. reach (sem_start 0 3) sem_step s \<and> unat (sem_count (ss_sem s)) = 1 \<and>
    S_parked \<in> set (ss_pcs s) \<and> S_woken \<notin> set (ss_pcs s)"
  by (rule exI, rule conjI, rule sem_lost_wakeup_run) (simp add: mysem_of_def)

theorem sem_threads_safe_witness:
  "unat (sem_count (mysem_of 1)) + 1 = 0 + 2"
  using sem_threads_safe [OF sem_lost_wakeup_run] by simp

end
