(* ===== verification/Pxsem_Prodcons.thy ===== *)
theory Pxsem_Prodcons
  imports Pxsem
begin

text \<open>
  The producer and the consumer of \<open>prodcons1.c\<close> (the same program in \<open>src/my_pxsem_mmap\<close>,
  \<open>src/my_pxsem_svsem\<close> and \<open>src/my_pxsem_fifo\<close>) over any implementation of the semaphores: each
  statement of the two loops is a step of its thread. The proofs use the contract of a counting
  semaphore only. They hold as they are for the System V semaphores and the FIFOs, where the kernel
  blocks a waiting thread; \<open>Pxsem_Park\<close> refines them to the mapped semaphores, whose threads park in
  \<open>pthread_cond_wait\<close>.
\<close>

section \<open>The program\<close>

abbreviation (input) NBUFF :: nat where "NBUFF \<equiv> 10"

datatype prod_pc = P_test | P_nempty | P_mutex | P_store | P_unlock | P_post | P_done
datatype cons_pc = C_test | C_nstored | C_mutex | C_check | C_unlock | C_post | C_done

record 's prodcons =
  buff :: "int list"
  mutex :: 's
  nempty :: 's
  nstored :: 's
  prod_pc :: prod_pc
  prod_i :: int
  cons_pc :: cons_pc
  cons_i :: int
  printed :: "(int \<times> int) list"

text \<open>One statement of \<open>produce\<close>; \<open>None\<close> when the thread waits or has returned.\<close>

definition produce_step ::
  "('s \<Rightarrow> 's option) \<Rightarrow> ('s \<Rightarrow> 's option) \<Rightarrow> int \<Rightarrow> 's prodcons \<Rightarrow> 's prodcons option" where
  "produce_step swait spost nitems s =
    (case prod_pc s of
      P_test \<Rightarrow> Some (s\<lparr>prod_pc := (if prod_i s < nitems then P_nempty else P_done)\<rparr>)
    | P_nempty \<Rightarrow> map_option (\<lambda>q. s\<lparr>nempty := q, prod_pc := P_mutex\<rparr>) (swait (nempty s))
    | P_mutex \<Rightarrow> map_option (\<lambda>q. s\<lparr>mutex := q, prod_pc := P_store\<rparr>) (swait (mutex s))
    | P_store \<Rightarrow> Some (s\<lparr>buff := (buff s)[nat (prod_i s mod int NBUFF) := prod_i s], prod_pc := P_unlock\<rparr>)
    | P_unlock \<Rightarrow> map_option (\<lambda>q. s\<lparr>mutex := q, prod_pc := P_post\<rparr>) (spost (mutex s))
    | P_post \<Rightarrow> map_option (\<lambda>q. s\<lparr>nstored := q, prod_i := prod_i s + 1, prod_pc := P_test\<rparr>) (spost (nstored s))
    | P_done \<Rightarrow> None)"

text \<open>One statement of \<open>consume\<close>; a mismatch is printed with its index.\<close>

definition consume_step ::
  "('s \<Rightarrow> 's option) \<Rightarrow> ('s \<Rightarrow> 's option) \<Rightarrow> int \<Rightarrow> 's prodcons \<Rightarrow> 's prodcons option" where
  "consume_step swait spost nitems s =
    (case cons_pc s of
      C_test \<Rightarrow> Some (s\<lparr>cons_pc := (if cons_i s < nitems then C_nstored else C_done)\<rparr>)
    | C_nstored \<Rightarrow> map_option (\<lambda>q. s\<lparr>nstored := q, cons_pc := C_mutex\<rparr>) (swait (nstored s))
    | C_mutex \<Rightarrow> map_option (\<lambda>q. s\<lparr>mutex := q, cons_pc := C_check\<rparr>) (swait (mutex s))
    | C_check \<Rightarrow>
        (let v = buff s ! nat (cons_i s mod int NBUFF) in
         Some (s\<lparr>printed := (if v \<noteq> cons_i s then printed s @ [(cons_i s, v)] else printed s),
                 cons_pc := C_unlock\<rparr>))
    | C_unlock \<Rightarrow> map_option (\<lambda>q. s\<lparr>mutex := q, cons_pc := C_post\<rparr>) (spost (mutex s))
    | C_post \<Rightarrow> map_option (\<lambda>q. s\<lparr>nempty := q, cons_i := cons_i s + 1, cons_pc := C_test\<rparr>) (spost (nempty s))
    | C_done \<Rightarrow> None)"

definition prodcons_step ::
  "('s \<Rightarrow> 's option) \<Rightarrow> ('s \<Rightarrow> 's option) \<Rightarrow> int \<Rightarrow> 's prodcons \<Rightarrow> 's prodcons \<Rightarrow> bool" where
  "prodcons_step swait spost nitems s t \<longleftrightarrow>
    produce_step swait spost nitems s = Some t \<or> consume_step swait spost nitems s = Some t"

text \<open>The state that \<open>main\<close> builds before it creates the threads, from three fresh semaphores.\<close>

definition prodcons_start :: "(nat \<Rightarrow> 's) \<Rightarrow> 's prodcons" where
  "prodcons_start sem_of =
    \<lparr>buff = replicate NBUFF 0, mutex = sem_of 1, nempty = sem_of NBUFF, nstored = sem_of 0,
     prod_pc = P_test, prod_i = 0, cons_pc = C_test, cons_i = 0, printed = []\<rparr>"

definition both_done :: "'s prodcons \<Rightarrow> bool" where
  "both_done s \<longleftrightarrow> prod_pc s = P_done \<and> cons_pc s = C_done"

section \<open>The invariant\<close>

text \<open>
  What each thread holds at its program counter: an empty slot, a stored item, the mutex; whether
  the item of this round is stored or read already.
\<close>

fun has_slot :: "prod_pc \<Rightarrow> int" where
  "has_slot P_mutex = 1" | "has_slot P_store = 1" | "has_slot P_unlock = 1" | "has_slot P_post = 1"
| "has_slot _ = 0"

fun prod_locks :: "prod_pc \<Rightarrow> int" where
  "prod_locks P_store = 1" | "prod_locks P_unlock = 1" | "prod_locks _ = 0"

fun stored_now :: "prod_pc \<Rightarrow> int" where
  "stored_now P_unlock = 1" | "stored_now P_post = 1" | "stored_now _ = 0"

fun has_item :: "cons_pc \<Rightarrow> int" where
  "has_item C_mutex = 1" | "has_item C_check = 1" | "has_item C_unlock = 1" | "has_item C_post = 1"
| "has_item _ = 0"

fun cons_locks :: "cons_pc \<Rightarrow> int" where
  "cons_locks C_check = 1" | "cons_locks C_unlock = 1" | "cons_locks _ = 0"

fun read_now :: "cons_pc \<Rightarrow> int" where
  "read_now C_unlock = 1" | "read_now C_post = 1" | "read_now _ = 0"

definition buff_holds :: "int list \<Rightarrow> int \<Rightarrow> int \<Rightarrow> bool" where
  "buff_holds b lo hi \<longleftrightarrow> length b = NBUFF \<and> (\<forall>k. lo \<le> k \<longrightarrow> k < hi \<longrightarrow> b ! nat (k mod 10) = k)"

definition prodcons_inv :: "('s \<Rightarrow> nat) \<Rightarrow> ('s \<Rightarrow> bool) \<Rightarrow> int \<Rightarrow> 's prodcons \<Rightarrow> bool" where
  [inv_defs]: "prodcons_inv sval usable nitems s \<longleftrightarrow>
    usable (mutex s) \<and> usable (nempty s) \<and> usable (nstored s) \<and>
    int (sval (nempty s)) = 10 + cons_i s - prod_i s - has_slot (prod_pc s) \<and>
    int (sval (nstored s)) = prod_i s - cons_i s - has_item (cons_pc s) \<and>
    int (sval (mutex s)) = 1 - prod_locks (prod_pc s) - cons_locks (cons_pc s) \<and>
    0 \<le> cons_i s \<and> prod_i s + has_slot (prod_pc s) \<le> max 0 nitems \<and>
    (prod_pc s = P_nempty \<longrightarrow> prod_i s < nitems) \<and> (prod_pc s = P_done \<longrightarrow> nitems \<le> prod_i s) \<and>
    (cons_pc s = C_nstored \<longrightarrow> cons_i s < nitems) \<and> (cons_pc s = C_done \<longrightarrow> nitems \<le> cons_i s) \<and>
    buff_holds (buff s) (cons_i s + read_now (cons_pc s)) (prod_i s + stored_now (prod_pc s)) \<and>
    printed s = []"

lemma nat_mod_eq_window:
  fixes k i :: int
  assumes "k < i" and "i < k + 10"
  shows "nat (k mod 10) \<noteq> nat (i mod 10)"
proof -
  have "k mod 10 \<noteq> i mod 10" using assms by presburger
  then show ?thesis by (simp add: nat_eq_iff)
qed

lemma buff_holds_store:
  assumes "buff_holds b lo i" and "0 \<le> lo" and "i < lo + 10" and "0 \<le> i"
  shows "buff_holds (b[nat (i mod 10) := i]) lo (i + 1)"
proof -
  have "b[nat (i mod 10) := i] ! nat (k mod 10) = k" if "lo \<le> k" and "k < i + 1" for k
  proof (cases "k = i")
    case True
    have "nat (i mod 10) < length b" using assms(1) by (auto simp: buff_holds_def nat_less_iff)
    then show ?thesis using True by simp
  next
    case False
    then have "nat (k mod 10) \<noteq> nat (i mod 10)"
      using that assms by (intro nat_mod_eq_window) auto
    then show ?thesis using False that assms(1) by (simp add: buff_holds_def)
  qed
  then show ?thesis using assms(1) by (simp add: buff_holds_def)
qed

lemma buff_holds_read: "buff_holds b lo hi \<Longrightarrow> lo < hi \<Longrightarrow> b ! nat (lo mod 10) = lo"
  by (simp add: buff_holds_def)

lemma buff_holds_mono: "buff_holds b lo hi \<Longrightarrow> lo \<le> lo' \<Longrightarrow> buff_holds b lo' hi"
  by (simp add: buff_holds_def)

lemma prod_flags:
  "0 \<le> has_slot p" "has_slot p \<le> 1" "0 \<le> prod_locks p" "prod_locks p \<le> 1"
  "stored_now p \<le> has_slot p" "0 \<le> stored_now p"
  by (cases p; simp)+

lemma cons_flags:
  "0 \<le> has_item c" "has_item c \<le> 1" "0 \<le> cons_locks c" "cons_locks c \<le> 1"
  "read_now c \<le> has_item c" "0 \<le> read_now c"
  by (cases c; simp)+

context counting_sem
begin

lemma produce_keeps:
  assumes inv: "prodcons_inv sval usable nitems s" and lim: "10 \<le> limit"
    and run: "produce_step swait spost nitems s = Some t"
  shows "prodcons_inv sval usable nitems t"
proof -
  note b = prod_flags [of "prod_pc s"] cons_flags [of "cons_pc s"]
  show ?thesis
  proof (cases "prod_pc s")
    case P_store
    have "buff_holds ((buff s)[nat (prod_i s mod 10) := prod_i s])
        (cons_i s + read_now (cons_pc s)) (prod_i s + 1)"
      using inv b P_store by (intro buff_holds_store) (auto simp: prodcons_inv_def)
    with inv run P_store show ?thesis by (auto simp: prodcons_inv_def produce_step_def)
  next
    case P_nempty
    then obtain q where "swait (nempty s) = Some q" and t: "t = s\<lparr>nempty := q, prod_pc := P_mutex\<rparr>"
      using run by (auto simp: produce_step_def)
    with wait_SomeD [of "nempty s" q] inv P_nempty show ?thesis
      by (auto simp: prodcons_inv_def of_nat_diff)
  next
    case P_mutex
    then obtain q where "swait (mutex s) = Some q" and t: "t = s\<lparr>mutex := q, prod_pc := P_store\<rparr>"
      using run by (auto simp: produce_step_def)
    with wait_SomeD [of "mutex s" q] inv P_mutex show ?thesis
      by (auto simp: prodcons_inv_def of_nat_diff)
  next
    case P_unlock
    then obtain q where "spost (mutex s) = Some q" and t: "t = s\<lparr>mutex := q, prod_pc := P_post\<rparr>"
      using run by (auto simp: produce_step_def)
    with post_SomeD [of "mutex s" q] inv b P_unlock lim show ?thesis
      by (auto simp: prodcons_inv_def)
  next
    case P_post
    then obtain q where "spost (nstored s) = Some q"
      and t: "t = s\<lparr>nstored := q, prod_i := prod_i s + 1, prod_pc := P_test\<rparr>"
      using run by (auto simp: produce_step_def)
    with post_SomeD [of "nstored s" q] inv b P_post lim show ?thesis
      by (auto simp: prodcons_inv_def)
  qed (use inv run in \<open>auto simp: prodcons_inv_def produce_step_def split: if_splits\<close>)
qed

lemma consume_keeps:
  assumes inv: "prodcons_inv sval usable nitems s" and lim: "10 \<le> limit"
    and run: "consume_step swait spost nitems s = Some t"
  shows "prodcons_inv sval usable nitems t"
proof -
  note b = prod_flags [of "prod_pc s"] cons_flags [of "cons_pc s"]
  show ?thesis
  proof (cases "cons_pc s")
    case C_check
    have "cons_i s < prod_i s + stored_now (prod_pc s)"
      using inv b C_check by (auto simp: prodcons_inv_def)
    then have "buff s ! nat (cons_i s mod 10) = cons_i s"
      using inv C_check by (intro buff_holds_read) (auto simp: prodcons_inv_def)
    with inv run C_check show ?thesis
      by (auto simp: prodcons_inv_def consume_step_def intro: buff_holds_mono)
  next
    case C_nstored
    then obtain q where "swait (nstored s) = Some q" and t: "t = s\<lparr>nstored := q, cons_pc := C_mutex\<rparr>"
      using run by (auto simp: consume_step_def)
    with wait_SomeD [of "nstored s" q] inv C_nstored show ?thesis
      by (auto simp: prodcons_inv_def of_nat_diff)
  next
    case C_mutex
    then obtain q where "swait (mutex s) = Some q" and t: "t = s\<lparr>mutex := q, cons_pc := C_check\<rparr>"
      using run by (auto simp: consume_step_def)
    with wait_SomeD [of "mutex s" q] inv C_mutex show ?thesis
      by (auto simp: prodcons_inv_def of_nat_diff)
  next
    case C_unlock
    then obtain q where "spost (mutex s) = Some q" and t: "t = s\<lparr>mutex := q, cons_pc := C_post\<rparr>"
      using run by (auto simp: consume_step_def)
    with post_SomeD [of "mutex s" q] inv b C_unlock lim show ?thesis
      by (auto simp: prodcons_inv_def)
  next
    case C_post
    then obtain q where "spost (nempty s) = Some q"
      and t: "t = s\<lparr>nempty := q, cons_i := cons_i s + 1, cons_pc := C_test\<rparr>"
      using run by (auto simp: consume_step_def)
    with post_SomeD [of "nempty s" q] inv b C_post lim show ?thesis
      by (auto simp: prodcons_inv_def)
  qed (use inv run in \<open>auto simp: prodcons_inv_def consume_step_def split: if_splits\<close>)
qed

lemma prodcons_keeps:
  "prodcons_inv sval usable nitems s \<Longrightarrow> 10 \<le> limit \<Longrightarrow>
    prodcons_step swait spost nitems s t \<Longrightarrow> prodcons_inv sval usable nitems t"
  unfolding prodcons_step_def by (blast intro: produce_keeps consume_keeps)

end

section \<open>Progress and termination\<close>

text \<open>How many statements each thread has left at most.\<close>

fun prod_rank :: "prod_pc \<Rightarrow> int" where
  "prod_rank P_test = 1" | "prod_rank P_nempty = 0" | "prod_rank P_mutex = - 1" | "prod_rank P_store = - 2"
| "prod_rank P_unlock = - 3" | "prod_rank P_post = - 4" | "prod_rank P_done = 0"

fun cons_rank :: "cons_pc \<Rightarrow> int" where
  "cons_rank C_test = 1" | "cons_rank C_nstored = 0" | "cons_rank C_mutex = - 1" | "cons_rank C_check = - 2"
| "cons_rank C_unlock = - 3" | "cons_rank C_post = - 4" | "cons_rank C_done = 0"

definition prodcons_left :: "int \<Rightarrow> 's prodcons \<Rightarrow> nat" where
  "prodcons_left nitems s =
    nat (6 * (max 0 nitems - prod_i s) + prod_rank (prod_pc s)) +
    nat (6 * (max 0 nitems - cons_i s) + cons_rank (cons_pc s))"

lemma prodcons_inv_counts:
  assumes "prodcons_inv sval usable nitems s"
  shows "0 \<le> 6 * (max 0 nitems - prod_i s) + prod_rank (prod_pc s)"
    and "0 \<le> 6 * (max 0 nitems - cons_i s) + cons_rank (cons_pc s)"
    and "prod_i s + has_slot (prod_pc s) \<le> max 0 nitems"
    and "cons_i s + has_item (cons_pc s) \<le> max 0 nitems"
proof -
  note b = prod_flags [of "prod_pc s"] cons_flags [of "cons_pc s"]
  show p: "prod_i s + has_slot (prod_pc s) \<le> max 0 nitems" using assms by (simp add: prodcons_inv_def)
  have "cons_i s + has_item (cons_pc s) \<le> prod_i s" using assms by (auto simp: prodcons_inv_def)
  with p b show c: "cons_i s + has_item (cons_pc s) \<le> max 0 nitems" by linarith
  from p show "0 \<le> 6 * (max 0 nitems - prod_i s) + prod_rank (prod_pc s)" by (cases "prod_pc s") auto
  from c show "0 \<le> 6 * (max 0 nitems - cons_i s) + cons_rank (cons_pc s)" by (cases "cons_pc s") auto
qed

lemma produce_step_decreases:
  assumes "produce_step swait spost nitems s = Some t" and "prodcons_inv sval usable nitems s"
  shows "6 * (max 0 nitems - prod_i t) + prod_rank (prod_pc t) <
      6 * (max 0 nitems - prod_i s) + prod_rank (prod_pc s)"
    and "cons_i t = cons_i s" and "cons_pc t = cons_pc s"
  using assms prodcons_inv_counts [OF assms(2)]
  by (auto simp: produce_step_def prodcons_inv_def split: prod_pc.splits if_splits)

lemma consume_step_decreases:
  assumes "consume_step swait spost nitems s = Some t" and "prodcons_inv sval usable nitems s"
  shows "6 * (max 0 nitems - cons_i t) + cons_rank (cons_pc t) <
      6 * (max 0 nitems - cons_i s) + cons_rank (cons_pc s)"
    and "prod_i t = prod_i s" and "prod_pc t = prod_pc s"
  using assms prodcons_inv_counts [OF assms(2)]
  by (auto simp: consume_step_def prodcons_inv_def Let_def split: cons_pc.splits if_splits)

lemma prodcons_step_decreases:
  assumes step: "prodcons_step swait spost nitems s t" and inv: "prodcons_inv sval usable nitems s"
    and inv': "prodcons_inv sval usable nitems t"
  shows "prodcons_left nitems t < prodcons_left nitems s"
  using step produce_step_decreases [OF _ inv, of swait spost t]
    consume_step_decreases [OF _ inv, of swait spost t] prodcons_inv_counts [OF inv]
    prodcons_inv_counts [OF inv']
  by (auto simp: prodcons_step_def prodcons_left_def)

context counting_sem
begin

lemma post_enabled:
  "prodcons_inv sval usable nitems s \<Longrightarrow> 10 \<le> limit \<Longrightarrow>
    prod_pc s = P_unlock \<or> prod_pc s = P_post \<Longrightarrow> \<exists>t. produce_step swait spost nitems s = Some t"
  "prodcons_inv sval usable nitems s \<Longrightarrow> 10 \<le> limit \<Longrightarrow>
    cons_pc s = C_unlock \<or> cons_pc s = C_post \<Longrightarrow> \<exists>t. consume_step swait spost nitems s = Some t"
  using post_adds [of "mutex s"] post_adds [of "nstored s"] post_adds [of "nempty s"]
    prod_flags [of "prod_pc s"] cons_flags [of "cons_pc s"]
  by (auto simp: prodcons_inv_def produce_step_def consume_step_def)

lemma prod_blocked:
  assumes "prodcons_inv sval usable nitems s" and "10 \<le> limit"
    and "produce_step swait spost nitems s = None"
  shows "prod_pc s = P_nempty \<and> sval (nempty s) = 0 \<or> prod_pc s = P_mutex \<and> sval (mutex s) = 0 \<or>
    prod_pc s = P_done"
  using assms post_enabled(1) [OF assms(1,2)] wait_takes [of "nempty s"] wait_takes [of "mutex s"]
  by (cases "prod_pc s") (auto simp: produce_step_def prodcons_inv_def)

lemma cons_blocked:
  assumes "prodcons_inv sval usable nitems s" and "10 \<le> limit"
    and "consume_step swait spost nitems s = None"
  shows "cons_pc s = C_nstored \<and> sval (nstored s) = 0 \<or> cons_pc s = C_mutex \<and> sval (mutex s) = 0 \<or>
    cons_pc s = C_done"
  using assms post_enabled(2) [OF assms(1,2)] wait_takes [of "nstored s"] wait_takes [of "mutex s"]
  by (cases "cons_pc s") (auto simp: consume_step_def prodcons_inv_def Let_def)

lemma prodcons_progress:
  assumes inv: "prodcons_inv sval usable nitems s" and lim: "10 \<le> limit" and "\<not> both_done s"
  shows "\<exists>t. prodcons_step swait spost nitems s t"
proof (rule ccontr)
  assume "\<not> ?thesis"
  then have "produce_step swait spost nitems s = None" and "consume_step swait spost nitems s = None"
    unfolding prodcons_step_def by (metis not_None_eq)+
  from prod_blocked [OF inv lim this(1)] cons_blocked [OF inv lim this(2)] show False
    using assms by (auto simp: prodcons_inv_def both_done_def)
qed

lemma prodcons_run_ends:
  "prodcons_inv sval usable nitems s \<Longrightarrow> 10 \<le> limit \<Longrightarrow>
    path_steps (prodcons_step swait spost nitems) s ts \<Longrightarrow> length ts \<le> prodcons_left nitems s"
proof (induction ts arbitrary: s)
  case (Cons t ts)
  then have "prodcons_inv sval usable nitems t" and "prodcons_left nitems t < prodcons_left nitems s"
    using prodcons_keeps [of nitems s t] prodcons_step_decreases [of swait spost nitems s t sval usable]
    by auto
  with Cons.IH [of t] Cons.prems show ?case by auto
qed simp

lemma prodcons_start_inv:
  assumes "\<And>n. n \<le> 10 \<Longrightarrow> usable (sem_of n) \<and> sval (sem_of n) = n"
  shows "prodcons_inv sval usable nitems (prodcons_start sem_of)"
  using assms [of 0] assms [of 1] assms [of 10]
  by (simp add: prodcons_inv_def prodcons_start_def buff_holds_def)

lemma prodcons_correct:
  assumes sems: "\<And>n. n \<le> 10 \<Longrightarrow> usable (sem_of n) \<and> sval (sem_of n) = n" and lim: "10 \<le> limit"
    and run: "path_steps (prodcons_step swait spost nitems) (prodcons_start sem_of) ts"
    and s: "s = last (prodcons_start sem_of # ts)"
  shows "printed s = [] \<and> length ts \<le> 12 * nat nitems + 2 \<and>
    (both_done s \<or> (\<exists>t. prodcons_step swait spost nitems s t)) \<and>
    (both_done s \<longrightarrow> cons_i s = max 0 nitems)"
proof -
  have start: "prodcons_inv sval usable nitems (prodcons_start sem_of)"
    by (rule prodcons_start_inv) (rule sems)
  have "prodcons_inv sval usable nitems s" if "prodcons_inv sval usable nitems u"
    and "path_steps (prodcons_step swait spost nitems) u ts" and "s = last (u # ts)" for u
    using that
  proof (induction ts arbitrary: u)
    case (Cons t ts)
    then show ?case using prodcons_keeps [of nitems u t] lim by (cases ts) auto
  qed simp
  with start run s have inv: "prodcons_inv sval usable nitems s" by blast
  have "length ts \<le> prodcons_left nitems (prodcons_start sem_of)"
    by (rule prodcons_run_ends [OF start lim run])
  then have len: "length ts \<le> 12 * nat nitems + 2"
    by (auto simp: prodcons_left_def prodcons_start_def)
  from inv have "printed s = []" by (simp add: prodcons_inv_def)
  moreover have "both_done s \<longrightarrow> cons_i s = max 0 nitems"
    using inv prodcons_inv_counts(4) [OF inv] by (auto simp: both_done_def prodcons_inv_def)
  ultimately show ?thesis using prodcons_progress [OF inv lim] len by blast
qed

end

section \<open>Properties\<close>

text \<open>
  \<open>prodcons1\<close> over the System V semaphores and over FIFOs that hold at least \<open>NBUFF\<close> bytes: no
  mismatch is printed, some thread can run until both have returned, and every run is finite.
\<close>

lemma prodcons1_sv_fifo:
  assumes "path_steps (prodcons_step sv_wait sv_post nitems) (prodcons_start sv_sem_of) ts"
    and "s = last (prodcons_start sv_sem_of # ts)"
    and "NBUFF \<le> cap"
    and "path_steps (prodcons_step fifo_wait fifo_post nitems) (prodcons_start (fifo_sem_of cap)) us"
    and "u = last (prodcons_start (fifo_sem_of cap) # us)"
  shows "printed s = [] \<and> (both_done s \<or> (\<exists>t. prodcons_step sv_wait sv_post nitems s t)) \<and>
    length ts \<le> 12 * nat nitems + 2 \<and>
    printed u = [] \<and> (both_done u \<or> (\<exists>t. prodcons_step fifo_wait fifo_post nitems u t)) \<and>
    length us \<le> 12 * nat nitems + 2"
  using sv_sem.prodcons_correct [OF _ _ assms(1,2)] fifo_sem.prodcons_correct [OF _ _ assms(4,5), of cap]
    assms(3) by (simp add: sem_of_defs)

end
