(* ===== verification/Pxsem_Park.thy ===== *)
theory Pxsem_Park
  imports Pxsem_Prodcons
begin

text \<open>
  \<open>prodcons1.c\<close> over the semaphores of \<open>src/my_pxsem_mmap\<close> with the threads that block in
  \<open>pthread_cond_wait\<close>: a thread whose \<open>mysem_wait\<close> finds the count 0 is parked and does nothing more
  until a \<open>mysem_post\<close> on that semaphore signals its condition variable (or a spurious wakeup, which
  POSIX allows); woken, it tests the count again. The proofs relate this machine to the program
  over a counting semaphore: a step of it is a step of that program, or parks a thread whose
  semaphore is 0.
\<close>

section \<open>The threads\<close>

text \<open>
  Where a thread stands in \<open>mysem_wait\<close>: not in it or about to enter it, in \<open>pthread_cond_wait\<close>, or
  woken there and about to test the count. The semaphore is that of the statement the thread is at.
\<close>

datatype park = Awake | Parked | Woken

record parked_prog =
  prog :: "mysem prodcons"
  prod_park :: park
  cons_park :: park

text \<open>
  The part of \<open>mysem_wait\<close> that a thread runs next while it holds \<open>sem_mutex\<close>: from the entry, or from
  the wakeup. \<open>True\<close>: it has returned 0; \<open>False\<close>: it is in \<open>pthread_cond_wait\<close>. A parked thread runs
  nothing; a failing call ends the program in \<open>Mysem_wait\<close>, so the thread takes no further step.
\<close>

definition park_wait :: "park \<Rightarrow> mysem \<Rightarrow> (mysem \<times> bool) option" where
  "park_wait p sem =
    (if p = Parked then None
     else case (if p = Woken then mysem_wait_wakeup sem else mysem_wait 0 sem) of
       Returns sem' evs (Inr _) \<Rightarrow> Some (sem', True)
     | Waits sem' \<Rightarrow> Some (sem', False)
     | _ \<Rightarrow> None)"

text \<open>
  \<open>mysem_post\<close>, and what its signal does to the other thread, whose state in \<open>mysem_wait\<close> on this
  semaphore is \<open>other\<close>.
\<close>

definition park_post :: "mysem \<Rightarrow> park \<Rightarrow> (mysem \<times> park) option" where
  "park_post sem other =
    (case mysem_post 0 sem of
       Returns sem' evs (Inr _) \<Rightarrow>
         Some (sem', if Sem_signal \<in> set evs \<and> other = Parked then Woken else other)
     | _ \<Rightarrow> None)"

text \<open>One statement of \<open>produce\<close>, with its calls of \<open>mysem_wait\<close> and \<open>mysem_post\<close>.\<close>

definition produce_park :: "int \<Rightarrow> parked_prog \<Rightarrow> parked_prog option" where
  "produce_park nitems s =
    (let p = prog s in
     case prod_pc p of
       P_nempty \<Rightarrow>
         map_option (\<lambda>(q, ret). if ret then s\<lparr>prog := p\<lparr>nempty := q, prod_pc := P_mutex\<rparr>, prod_park := Awake\<rparr>
             else s\<lparr>prog := p\<lparr>nempty := q\<rparr>, prod_park := Parked\<rparr>)
           (park_wait (prod_park s) (nempty p))
     | P_mutex \<Rightarrow>
         map_option (\<lambda>(q, ret). if ret then s\<lparr>prog := p\<lparr>mutex := q, prod_pc := P_store\<rparr>, prod_park := Awake\<rparr>
             else s\<lparr>prog := p\<lparr>mutex := q\<rparr>, prod_park := Parked\<rparr>)
           (park_wait (prod_park s) (mutex p))
     | P_unlock \<Rightarrow>
         map_option (\<lambda>(q, w). s\<lparr>prog := p\<lparr>mutex := q, prod_pc := P_post\<rparr>,
             cons_park := (if cons_pc p = C_mutex then w else cons_park s)\<rparr>)
           (park_post (mutex p) (cons_park s))
     | P_post \<Rightarrow>
         map_option (\<lambda>(q, w). s\<lparr>prog := p\<lparr>nstored := q, prod_i := prod_i p + 1, prod_pc := P_test\<rparr>,
             cons_park := (if cons_pc p = C_nstored then w else cons_park s)\<rparr>)
           (park_post (nstored p) (cons_park s))
     | P_test \<Rightarrow> Some (s\<lparr>prog := p\<lparr>prod_pc := (if prod_i p < nitems then P_nempty else P_done)\<rparr>\<rparr>)
     | P_store \<Rightarrow>
         Some (s\<lparr>prog := p\<lparr>buff := (buff p)[nat (prod_i p mod int NBUFF) := prod_i p], prod_pc := P_unlock\<rparr>\<rparr>)
     | P_done \<Rightarrow> None)"

text \<open>One statement of \<open>consume\<close>.\<close>

definition consume_park :: "int \<Rightarrow> parked_prog \<Rightarrow> parked_prog option" where
  "consume_park nitems s =
    (let p = prog s in
     case cons_pc p of
       C_nstored \<Rightarrow>
         map_option (\<lambda>(q, ret). if ret then s\<lparr>prog := p\<lparr>nstored := q, cons_pc := C_mutex\<rparr>, cons_park := Awake\<rparr>
             else s\<lparr>prog := p\<lparr>nstored := q\<rparr>, cons_park := Parked\<rparr>)
           (park_wait (cons_park s) (nstored p))
     | C_mutex \<Rightarrow>
         map_option (\<lambda>(q, ret). if ret then s\<lparr>prog := p\<lparr>mutex := q, cons_pc := C_check\<rparr>, cons_park := Awake\<rparr>
             else s\<lparr>prog := p\<lparr>mutex := q\<rparr>, cons_park := Parked\<rparr>)
           (park_wait (cons_park s) (mutex p))
     | C_unlock \<Rightarrow>
         map_option (\<lambda>(q, w). s\<lparr>prog := p\<lparr>mutex := q, cons_pc := C_post\<rparr>,
             prod_park := (if prod_pc p = P_mutex then w else prod_park s)\<rparr>)
           (park_post (mutex p) (prod_park s))
     | C_post \<Rightarrow>
         map_option (\<lambda>(q, w). s\<lparr>prog := p\<lparr>nempty := q, cons_i := cons_i p + 1, cons_pc := C_test\<rparr>,
             prod_park := (if prod_pc p = P_nempty then w else prod_park s)\<rparr>)
           (park_post (nempty p) (prod_park s))
     | C_test \<Rightarrow> Some (s\<lparr>prog := p\<lparr>cons_pc := (if cons_i p < nitems then C_nstored else C_done)\<rparr>\<rparr>)
     | C_check \<Rightarrow>
         (let v = buff p ! nat (cons_i p mod int NBUFF) in
          Some (s\<lparr>prog := p\<lparr>printed := (if v \<noteq> cons_i p then printed p @ [(cons_i p, v)] else printed p),
                            cons_pc := C_unlock\<rparr>\<rparr>))
     | C_done \<Rightarrow> None)"

definition park_step :: "int \<Rightarrow> parked_prog \<Rightarrow> parked_prog \<Rightarrow> bool" where
  "park_step nitems s t \<longleftrightarrow> produce_park nitems s = Some t \<or> consume_park nitems s = Some t"

text \<open>A spurious wakeup of \<open>pthread_cond_wait\<close>.\<close>

definition spurious_step :: "parked_prog \<Rightarrow> parked_prog \<Rightarrow> bool" where
  "spurious_step s t \<longleftrightarrow>
    prod_park s = Parked \<and> t = s\<lparr>prod_park := Woken\<rparr> \<or> cons_park s = Parked \<and> t = s\<lparr>cons_park := Woken\<rparr>"

definition park_start :: parked_prog where
  "park_start = \<lparr>prog = prodcons_start mysem_of, prod_park = Awake, cons_park = Awake\<rparr>"

section \<open>The invariant\<close>

text \<open>The semaphore a thread waits on at its statement.\<close>

definition prod_waits :: "mysem prodcons \<Rightarrow> mysem option" where
  "prod_waits p = (case prod_pc p of P_nempty \<Rightarrow> Some (nempty p) | P_mutex \<Rightarrow> Some (mutex p) | _ \<Rightarrow> None)"

definition cons_waits :: "mysem prodcons \<Rightarrow> mysem option" where
  "cons_waits p = (case cons_pc p of C_nstored \<Rightarrow> Some (nstored p) | C_mutex \<Rightarrow> Some (mutex p) | _ \<Rightarrow> None)"

text \<open>A thread is parked or woken only at a wait, and parked only while the count is 0.\<close>

definition parked_ok :: "park \<Rightarrow> mysem option \<Rightarrow> bool" where
  "parked_ok w q \<longleftrightarrow> (w \<noteq> Awake \<longrightarrow> q \<noteq> None) \<and> (w = Parked \<longrightarrow> sem_count (the q) = 0)"

abbreviation mmap_inv :: "int \<Rightarrow> mysem prodcons \<Rightarrow> bool" where
  "mmap_inv \<equiv> prodcons_inv (\<lambda>sem. unat (sem_count sem)) (\<lambda>sem. sem_magic sem = SEM_MAGIC)"

definition park_inv :: "int \<Rightarrow> parked_prog \<Rightarrow> bool" where
  [inv_defs]: "park_inv nitems s \<longleftrightarrow> mmap_inv nitems (prog s) \<and>
    parked_ok (prod_park s) (prod_waits (prog s)) \<and> parked_ok (cons_park s) (cons_waits (prog s))"

lemmas waits_defs = prod_waits_def cons_waits_def parked_ok_def

lemma park_wait_returns:
  assumes "sem_magic sem = SEM_MAGIC"
  shows "park_wait w sem = Some (q, ret) \<longleftrightarrow> w \<noteq> Parked \<and>
    (if ret then mmap_wait sem = Some q else sem_count sem = 0 \<and> q = sem)"
  using assms by (auto simp: park_wait_def mmap_sem_defs)

lemma park_post_returns:
  assumes "sem_magic sem = SEM_MAGIC"
  shows "park_post sem w = Some (q, w') \<longleftrightarrow> mmap_post sem = Some q \<and>
    w' = (if sem_count sem = 0 \<and> w = Parked then Woken else w)"
  using assms by (auto simp: park_post_def mmap_sem_defs)

text \<open>
  A step of a thread is a step of the program over the counting semaphore, which may also wake the
  other thread, or it parks the thread.
\<close>

definition prog_or_park ::
  "(mysem prodcons \<Rightarrow> mysem prodcons option) \<Rightarrow> mysem prodcons \<Rightarrow> mysem prodcons \<Rightarrow> park \<times> park \<Rightarrow> park \<times> park \<Rightarrow> bool" where
  "prog_or_park step p p' w w' \<longleftrightarrow> fst w \<noteq> Parked \<and>
    (step p = Some p' \<and> fst w' = Awake \<and> (snd w' = snd w \<or> snd w = Parked \<and> snd w' = Woken) \<or>
     p' = p \<and> fst w' = Parked \<and> snd w' = snd w)"

lemma mmap_wait_Some:
  "mmap_wait sem = Some q \<Longrightarrow> sem_count sem \<noteq> 0 \<and> sem_magic q = sem_magic sem"
  by (auto simp: mmap_sem_defs split: if_splits)

lemma waits_frame [simp]:
  "cons_waits (p\<lparr>prod_pc := pc\<rparr>) = cons_waits p" "cons_waits (p\<lparr>prod_i := i\<rparr>) = cons_waits p"
  "cons_waits (p\<lparr>buff := b\<rparr>) = cons_waits p" "cons_waits (p\<lparr>nempty := q\<rparr>) = cons_waits p"
  "prod_waits (p\<lparr>cons_pc := cc\<rparr>) = prod_waits p" "prod_waits (p\<lparr>cons_i := i\<rparr>) = prod_waits p"
  "prod_waits (p\<lparr>printed := v\<rparr>) = prod_waits p" "prod_waits (p\<lparr>nstored := q\<rparr>) = prod_waits p"
  by (simp_all add: prod_waits_def cons_waits_def cong: prod_pc.case_cong cons_pc.case_cong)

lemma parked_ok_Awake [simp]: "parked_ok Awake q"
  by (simp add: parked_ok_def)

text \<open>
  What a wait and a post leave of the other thread: a wait that returns found a positive count, so
  no thread is parked there; a post wakes the thread that is parked there.
\<close>

lemma parked_ok_taken:
  assumes "mmap_wait sem = Some q" and "parked_ok w (Some sem)"
  shows "parked_ok w (Some q)"
  using assms mmap_wait_Some [OF assms(1)] by (auto simp: parked_ok_def)

lemma parked_ok_posted:
  assumes "parked_ok w (Some sem)" and "w' = (if sem_count sem = 0 \<and> w = Parked then Woken else w)"
  shows "parked_ok w' (Some q)"
  using assms by (auto simp: parked_ok_def)

lemma cons_waits_mutex:
  "cons_waits (p\<lparr>mutex := q\<rparr>) = (if cons_pc p = C_mutex then Some q else cons_waits p)"
  "cons_waits (p\<lparr>nstored := q\<rparr>) = (if cons_pc p = C_nstored then Some q else cons_waits p)"
  "cons_pc p = C_mutex \<Longrightarrow> cons_waits p = Some (mutex p)"
  "cons_pc p = C_nstored \<Longrightarrow> cons_waits p = Some (nstored p)"
  by (auto simp: cons_waits_def split: cons_pc.splits)

lemma prod_waits_mutex:
  "prod_waits (p\<lparr>mutex := q\<rparr>) = (if prod_pc p = P_mutex then Some q else prod_waits p)"
  "prod_waits (p\<lparr>nempty := q\<rparr>) = (if prod_pc p = P_nempty then Some q else prod_waits p)"
  "prod_pc p = P_mutex \<Longrightarrow> prod_waits p = Some (mutex p)"
  "prod_pc p = P_nempty \<Longrightarrow> prod_waits p = Some (nempty p)"
  by (auto simp: prod_waits_def split: prod_pc.splits)

lemma parked_ok_zero: "sem_count q = 0 \<Longrightarrow> parked_ok Parked (Some q)"
  by (simp add: parked_ok_def)

lemmas waits_mutex = cons_waits_mutex prod_waits_mutex

lemma produce_park_simulates:
  assumes inv: "park_inv nitems s" and run: "produce_park nitems s = Some t"
  shows "prog_or_park (produce_step mmap_wait mmap_post nitems) (prog s) (prog t)
      (prod_park s, cons_park s) (prod_park t, cons_park t) \<and>
    parked_ok (prod_park t) (prod_waits (prog t)) \<and> parked_ok (cons_park t) (cons_waits (prog t))"
proof -
  obtain p w c where s: "s = \<lparr>prog = p, prod_park = w, cons_park = c\<rparr>" by (cases s) auto
  have ok: "sem_magic (mutex p) = SEM_MAGIC" "sem_magic (nempty p) = SEM_MAGIC"
    "sem_magic (nstored p) = SEM_MAGIC"
    and pk: "parked_ok w (prod_waits p)" "parked_ok c (cons_waits p)"
    using inv by (auto simp: park_inv_def prodcons_inv_def s)
  note wp = park_wait_returns [OF ok(1)] park_wait_returns [OF ok(2)] park_post_returns [OF ok(1)]
    park_post_returns [OF ok(3)]
  note d = prog_or_park_def produce_step_def produce_park_def waits_mutex s Let_def
  have awake: "w = Awake" if "prod_waits p = None" using pk(1) that by (simp add: parked_ok_def)
  show ?thesis
  proof (cases "prod_pc p")
    case P_nempty
    with run pk show ?thesis
      by (auto simp: d wp parked_ok_zero split: if_splits)
  next
    case P_mutex
    with run pk show ?thesis
      using parked_ok_taken [of "mutex p" _ c]
      by (auto simp: d wp parked_ok_zero split: if_splits)
  next
    case P_unlock
    then have "w = Awake" by (intro awake) (simp add: prod_waits_def)
    with P_unlock run pk show ?thesis
      by (auto simp: d wp parked_ok_posted split: if_splits)
  next
    case P_post
    then have "w = Awake" by (intro awake) (simp add: prod_waits_def)
    with P_post run pk show ?thesis
      by (auto simp: d wp parked_ok_posted split: if_splits)
  next
    case P_test
    then have "w = Awake" by (intro awake) (simp add: prod_waits_def)
    with P_test run pk show ?thesis by (auto simp: d)
  next
    case P_store
    then have "w = Awake" by (intro awake) (simp add: prod_waits_def)
    with P_store run pk show ?thesis by (auto simp: d)
  next
    case P_done
    with run show ?thesis by (simp add: d)
  qed
qed

lemma consume_park_simulates:
  assumes inv: "park_inv nitems s" and run: "consume_park nitems s = Some t"
  shows "prog_or_park (consume_step mmap_wait mmap_post nitems) (prog s) (prog t)
      (cons_park s, prod_park s) (cons_park t, prod_park t) \<and>
    parked_ok (prod_park t) (prod_waits (prog t)) \<and> parked_ok (cons_park t) (cons_waits (prog t))"
proof -
  obtain p w c where s: "s = \<lparr>prog = p, prod_park = w, cons_park = c\<rparr>" by (cases s) auto
  have ok: "sem_magic (mutex p) = SEM_MAGIC" "sem_magic (nempty p) = SEM_MAGIC"
    "sem_magic (nstored p) = SEM_MAGIC"
    and pk: "parked_ok w (prod_waits p)" "parked_ok c (cons_waits p)"
    using inv by (auto simp: park_inv_def prodcons_inv_def s)
  note wp = park_wait_returns [OF ok(1)] park_wait_returns [OF ok(3)] park_post_returns [OF ok(1)]
    park_post_returns [OF ok(2)]
  note d = prog_or_park_def consume_step_def consume_park_def waits_mutex s Let_def
  have awake: "c = Awake" if "cons_waits p = None" using pk(2) that by (simp add: parked_ok_def)
  show ?thesis
  proof (cases "cons_pc p")
    case C_nstored
    with run pk show ?thesis
      by (auto simp: d wp parked_ok_zero split: if_splits)
  next
    case C_mutex
    with run pk show ?thesis
      using parked_ok_taken [of "mutex p" _ w]
      by (auto simp: d wp parked_ok_zero split: if_splits)
  next
    case C_unlock
    then have "c = Awake" by (intro awake) (simp add: cons_waits_def)
    with C_unlock run pk show ?thesis
      by (auto simp: d wp parked_ok_posted split: if_splits)
  next
    case C_post
    then have "c = Awake" by (intro awake) (simp add: cons_waits_def)
    with C_post run pk show ?thesis
      by (auto simp: d wp parked_ok_posted split: if_splits)
  next
    case C_test
    then have "c = Awake" by (intro awake) (simp add: cons_waits_def)
    with C_test run pk show ?thesis by (auto simp: d)
  next
    case C_check
    then have "c = Awake" by (intro awake) (simp add: cons_waits_def)
    with C_check run pk show ?thesis by (auto simp: d)
  next
    case C_done
    with run show ?thesis by (simp add: d)
  qed
qed


lemma park_keeps:
  assumes inv: "park_inv nitems s" and step: "park_step nitems s t"
  shows "park_inv nitems t"
proof -
  have "mmap_inv nitems (prog s)" using inv by (simp add: park_inv_def)
  then have "prog t = prog s \<or> prodcons_step mmap_wait mmap_post nitems (prog s) (prog t) \<Longrightarrow>
      mmap_inv nitems (prog t)"
    using mmap_sem.prodcons_keeps [of nitems "prog s" "prog t"] by auto
  then show ?thesis
    using step produce_park_simulates [OF inv, of t] consume_park_simulates [OF inv, of t]
    by (auto simp: park_step_def park_inv_def prog_or_park_def prodcons_step_def)
qed

lemma spurious_keeps: "park_inv nitems s \<Longrightarrow> spurious_step s t \<Longrightarrow> park_inv nitems t"
  by (auto simp: park_inv_def spurious_step_def parked_ok_def)

section \<open>Progress and termination\<close>

definition park_rank :: "park \<Rightarrow> nat" where
  "park_rank w = (if w = Parked then 0 else 1)"

definition park_left :: "int \<Rightarrow> parked_prog \<Rightarrow> nat" where
  "park_left nitems s = 2 * prodcons_left nitems (prog s) + park_rank (prod_park s) + park_rank (cons_park s)"

lemma park_step_decreases:
  assumes inv: "park_inv nitems s" and step: "park_step nitems s t"
  shows "park_left nitems t < park_left nitems s"
proof -
  have "mmap_inv nitems (prog s)" "mmap_inv nitems (prog t)"
    using inv park_keeps [OF assms] by (simp_all add: park_inv_def)
  then have "prodcons_step mmap_wait mmap_post nitems (prog s) (prog t) \<Longrightarrow>
      prodcons_left nitems (prog t) < prodcons_left nitems (prog s)"
    using prodcons_step_decreases [of mmap_wait mmap_post nitems "prog s" "prog t"] by blast
  then show ?thesis
    using step produce_park_simulates [OF inv, of t] consume_park_simulates [OF inv, of t]
    by (auto simp: park_step_def park_left_def park_rank_def prog_or_park_def prodcons_step_def)
qed

text \<open>A thread that could run over the counting semaphore is not parked, and it can run here.\<close>

lemma produce_park_enabled:
  assumes "park_inv nitems s" and "produce_step mmap_wait mmap_post nitems (prog s) = Some p"
  shows "\<exists>t. produce_park nitems s = Some t"
proof -
  have ok: "sem_magic (mutex (prog s)) = SEM_MAGIC" "sem_magic (nempty (prog s)) = SEM_MAGIC"
    "sem_magic (nstored (prog s)) = SEM_MAGIC"
    and pk: "parked_ok (prod_park s) (prod_waits (prog s))"
    using assms(1) by (auto simp: park_inv_def prodcons_inv_def)
  show ?thesis
    using assms(2) pk ok
    by (cases "prod_pc (prog s)")
      (auto simp: produce_park_def produce_step_def waits_mutex parked_ok_def park_wait_def park_post_def
        mmap_sem_defs Let_def split: if_splits)
qed

lemma consume_park_enabled:
  assumes "park_inv nitems s" and "consume_step mmap_wait mmap_post nitems (prog s) = Some p"
  shows "\<exists>t. consume_park nitems s = Some t"
proof -
  have ok: "sem_magic (mutex (prog s)) = SEM_MAGIC" "sem_magic (nempty (prog s)) = SEM_MAGIC"
    "sem_magic (nstored (prog s)) = SEM_MAGIC"
    and pk: "parked_ok (cons_park s) (cons_waits (prog s))"
    using assms(1) by (auto simp: park_inv_def prodcons_inv_def)
  show ?thesis
    using assms(2) pk ok
    by (cases "cons_pc (prog s)")
      (auto simp: consume_park_def consume_step_def waits_mutex parked_ok_def park_wait_def park_post_def
        mmap_sem_defs Let_def split: if_splits)
qed

lemma park_progress:
  assumes inv: "park_inv nitems s" and "\<not> both_done (prog s)"
  shows "\<exists>t. park_step nitems s t"
proof -
  obtain p where "prodcons_step mmap_wait mmap_post nitems (prog s) p"
    using mmap_sem.prodcons_progress [of nitems "prog s"] assms by (auto simp: park_inv_def)
  then show ?thesis
    using produce_park_enabled [OF inv] consume_park_enabled [OF inv]
    by (auto simp: prodcons_step_def park_step_def)
qed

lemma park_start_inv: "park_inv nitems park_start"
  using mmap_sem.prodcons_start_inv [of mysem_of nitems]
  by (simp add: park_inv_def park_start_def sem_of_defs unat_of_nat)

lemma prodcons_left_bound:
  assumes "prodcons_inv sval usable nitems s"
  shows "prodcons_left nitems s \<le> 12 * nat nitems + 2"
proof -
  have "0 \<le> cons_i s" "cons_i s + has_item (cons_pc s) \<le> prod_i s"
    using assms by (auto simp: prodcons_inv_def)
  moreover have "prod_rank (prod_pc s) \<le> 1" by (cases "prod_pc s") simp_all
  moreover have "cons_rank (cons_pc s) \<le> 1" by (cases "cons_pc s") simp_all
  ultimately show ?thesis using cons_flags(1) [of "cons_pc s"] unfolding prodcons_left_def
    by (cases "0 \<le> nitems") (simp_all add: max_def nat_le_iff)
qed

lemma prodcons_at_end:
  assumes "prodcons_inv sval usable nitems s" and "both_done s"
  shows "prod_i s = max 0 nitems \<and> cons_i s = max 0 nitems"
  using assms by (auto simp: prodcons_inv_def both_done_def)

lemma park_left_bound: "park_inv nitems s \<Longrightarrow> park_left nitems s \<le> 24 * nat nitems + 6"
  using prodcons_left_bound [of _ _ nitems "prog s"]
  by (fastforce simp: park_inv_def park_left_def park_rank_def)

interpretation parked: ending_runs "\<lambda>s. s = park_start" "park_step nitems" "park_inv nitems"
  "\<lambda>s. int (park_left nitems s)" "\<lambda>s. both_done (prog s)" for nitems
  by unfold_locales (auto intro: park_keeps park_start_inv park_step_decreases park_progress)

interpretation spurious: inductive_invariant "\<lambda>s. s = park_start"
  "\<lambda>s t. park_step nitems s t \<or> spurious_step s t" "park_inv nitems" for nitems
  by unfold_locales (auto intro: park_keeps park_start_inv spurious_keeps)

section \<open>Properties\<close>

text \<open>
  C16. \<open>prodcons1\<close> over the mapped semaphores, with threads that park in \<open>pthread_cond_wait\<close> and are
  woken by the signal of \<open>mysem_post\<close>. In every state reached with any spurious wakeups, and after
  any further steps \<open>ts\<close> of the two threads, the consumer has found each item it read and printed
  nothing; some thread can run, with no further spurious wakeup, unless both have returned, so no
  wakeup is lost; these steps are at most \<open>24 * nitems + 6\<close>; and both return only when all the items
  have been produced and consumed.
\<close>

theorem prodcons1_mmap:
  assumes "reach (\<lambda>s. s = park_start) (\<lambda>s t. park_step nitems s t \<or> spurious_step s t) s"
    and "path_steps (park_step nitems) s ts" and "t = last (s # ts)"
  shows "printed (prog t) = [] \<and> length ts \<le> 24 * nat nitems + 6 \<and>
    (both_done (prog t) \<or> (\<exists>u. park_step nitems t u)) \<and>
    (both_done (prog t) \<longrightarrow> prod_i (prog t) = max 0 nitems \<and> cons_i (prog t) = max 0 nitems)"
proof -
  have s: "park_inv nitems s" using spurious.inv_reach [OF assms(1)] .
  have t: "park_inv nitems t" and len: "length ts \<le> park_left nitems s"
    and go: "both_done (prog t) \<or> (\<exists>u. park_step nitems t u)"
    using parked.ends [OF s assms(2)] assms(3) by simp_all
  have inv: "mmap_inv nitems (prog t)" using t by (simp add: park_inv_def)
  then have "printed (prog t) = []" by (simp add: prodcons_inv_def)
  then show ?thesis using prodcons_at_end [OF inv] go len park_left_bound [OF s] by auto
qed

text \<open>
  The consumer runs first, finds no item and parks; nothing but the producer's post wakes it.
\<close>

definition park_blocked :: parked_prog where
  "park_blocked = park_start\<lparr>prog := (prog park_start)\<lparr>cons_pc := C_nstored\<rparr>, cons_park := Parked\<rparr>"

lemma park_blocked_run:
  "path_steps (park_step 1) park_start
    [park_start\<lparr>prog := (prog park_start)\<lparr>cons_pc := C_nstored\<rparr>\<rparr>, park_blocked] \<and>
    consume_park 1 park_blocked = None"
  by (simp add: park_step_def park_blocked_def park_start_def prodcons_start_def consume_park_def
      park_wait_def mysem_wait_def mysem_wait_wakeup_def mysem_of_def Let_def)

theorem prodcons1_mmap_witness:
  "cons_park park_blocked = Parked \<and> (\<exists>u. park_step 1 park_blocked u)"
  using prodcons1_mmap [OF reach_start _ refl, OF _ conjunct1 [OF park_blocked_run]]
  by (auto simp: park_blocked_def both_done_def park_start_def prodcons_start_def)

end
