(* ===== verification/Pxsem_Open.thy ===== *)
theory Pxsem_Open
  imports Pxsem Syscall
begin

unbundle bit_operations_syntax

text \<open>
  \<open>mysem_open\<close> and \<open>mysem_unlink\<close> of the three semaphore implementations, with all their system
  calls and error exits.
\<close>

section \<open>The mapped file\<close>

abbreviation (input) SEM_MAX_TRIES :: nat where "SEM_MAX_TRIES \<equiv> 10"

text \<open>
  The label \<open>err\<close>. \<open>sem\<close> is \<open>None\<close> while it is \<open>MAP_FAILED\<close>; \<open>semsz\<close> is \<open>sizeof(mysem_t)\<close>. A
  successful open returns the address of the semaphore.
\<close>

definition sem_open_err ::
  "nat \<Rightarrow> string \<Rightarrow> bool \<Rightarrow> int option \<Rightarrow> int \<Rightarrow> errno \<Rightarrow> world \<Rightarrow> (int result \<times> world) option" where
  "sem_open_err semsz pathname created sem fd errno w =
    do {
      (_, w) \<leftarrow> (if created then sys (Unlink pathname) w else Some (Inr 0, w));
      (_, w) \<leftarrow> (case sem of None \<Rightarrow> Some (Inr 0, w) | Some p \<Rightarrow> sys (Munmap p semsz) w);
      (_, w) \<leftarrow> sys (Close fd) w;
      Some (Inl errno, w)
    }"

definition sem_open_pthreads :: "world \<Rightarrow> (int \<times> world) option" where
  "sem_open_pthreads w =
    do {
      (i, w) \<leftarrow> sys_pth ''pthread_mutexattr_init'' w;
      if i \<noteq> 0 then Some (i, w) else do {
        (_, w) \<leftarrow> sys_pth ''pthread_mutexattr_setpshared'' w;
        (i, w) \<leftarrow> sys_pth ''pthread_mutex_init'' w;
        (_, w) \<leftarrow> sys_pth ''pthread_mutexattr_destroy'' w;
        if i \<noteq> 0 then Some (i, w) else do {
          (i, w) \<leftarrow> sys_pth ''pthread_condattr_init'' w;
          if i \<noteq> 0 then Some (i, w) else do {
            (_, w) \<leftarrow> sys_pth ''pthread_condattr_setpshared'' w;
            (i, w) \<leftarrow> sys_pth ''pthread_cond_init'' w;
            (_, w) \<leftarrow> sys_pth ''pthread_condattr_destroy'' w;
            Some (i, w)
          }
        }
      }
    }"

text \<open>
  From the creation of the file to the return. \<open>stale\<close> is the \<open>errno\<close> that a short write leaves as
  it was; \<open>sem0\<close> is the value of \<open>sem\<close> from before \<open>goto again\<close>. A \<open>sysconf\<close> that fails returns -1.
\<close>

definition sem_open_create ::
  "nat \<Rightarrow> errno \<Rightarrow> string \<Rightarrow> uint \<Rightarrow> uint \<Rightarrow> int option \<Rightarrow> int \<Rightarrow> world \<Rightarrow> (int result \<times> world) option" where
  "sem_open_create semsz stale pathname mode value sem0 fd w =
    (let err = sem_open_err semsz pathname True in
     do {
       (r, w) \<leftarrow> sys (Write fd semsz) w;
       if r \<noteq> Inr (int semsz) then err sem0 fd (case r of Inl e \<Rightarrow> e | Inr _ \<Rightarrow> stale) w else do {
       (r, w) \<leftarrow> sys (Mmap semsz fd) w;
       case r of Inl e \<Rightarrow> err None fd e w | Inr sem \<Rightarrow> do {
       (i, w) \<leftarrow> sem_open_pthreads w;
       if i \<noteq> 0 then err (Some sem) fd i w else do {
       (r, w) \<leftarrow> sys (Sysconf ''_SC_SEM_VALUE_MAX'') w;
       if (case r of Inl _ \<Rightarrow> - 1 | Inr v \<Rightarrow> v) < int (unat value) then err (Some sem) fd EINVAL w else do {
       (r, w) \<leftarrow> sys (Fchmod fd mode) w;
       case r of Inl e \<Rightarrow> err (Some sem) fd e w | Inr _ \<Rightarrow> do {
       (_, w) \<leftarrow> sys (Close fd) w;
       Some (Inr sem, w)
       }}}}}
     })"

text \<open>The loop that waits for the initialisation; \<open>n\<close> tries are left.\<close>

datatype sem_tries = Opened int | Open_again | Open_failed errno

fun sem_open_tries :: "nat \<Rightarrow> string \<Rightarrow> uint \<Rightarrow> int \<Rightarrow> int \<Rightarrow> world \<Rightarrow> (sem_tries \<times> world) option" where
  "sem_open_tries 0 pathname oflag sem fd w = Some (Open_failed ETIMEDOUT, w)"
| "sem_open_tries (Suc n) pathname oflag sem fd w =
    do {
      (r, w) \<leftarrow> sys_stat pathname w;
      case r of
        Inl e \<Rightarrow>
          if e = ENOENT \<and> oflag AND O_CREAT \<noteq> 0 then do {
            (_, w) \<leftarrow> sys (Close fd) w;
            Some (Open_again, w)
          } else Some (Open_failed e, w)
      | Inr (md, sz) \<Rightarrow>
          if md AND S_IXUSR = 0 then do {
            (_, w) \<leftarrow> sys (Close fd) w;
            Some (Opened sem, w)
          } else do {
            (_, w) \<leftarrow> sys (Sleep 1) w;
            sem_open_tries n pathname oflag sem fd w
          }
    }"

partial_function (option) sem_open_again ::
  "nat \<Rightarrow> errno \<Rightarrow> string \<Rightarrow> uint \<Rightarrow> uint \<Rightarrow> uint \<Rightarrow> int option \<Rightarrow> world \<Rightarrow> (int result \<times> world) option" where
  "sem_open_again semsz stale pathname oflag mode value sem0 w =
    do {
      (c, w) \<leftarrow> (if oflag AND O_CREAT \<noteq> 0
                then sys (Open pathname (oflag OR O_EXCL OR O_RDWR) (mode OR S_IXUSR)) w
                else Some (Inl EEXIST, w));
      (case c of
        Inr fd \<Rightarrow> sem_open_create semsz stale pathname mode value sem0 fd w
      | Inl e \<Rightarrow>
          if oflag AND O_CREAT \<noteq> 0 \<and> \<not> (e = EEXIST \<and> oflag AND O_EXCL = 0) then Some (Inl e, w)
          else do {
            (r, w) \<leftarrow> sys (Open pathname O_RDWR 0) w;
            (case r of
              Inl e \<Rightarrow>
                if e = ENOENT \<and> oflag AND O_CREAT \<noteq> 0
                then sem_open_again semsz stale pathname oflag mode value sem0 w
                else sem_open_err semsz pathname False sem0 (- 1) e w
            | Inr fd \<Rightarrow> do {
                (r, w) \<leftarrow> sys (Mmap semsz fd) w;
                (case r of
                  Inl e \<Rightarrow> sem_open_err semsz pathname False None fd e w
                | Inr sem \<Rightarrow> do {
                    (t, w) \<leftarrow> sem_open_tries SEM_MAX_TRIES pathname oflag sem fd w;
                    (case t of
                      Open_again \<Rightarrow> sem_open_again semsz stale pathname oflag mode value (Some sem) w
                    | Open_failed e \<Rightarrow> sem_open_err semsz pathname False (Some sem) fd e w
                    | Opened p \<Rightarrow> Some (Inr p, w))
                  })
              })
          })
    }"

definition mysem_open ::
  "nat \<Rightarrow> errno \<Rightarrow> string \<Rightarrow> uint \<Rightarrow> uint \<Rightarrow> uint \<Rightarrow> world \<Rightarrow> (int result \<times> world) option" where
  "mysem_open semsz stale pathname oflag mode0 value w =
    sem_open_again semsz stale pathname oflag (mode0 AND NOT S_IXUSR) value None w"

definition mysem_unlink :: "string \<Rightarrow> world \<Rightarrow> (unit result \<times> world) option" where
  "mysem_unlink pathname w =
    do {
      (r, w) \<leftarrow> sys (Unlink pathname) w;
      Some (map_sum id (\<lambda>_. ()) r, w)
    }"

section \<open>The System V semaphore\<close>

abbreviation (input) SVSEM_MODE :: uint where "SVSEM_MODE \<equiv> 420"
abbreviation (input) IPC_CREAT :: uint where "IPC_CREAT \<equiv> 512"
abbreviation (input) IPC_EXCL :: uint where "IPC_EXCL \<equiv> 1024"

text \<open>The label \<open>err\<close>: the semaphore is removed whenever \<open>semid\<close> is one. \<open>Sem_stat\<close> answers \<open>sem_otime\<close>.\<close>

definition sv_open_err :: "int option \<Rightarrow> errno \<Rightarrow> world \<Rightarrow> (mysem_sv result \<times> world) option" where
  "sv_open_err semid errno w =
    do {
      (_, w) \<leftarrow> (case semid of None \<Rightarrow> Some (Inr 0, w) | Some i \<Rightarrow> sys (Sem_rmid i) w);
      Some (Inl errno, w)
    }"

definition sv_open_finish :: "int \<Rightarrow> world \<Rightarrow> (mysem_sv result \<times> world) option" where
  "sv_open_finish semid w =
    do {
      (r, w) \<leftarrow> sys (Malloc 8) w;
      case r of
        Inl e \<Rightarrow> sv_open_err (Some semid) e w
      | Inr _ \<Rightarrow> Some (Inr \<lparr>sem_semid = semid, sem_magic_sv = SEM_MAGIC_SV\<rparr>, w)
    }"

definition sv_open_init :: "int \<Rightarrow> uint \<Rightarrow> world \<Rightarrow> (mysem_sv result \<times> world) option" where
  "sv_open_init semid value w =
    do {
      (r, w) \<leftarrow> sys (Sem_setval semid 0) w;
      case r of Inl e \<Rightarrow> sv_open_err (Some semid) e w | Inr _ \<Rightarrow>
      if SEMVMX < unat value then sv_open_err (Some semid) EINVAL w
      else do {
        (r, w) \<leftarrow> sys (Sem_op semid (int (unat value))) w;
        case r of Inl e \<Rightarrow> sv_open_err (Some semid) e w | Inr _ \<Rightarrow> sv_open_finish semid w
      }
    }"

fun sv_open_tries :: "nat \<Rightarrow> int \<Rightarrow> world \<Rightarrow> (mysem_sv result \<times> world) option" where
  "sv_open_tries 0 semid w = sv_open_err (Some semid) ETIMEDOUT w"
| "sv_open_tries (Suc n) semid w =
    do {
      (r, w) \<leftarrow> sys (Sem_stat semid) w;
      case r of
        Inl e \<Rightarrow> sv_open_err (Some semid) e w
      | Inr otime \<Rightarrow>
          if otime \<noteq> 0 then sv_open_finish semid w
          else do {
            (_, w) \<leftarrow> sys (Sleep 1) w;
            sv_open_tries n semid w
          }
    }"

definition sv_open_existing :: "string \<Rightarrow> uint \<Rightarrow> world \<Rightarrow> (mysem_sv result \<times> world) option" where
  "sv_open_existing pathname semflag w =
    do {
      (r, w) \<leftarrow> sys (Ftok pathname) w;
      case r of Inl e \<Rightarrow> sv_open_err None e w | Inr key \<Rightarrow> do {
      (r, w) \<leftarrow> sys (Semget key 0 semflag) w;
      case r of Inl e \<Rightarrow> sv_open_err None e w | Inr semid \<Rightarrow> sv_open_tries SEM_MAX_TRIES semid w
      }
    }"

definition mysem_open_sv :: "string \<Rightarrow> uint \<Rightarrow> uint \<Rightarrow> uint \<Rightarrow> world \<Rightarrow> (mysem_sv result \<times> world) option" where
  "mysem_open_sv pathname oflag mode value w =
    (if oflag AND O_CREAT = 0 then sv_open_existing pathname SVSEM_MODE w
     else do {
       (r, w) \<leftarrow> sys (Open pathname oflag mode) w;
       case r of Inl e \<Rightarrow> Some (Inl e, w) | Inr fd \<Rightarrow> do {
       (_, w) \<leftarrow> sys (Close fd) w;
       (r, w) \<leftarrow> sys (Ftok pathname) w;
       case r of Inl e \<Rightarrow> Some (Inl e, w) | Inr key \<Rightarrow> (
       let semflag = IPC_CREAT OR (mode AND 511) OR (if oflag AND O_EXCL \<noteq> 0 then IPC_EXCL else 0)
       in do {
         (r, w) \<leftarrow> sys (Semget key 1 (semflag OR IPC_EXCL)) w;
         case r of
           Inr semid \<Rightarrow> sv_open_init semid value w
         | Inl e \<Rightarrow>
             if e \<noteq> EEXIST \<or> semflag AND IPC_EXCL \<noteq> 0 then sv_open_err None e w
             else sv_open_existing pathname semflag w
       })}
     })"

definition mysem_unlink_sv :: "string \<Rightarrow> world \<Rightarrow> (unit result \<times> world) option" where
  "mysem_unlink_sv pathname w =
    do {
      (r, w) \<leftarrow> sys (Ftok pathname) w;
      case r of Inl e \<Rightarrow> Some (Inl e, w) | Inr key \<Rightarrow> do {
      (r, w) \<leftarrow> sys (Unlink pathname) w;
      case r of Inl e \<Rightarrow> Some (Inl e, w) | Inr _ \<Rightarrow> do {
      (r, w) \<leftarrow> sys (Semget key 1 SVSEM_MODE) w;
      case r of Inl e \<Rightarrow> Some (Inl e, w) | Inr semid \<Rightarrow> do {
      (r, w) \<leftarrow> sys (Sem_rmid semid) w;
      Some (map_sum id (\<lambda>_. ()) r, w)
      }}}
    }"

section \<open>The FIFO\<close>

text \<open>The label \<open>error\<close>: \<open>fd0\<close> and \<open>fd1\<close> are -1 until opened. \<open>oflag\<close> keeps \<open>O_CREAT\<close> if the FIFO is new.\<close>

definition fifo_open_error ::
  "string \<Rightarrow> bool \<Rightarrow> int \<Rightarrow> int \<Rightarrow> int \<Rightarrow> errno \<Rightarrow> world \<Rightarrow> (mysem_fifo result \<times> world) option" where
  "fifo_open_error pathname created sem fd0 fd1 errno w =
    do {
      (_, w) \<leftarrow> (if created then sys (Unlink pathname) w else Some (Inr 0, w));
      (_, w) \<leftarrow> sys (Close fd0) w;
      (_, w) \<leftarrow> sys (Close fd1) w;
      (_, w) \<leftarrow> sys (Free sem) w;
      Some (Inl errno, w)
    }"

text \<open>The writes that give the semaphore its value: \<open>n\<close> bytes are left. A failure is its \<open>errno\<close>.\<close>

fun fifo_open_fill :: "nat \<Rightarrow> errno \<Rightarrow> int \<Rightarrow> world \<Rightarrow> (errno option \<times> world) option" where
  "fifo_open_fill 0 stale fd1 w = Some (None, w)"
| "fifo_open_fill (Suc n) stale fd1 w =
    do {
      (r, w) \<leftarrow> sys (Write fd1 1) w;
      if r = Inr 1 then fifo_open_fill n stale fd1 w
      else Some (Some (case r of Inl e \<Rightarrow> e | Inr _ \<Rightarrow> stale), w)
    }"

definition fifo_open_fds ::
  "string \<Rightarrow> bool \<Rightarrow> nat \<Rightarrow> errno \<Rightarrow> int \<Rightarrow> world \<Rightarrow> (mysem_fifo result \<times> world) option" where
  "fifo_open_fds pathname created value stale sem w =
    (let error = fifo_open_error pathname created sem in
     do {
       (r, w) \<leftarrow> sys (Open pathname (O_RDONLY OR O_NONBLOCK) 0) w;
       case r of Inl e \<Rightarrow> error (- 1) (- 1) e w | Inr fd0 \<Rightarrow> do {
       (r, w) \<leftarrow> sys (Open pathname (O_WRONLY OR O_NONBLOCK) 0) w;
       case r of Inl e \<Rightarrow> error fd0 (- 1) e w | Inr fd1 \<Rightarrow> do {
       (r, w) \<leftarrow> sys (Fcntl_getfl fd0) w;
       case r of Inl e \<Rightarrow> error fd0 fd1 e w | Inr flags \<Rightarrow> do {
       (r, w) \<leftarrow> sys (Fcntl_setfl fd0 (word_of_int flags AND NOT O_NONBLOCK)) w;
       case r of Inl e \<Rightarrow> error fd0 fd1 e w | Inr _ \<Rightarrow> do {
       (f, w) \<leftarrow> (if created then fifo_open_fill value stale fd1 w else Some (None, w));
       case f of
         Some e \<Rightarrow> error fd0 fd1 e w
       | None \<Rightarrow> Some (Inr \<lparr>sem_fd0 = fd0, sem_fd1 = fd1, sem_magic_fifo = SEM_MAGIC_FIFO\<rparr>, w)
       }}}}
     })"

definition mysem_open_fifo ::
  "errno \<Rightarrow> string \<Rightarrow> uint \<Rightarrow> uint \<Rightarrow> uint \<Rightarrow> world \<Rightarrow> (mysem_fifo result \<times> world) option" where
  "mysem_open_fifo stale pathname oflag mode value w =
    do {
      (r, w) \<leftarrow> (if oflag AND O_CREAT \<noteq> 0 then sys (Mkfifo pathname mode) w else Some (Inl EEXIST, w));
      (case r of
        Inl e \<Rightarrow>
          if oflag AND O_CREAT \<noteq> 0 \<and> \<not> (e = EEXIST \<and> oflag AND O_EXCL = 0) then Some (Inl e, w)
          else do {
            (m, w) \<leftarrow> sys (Malloc 12) w;
            case m of Inl e \<Rightarrow> Some (Inl e, w) | Inr sem \<Rightarrow> fifo_open_fds pathname False (unat value) stale sem w
          }
      | Inr _ \<Rightarrow> do {
            (m, w) \<leftarrow> sys (Malloc 12) w;
            case m of Inl e \<Rightarrow> Some (Inl e, w) | Inr sem \<Rightarrow> fifo_open_fds pathname True (unat value) stale sem w
          })
    }"

definition mysem_unlink_fifo :: "string \<Rightarrow> world \<Rightarrow> (unit result \<times> world) option" where
  "mysem_unlink_fifo pathname w =
    do {
      (r, w) \<leftarrow> sys (Unlink pathname) w;
      Some (map_sum id (\<lambda>_. ()) r, w)
    }"

section \<open>What the mapped version leaves behind\<close>

lemma bind_sem_pthreadsE:
  assumes "Option.bind (sem_open_pthreads w) f = Some x"
  obtains i w' where "left_by (snd w') = left_by (snd w)" and "f (i, w') = Some x"
proof (cases "sem_open_pthreads w")
  case (Some y)
  then have "left_by (snd (snd y)) = left_by (snd w)"
    by (cases y) (auto simp: sem_open_pthreads_def elim!: call_elims split: if_splits)
  with Some assms that [of "snd y" "fst y"] show ?thesis by simp
qed (use assms in simp)

lemma sem_open_errE:
  assumes "sem_open_err semsz pathname created sem fd e w = Some (r, w')"
  obtains "r = Inl e" and "left_by (snd w') =
    (let r0 = left_by (snd w) in
     r0\<lparr>r_fds := remove1 fd (r_fds r0),
      r_maps := (case sem of None \<Rightarrow> r_maps r0 | Some p \<Rightarrow> remove1 p (r_maps r0)),
      r_names := (if created then remove1 pathname (r_names r0) else r_names r0)\<rparr>)"
  using assms unfolding sem_open_err_def Let_def
  by (cases created; cases sem; auto elim!: call_elims)

lemma sem_open_tries_leaves:
  "sem_open_tries n pathname oflag sem fd w = Some (t, w') \<Longrightarrow>
    (case t of Open_failed e \<Rightarrow> left_by (snd w') = left_by (snd w)
     | Opened p \<Rightarrow> p = sem \<and> left_by (snd w') = (left_by (snd w))\<lparr>r_fds := remove1 fd (r_fds (left_by (snd w)))\<rparr>
     | Open_again \<Rightarrow> left_by (snd w') = (left_by (snd w))\<lparr>r_fds := remove1 fd (r_fds (left_by (snd w)))\<rparr>)"
proof (induction n arbitrary: w)
  case (Suc n)
  then show ?case by (auto elim!: call_elims split: if_splits sem_tries.splits)
qed auto

lemma bind_sem_triesE:
  assumes "Option.bind (sem_open_tries n pathname oflag sem fd w) f = Some x"
  obtains (failed) e w' where "left_by (snd w') = left_by (snd w)" and "f (Open_failed e, w') = Some x"
  | (closed) t w' where "t = Opened sem \<or> t = Open_again"
    and "left_by (snd w') = (left_by (snd w))\<lparr>r_fds := remove1 fd (r_fds (left_by (snd w)))\<rparr>"
    and "f (t, w') = Some x"
proof (cases "sem_open_tries n pathname oflag sem fd w")
  case (Some y)
  then have l: "case fst y of Open_failed e \<Rightarrow> left_by (snd (snd y)) = left_by (snd w)
     | Opened p \<Rightarrow> p = sem \<and> left_by (snd (snd y)) = (left_by (snd w))\<lparr>r_fds := remove1 fd (r_fds (left_by (snd w)))\<rparr>
     | Open_again \<Rightarrow> left_by (snd (snd y)) = (left_by (snd w))\<lparr>r_fds := remove1 fd (r_fds (left_by (snd w)))\<rparr>"
    and f: "f (fst y, snd y) = Some x"
    using assms sem_open_tries_leaves [of n pathname oflag sem fd w "fst y" "snd y"] by simp_all
  show ?thesis
  proof (cases "fst y")
    case (Open_failed e)
    with l f show ?thesis by (intro failed [of "snd y" e]) simp_all
  next
    case (Opened p)
    with l f show ?thesis by (intro closed [of "fst y" "snd y"]) simp_all
  next
    case Open_again
    with l f show ?thesis by (intro closed [of "fst y" "snd y"]) simp_all
  qed
qed (use assms in simp)

lemmas sem_open_elims = call_elims bind_sem_pthreadsE sem_open_errE

definition sem_leaves :: "int result \<Rightarrow> res \<Rightarrow> bool" where
  "sem_leaves r r1 \<longleftrightarrow> r_fds r1 = [] \<and> r_mems r1 = [] \<and>
    (case r of Inl _ \<Rightarrow> r_names r1 = [] | Inr p \<Rightarrow> p \<in> set (r_maps r1))"

text \<open>A trace that holds only mappings and the given descriptors and names.\<close>

definition holds_only :: "int list \<Rightarrow> string list \<Rightarrow> res \<Rightarrow> bool" where
  "holds_only fds names r \<longleftrightarrow> r_fds r = fds \<and> r_mems r = [] \<and> r_names r = names"

lemma sem_open_create_leaves:
  "sem_open_create semsz stale pathname mode value sem0 fd w = Some (r, w') \<Longrightarrow>
    holds_only [fd] [pathname] (left_by (snd w)) \<longrightarrow> sem_leaves r (left_by (snd w'))"
  unfolding sem_open_create_def Let_def
  by (auto elim!: sem_open_elims split: if_splits simp: sem_leaves_def holds_only_def Let_def)

lemma sem_creat_flag: "(oflag OR 130) AND O_CREAT = oflag AND O_CREAT" for oflag :: uint
  by (simp add: bit.conj_disj_distrib2)

lemma sem_open_again_leaves:
  assumes "sem_open_again semsz stale pathname oflag mode value sem0 w = Some y"
    and "holds_only [] [] (left_by (snd w))"
  shows "sem_leaves (fst y) (left_by (snd (snd y)))"
  using assms
proof (induction rule: sem_open_again.raw_induct [rotated, consumes 1, case_names again])
  case (again rec semsz stale pathname oflag mode v sem0 w y)
  obtain r w' where y: "y = (r, w')" by (cases y)
  have IH: "rec semsz stale pathname oflag mode v sem u = Some (r, w') \<Longrightarrow>
      holds_only [] [] (left_by (snd u)) \<longrightarrow> sem_leaves r (left_by (snd w'))" for sem u
    using again(1) [of semsz stale pathname oflag mode v sem u y] y by simp
  show ?case
    using again(2,3) y
    by (cases "oflag AND O_CREAT = 0")
      (auto elim!: sem_open_elims bind_sem_triesE split: if_splits
        dest!: IH sem_open_create_leaves simp: sem_leaves_def holds_only_def sem_creat_flag Let_def)
qed

section \<open>What the FIFO version leaves behind\<close>

lemma fifo_open_errorE:
  assumes "fifo_open_error pathname created sem fd0 fd1 e w = Some (r, w')"
  obtains "r = Inl e" and "left_by (snd w') =
    (let r0 = left_by (snd w) in
     r0\<lparr>r_fds := remove1 fd1 (remove1 fd0 (r_fds r0)), r_mems := remove1 sem (r_mems r0),
      r_names := (if created then remove1 pathname (r_names r0) else r_names r0)\<rparr>)"
  using assms unfolding fifo_open_error_def Let_def
  by (cases created; auto elim!: call_elims)

lemma fifo_open_fill_leaves:
  "fifo_open_fill n stale fd1 w = Some (f, w') \<Longrightarrow> left_by (snd w') = left_by (snd w)"
  by (induction n arbitrary: w) (auto elim!: call_elims split: if_splits)

lemma bind_fifo_fillE:
  assumes "Option.bind (fifo_open_fill n stale fd1 w) f = Some x"
  obtains e w' where "left_by (snd w') = left_by (snd w)" and "f (e, w') = Some x"
proof (cases "fifo_open_fill n stale fd1 w")
  case (Some y)
  with assms fifo_open_fill_leaves [of n stale fd1 w "fst y" "snd y"] that [of "snd y" "fst y"]
  show ?thesis by simp
qed (use assms in simp)

definition fifo_leaves :: "mysem_fifo result \<Rightarrow> res \<Rightarrow> bool" where
  "fifo_leaves r r1 \<longleftrightarrow>
    (case r of Inl _ \<Rightarrow> r_fds r1 = [] \<and> r_mems r1 = []
     | Inr sem \<Rightarrow> r_fds r1 = [sem_fd1 sem, sem_fd0 sem] \<and> length (r_mems r1) = 1)"

lemma fifo_open_fds_leaves:
  "fifo_open_fds pathname created v stale sem w = Some (r, w') \<Longrightarrow>
    left_by (snd w) = \<lparr>r_fds = [], r_maps = [], r_mems = [sem], r_names = (if created then [pathname] else [])\<rparr> \<longrightarrow>
    fifo_leaves r (left_by (snd w')) \<and> (\<forall>e. r = Inl e \<longrightarrow> r_names (left_by (snd w')) = [])"
  unfolding fifo_open_fds_def Let_def
  by (cases created)
    (auto elim!: call_elims fifo_open_errorE bind_fifo_fillE split: option.splits simp: fifo_leaves_def Let_def)

section \<open>Properties\<close>

text \<open>
  \<open>mysem_open\<close> of the mapped semaphore, whatever the system answers: it never leaves a
  descriptor open; when it fails, it has unlinked the file it created; when it succeeds, the
  address it returns is mapped.
\<close>

lemma mysem_open_closes:
  assumes "mysem_open semsz stale pathname oflag mode v (as, []) = Some (r, (as', tr))"
  shows "r_fds (left_by tr) = [] \<and>
    (case r of Inl _ \<Rightarrow> r_names (left_by tr) = [] | Inr p \<Rightarrow> p \<in> set (r_maps (left_by tr)))"
  using sem_open_again_leaves [of semsz stale pathname oflag "mode AND NOT S_IXUSR" v None "(as, [])" "(r, (as', tr))"]
    assms by (auto simp: mysem_open_def holds_only_def sem_leaves_def split: sum.splits)

lemma sem_open_tries_gone:
  "0 < n \<Longrightarrow> oflag AND O_CREAT \<noteq> 0 \<Longrightarrow>
    sem_open_tries n pathname oflag sem fd (Fails ENOENT # Gives v # as, tr) =
      Some (Open_again, (as, tr @ [(Stat pathname, Fails ENOENT), (Close fd, Gives v)]))"
  by (cases n) (simp_all add: sys_consumes)

text \<open>
  A mapping is lost in \<open>mysem_open\<close> when the file disappears between \<open>open\<close> and \<open>stat\<close>: the code
  goes back to \<open>again\<close> with the file mapped, and maps it a second time. The call succeeds with two
  mappings, of which the caller gets one.
\<close>

lemma mysem_open_leaks_mapping:
  "\<exists>as tr. mysem_open 100 0 ''/s'' O_CREAT 420 1 (as, []) = Some (Inr p2, ([], tr)) \<and>
    r_maps (left_by tr) = [p2, p1]"
proof -
  let ?as = "[Fails EEXIST, Gives 3, Gives p1, Fails ENOENT, Gives 0, Gives 4, Gives 100, Gives p2] @
    [Gives 0, Gives 0, Gives 0, Gives 0, Gives 0, Gives 0, Gives 0, Gives 0, Gives 32767, Gives 0, Gives 0]"
  have "\<exists>tr. mysem_open 100 0 ''/s'' O_CREAT 420 1 (?as, []) = Some (Inr p2, ([], tr)) \<and>
      r_maps (left_by tr) = [p2, p1]"
    unfolding mysem_open_def
    apply (subst sem_open_again.simps)
    apply (simp add: sys_consumes sem_open_tries_gone)
    apply (subst sem_open_again.simps)
    apply (simp add: sys_consumes sem_open_create_def sem_open_pthreads_def Let_def)
    done
  then show ?thesis by blast
qed

lemma sv_open_tries_wait:
  "sv_open_tries n semid (concat (replicate n [Gives 0, Gives 0]) @ Gives 0 # as, tr) =
    Some (Inl ETIMEDOUT, (as, tr @ concat (replicate n [(Sem_stat semid, Gives 0), (Sleep 1, Gives 0)])
      @ [(Sem_rmid semid, Gives 0)]))"
  by (induction n arbitrary: tr) (simp_all add: sys_consumes sv_open_err_def)

text \<open>
  \<open>mysem_open\<close> of the System V semaphore removes a semaphore it did not create: a process that
  opens an existing semaphore (no \<open>O_CREAT\<close>) whose creator has not finished within 10 seconds
  fails with ETIMEDOUT and removes the semaphore of the other process with \<open>IPC_RMID\<close>.
\<close>

lemma mysem_open_sv_removes_foreign:
  assumes "oflag AND O_CREAT = 0"
  shows "mysem_open_sv pathname oflag mode v
      ([Gives key, Gives semid] @ concat (replicate 10 [Gives 0, Gives 0]) @ [Gives 0], []) =
    Some (Inl ETIMEDOUT, ([], [(Ftok pathname, Gives key), (Semget key 0 SVSEM_MODE, Gives semid)] @
      concat (replicate 10 [(Sem_stat semid, Gives 0), (Sleep 1, Gives 0)]) @ [(Sem_rmid semid, Gives 0)]))"
  using assms sv_open_tries_wait [of 10 semid "[]"]
  by (simp add: mysem_open_sv_def sv_open_existing_def sys_consumes)

text \<open>
  \<open>mysem_open\<close> of the FIFO semaphore, whatever the system answers: when it fails both
  descriptors are closed and the structure is freed; when it succeeds the two descriptors of the
  semaphore and its structure are what it leaves. The one file that a failed call can leave is the
  FIFO it created, when \<open>malloc\<close> fails.
\<close>

lemma mysem_open_fifo_leaves:
  assumes "mysem_open_fifo stale pathname oflag mode v (as, []) = Some (r, (as', tr))"
  shows "fifo_leaves r (left_by tr) \<and>
    (case r of
      Inl e \<Rightarrow> r_names (left_by tr) = [] \<or> snd (last tr) = Fails e \<and> fst (last tr) = Malloc 12
    | Inr _ \<Rightarrow> True)"
  using assms unfolding mysem_open_fifo_def
  by (cases "oflag AND O_CREAT = 0")
    (auto elim!: call_elims dest!: fifo_open_fds_leaves split: if_splits sum.splits simp: fifo_leaves_def)

end
