(* ===== verification/Wrappers.thy ===== *)
theory Wrappers
  imports Mqueue_Open Pxsem_Open
begin

text \<open>
  The wrapper functions of the message queues and the semaphores: each calls the function of the
  same name and ends the process with a message when the call fails. \<open>Mysem_trywait\<close> passes EAGAIN
  on as a result.
\<close>

section \<open>Message queues\<close>

definition Mymq_send ::
  "int \<Rightarrow> mymq_info \<Rightarrow> byte list \<Rightarrow> uint \<Rightarrow> mapped \<Rightarrow> (mapped, mq_event, unit called) cs_outcome" where
  "Mymq_send n mqinfo ptr prio m =
    map_outcome (wrap1 ''mymq_send error'') (mymq_send n mqinfo ptr prio m)"

definition Mymq_receive ::
  "int \<Rightarrow> mymq_info \<Rightarrow> nat \<Rightarrow> mapped \<Rightarrow> (mapped, mq_event, (byte list \<times> uint) called) cs_outcome" where
  "Mymq_receive n mqinfo len m =
    map_outcome (wrap1 ''mymq_receive error'') (mymq_receive n mqinfo len m)"

definition Mymq_notify ::
  "int \<Rightarrow> int \<Rightarrow> (int \<Rightarrow> unit result) \<Rightarrow> mymq_info \<Rightarrow> sigevent option \<Rightarrow> mapped
    \<Rightarrow> (mapped, mq_event, unit called) cs_outcome" where
  "Mymq_notify n pid kill0 mqinfo notification m =
    map_outcome (wrap1 ''mymq_notify error'') (mymq_notify n pid kill0 mqinfo notification m)"

definition Mymq_getattr :: "int \<Rightarrow> mymq_info \<Rightarrow> mapped \<Rightarrow> (mapped, mq_event, mymq_attr called) cs_outcome" where
  "Mymq_getattr n mqinfo m = map_outcome (wrap1 ''mymq_getattr error'') (mymq_getattr n mqinfo m)"

definition Mymq_setattr :: "int \<Rightarrow> mymq_info \<Rightarrow> mymq_attr \<Rightarrow> mapped \<Rightarrow> mymq_info \<times> mymq_attr called" where
  "Mymq_setattr n mqinfo mqstat m =
    map_prod id (wrap1 ''mymq_setattr error'') (mymq_setattr n mqinfo mqstat m)"

definition Mymq_close ::
  "nat \<Rightarrow> int \<Rightarrow> int \<Rightarrow> (int \<Rightarrow> unit result) \<Rightarrow> (nat \<Rightarrow> unit result) \<Rightarrow> mymq_info \<Rightarrow> mapped
    \<Rightarrow> mapped \<times> mymq_info \<times> unit called" where
  "Mymq_close hsz n pid kill0 munmap mqinfo m =
    (case mymq_close hsz n pid kill0 munmap mqinfo m of
      (m', i, r) \<Rightarrow> (m', i, wrap1 ''mymq_close error'' r))"

text \<open>The message of \<open>Mymq_open\<close> has the path name in it.\<close>

definition Mymq_open ::
  "nat \<Rightarrow> string \<Rightarrow> uint \<Rightarrow> uint \<Rightarrow> mymq_attr option \<Rightarrow> world \<Rightarrow> (mq_handle called \<times> world) option" where
  "Mymq_open hsz pathname oflag mode attr w =
    map_option (map_prod (wrap1 (''mymq_open error for '' @ pathname)) id)
      (mymq_open hsz pathname oflag mode attr w)"

definition Mymq_unlink :: "string \<Rightarrow> world \<Rightarrow> (unit called \<times> world) option" where
  "Mymq_unlink pathname w =
    map_option (map_prod (wrap1 ''mymq_unlink error'') id) (mymq_unlink pathname w)"

section \<open>Semaphores\<close>

text \<open>\<open>Mysem_trywait\<close>: -1 with EAGAIN is returned, any other error ends the process.\<close>

definition wrap_trywait :: "unit result \<Rightarrow> (unit result) called" where
  "wrap_trywait r =
    (case r of
      Inl e \<Rightarrow> if e \<noteq> EAGAIN then Err_sys ''mysem_trywait error'' e else Done (Inl e)
    | Inr u \<Rightarrow> Done (Inr u))"

definition Mysem_wait :: "int \<Rightarrow> mysem \<Rightarrow> (mysem, sem_event, unit called) cs_outcome" where
  "Mysem_wait n sem = map_outcome (wrap1 ''mysem_wait error'') (mysem_wait n sem)"

definition Mysem_post :: "int \<Rightarrow> mysem \<Rightarrow> (mysem, sem_event, unit called) cs_outcome" where
  "Mysem_post n sem = map_outcome (wrap1 ''mysem_post error'') (mysem_post n sem)"

definition Mysem_trywait :: "int \<Rightarrow> mysem \<Rightarrow> (mysem, sem_event, (unit result) called) cs_outcome" where
  "Mysem_trywait n sem = map_outcome wrap_trywait (mysem_trywait n sem)"

definition Mysem_getvalue :: "int \<Rightarrow> mysem \<Rightarrow> int called" where
  "Mysem_getvalue n sem = wrap1 ''mysem_getvalue error'' (mysem_getvalue n sem)"

definition Mysem_close :: "unit result \<Rightarrow> mysem \<Rightarrow> unit called" where
  "Mysem_close munmap sem = wrap1 ''mysem_close error'' (mysem_close munmap sem)"

definition Mysem_open ::
  "nat \<Rightarrow> errno \<Rightarrow> string \<Rightarrow> uint \<Rightarrow> uint \<Rightarrow> uint \<Rightarrow> world \<Rightarrow> (int called \<times> world) option" where
  "Mysem_open semsz stale pathname oflag mode v w =
    map_option (map_prod (wrap1 (''mysem_open error for '' @ pathname)) id)
      (mysem_open semsz stale pathname oflag mode v w)"

definition Mysem_unlink :: "string \<Rightarrow> world \<Rightarrow> (unit called \<times> world) option" where
  "Mysem_unlink pathname w = map_option (map_prod (wrap1 ''mysem_unlink error'') id) (mysem_unlink pathname w)"

definition Mysem_wait_sv :: "bool \<Rightarrow> mysem_sv \<Rightarrow> svsem option \<Rightarrow> (svsem option, unit, unit called) cs_outcome" where
  "Mysem_wait_sv sig sem ks = map_outcome (wrap1 ''mysem_wait error'') (mysem_wait_sv sig sem ks)"

definition Mysem_post_sv :: "mysem_sv \<Rightarrow> svsem option \<Rightarrow> (svsem option, unit, unit called) cs_outcome" where
  "Mysem_post_sv sem ks = map_outcome (wrap1 ''mysem_post error'') (mysem_post_sv sem ks)"

definition Mysem_trywait_sv :: "mysem_sv \<Rightarrow> svsem option \<Rightarrow> (svsem option, unit, (unit result) called) cs_outcome" where
  "Mysem_trywait_sv sem ks = map_outcome wrap_trywait (mysem_trywait_sv sem ks)"

definition Mysem_getvalue_sv :: "mysem_sv \<Rightarrow> svsem option \<Rightarrow> int called" where
  "Mysem_getvalue_sv sem ks = wrap1 ''mysem_getvalue error'' (mysem_getvalue_sv sem ks)"

definition Mysem_close_sv :: "mysem_sv \<Rightarrow> mysem_sv \<times> unit called" where
  "Mysem_close_sv sem = map_prod id (wrap1 ''mysem_close error'') (mysem_close_sv sem)"

definition Mysem_open_sv :: "string \<Rightarrow> uint \<Rightarrow> uint \<Rightarrow> uint \<Rightarrow> world \<Rightarrow> (mysem_sv called \<times> world) option" where
  "Mysem_open_sv pathname oflag mode v w =
    map_option (map_prod (wrap1 (''mysem_open error for '' @ pathname)) id)
      (mysem_open_sv pathname oflag mode v w)"

definition Mysem_unlink_sv :: "string \<Rightarrow> world \<Rightarrow> (unit called \<times> world) option" where
  "Mysem_unlink_sv pathname w =
    map_option (map_prod (wrap1 ''mysem_unlink error'') id) (mysem_unlink_sv pathname w)"

definition Mysem_wait_fifo :: "bool \<Rightarrow> errno \<Rightarrow> mysem_fifo \<Rightarrow> fifo \<Rightarrow> (fifo, unit, unit called) cs_outcome" where
  "Mysem_wait_fifo sig errno0 sem f = map_outcome (wrap1 ''mysem_wait error'') (mysem_wait_fifo sig errno0 sem f)"

definition Mysem_post_fifo :: "errno \<Rightarrow> mysem_fifo \<Rightarrow> fifo \<Rightarrow> (fifo, unit, unit called) cs_outcome" where
  "Mysem_post_fifo errno0 sem f = map_outcome (wrap1 ''mysem_post error'') (mysem_post_fifo errno0 sem f)"

definition Mysem_close_fifo ::
  "unit result \<Rightarrow> unit result \<Rightarrow> mysem_fifo \<Rightarrow> int list \<times> mysem_fifo \<times> unit called" where
  "Mysem_close_fifo close0 close1 sem =
    (case mysem_close_fifo close0 close1 sem of
      (fds, sem', r) \<Rightarrow> (fds, sem', wrap1 ''mysem_close error'' r))"

definition Mysem_open_fifo ::
  "errno \<Rightarrow> string \<Rightarrow> uint \<Rightarrow> uint \<Rightarrow> uint \<Rightarrow> world \<Rightarrow> (mysem_fifo called \<times> world) option" where
  "Mysem_open_fifo stale pathname oflag mode v w =
    map_option (map_prod (wrap1 (''mysem_open error for '' @ pathname)) id)
      (mysem_open_fifo stale pathname oflag mode v w)"

definition Mysem_unlink_fifo :: "string \<Rightarrow> world \<Rightarrow> (unit called \<times> world) option" where
  "Mysem_unlink_fifo pathname w =
    map_option (map_prod (wrap1 ''mysem_unlink error'') id) (mysem_unlink_fifo pathname w)"

section \<open>Properties\<close>

text \<open>
  \<open>Mysem_trywait\<close> over the mapped and the System V semaphore of the same value returns the same:
  0 and the value lowered, or EAGAIN and nothing changed when the value is 0; it ends the process
  only for a semaphore that is not usable.
\<close>

lemma Mysem_trywait_agree:
  assumes "sem_magic sem = SEM_MAGIC" and "sem_magic_sv sv = SEM_MAGIC_SV" and "unat (sem_count sem) = semval k"
  shows "(\<exists>sem' k'. Mysem_trywait 0 sem = Returns sem' [] (Done (Inr ())) \<and>
        Mysem_trywait_sv sv (Some k) = Returns (Some k') [] (Done (Inr ())) \<and>
        unat (sem_count sem') = semval k' \<and> semval k = semval k' + 1) \<or>
    semval k = 0 \<and> Mysem_trywait 0 sem = Returns sem [] (Done (Inl EAGAIN)) \<and>
      Mysem_trywait_sv sv (Some k) = Returns (Some k) [] (Done (Inl EAGAIN))"
proof (cases "semval k")
  case 0
  with assms show ?thesis
    by (simp add: Mysem_trywait_def Mysem_trywait_sv_def mysem_trywait_def mysem_trywait_sv_def
        sv_call_def semop_def wrap_trywait_def unat_eq_zero)
next
  case (Suc m)
  with assms have "sem_count sem \<noteq> 0" by auto
  with assms Suc show ?thesis
    by (intro disjI1 exI [of _ "sem\<lparr>sem_count := sem_count sem - 1\<rparr>"]
        exI [of _ "k\<lparr>semval := m, sem_otime := True\<rparr>"])
      (simp add: Mysem_trywait_def Mysem_trywait_sv_def mysem_trywait_def mysem_trywait_sv_def
        sv_call_def semop_def wrap_trywait_def unat_dec word_greater_zero_iff)
qed

end
