(* ===== verification/Rwlock.thy ===== *)
theory Rwlock
  imports Ipc_Prelude
begin

text \<open>
  The read-write locks of \<open>src/my_rwlock\<close> and \<open>src/my_rwlock_cancel\<close>: the fields of
  \<open>my_pthread_rwlock_t\<close> and the sections that the functions run under \<open>rw_mutex\<close>. The two
  directories differ in what the functions return, in the test of the lock in \<open>wrlock\<close>, and in
  when \<open>unlock\<close> signals a writer; definitions of \<open>src/my_rwlock_cancel\<close> end in \<open>_c\<close>.
\<close>

section \<open>The lock\<close>

record rwlock =
  rw_magic :: uint
  rw_nwaitreaders :: int
  rw_nwaitwriters :: int
  rw_refcount :: int

abbreviation (input) RW_MAGIC :: uint where "RW_MAGIC \<equiv> 0x19283746"

text \<open>The events of a section: \<open>pthread_cond_signal\<close> of the writers, \<open>pthread_cond_broadcast\<close> of the readers.\<close>

datatype rw_event = Signal_writers | Broadcast_readers

type_synonym rw_outcome = "(rwlock, rw_event, int) cs_outcome"

text \<open>\<open>MY_PTHREAD_RWLOCK_INITIALIZER\<close>.\<close>

definition rwlock_initializer :: rwlock where
  "rwlock_initializer =
    \<lparr>rw_magic = RW_MAGIC, rw_nwaitreaders = 0, rw_nwaitwriters = 0, rw_refcount = 0\<rparr>"

text \<open>
  \<open>r1\<close>, \<open>r2\<close> and \<open>r3\<close> are the answers of the three initialisations. The result has the objects that
  stay initialised (mutex, readers' and writers' condition), the lock and the return value.
\<close>

datatype rw_object = Rw_mutex | Rw_condreaders | Rw_condwriters

definition my_pthread_rwlock_init ::
  "bool \<Rightarrow> int \<Rightarrow> int \<Rightarrow> int \<Rightarrow> rwlock \<Rightarrow> rw_object list \<times> rwlock \<times> int" where
  "my_pthread_rwlock_init attr r1 r2 r3 rw =
    (if attr then ([], rw, EINVAL)
     else if r1 \<noteq> 0 then ([], rw, r1)
     else if r2 \<noteq> 0 then (removeAll Rw_mutex [Rw_mutex], rw, r2)
     else if r3 \<noteq> 0 then
       (removeAll Rw_mutex (removeAll Rw_condreaders [Rw_mutex, Rw_condreaders]), rw, r3)
     else ([Rw_mutex, Rw_condreaders, Rw_condwriters],
       rw\<lparr>rw_nwaitreaders := 0, rw_nwaitwriters := 0, rw_refcount := 0, rw_magic := RW_MAGIC\<rparr>, 0))"

definition my_pthread_rwlock_destroy :: "rwlock \<Rightarrow> rwlock \<times> int" where
  "my_pthread_rwlock_destroy rw =
    (if rw_magic rw \<noteq> RW_MAGIC then (rw, EINVAL)
     else if rw_refcount rw \<noteq> 0 \<or> rw_nwaitreaders rw \<noteq> 0 \<or> rw_nwaitwriters rw \<noteq> 0 then (rw, EBUSY)
     else (rw\<lparr>rw_magic := 0\<rparr>, 0))"

section \<open>my_rwlock\<close>

text \<open>
  \<open>n\<close> is what \<open>pthread_mutex_lock\<close> returned, \<open>r\<close> what \<open>pthread_cond_wait\<close> returned. A section ends
  in \<open>Waits\<close> with the count of waiters raised; the section after the wait lowers it first.
\<close>

definition rdlock_test :: "rwlock \<Rightarrow> rw_outcome" where
  "rdlock_test rw =
    (if rw_refcount rw < 0 \<or> 0 < rw_nwaitwriters rw
     then Waits (rw\<lparr>rw_nwaitreaders := rw_nwaitreaders rw + 1\<rparr>)
     else Returns (rw\<lparr>rw_refcount := rw_refcount rw + 1\<rparr>) [] 0)"

definition my_pthread_rwlock_rdlock :: "int \<Rightarrow> rwlock \<Rightarrow> rw_outcome" where
  "my_pthread_rwlock_rdlock n rw =
    (if rw_magic rw \<noteq> RW_MAGIC then Returns rw [] EINVAL
     else if n \<noteq> 0 then Returns rw [] n
     else rdlock_test rw)"

definition rdlock_wakeup :: "int \<Rightarrow> rwlock \<Rightarrow> rw_outcome" where
  "rdlock_wakeup r rw =
    (let rw' = rw\<lparr>rw_nwaitreaders := rw_nwaitreaders rw - 1\<rparr> in
     if r \<noteq> 0 then Returns rw' [] r else rdlock_test rw')"

text \<open>The handler that runs, with the mutex held, when a waiting reader is cancelled.\<close>

definition rwlock_cancelrdwait :: "rwlock \<Rightarrow> rwlock" where
  "rwlock_cancelrdwait rw = rw\<lparr>rw_nwaitreaders := rw_nwaitreaders rw - 1\<rparr>"

definition wrlock_test :: "rwlock \<Rightarrow> rw_outcome" where
  "wrlock_test rw =
    (if rw_refcount rw \<noteq> 0
     then Waits (rw\<lparr>rw_nwaitwriters := rw_nwaitwriters rw + 1\<rparr>)
     else Returns (rw\<lparr>rw_refcount := - 1\<rparr>) [] 0)"

definition my_pthread_rwlock_wrlock :: "int \<Rightarrow> rwlock \<Rightarrow> rw_outcome" where
  "my_pthread_rwlock_wrlock n rw =
    (if rw_magic rw \<noteq> RW_MAGIC then Returns rw [] EINVAL
     else if n \<noteq> 0 then Returns rw [] n
     else wrlock_test rw)"

definition wrlock_wakeup :: "int \<Rightarrow> rwlock \<Rightarrow> rw_outcome" where
  "wrlock_wakeup r rw =
    (let rw' = rw\<lparr>rw_nwaitwriters := rw_nwaitwriters rw - 1\<rparr> in
     if r \<noteq> 0 then Returns rw' [] r else wrlock_test rw')"

definition rwlock_cancelwrwait :: "rwlock \<Rightarrow> rwlock" where
  "rwlock_cancelwrwait rw = rw\<lparr>rw_nwaitwriters := rw_nwaitwriters rw - 1\<rparr>"

definition my_pthread_rwlock_tryrdlock :: "int \<Rightarrow> rwlock \<Rightarrow> rw_outcome" where
  "my_pthread_rwlock_tryrdlock n rw =
    (if rw_magic rw \<noteq> RW_MAGIC then Returns rw [] EINVAL
     else if n \<noteq> 0 then Returns rw [] n
     else if rw_refcount rw < 0 \<or> 0 < rw_nwaitwriters rw then Returns rw [] EBUSY
     else Returns (rw\<lparr>rw_refcount := rw_refcount rw + 1\<rparr>) [] 0)"

definition my_pthread_rwlock_trywrlock :: "int \<Rightarrow> rwlock \<Rightarrow> rw_outcome" where
  "my_pthread_rwlock_trywrlock n rw =
    (if rw_magic rw \<noteq> RW_MAGIC then Returns rw [] EINVAL
     else if n \<noteq> 0 then Returns rw [] n
     else if rw_refcount rw \<noteq> 0 then Returns rw [] EBUSY
     else Returns (rw\<lparr>rw_refcount := - 1\<rparr>) [] 0)"

text \<open>The release itself, shared by both versions: \<open>None\<close> for the \<open>err_dump\<close> of a lock nobody holds.\<close>

definition release :: "rwlock \<Rightarrow> rwlock option" where
  "release rw =
    (if 0 < rw_refcount rw then Some (rw\<lparr>rw_refcount := rw_refcount rw - 1\<rparr>)
     else if rw_refcount rw = - 1 then Some (rw\<lparr>rw_refcount := 0\<rparr>)
     else None)"

text \<open>\<open>sig\<close> is what the signal or the broadcast returns.\<close>

definition my_pthread_rwlock_unlock :: "int \<Rightarrow> int \<Rightarrow> rwlock \<Rightarrow> rw_outcome" where
  "my_pthread_rwlock_unlock n sig rw =
    (if rw_magic rw \<noteq> RW_MAGIC then Returns rw [] EINVAL
     else if n \<noteq> 0 then Returns rw [] n
     else case release rw of
       None \<Rightarrow> Aborts rw
     | Some rw' \<Rightarrow>
         if 0 < rw_nwaitwriters rw' then
           (if rw_refcount rw' = 0 then Returns rw' [Signal_writers] sig else Returns rw' [] 0)
         else if 0 < rw_nwaitreaders rw' then Returns rw' [Broadcast_readers] sig
         else Returns rw' [] 0)"

section \<open>my_rwlock_cancel\<close>

text \<open>\<open>rdlock\<close> and \<open>wrlock\<close> return 0 at their end whatever \<open>result\<close> is.\<close>

definition rdlock_wakeup_c :: "int \<Rightarrow> rwlock \<Rightarrow> rw_outcome" where
  "rdlock_wakeup_c r rw =
    (let rw' = rw\<lparr>rw_nwaitreaders := rw_nwaitreaders rw - 1\<rparr> in
     if r \<noteq> 0 then Returns rw' [] 0 else rdlock_test rw')"

definition my_pthread_rwlock_rdlock_c :: "int \<Rightarrow> rwlock \<Rightarrow> rw_outcome" where
  "my_pthread_rwlock_rdlock_c n rw =
    (if rw_magic rw \<noteq> RW_MAGIC then Returns rw [] EINVAL
     else if n \<noteq> 0 then Returns rw [] n
     else rdlock_test rw)"

text \<open>
  The lock of the mutex is tested against -1, which it never returns: an error number \<open>n\<close> stays in
  \<open>result\<close>, and the code goes on.
\<close>

definition my_pthread_rwlock_wrlock_c :: "int \<Rightarrow> rwlock \<Rightarrow> rw_outcome" where
  "my_pthread_rwlock_wrlock_c n rw =
    (if rw_magic rw \<noteq> RW_MAGIC then Returns rw [] EINVAL
     else if n = - 1 then Returns rw [] n
     else if rw_refcount rw \<noteq> 0 then Waits (rw\<lparr>rw_nwaitwriters := rw_nwaitwriters rw + 1\<rparr>)
     else Returns (if n = 0 then rw\<lparr>rw_refcount := - 1\<rparr> else rw) [] 0)"

definition wrlock_wakeup_c :: "int \<Rightarrow> rwlock \<Rightarrow> rw_outcome" where
  "wrlock_wakeup_c r rw =
    (let rw' = rw\<lparr>rw_nwaitwriters := rw_nwaitwriters rw - 1\<rparr> in
     if r \<noteq> 0 then Returns rw' [] 0 else wrlock_test rw')"

definition rwlock_cancelrdwait_c :: "rwlock \<Rightarrow> rwlock" where
  "rwlock_cancelrdwait_c rw = rw\<lparr>rw_nwaitreaders := rw_nwaitreaders rw - 1\<rparr>"

definition rwlock_cancelwrwait_c :: "rwlock \<Rightarrow> rwlock" where
  "rwlock_cancelwrwait_c rw = rw\<lparr>rw_nwaitwriters := rw_nwaitwriters rw - 1\<rparr>"

definition my_pthread_rwlock_tryrdlock_c :: "int \<Rightarrow> rwlock \<Rightarrow> rw_outcome" where
  "my_pthread_rwlock_tryrdlock_c n rw =
    (if rw_magic rw \<noteq> RW_MAGIC then Returns rw [] EINVAL
     else if n \<noteq> 0 then Returns rw [] n
     else if rw_refcount rw = - 1 \<or> 0 < rw_nwaitwriters rw then Returns rw [] EBUSY
     else Returns (rw\<lparr>rw_refcount := rw_refcount rw + 1\<rparr>) [] 0)"

definition my_pthread_rwlock_trywrlock_c :: "int \<Rightarrow> rwlock \<Rightarrow> rw_outcome" where
  "my_pthread_rwlock_trywrlock_c n rw =
    (if rw_magic rw \<noteq> RW_MAGIC then Returns rw [] EINVAL
     else if n \<noteq> 0 then Returns rw [] n
     else if rw_refcount rw \<noteq> 0 then Returns rw [] EBUSY
     else Returns (rw\<lparr>rw_refcount := - 1\<rparr>) [] 0)"

definition my_pthread_rwlock_unlock_c :: "int \<Rightarrow> int \<Rightarrow> rwlock \<Rightarrow> rw_outcome" where
  "my_pthread_rwlock_unlock_c n sig rw =
    (if rw_magic rw \<noteq> RW_MAGIC then Returns rw [] EINVAL
     else if n \<noteq> 0 then Returns rw [] n
     else case release rw of
       None \<Rightarrow> Aborts rw
     | Some rw' \<Rightarrow>
         if 0 < rw_nwaitwriters rw' then Returns rw' [Signal_writers] sig
         else if 0 < rw_nwaitreaders rw' then Returns rw' [Broadcast_readers] sig
         else Returns rw' [] 0)"

section \<open>The wrappers\<close>

text \<open>The wrappers end the process when the call returns an error number.\<close>

definition Pthread_rwlock_rdlock :: "int \<Rightarrow> rwlock \<Rightarrow> (rwlock, rw_event, unit called) cs_outcome" where
  "Pthread_rwlock_rdlock n rw =
    map_outcome (wrap0 ''pthread_rwlock_rdlock error'') (my_pthread_rwlock_rdlock n rw)"

definition Pthread_rwlock_wrlock :: "int \<Rightarrow> rwlock \<Rightarrow> (rwlock, rw_event, unit called) cs_outcome" where
  "Pthread_rwlock_wrlock n rw =
    map_outcome (wrap0 ''pthread_rwlock_wrlock error'') (my_pthread_rwlock_wrlock n rw)"

definition Pthread_rwlock_unlock :: "int \<Rightarrow> int \<Rightarrow> rwlock \<Rightarrow> (rwlock, rw_event, unit called) cs_outcome" where
  "Pthread_rwlock_unlock n sig rw =
    map_outcome (wrap0 ''pthread_rwlock_unlock error'') (my_pthread_rwlock_unlock n sig rw)"

definition Pthread_rwlock_rdlock_c :: "int \<Rightarrow> rwlock \<Rightarrow> (rwlock, rw_event, unit called) cs_outcome" where
  "Pthread_rwlock_rdlock_c n rw =
    map_outcome (wrap0 ''pthread_rwlock_rdlock error'') (my_pthread_rwlock_rdlock_c n rw)"

definition Pthread_rwlock_wrlock_c :: "int \<Rightarrow> rwlock \<Rightarrow> (rwlock, rw_event, unit called) cs_outcome" where
  "Pthread_rwlock_wrlock_c n rw =
    map_outcome (wrap0 ''pthread_rwlock_wrlock error'') (my_pthread_rwlock_wrlock_c n rw)"

definition Pthread_rwlock_unlock_c :: "int \<Rightarrow> int \<Rightarrow> rwlock \<Rightarrow> (rwlock, rw_event, unit called) cs_outcome" where
  "Pthread_rwlock_unlock_c n sig rw =
    map_outcome (wrap0 ''pthread_rwlock_unlock error'') (my_pthread_rwlock_unlock_c n sig rw)"

text \<open>The wrappers of the functions that try have a result, but EBUSY ends the process too.\<close>

definition wrap_try :: "string \<Rightarrow> int \<Rightarrow> int called" where
  "wrap_try msg n = (if n \<noteq> 0 then Err_sys msg n else Done n)"

definition Pthread_rwlock_tryrdlock :: "int \<Rightarrow> rwlock \<Rightarrow> (rwlock, rw_event, int called) cs_outcome" where
  "Pthread_rwlock_tryrdlock n rw =
    map_outcome (wrap_try ''pthread_rwlock_tryrdlock error'') (my_pthread_rwlock_tryrdlock n rw)"

definition Pthread_rwlock_trywrlock :: "int \<Rightarrow> rwlock \<Rightarrow> (rwlock, rw_event, int called) cs_outcome" where
  "Pthread_rwlock_trywrlock n rw =
    map_outcome (wrap_try ''pthread_rwlock_trywrlock error'') (my_pthread_rwlock_trywrlock n rw)"

definition Pthread_rwlock_tryrdlock_c :: "int \<Rightarrow> rwlock \<Rightarrow> (rwlock, rw_event, int called) cs_outcome" where
  "Pthread_rwlock_tryrdlock_c n rw =
    map_outcome (wrap_try ''pthread_rwlock_tryrdlock error'') (my_pthread_rwlock_tryrdlock_c n rw)"

definition Pthread_rwlock_trywrlock_c :: "int \<Rightarrow> rwlock \<Rightarrow> (rwlock, rw_event, int called) cs_outcome" where
  "Pthread_rwlock_trywrlock_c n rw =
    map_outcome (wrap_try ''pthread_rwlock_trywrlock error'') (my_pthread_rwlock_trywrlock_c n rw)"

definition Pthread_rwlock_destroy :: "rwlock \<Rightarrow> rwlock \<times> unit called" where
  "Pthread_rwlock_destroy rw =
    (case my_pthread_rwlock_destroy rw of (rw', n) \<Rightarrow> (rw', wrap0 ''pthread_rwlock_destroy error'' n))"

definition Pthread_rwlock_init ::
  "bool \<Rightarrow> int \<Rightarrow> int \<Rightarrow> int \<Rightarrow> rwlock \<Rightarrow> rw_object list \<times> rwlock \<times> unit called" where
  "Pthread_rwlock_init attr r1 r2 r3 rw =
    (case my_pthread_rwlock_init attr r1 r2 r3 rw of
      (os, rw', n) \<Rightarrow> (os, rw', wrap0 ''pthread_rwlock_init error'' n))"

end
