(* ===== verification/Rwlock_Threads.thy ===== *)
theory Rwlock_Threads
  imports Rwlock
begin

text \<open>
  Any number of threads that lock and unlock one read-write lock. The machine takes the sections
  of a version as a record of operations, the contract of a version is a locale, and the proofs
  about the machine use the contract; \<open>src/my_rwlock\<close> and \<open>src/my_rwlock_cancel\<close> interpret it.
\<close>

section \<open>The machine\<close>

datatype rw_pc = T_out | T_rdwait | T_rdwoken | T_wrwait | T_wrwoken | T_read | T_write | T_gone

record rw_ops =
  op_rdlock :: "rwlock \<Rightarrow> rw_outcome"
  op_rdwoken :: "rwlock \<Rightarrow> rw_outcome"
  op_wrlock :: "rwlock \<Rightarrow> rw_outcome"
  op_wrwoken :: "rwlock \<Rightarrow> rw_outcome"
  op_tryrd :: "rwlock \<Rightarrow> rw_outcome"
  op_trywr :: "rwlock \<Rightarrow> rw_outcome"
  op_unlock :: "rwlock \<Rightarrow> rw_outcome"
  op_cancelrd :: "rwlock \<Rightarrow> rwlock"
  op_cancelwr :: "rwlock \<Rightarrow> rwlock"

record rw_sys =
  rw_lock :: rwlock
  rw_pcs :: "rw_pc list"

text \<open>What the events of an unlock do to the waiting threads.\<close>

definition rw_notified :: "rw_event list \<Rightarrow> rw_pc list \<Rightarrow> rw_pc list \<Rightarrow> bool" where
  "rw_notified evs pcs pcs' \<longleftrightarrow>
    (if Signal_writers \<in> set evs then cond_signal (\<lambda>p. p = T_wrwait) (\<lambda>_. T_wrwoken) pcs pcs'
     else if Broadcast_readers \<in> set evs then
       pcs' = cond_broadcast (\<lambda>p. p = T_rdwait) (\<lambda>_. T_rdwoken) pcs
     else pcs' = pcs)"

text \<open>
  A thread at \<open>T_out\<close> starts a call; a woken thread runs the section after \<open>pthread_cond_wait\<close>; a
  thread that holds the lock unlocks it; a waiting thread may wake spuriously, and may be cancelled
  when \<open>cancel\<close> is set (also after it was woken: \<open>pthread_cond_wait\<close> acts on a pending cancellation
  when it has the mutex again).
\<close>

inductive rw_step :: "rw_ops \<Rightarrow> bool \<Rightarrow> rw_sys \<Rightarrow> rw_sys \<Rightarrow> bool" for ops cancel where
  enter: "i < length pcs \<Longrightarrow> pcs ! i = T_out \<Longrightarrow>
    (op, pc) \<in> {(op_rdlock ops, T_read), (op_tryrd ops, T_read),
                 (op_wrlock ops, T_write), (op_trywr ops, T_write)} \<Longrightarrow>
    op rw = Returns rw' evs 0 \<Longrightarrow>
    rw_step ops cancel \<lparr>rw_lock = rw, rw_pcs = pcs\<rparr> \<lparr>rw_lock = rw', rw_pcs = pcs[i := pc]\<rparr>"
| refused: "i < length pcs \<Longrightarrow> pcs ! i = T_out \<Longrightarrow>
    op \<in> {op_tryrd ops, op_trywr ops} \<Longrightarrow> op rw = Returns rw' evs r \<Longrightarrow> r \<noteq> 0 \<Longrightarrow>
    rw_step ops cancel \<lparr>rw_lock = rw, rw_pcs = pcs\<rparr> \<lparr>rw_lock = rw', rw_pcs = pcs\<rparr>"
| rdpark: "i < length pcs \<Longrightarrow> pcs ! i = T_out \<Longrightarrow> op_rdlock ops rw = Waits rw' \<Longrightarrow>
    rw_step ops cancel \<lparr>rw_lock = rw, rw_pcs = pcs\<rparr> \<lparr>rw_lock = rw', rw_pcs = pcs[i := T_rdwait]\<rparr>"
| wrpark: "i < length pcs \<Longrightarrow> pcs ! i = T_out \<Longrightarrow> op_wrlock ops rw = Waits rw' \<Longrightarrow>
    rw_step ops cancel \<lparr>rw_lock = rw, rw_pcs = pcs\<rparr> \<lparr>rw_lock = rw', rw_pcs = pcs[i := T_wrwait]\<rparr>"
| rdagain: "i < length pcs \<Longrightarrow> pcs ! i = T_rdwoken \<Longrightarrow> op_rdwoken ops rw = Returns rw' evs 0 \<Longrightarrow>
    rw_step ops cancel \<lparr>rw_lock = rw, rw_pcs = pcs\<rparr> \<lparr>rw_lock = rw', rw_pcs = pcs[i := T_read]\<rparr>"
| rdrepark: "i < length pcs \<Longrightarrow> pcs ! i = T_rdwoken \<Longrightarrow> op_rdwoken ops rw = Waits rw' \<Longrightarrow>
    rw_step ops cancel \<lparr>rw_lock = rw, rw_pcs = pcs\<rparr> \<lparr>rw_lock = rw', rw_pcs = pcs[i := T_rdwait]\<rparr>"
| wragain: "i < length pcs \<Longrightarrow> pcs ! i = T_wrwoken \<Longrightarrow> op_wrwoken ops rw = Returns rw' evs 0 \<Longrightarrow>
    rw_step ops cancel \<lparr>rw_lock = rw, rw_pcs = pcs\<rparr> \<lparr>rw_lock = rw', rw_pcs = pcs[i := T_write]\<rparr>"
| wrrepark: "i < length pcs \<Longrightarrow> pcs ! i = T_wrwoken \<Longrightarrow> op_wrwoken ops rw = Waits rw' \<Longrightarrow>
    rw_step ops cancel \<lparr>rw_lock = rw, rw_pcs = pcs\<rparr> \<lparr>rw_lock = rw', rw_pcs = pcs[i := T_wrwait]\<rparr>"
| unlock: "i < length pcs \<Longrightarrow> pcs ! i = T_read \<or> pcs ! i = T_write \<Longrightarrow>
    op_unlock ops rw = Returns rw' evs 0 \<Longrightarrow> rw_notified evs (pcs[i := T_out]) pcs' \<Longrightarrow>
    rw_step ops cancel \<lparr>rw_lock = rw, rw_pcs = pcs\<rparr> \<lparr>rw_lock = rw', rw_pcs = pcs'\<rparr>"
| rdspurious: "i < length pcs \<Longrightarrow> pcs ! i = T_rdwait \<Longrightarrow>
    rw_step ops cancel \<lparr>rw_lock = rw, rw_pcs = pcs\<rparr> \<lparr>rw_lock = rw, rw_pcs = pcs[i := T_rdwoken]\<rparr>"
| wrspurious: "i < length pcs \<Longrightarrow> pcs ! i = T_wrwait \<Longrightarrow>
    rw_step ops cancel \<lparr>rw_lock = rw, rw_pcs = pcs\<rparr> \<lparr>rw_lock = rw, rw_pcs = pcs[i := T_wrwoken]\<rparr>"
| rdcancel: "cancel \<Longrightarrow> i < length pcs \<Longrightarrow> pcs ! i = T_rdwait \<or> pcs ! i = T_rdwoken \<Longrightarrow>
    rw_step ops cancel \<lparr>rw_lock = rw, rw_pcs = pcs\<rparr>
      \<lparr>rw_lock = op_cancelrd ops rw, rw_pcs = pcs[i := T_gone]\<rparr>"
| wrcancel: "cancel \<Longrightarrow> i < length pcs \<Longrightarrow> pcs ! i = T_wrwait \<or> pcs ! i = T_wrwoken \<Longrightarrow>
    rw_step ops cancel \<lparr>rw_lock = rw, rw_pcs = pcs\<rparr>
      \<lparr>rw_lock = op_cancelwr ops rw, rw_pcs = pcs[i := T_gone]\<rparr>"

definition rw_start :: "nat \<Rightarrow> rw_sys \<Rightarrow> bool" where
  "rw_start nthreads s \<longleftrightarrow> s = \<lparr>rw_lock = rwlock_initializer, rw_pcs = replicate nthreads T_out\<rparr>"

section \<open>The contract of a version\<close>

definition rd_blocked :: "rwlock \<Rightarrow> bool" where
  "rd_blocked rw \<longleftrightarrow> rw_refcount rw < 0 \<or> 0 < rw_nwaitwriters rw"

text \<open>
  An unlock releases the lock, signals a writer when the lock is free and one waits, and
  broadcasts to the readers when no writer waits. More signals than needed are allowed.
\<close>

locale rw_version =
  fixes ops :: rw_ops
  assumes rdlock_law: "rw_magic rw = RW_MAGIC \<Longrightarrow> op_rdlock ops rw =
      (if rd_blocked rw then Waits (rw\<lparr>rw_nwaitreaders := rw_nwaitreaders rw + 1\<rparr>)
       else Returns (rw\<lparr>rw_refcount := rw_refcount rw + 1\<rparr>) [] 0)"
    and rdwoken_law: "op_rdwoken ops rw =
      (if rd_blocked rw then Waits rw
       else Returns (rw\<lparr>rw_nwaitreaders := rw_nwaitreaders rw - 1,
                        rw_refcount := rw_refcount rw + 1\<rparr>) [] 0)"
    and wrlock_law: "rw_magic rw = RW_MAGIC \<Longrightarrow> op_wrlock ops rw =
      (if rw_refcount rw \<noteq> 0 then Waits (rw\<lparr>rw_nwaitwriters := rw_nwaitwriters rw + 1\<rparr>)
       else Returns (rw\<lparr>rw_refcount := - 1\<rparr>) [] 0)"
    and wrwoken_law: "op_wrwoken ops rw =
      (if rw_refcount rw \<noteq> 0 then Waits rw
       else Returns (rw\<lparr>rw_nwaitwriters := rw_nwaitwriters rw - 1, rw_refcount := - 1\<rparr>) [] 0)"
    and tryrd_law: "rw_magic rw = RW_MAGIC \<Longrightarrow> - 1 \<le> rw_refcount rw \<Longrightarrow> op_tryrd ops rw =
      (if rd_blocked rw then Returns rw [] EBUSY
       else Returns (rw\<lparr>rw_refcount := rw_refcount rw + 1\<rparr>) [] 0)"
    and trywr_law: "rw_magic rw = RW_MAGIC \<Longrightarrow> op_trywr ops rw =
      (if rw_refcount rw \<noteq> 0 then Returns rw [] EBUSY
       else Returns (rw\<lparr>rw_refcount := - 1\<rparr>) [] 0)"
    and unlock_law: "rw_magic rw = RW_MAGIC \<Longrightarrow> release rw = Some rw' \<Longrightarrow>
      \<exists>evs. op_unlock ops rw = Returns rw' evs 0 \<and>
        (rw_refcount rw' = 0 \<and> 0 < rw_nwaitwriters rw' \<longrightarrow> evs = [Signal_writers]) \<and>
        (rw_nwaitwriters rw' \<le> 0 \<and> 0 < rw_nwaitreaders rw' \<longrightarrow> evs = [Broadcast_readers])"
    and cancelrd_law: "op_cancelrd ops rw = rw\<lparr>rw_nwaitreaders := rw_nwaitreaders rw - 1\<rparr>"
    and cancelwr_law: "op_cancelwr ops rw = rw\<lparr>rw_nwaitwriters := rw_nwaitwriters rw - 1\<rparr>"

text \<open>The sections of the two versions, with a mutex and conditions that do not fail.\<close>

definition my_rwlock_ops :: rw_ops where
  "my_rwlock_ops =
    \<lparr>op_rdlock = my_pthread_rwlock_rdlock 0, op_rdwoken = rdlock_wakeup 0,
     op_wrlock = my_pthread_rwlock_wrlock 0, op_wrwoken = wrlock_wakeup 0,
     op_tryrd = my_pthread_rwlock_tryrdlock 0, op_trywr = my_pthread_rwlock_trywrlock 0,
     op_unlock = my_pthread_rwlock_unlock 0 0,
     op_cancelrd = rwlock_cancelrdwait, op_cancelwr = rwlock_cancelwrwait\<rparr>"

definition my_rwlock_cancel_ops :: rw_ops where
  "my_rwlock_cancel_ops =
    \<lparr>op_rdlock = my_pthread_rwlock_rdlock_c 0, op_rdwoken = rdlock_wakeup_c 0,
     op_wrlock = my_pthread_rwlock_wrlock_c 0, op_wrwoken = wrlock_wakeup_c 0,
     op_tryrd = my_pthread_rwlock_tryrdlock_c 0, op_trywr = my_pthread_rwlock_trywrlock_c 0,
     op_unlock = my_pthread_rwlock_unlock_c 0 0,
     op_cancelrd = rwlock_cancelrdwait_c, op_cancelwr = rwlock_cancelwrwait_c\<rparr>"

lemmas my_rwlock_defs = my_rwlock_ops_def my_pthread_rwlock_rdlock_def rdlock_wakeup_def
  rdlock_test_def my_pthread_rwlock_wrlock_def wrlock_wakeup_def wrlock_test_def
  my_pthread_rwlock_tryrdlock_def my_pthread_rwlock_trywrlock_def my_pthread_rwlock_unlock_def
  rwlock_cancelrdwait_def rwlock_cancelwrwait_def

lemmas my_rwlock_cancel_defs = my_rwlock_cancel_ops_def my_pthread_rwlock_rdlock_c_def
  rdlock_wakeup_c_def rdlock_test_def my_pthread_rwlock_wrlock_c_def wrlock_wakeup_c_def
  wrlock_test_def my_pthread_rwlock_tryrdlock_c_def my_pthread_rwlock_trywrlock_c_def
  my_pthread_rwlock_unlock_c_def rwlock_cancelrdwait_c_def rwlock_cancelwrwait_c_def

interpretation my_rw: rw_version my_rwlock_ops
  by unfold_locales (auto simp: my_rwlock_defs rd_blocked_def Let_def)

interpretation my_rw_cancel: rw_version my_rwlock_cancel_ops
  by unfold_locales (auto simp: my_rwlock_cancel_defs rd_blocked_def Let_def)

section \<open>The invariant\<close>

text \<open>
  The reference count is the number of readers that hold the lock, or -1 and one writer holds it;
  the two counts of waiters are right.
\<close>

definition rw_inv :: "rw_sys \<Rightarrow> bool" where
  [inv_defs]: "rw_inv s \<longleftrightarrow>
    (let rw = rw_lock s; pcs = rw_pcs s in
      rw_magic rw = RW_MAGIC \<and>
      (cnt T_write pcs = 0 \<and> rw_refcount rw = cnt T_read pcs \<or>
       cnt T_write pcs = 1 \<and> cnt T_read pcs = 0 \<and> rw_refcount rw = - 1) \<and>
      rw_nwaitreaders rw = cnt T_rdwait pcs + cnt T_rdwoken pcs \<and>
      rw_nwaitwriters rw = cnt T_wrwait pcs + cnt T_wrwoken pcs)"

text \<open>
  No wakeup is missing: while the lock is free and writers wait, one of them has been woken; and
  no reader is parked that could have the lock.
\<close>

definition rw_live :: "rw_sys \<Rightarrow> bool" where
  [inv_defs]: "rw_live s \<longleftrightarrow>
    (let rw = rw_lock s; pcs = rw_pcs s in
      (rw_refcount rw = 0 \<and> 0 < rw_nwaitwriters rw \<longrightarrow> 0 < cnt T_wrwoken pcs) \<and>
      (\<not> rd_blocked rw \<longrightarrow> cnt T_rdwait pcs = 0))"

lemma rw_start_inv: "rw_start k s \<Longrightarrow> rw_inv s" "rw_start k s \<Longrightarrow> rw_live s"
  by (auto simp: rw_start_def rw_inv_def rw_live_def rwlock_initializer_def cnt_replicate)

lemma release_inv:
  assumes "rw_inv \<lparr>rw_lock = rw, rw_pcs = pcs\<rparr>" and "i < length pcs"
    and "pcs ! i = T_read \<or> pcs ! i = T_write"
  obtains rw' where "release rw = Some rw'" and "rw_inv \<lparr>rw_lock = rw', rw_pcs = pcs[i := T_out]\<rparr>"
    and "rw_nwaitwriters rw' = rw_nwaitwriters rw" and "rw_nwaitreaders rw' = rw_nwaitreaders rw"
proof -
  have "1 \<le> cnt (pcs ! i) pcs" using assms(2) by (simp add: cnt_pos_nth)
  then show thesis using assms cnt_nonneg [of T_read pcs]
    by (intro that [of "rw\<lparr>rw_refcount := if 0 < rw_refcount rw then rw_refcount rw - 1 else 0\<rparr>"])
      (auto simp: rw_inv_def release_def cnt_update)
qed

lemma notified_inv:
  assumes "rw_notified evs pcs pcs'" and "rw_inv \<lparr>rw_lock = rw, rw_pcs = pcs\<rparr>"
  shows "rw_inv \<lparr>rw_lock = rw, rw_pcs = pcs'\<rparr>"
  using assms by (auto simp: rw_inv_def rw_notified_def cnt_signal cnt_broadcast Let_def split: if_splits)

text \<open>
  After an unlock that sends the events of the contract nothing is missing: a reader's unlock
  leaves readers parked only behind waiting writers.
\<close>

lemma notified_live:
  assumes "rw_notified evs pcs pcs'" and "rw_inv \<lparr>rw_lock = rw, rw_pcs = pcs\<rparr>"
    and "rw_refcount rw = 0 \<and> 0 < rw_nwaitwriters rw \<longrightarrow> evs = [Signal_writers]"
    and "rw_nwaitwriters rw \<le> 0 \<and> 0 < rw_nwaitreaders rw \<longrightarrow> evs = [Broadcast_readers]"
  shows "rw_live \<lparr>rw_lock = rw, rw_pcs = pcs'\<rparr>"
proof -
  from assms(2) have w: "rw_nwaitwriters rw = cnt T_wrwait pcs + cnt T_wrwoken pcs"
    and r: "rw_nwaitreaders rw = cnt T_rdwait pcs + cnt T_rdwoken pcs" by (simp_all add: rw_inv_def Let_def)
  have "0 < cnt T_wrwoken pcs'" if "rw_refcount rw = 0" and "0 < rw_nwaitwriters rw"
  proof -
    from that assms(1,3) have sig: "cond_signal (\<lambda>p. p = T_wrwait) (\<lambda>_. T_wrwoken) pcs pcs'"
      by (auto simp: rw_notified_def)
    show ?thesis
      using cnt_signal(3,4) [OF sig] that w cnt_nonneg [of T_wrwait pcs] by (cases "0 < cnt T_wrwait pcs") auto
  qed
  moreover have "cnt T_rdwait pcs' = 0" if "\<not> rd_blocked rw"
  proof (cases "0 < rw_nwaitreaders rw")
    case True
    with that assms(1,4) show ?thesis by (auto simp: rd_blocked_def rw_notified_def cnt_broadcast)
  next
    case False
    then have "cnt T_rdwait pcs = 0" using r cnt_nonneg [of T_rdwait pcs] cnt_nonneg [of T_rdwoken pcs] by auto
    then show ?thesis using assms(1)
      by (auto simp: rw_notified_def cnt_signal cnt_broadcast split: if_splits)
  qed
  ultimately show ?thesis by (simp add: rw_live_def)
qed

context rw_version
begin

lemmas section_laws = rdlock_law rdwoken_law wrlock_law wrwoken_law tryrd_law trywr_law

lemma refcount_low: "rw_inv s \<Longrightarrow> - 1 \<le> rw_refcount (rw_lock s)"
  using cnt_nonneg [of T_read "rw_pcs s"] by (auto simp: rw_inv_def Let_def)

lemma step_inv:
  assumes "rw_step ops cancel s t" and inv: "rw_inv s"
  shows "rw_inv t"
  using assms
proof (induction rule: rw_step.induct)
  case (unlock i pcs rw rw' evs pcs')
  then obtain rw1 where "release rw = Some rw1"
    and inv1: "rw_inv \<lparr>rw_lock = rw1, rw_pcs = pcs[i := T_out]\<rparr>" by (blast elim: release_inv)
  moreover have "rw_magic rw = RW_MAGIC" using unlock by (simp add: rw_inv_def Let_def)
  ultimately have "rw' = rw1" using unlock_law [of rw rw1] unlock by auto
  with inv1 unlock show ?case by (blast intro: notified_inv)
next
  case (enter i pcs op pc rw rw' evs)
  then show ?case using refcount_low [of "\<lparr>rw_lock = rw, rw_pcs = pcs\<rparr>"]
    by (auto simp: rw_inv_def Let_def section_laws cnt_update rd_blocked_def split: if_splits)
next
  case (refused i pcs op rw rw' evs r)
  then show ?case using refcount_low [of "\<lparr>rw_lock = rw, rw_pcs = pcs\<rparr>"]
    by (auto simp: rw_inv_def Let_def section_laws split: if_splits)
qed (auto simp: rw_inv_def Let_def section_laws cnt_update rd_blocked_def cancelrd_law cancelwr_law
    split: if_splits)

lemma step_live:
  assumes "rw_step ops False s t" and "rw_inv s" and "rw_live s"
  shows "rw_live t"
  using assms
proof (induction rule: rw_step.induct)
  case (unlock i pcs rw rw' evs pcs')
  then obtain rw1 where "release rw = Some rw1"
    and inv1: "rw_inv \<lparr>rw_lock = rw1, rw_pcs = pcs[i := T_out]\<rparr>" by (blast elim: release_inv)
  moreover have "rw_magic rw = RW_MAGIC" using unlock by (simp add: rw_inv_def Let_def)
  ultimately have "rw' = rw1"
    and "rw_refcount rw1 = 0 \<and> 0 < rw_nwaitwriters rw1 \<longrightarrow> evs = [Signal_writers]"
    and "rw_nwaitwriters rw1 \<le> 0 \<and> 0 < rw_nwaitreaders rw1 \<longrightarrow> evs = [Broadcast_readers]"
    using unlock_law [of rw rw1] unlock by auto
  with inv1 unlock show ?case by (blast intro: notified_live)
next
  case (enter i pcs op pc rw rw' evs)
  then show ?case using refcount_low [of "\<lparr>rw_lock = rw, rw_pcs = pcs\<rparr>"] cnt_nonneg [of T_read pcs]
    by (auto simp: rw_inv_def rw_live_def Let_def section_laws cnt_update rd_blocked_def split: if_splits)
next
  case (refused i pcs op rw rw' evs r)
  then show ?case using refcount_low [of "\<lparr>rw_lock = rw, rw_pcs = pcs\<rparr>"]
    by (auto simp: rw_inv_def rw_live_def Let_def section_laws split: if_splits)
next
  case (rdspurious i pcs rw)
  then show ?case using cnt_pos_nth [of i pcs T_rdwait] by (auto simp: rw_live_def Let_def cnt_update)
qed (auto simp: rw_inv_def rw_live_def Let_def section_laws cnt_update rd_blocked_def
    split: if_splits)

text \<open>What a reachable state looks like, with and without cancellation.\<close>

lemma live_wakes:
  assumes inv: "rw_inv s" and live: "rw_live s" and free: "T_read \<notin> set (rw_pcs s)" "T_write \<notin> set (rw_pcs s)"
    and wait: "T_rdwait \<in> set (rw_pcs s) \<or> T_wrwait \<in> set (rw_pcs s)"
  shows "T_rdwoken \<in> set (rw_pcs s) \<or> T_wrwoken \<in> set (rw_pcs s)"
proof -
  let ?pcs = "rw_pcs s"
  note pos = cnt_nonneg [of T_rdwait ?pcs] cnt_nonneg [of T_wrwait ?pcs] cnt_nonneg [of T_wrwoken ?pcs]
  have "cnt T_read ?pcs = 0" and "cnt T_write ?pcs = 0" using free by (simp_all add: cnt_zero_iff)
  then have "rw_refcount (rw_lock s) = 0" using inv by (auto simp: rw_inv_def Let_def)
  moreover have "0 < cnt T_rdwait ?pcs \<or> 0 < cnt T_wrwait ?pcs" using wait by (simp add: cnt_pos_iff)
  ultimately have "0 < cnt T_wrwoken ?pcs"
    using inv live pos by (auto simp: rw_inv_def rw_live_def Let_def rd_blocked_def)
  then show ?thesis by (simp add: cnt_pos_iff)
qed

end

text \<open>The invariant contract of the machine holds for every version.\<close>

sublocale rw_version \<subseteq> counts: inductive_invariant "rw_start k" "rw_step ops cancel" rw_inv for k cancel
  by unfold_locales (auto intro: rw_start_inv step_inv)

sublocale rw_version \<subseteq> wakeups: inductive_invariant "rw_start k" "rw_step ops False"
  "\<lambda>s. rw_inv s \<and> rw_live s" for k
  by unfold_locales (auto intro: rw_start_inv step_inv step_live)

section \<open>Properties\<close>

text \<open>Reachable states of a machine of \<open>k\<close> threads.\<close>

abbreviation rw_reach :: "rw_ops \<Rightarrow> bool \<Rightarrow> nat \<Rightarrow> rw_sys \<Rightarrow> bool" where
  "rw_reach ops cancel k \<equiv> reach (rw_start k) (rw_step ops cancel)"

lemma rw_inv_exclusion:
  assumes "rw_inv s" and "i < length (rw_pcs s)" and "j < length (rw_pcs s)" and "i \<noteq> j"
    and "rw_pcs s ! i = T_write"
  shows "rw_pcs s ! j \<noteq> T_write \<and> rw_pcs s ! j \<noteq> T_read"
proof -
  have "1 \<le> cnt T_write (rw_pcs s)" using assms by (simp add: cnt_pos_nth)
  then have one: "cnt T_write (rw_pcs s) = 1" "cnt T_read (rw_pcs s) = 0"
    using assms(1) by (auto simp: rw_inv_def Let_def)
  have "rw_pcs s ! j \<noteq> T_write"
    using count_list_two [of i "rw_pcs s" j T_write] assms one(1) by (auto simp: cnt_def)
  moreover have "rw_pcs s ! j \<noteq> T_read" using one(2) nth_mem [OF assms(3)] by (auto simp: cnt_zero_iff)
  ultimately show ?thesis by simp
qed

text \<open>
  C11. Mutual exclusion in both versions, for any number of threads, any interleaving, spurious
  wakeups and cancelled waiters: while a thread holds the write lock no other thread holds the
  lock for reading or writing.
\<close>

theorem rwlock_mutual_exclusion:
  assumes "rw_reach my_rwlock_ops cancel k s \<or> rw_reach my_rwlock_cancel_ops cancel k s"
    and "i < length (rw_pcs s)" and "j < length (rw_pcs s)" and "i \<noteq> j"
    and "rw_pcs s ! i = T_write"
  shows "rw_pcs s ! j \<noteq> T_write \<and> rw_pcs s ! j \<noteq> T_read"
proof -
  have "rw_inv s" using assms(1) my_rw.counts.inv_reach my_rw_cancel.counts.inv_reach by blast
  then show ?thesis by (rule rw_inv_exclusion) (rule assms)+
qed

text \<open>
  \<open>my_pthread_rwlock_destroy\<close> succeeds in a reachable state exactly when no thread holds the
  lock or waits for it, cancelled threads included, and gives EBUSY otherwise: the three counts are
  right in every reachable state of both versions.
\<close>

lemma rwlock_destroy_idle:
  assumes "rw_reach my_rwlock_ops cancel k s \<or> rw_reach my_rwlock_cancel_ops cancel k s"
  shows "snd (my_pthread_rwlock_destroy (rw_lock s)) =
    (if set (rw_pcs s) \<subseteq> {T_out, T_gone} then 0 else EBUSY)"
proof -
  have inv: "rw_inv s" using assms my_rw.counts.inv_reach my_rw_cancel.counts.inv_reach by blast
  let ?pcs = "rw_pcs s"
  note pos = cnt_nonneg [of T_rdwait ?pcs] cnt_nonneg [of T_rdwoken ?pcs] cnt_nonneg [of T_wrwait ?pcs]
    cnt_nonneg [of T_wrwoken ?pcs] cnt_nonneg [of T_read ?pcs]
  have "set ?pcs \<subseteq> {T_out, T_gone} \<longleftrightarrow> cnt T_rdwait ?pcs = 0 \<and> cnt T_rdwoken ?pcs = 0 \<and>
      cnt T_wrwait ?pcs = 0 \<and> cnt T_wrwoken ?pcs = 0 \<and> cnt T_read ?pcs = 0 \<and> cnt T_write ?pcs = 0"
    unfolding cnt_zero_iff subset_iff by (metis insert_iff empty_iff rw_pc.exhaust rw_pc.distinct)
  then show ?thesis using inv pos by (auto simp: my_pthread_rwlock_destroy_def rw_inv_def Let_def)
qed

text \<open>
  C12. No wakeup is lost in either version as long as no thread is cancelled: in every reachable
  state in which nobody holds the lock and some thread is parked, some thread has been woken and
  will test the lock again.
\<close>

theorem rwlock_no_lost_wakeup:
  assumes "rw_reach my_rwlock_ops False k s \<or> rw_reach my_rwlock_cancel_ops False k s"
    and "T_read \<notin> set (rw_pcs s)" and "T_write \<notin> set (rw_pcs s)"
    and "T_rdwait \<in> set (rw_pcs s) \<or> T_wrwait \<in> set (rw_pcs s)"
  shows "T_rdwoken \<in> set (rw_pcs s) \<or> T_wrwoken \<in> set (rw_pcs s)"
  using assms my_rw.wakeups.inv_reach my_rw_cancel.wakeups.inv_reach
  by (intro my_rw.live_wakes) blast+

text \<open>Runs of the machine on concrete locks, for the witnesses and the counterexample.\<close>

abbreviation rw_at :: "int \<Rightarrow> int \<Rightarrow> int \<Rightarrow> rw_pc list \<Rightarrow> rw_sys" where
  "rw_at refs nwr nww pcs \<equiv> \<lparr>rw_lock = \<lparr>rw_magic = RW_MAGIC, rw_nwaitreaders = nwr,
    rw_nwaitwriters = nww, rw_refcount = refs\<rparr>, rw_pcs = pcs\<rparr>"

lemma rw_at_start: "rw_reach ops cancel 3 (rw_at 0 0 0 [T_out, T_out, T_out])"
  by (rule reach_start) (simp add: rw_start_def rwlock_initializer_def numeral_3_eq_3)

lemma my_rwlock_run: "rw_reach my_rwlock_ops False 3 (rw_at 0 0 2 [T_out, T_wrwoken, T_wrwait])"
proof -
  let ?step = "rw_step my_rwlock_ops False"
  have "?step (rw_at 0 0 0 [T_out, T_out, T_out]) (rw_at (- 1) 0 0 [T_write, T_out, T_out])"
    using rw_step.enter [of 0 "[T_out, T_out, T_out]" "op_wrlock my_rwlock_ops" T_write]
    by (simp add: my_rwlock_defs)
  moreover have "?step (rw_at (- 1) 0 0 [T_write, T_out, T_out]) (rw_at (- 1) 0 1 [T_write, T_wrwait, T_out])"
    using rw_step.wrpark [of 1 "[T_write, T_out, T_out]"] by (simp add: my_rwlock_defs)
  moreover have "?step (rw_at (- 1) 0 1 [T_write, T_wrwait, T_out]) (rw_at (- 1) 0 2 [T_write, T_wrwait, T_wrwait])"
    using rw_step.wrpark [of 2 "[T_write, T_wrwait, T_out]"] by (simp add: my_rwlock_defs)
  moreover have "?step (rw_at (- 1) 0 2 [T_write, T_wrwait, T_wrwait]) (rw_at 0 0 2 [T_out, T_wrwoken, T_wrwait])"
    using rw_step.unlock [of 0 "[T_write, T_wrwait, T_wrwait]" my_rwlock_ops _ _ "[Signal_writers]"]
      signal_one [of 1 "[T_out, T_wrwait, T_wrwait]" "\<lambda>p. p = T_wrwait" "\<lambda>_. T_wrwoken"]
    by (simp add: my_rwlock_defs release_def rw_notified_def)
  ultimately show ?thesis using rw_at_start by (meson reach_step)
qed

theorem rwlock_mutual_exclusion_witness:
  "\<exists>s :: rw_sys. rw_pcs s ! 0 = T_write \<and> rw_pcs s ! 1 \<noteq> T_write \<and> rw_pcs s ! 1 \<noteq> T_read"
proof -
  have "rw_step my_rwlock_ops False (rw_at 0 0 0 [T_out, T_out, T_out]) (rw_at (- 1) 0 0 [T_write, T_out, T_out])"
    using rw_step.enter [of 0 "[T_out, T_out, T_out]" "op_wrlock my_rwlock_ops" T_write]
    by (simp add: my_rwlock_defs)
  then have r: "rw_reach my_rwlock_ops False 3 (rw_at (- 1) 0 0 [T_write, T_out, T_out])"
    using rw_at_start by (blast intro: reach_step)
  show ?thesis
    using rwlock_mutual_exclusion [OF disjI1 [OF r], of 0 1]
    by (intro exI [of _ "rw_at (- 1) 0 0 [T_write, T_out, T_out]"]) simp
qed

theorem rwlock_no_lost_wakeup_witness:
  "T_wrwoken \<in> set (rw_pcs (rw_at 0 0 2 [T_out, T_wrwoken, T_wrwait]))"
  using rwlock_no_lost_wakeup [OF disjI1 [OF my_rwlock_run]] by simp

text \<open>
  Cancellation loses a wakeup in \<open>src/my_rwlock_cancel\<close>: the handler of a cancelled writer
  lowers \<open>rw_nwaitwriters\<close> but wakes nobody. A state is reachable in which the lock is free, no
  thread holds it or has been woken, no writer waits, and a reader is parked.
\<close>

lemma rwlock_cancel_strands_reader:
  "\<exists>s. rw_reach my_rwlock_cancel_ops True 3 s \<and> rw_refcount (rw_lock s) = 0 \<and>
    rw_nwaitwriters (rw_lock s) = 0 \<and> rw_pcs s = [T_out, T_gone, T_rdwait]"
proof -
  let ?step = "rw_step my_rwlock_cancel_ops True"
  have "?step (rw_at 0 0 0 [T_out, T_out, T_out]) (rw_at 1 0 0 [T_read, T_out, T_out])"
    using rw_step.enter [of 0 "[T_out, T_out, T_out]" "op_rdlock my_rwlock_cancel_ops" T_read]
    by (simp add: my_rwlock_cancel_defs)
  moreover have "?step (rw_at 1 0 0 [T_read, T_out, T_out]) (rw_at 1 0 1 [T_read, T_wrwait, T_out])"
    using rw_step.wrpark [of 1 "[T_read, T_out, T_out]"] by (simp add: my_rwlock_cancel_defs)
  moreover have "?step (rw_at 1 0 1 [T_read, T_wrwait, T_out]) (rw_at 1 1 1 [T_read, T_wrwait, T_rdwait])"
    using rw_step.rdpark [of 2 "[T_read, T_wrwait, T_out]"] by (simp add: my_rwlock_cancel_defs)
  moreover have "?step (rw_at 1 1 1 [T_read, T_wrwait, T_rdwait]) (rw_at 0 1 1 [T_out, T_wrwoken, T_rdwait])"
    using rw_step.unlock [of 0 "[T_read, T_wrwait, T_rdwait]" my_rwlock_cancel_ops _ _ "[Signal_writers]"]
      signal_one [of 1 "[T_out, T_wrwait, T_rdwait]" "\<lambda>p. p = T_wrwait" "\<lambda>_. T_wrwoken"]
    by (simp add: my_rwlock_cancel_defs release_def rw_notified_def)
  moreover have "?step (rw_at 0 1 1 [T_out, T_wrwoken, T_rdwait]) (rw_at 0 1 0 [T_out, T_gone, T_rdwait])"
    using rw_step.wrcancel [where ops = my_rwlock_cancel_ops and i = 1
        and pcs = "[T_out, T_wrwoken, T_rdwait]" and rw = "rw_lock (rw_at 0 1 1 [])"]
    by (simp add: my_rwlock_cancel_defs)
  ultimately have "rw_reach my_rwlock_cancel_ops True 3 (rw_at 0 1 0 [T_out, T_gone, T_rdwait])"
    using rw_at_start by (meson reach_step)
  then show ?thesis by (intro exI conjI) auto
qed

text \<open>
  In \<open>src/my_rwlock_cancel\<close> the functions can return 0 without the lock: \<open>wrlock\<close> when
  \<open>pthread_mutex_lock\<close> fails on a free lock, and both when \<open>pthread_cond_wait\<close> fails. The
  functions of \<open>src/my_rwlock\<close> return the error in the same places, and change the same counts.
\<close>

lemma rwlock_cancel_false_success:
  assumes "rw_magic rw = RW_MAGIC" and "0 < n"
  shows "(rw_refcount rw = 0 \<longrightarrow> my_pthread_rwlock_wrlock_c n rw = Returns rw [] 0) \<and>
    my_pthread_rwlock_wrlock n rw = Returns rw [] n \<and>
    rdlock_wakeup_c n rw = Returns (rwlock_cancelrdwait rw) [] 0 \<and>
    rdlock_wakeup n rw = Returns (rwlock_cancelrdwait rw) [] n \<and>
    wrlock_wakeup_c n rw = Returns (rwlock_cancelwrwait rw) [] 0 \<and>
    wrlock_wakeup n rw = Returns (rwlock_cancelwrwait rw) [] n"
  using assms by (auto simp: my_rwlock_defs my_rwlock_cancel_defs)

text \<open>
  The wrappers of the functions that try never return a refusal: a lock that is held ends the
  process in \<open>err_sys\<close> with EBUSY, so their \<open>int\<close> result is always 0.
\<close>

lemma rwlock_try_wrappers_exit:
  assumes "rw_magic rw = RW_MAGIC" and "rw_refcount rw = - 1"
  shows "Pthread_rwlock_tryrdlock 0 rw = Returns rw [] (Err_sys ''pthread_rwlock_tryrdlock error'' EBUSY) \<and>
    Pthread_rwlock_trywrlock 0 rw = Returns rw [] (Err_sys ''pthread_rwlock_trywrlock error'' EBUSY) \<and>
    Pthread_rwlock_tryrdlock_c 0 rw = Returns rw [] (Err_sys ''pthread_rwlock_tryrdlock error'' EBUSY) \<and>
    Pthread_rwlock_trywrlock_c 0 rw = Returns rw [] (Err_sys ''pthread_rwlock_trywrlock error'' EBUSY)"
  using assms
  by (simp add: Pthread_rwlock_tryrdlock_def Pthread_rwlock_trywrlock_def Pthread_rwlock_tryrdlock_c_def
      Pthread_rwlock_trywrlock_c_def my_rwlock_defs my_rwlock_cancel_defs wrap_try_def)

end
