(* ===== verification/Lib_IO.thy ===== *)
theory Lib_IO
  imports Ipc_Prelude
begin

text \<open>
  The I/O functions of \<open>src/lib\<close>: \<open>readn\<close>, \<open>writen\<close> and \<open>readline\<close> with its buffer \<open>my_read\<close>. The
  bytes still to be read, or written so far, are a list; what a single \<open>read\<close> or \<open>write\<close> does is
  one entry of a schedule: how many bytes it moves, an interruption, or an error. When the schedule
  is used up the function is still running (\<open>None\<close>).
\<close>

section \<open>The system calls\<close>

datatype io = Moves nat | Interrupted | Faults errno

text \<open>
  A \<open>read\<close> of at most \<open>n\<close> bytes takes at least one byte and at most \<open>k + 1\<close> of what there is, or
  nothing at end of file.
\<close>

fun sys_read :: "nat \<Rightarrow> io \<Rightarrow> byte list \<Rightarrow> byte list result \<times> byte list" where
  "sys_read n (Moves k) src = (Inr (take (min n (k + 1)) src), drop (min n (k + 1)) src)"
| "sys_read n Interrupted src = (Inl EINTR, src)"
| "sys_read n (Faults e) src = (Inl e, src)"

text \<open>A \<open>write\<close> of \<open>data\<close> moves at most \<open>k\<close> bytes of it, none when \<open>k\<close> is 0; the result is their number.\<close>

fun sys_write :: "io \<Rightarrow> byte list \<Rightarrow> byte list \<Rightarrow> nat result \<times> byte list" where
  "sys_write (Moves k) data dst = (Inr (min k (length data)), dst @ take k data)"
| "sys_write Interrupted data dst = (Inl EINTR, dst)"
| "sys_write (Faults e) data dst = (Inl e, dst)"

section \<open>readn\<close>

text \<open>The loop: \<open>nleft\<close> bytes to go, \<open>got\<close> stored at \<open>vptr\<close> so far.\<close>

fun readn_loop ::
  "nat \<Rightarrow> byte list \<Rightarrow> io list \<Rightarrow> byte list \<Rightarrow> (byte list result \<times> byte list \<times> io list) option" where
  "readn_loop nleft got [] src = (if nleft = 0 then Some (Inr got, src, []) else None)"
| "readn_loop nleft got (i # sched) src =
    (if nleft = 0 then Some (Inr got, src, i # sched)
     else case sys_read nleft i src of
       (Inl e, src') \<Rightarrow>
         if e = EINTR then readn_loop nleft got sched src' else Some (Inl e, src', sched)
     | (Inr bs, src') \<Rightarrow>
         if bs = [] then Some (Inr got, src', sched)
         else readn_loop (nleft - length bs) (got @ bs) sched src')"

definition readn :: "nat \<Rightarrow> io list \<Rightarrow> byte list \<Rightarrow> (byte list result \<times> byte list \<times> io list) option" where
  "readn n sched src = readn_loop n [] sched src"

definition Readn :: "nat \<Rightarrow> io list \<Rightarrow> byte list \<Rightarrow> (byte list called \<times> byte list \<times> io list) option" where
  "Readn n sched src = map_option (map_prod (wrap1 ''readn error'') id) (readn n sched src)"

section \<open>writen\<close>

text \<open>
  \<open>errno\<close> is the variable: a \<open>write\<close> that returns 0 does not set it, and the loop then tests the
  value that an earlier call left.
\<close>

fun writen_loop ::
  "errno \<Rightarrow> byte list \<Rightarrow> io list \<Rightarrow> byte list \<Rightarrow> (unit result \<times> byte list \<times> io list) option" where
  "writen_loop errno ptr [] dst = (if ptr = [] then Some (Inr (), dst, []) else None)"
| "writen_loop errno ptr (i # sched) dst =
    (if ptr = [] then Some (Inr (), dst, i # sched)
     else case sys_write i ptr dst of
       (Inl e, dst') \<Rightarrow>
         if e = EINTR then writen_loop e ptr sched dst' else Some (Inl e, dst', sched)
     | (Inr nwritten, dst') \<Rightarrow>
         if nwritten = 0 \<and> errno \<noteq> EINTR then Some (Inl errno, dst', sched)
         else writen_loop errno (drop nwritten ptr) sched dst')"

definition writen :: "errno \<Rightarrow> byte list \<Rightarrow> io list \<Rightarrow> byte list \<Rightarrow> (nat result \<times> byte list \<times> io list) option" where
  "writen errno ptr sched dst =
    map_option (map_prod (map_sum id (\<lambda>_. length ptr)) id) (writen_loop errno ptr sched dst)"

definition Writen :: "errno \<Rightarrow> byte list \<Rightarrow> io list \<Rightarrow> byte list \<Rightarrow> (nat called \<times> byte list \<times> io list) option" where
  "Writen errno ptr sched dst = map_option (map_prod (wrap1 ''writen error'') id) (writen errno ptr sched dst)"

section \<open>readline\<close>

abbreviation (input) MAXLINE :: nat where "MAXLINE \<equiv> 4096"
abbreviation (input) newline :: byte where "newline \<equiv> 10"

text \<open>
  The static buffer holds the bytes that were read and not yet handed out (\<open>read_cnt\<close> of them from
  \<open>read_ptr\<close>). \<open>my_read\<close> gives one byte (\<open>Some c\<close>), end of file (\<open>None\<close>), or an error.
\<close>

record rl_state =
  rl_buf :: "byte list"
  rl_src :: "byte list"
  rl_sched :: "io list"

fun rl_fill :: "io list \<Rightarrow> byte list \<Rightarrow> (byte list result \<times> byte list \<times> io list) option" where
  "rl_fill [] src = None"
| "rl_fill (i # sched) src =
    (case sys_read MAXLINE i src of
      (Inl e, src') \<Rightarrow> if e = EINTR then rl_fill sched src' else Some (Inl e, src', sched)
    | (Inr bs, src') \<Rightarrow> Some (Inr bs, src', sched))"

definition my_read :: "rl_state \<Rightarrow> (byte option result \<times> rl_state) option" where
  "my_read s =
    (case rl_buf s of
      c # cs \<Rightarrow> Some (Inr (Some c), s\<lparr>rl_buf := cs\<rparr>)
    | [] \<Rightarrow>
        (case rl_fill (rl_sched s) (rl_src s) of
          None \<Rightarrow> None
        | Some (Inl e, src, sched) \<Rightarrow> Some (Inl e, s\<lparr>rl_src := src, rl_sched := sched\<rparr>)
        | Some (Inr [], src, sched) \<Rightarrow> Some (Inr None, s\<lparr>rl_src := src, rl_sched := sched\<rparr>)
        | Some (Inr (c # cs), src, sched) \<Rightarrow>
            Some (Inr (Some c), \<lparr>rl_buf = cs, rl_src = src, rl_sched = sched\<rparr>)))"

text \<open>
  The \<open>for\<close> loop, with \<open>k\<close> iterations left, the counter \<open>n\<close> and the bytes stored so far. The result
  is the bytes stored before the terminating null byte and the number returned.
\<close>

fun readline_loop ::
  "nat \<Rightarrow> nat \<Rightarrow> byte list \<Rightarrow> rl_state \<Rightarrow> ((byte list \<times> nat) result \<times> rl_state) option" where
  "readline_loop 0 n got s = Some (Inr (got, n), s)"
| "readline_loop (Suc k) n got s =
    (case my_read s of
      None \<Rightarrow> None
    | Some (Inl e, s') \<Rightarrow> Some (Inl e, s')
    | Some (Inr None, s') \<Rightarrow> if n = 1 then Some (Inr ([], 0), s') else Some (Inr (got, n), s')
    | Some (Inr (Some c), s') \<Rightarrow>
        if c = newline then Some (Inr (got @ [c], n), s')
        else readline_loop k (n + 1) (got @ [c]) s')"

definition readline :: "nat \<Rightarrow> rl_state \<Rightarrow> ((byte list \<times> nat) result \<times> rl_state) option" where
  "readline maxlen s = readline_loop (maxlen - 1) 1 [] s"

definition Readline :: "nat \<Rightarrow> rl_state \<Rightarrow> ((byte list \<times> nat) called \<times> rl_state) option" where
  "Readline maxlen s = map_option (map_prod (wrap1 ''readline error'') id) (readline maxlen s)"

section \<open>Lemmas\<close>

text \<open>The bytes that \<open>readline\<close> has not handed out yet.\<close>

definition rl_pending :: "rl_state \<Rightarrow> byte list" where
  "rl_pending s = rl_buf s @ rl_src s"

text \<open>A schedule with no errors, and the number of calls in it that were not interrupted.\<close>

definition fault_free :: "io list \<Rightarrow> bool" where
  "fault_free sched \<longleftrightarrow> (\<forall>i \<in> set sched. case i of Faults e \<Rightarrow> False | _ \<Rightarrow> True)"

definition calls_in :: "io list \<Rightarrow> nat" where
  "calls_in sched = length (filter (\<lambda>i. i \<noteq> Interrupted) sched)"

lemma take_then_take:
  "m \<le> n \<Longrightarrow> take m xs @ take (n - length (take m xs)) (drop m xs) = take n xs"
  "m \<le> n \<Longrightarrow> drop (n - length (take m xs)) (drop m xs) = drop n xs"
  by (cases "m \<le> length xs"; simp add: min_def flip: take_add)+

lemma readn_loop_correct:
  "readn_loop nleft got sched src = Some (Inr bs, src', sched') \<Longrightarrow>
    bs = got @ take nleft src \<and> src' = drop nleft src"
proof (induction sched arbitrary: nleft got src)
  case (Cons i sched)
  show ?case
  proof (cases i)
    case (Moves k)
    let ?m = "min nleft (k + 1)"
    show ?thesis
    proof (cases "nleft = 0 \<or> src = []")
      case True
      with Cons.prems Moves show ?thesis by (auto split: if_splits)
    next
      case False
      then have "readn_loop (nleft - length (take ?m src)) (got @ take ?m src) sched (drop ?m src) =
          Some (Inr bs, src', sched')" using Cons.prems Moves by (auto split: if_splits)
      from Cons.IH [OF this] take_then_take [of ?m nleft src] show ?thesis by simp
    qed
  qed (use Cons in \<open>auto split: if_splits\<close>)
qed (simp split: if_splits)

text \<open>Every schedule with enough bytes moved ends the loop, whatever interruptions it has.\<close>

lemma readn_loop_ends:
  "fault_free sched \<Longrightarrow> nleft < calls_in sched \<Longrightarrow>
    \<exists>src' sched'. readn_loop nleft got sched src = Some (Inr (got @ take nleft src), src', sched')"
proof (induction sched arbitrary: nleft got src)
  case (Cons i sched)
  show ?case
  proof (cases i)
    case (Moves k)
    let ?m = "min nleft (k + 1)"
    show ?thesis
    proof (cases "nleft = 0 \<or> src = []")
      case True
      with Moves show ?thesis by auto
    next
      case False
      then have m: "0 < length (take ?m src)" and le: "?m \<le> nleft" by auto
      have "nleft - length (take ?m src) < nleft" using m False by (intro diff_less) auto
      also have "nleft \<le> calls_in sched" using Cons.prems(2) Moves by (simp add: calls_in_def)
      finally have "nleft - length (take ?m src) < calls_in sched" .
      from Cons.IH [OF _ this, of "got @ take ?m src" "drop ?m src"] Cons.prems(1)
      obtain src' sched' where "readn_loop (nleft - length (take ?m src)) (got @ take ?m src) sched (drop ?m src)
          = Some (Inr ((got @ take ?m src) @ take (nleft - length (take ?m src)) (drop ?m src)), src', sched')"
        by (auto simp: fault_free_def)
      with False Moves m take_then_take(1) [OF le, of src] show ?thesis by auto
    qed
  next
    case Interrupted
    with Cons show ?thesis by (auto simp: fault_free_def calls_in_def)
  next
    case (Faults e)
    with Cons.prems(1) show ?thesis by (auto simp: fault_free_def)
  qed
qed (simp add: calls_in_def)

lemma writen_loop_correct:
  "writen_loop errno ptr sched dst = Some (r, dst', sched') \<Longrightarrow>
    \<exists>n \<le> length ptr. dst' = dst @ take n ptr \<and> (r = Inr () \<longrightarrow> n = length ptr)"
proof (induction sched arbitrary: errno ptr dst)
  case (Cons i sched)
  show ?case
  proof (cases i)
    case (Moves k)
    let ?m = "min k (length ptr)"
    show ?thesis
    proof (cases "ptr = [] \<or> ?m = 0 \<and> errno \<noteq> EINTR")
      case True
      then have "ptr = [] \<or> k = 0 \<and> errno \<noteq> EINTR" by (cases ptr) auto
      then have "dst' = dst @ take ?m ptr" and "ptr = [] \<or> r = Inl errno" using Cons.prems Moves by (auto split: if_splits)
      with True show ?thesis by (intro exI [of _ ?m]) auto
    next
      case False
      then have "ptr \<noteq> []" and "\<not> (?m = 0 \<and> errno \<noteq> EINTR)" by blast+
      then have "writen_loop errno (drop ?m ptr) sched (dst @ take k ptr) = Some (r, dst', sched')"
        using Cons.prems Moves by (cases ptr; cases k) (auto split: if_splits)
      from Cons.IH [OF this] obtain n where n: "n \<le> length (drop ?m ptr)"
        "dst' = (dst @ take k ptr) @ take n (drop ?m ptr)" "r = Inr () \<longrightarrow> n = length (drop ?m ptr)" by blast
      have "take k ptr = take ?m ptr" by (simp add: min_def)
      with n show ?thesis by (intro exI [of _ "?m + n"]) (auto simp: take_add)
    qed
  qed (use Cons in \<open>auto split: if_splits\<close>)
qed (auto split: if_splits)

text \<open>When every write moves something, as many writes as bytes are enough, whatever interruptions come between.\<close>

lemma writen_loop_ends:
  "fault_free sched \<Longrightarrow> Moves 0 \<notin> set sched \<Longrightarrow> length ptr \<le> calls_in sched \<Longrightarrow>
    \<exists>sched'. writen_loop errno ptr sched dst = Some (Inr (), dst @ ptr, sched')"
proof (induction sched arbitrary: errno ptr dst)
  case (Cons i sched)
  show ?case
  proof (cases i)
    case (Moves k)
    show ?thesis
    proof (cases "ptr = []")
      case False
      have k: "0 < k" using Cons.prems(2) Moves by (cases k) auto
      then have len: "length (drop (min k (length ptr)) ptr) \<le> calls_in sched"
        using Cons.prems(3) Moves False by (cases ptr) (auto simp: calls_in_def)
      have join: "(dst @ take k ptr) @ drop (min k (length ptr)) ptr = dst @ ptr" by (simp add: min_def)
      from Cons.IH [OF _ _ len, of errno "dst @ take k ptr"] Cons.prems(1,2) False k Moves
      show ?thesis unfolding join by (auto simp: fault_free_def)
    qed (simp add: Moves)
  qed (use Cons in \<open>auto simp: fault_free_def calls_in_def\<close>)
qed (simp add: calls_in_def)

text \<open>\<open>my_read\<close> hands out the pending bytes in order.\<close>

lemma rl_fill_correct:
  "rl_fill sched src = Some (Inr bs, src', sched') \<Longrightarrow> src = bs @ src' \<and> (bs = [] \<longleftrightarrow> src = [])"
  by (induction sched arbitrary: src) (auto split: prod.splits sum.splits if_splits io.splits elim!: sys_read.elims)

lemma my_read_correct:
  assumes "my_read s = Some (Inr x, s')"
  shows "case x of None \<Rightarrow> rl_pending s = [] \<and> rl_pending s' = [] | Some c \<Rightarrow> rl_pending s = c # rl_pending s'"
proof (cases "rl_buf s")
  case (Cons c cs)
  with assms show ?thesis by (auto simp: my_read_def rl_pending_def)
next
  case Nil
  with assms obtain bs src sched where fill: "rl_fill (rl_sched s) (rl_src s) = Some (Inr bs, src, sched)"
    by (auto simp: my_read_def split: option.splits prod.splits sum.splits)
  note l = rl_fill_correct [OF fill]
  show ?thesis
    using assms Nil fill l by (cases bs) (auto simp: my_read_def rl_pending_def)
qed

text \<open>One call that is not interrupted is enough for \<open>my_read\<close>, and it uses at most one.\<close>

lemma rl_fill_ends:
  "fault_free sched \<Longrightarrow> 0 < calls_in sched \<Longrightarrow>
    \<exists>bs src' sched'. rl_fill sched src = Some (Inr bs, src', sched') \<and> fault_free sched' \<and>
      calls_in sched \<le> Suc (calls_in sched')"
  by (induction sched) (auto simp: fault_free_def calls_in_def split: io.splits)

lemma my_read_ends:
  assumes "fault_free (rl_sched s)" and "0 < calls_in (rl_sched s)"
  shows "\<exists>x s'. my_read s = Some (Inr x, s') \<and> fault_free (rl_sched s') \<and>
    calls_in (rl_sched s) \<le> Suc (calls_in (rl_sched s'))"
proof (cases "rl_buf s")
  case Nil
  from rl_fill_ends [OF assms, of "rl_src s"] obtain bs src' sched' where
    "rl_fill (rl_sched s) (rl_src s) = Some (Inr bs, src', sched')" "fault_free sched'"
    "calls_in (rl_sched s) \<le> Suc (calls_in sched')" by blast
  with Nil show ?thesis by (cases bs) (auto simp: my_read_def)
qed (use assms in \<open>auto simp: my_read_def\<close>)

lemma readline_loop_ends:
  "fault_free (rl_sched s) \<Longrightarrow> k \<le> calls_in (rl_sched s) \<Longrightarrow>
    \<exists>bs r s'. readline_loop k n got s = Some (Inr (bs, r), s')"
proof (induction k arbitrary: n got s)
  case (Suc k)
  obtain x s' where read: "my_read s = Some (Inr x, s')" and ff: "fault_free (rl_sched s')"
    and "k \<le> calls_in (rl_sched s')"
    using my_read_ends [of s] Suc.prems by fastforce
  with Suc.IH [of s'] show ?case by (cases x) auto
qed simp

text \<open>
  What the loop stores: the pending bytes up to and with the first newline, at most \<open>k\<close>. The number
  it returns is the number stored when a newline ended it, and one more otherwise.
\<close>

fun line_of :: "nat \<Rightarrow> byte list \<Rightarrow> byte list" where
  "line_of 0 bs = []"
| "line_of (Suc k) [] = []"
| "line_of (Suc k) (c # cs) = (if c = newline then [c] else c # line_of k cs)"

definition ends_line :: "byte list \<Rightarrow> bool" where
  "ends_line bs \<longleftrightarrow> bs \<noteq> [] \<and> last bs = newline"

lemma line_of_nonnewline: "c \<noteq> newline \<Longrightarrow> ends_line (c # l) \<longleftrightarrow> ends_line l"
  by (auto simp: ends_line_def)

lemma readline_loop_correct:
  "readline_loop k n got s = Some (Inr (bs, r), s') \<Longrightarrow> n = length got + 1 \<Longrightarrow>
    (if rl_pending s = [] \<and> got = [] \<and> 0 < k then bs = [] \<and> r = 0
     else bs = got @ line_of k (rl_pending s) \<and>
       rl_pending s' = drop (length (line_of k (rl_pending s))) (rl_pending s) \<and>
       r = length bs + (if ends_line (line_of k (rl_pending s)) then 0 else 1))"
proof (induction k arbitrary: n got s)
  case 0
  then show ?case by (auto simp: ends_line_def)
next
  case (Suc k)
  from Suc.prems(1) obtain x s1 where read: "my_read s = Some (Inr x, s1)"
    by (auto split: option.splits prod.splits sum.splits)
  note step = my_read_correct [OF read]
  show ?case
  proof (cases x)
    case None
    with read step Suc.prems show ?thesis by (auto simp: ends_line_def split: if_splits)
  next
    case (Some c)
    show ?thesis
    proof (cases "c = newline")
      case True
      with Some read step Suc.prems show ?thesis by (auto simp: ends_line_def)
    next
      case False
      with Some read Suc.prems have "readline_loop k (n + 1) (got @ [c]) s1 = Some (Inr (bs, r), s')" by simp
      from Suc.IH [OF this] Suc.prems(2) Some step False show ?thesis
        by (simp add: line_of_nonnewline)
    qed
  qed
qed

lemma readline_correct:
  assumes "readline maxlen s = Some (Inr (bs, r), s')" and "1 < maxlen"
  shows "bs = line_of (maxlen - 1) (rl_pending s) \<and>
    rl_pending s' = drop (length bs) (rl_pending s) \<and>
    r = (if rl_pending s = [] then 0 else if ends_line bs then length bs else length bs + 1)"
proof -
  obtain k where k: "maxlen - 1 = Suc k" using assms(2) by (cases "maxlen - 1") auto
  with assms(1) obtain x s1 where read: "my_read s = Some (Inr x, s1)"
    by (auto simp: readline_def split: option.splits prod.splits sum.splits)
  have "rl_pending s' = []" if "rl_pending s = []"
    using that my_read_correct [OF read] read assms(1) k by (auto simp: readline_def split: option.splits)
  then show ?thesis
    using readline_loop_correct [of "maxlen - 1" 1 "[]" s bs r s'] assms k
    by (auto simp: readline_def split: if_splits)
qed

section \<open>Properties\<close>

text \<open>
  C32. \<open>readn\<close> is exact: when it returns a count, it has stored the next \<open>n\<close> bytes of the
  descriptor in order, or all that are left at end of file, and nothing else was taken; and it does
  return when reads keep moving bytes, whatever interruptions come between.
\<close>

theorem readn_exact:
  "(\<forall>bs src' sched'. readn n sched src = Some (Inr bs, src', sched') \<longrightarrow> bs = take n src \<and> src' = drop n src) \<and>
    (fault_free sched \<and> n < calls_in sched \<longrightarrow>
      (\<exists>sched'. readn n sched src = Some (Inr (take n src), drop n src, sched')))"
  using readn_loop_correct [of n "[]" sched src] readn_loop_ends [of sched n "[]" src]
  by (auto simp: readn_def)

theorem readn_exact_witness:
  "\<exists>sched'. readn 3 [Interrupted, Moves 1, Interrupted, Moves 5, Moves 0, Moves 0] [1, 2, 3, 4] =
    Some (Inr [1, 2, 3], [4], sched')"
  using readn_exact [of 3 "[Interrupted, Moves 1, Interrupted, Moves 5, Moves 0, Moves 0]" "[1, 2, 3, 4]"]
  by (simp add: fault_free_def calls_in_def)

text \<open>
  \<open>writen\<close> is all or an error: when it returns \<open>n\<close>, the \<open>n\<close> bytes have been written in order
  after what was there; when it fails, a prefix of them has; and it does return \<open>n\<close> when the writes
  keep moving bytes, whatever interruptions come between.
\<close>

lemma writen_all_or_error:
  "(\<forall>r dst' sched'. writen errno ptr sched dst = Some (r, dst', sched') \<longrightarrow>
      (case r of
        Inr n \<Rightarrow> n = length ptr \<and> dst' = dst @ ptr
      | Inl e \<Rightarrow> (\<exists>k \<le> length ptr. dst' = dst @ take k ptr))) \<and>
    (fault_free sched \<and> Moves 0 \<notin> set sched \<and> length ptr \<le> calls_in sched \<longrightarrow>
      (\<exists>sched'. writen errno ptr sched dst = Some (Inr (length ptr), dst @ ptr, sched')))"
proof (intro conjI allI impI)
  fix r dst' sched'
  assume "writen errno ptr sched dst = Some (r, dst', sched')"
  then obtain r0 where run: "writen_loop errno ptr sched dst = Some (r0, dst', sched')"
    and r: "r = map_sum id (\<lambda>_. length ptr) r0" by (auto simp: writen_def)
  from writen_loop_correct [OF run] r
  show "case r of Inr n \<Rightarrow> n = length ptr \<and> dst' = dst @ ptr
    | Inl e \<Rightarrow> (\<exists>k \<le> length ptr. dst' = dst @ take k ptr)" by (cases r0) auto
next
  assume "fault_free sched \<and> Moves 0 \<notin> set sched \<and> length ptr \<le> calls_in sched"
  then show "\<exists>sched'. writen errno ptr sched dst = Some (Inr (length ptr), dst @ ptr, sched')"
    using writen_loop_ends [of sched ptr errno dst] by (auto simp: writen_def)
qed

text \<open>
  C33. \<open>readline\<close> stores the next line with its newline, or as much of it as fits, and keeps the rest
  for the next call; at end of file it returns 0. The number it returns is the number of bytes
  stored only when the line ends in a newline: for a last line without one, and for a line that
  does not fit, it is one too large. Enough reads without errors make it return.
\<close>

theorem readline_returns:
  assumes "1 < maxlen"
  shows "(\<forall>bs r s'. readline maxlen s = Some (Inr (bs, r), s') \<longrightarrow>
      bs = line_of (maxlen - 1) (rl_pending s) \<and>
      rl_pending s' = drop (length bs) (rl_pending s) \<and>
      r = (if rl_pending s = [] then 0 else if ends_line bs then length bs else length bs + 1)) \<and>
    (fault_free (rl_sched s) \<and> maxlen - 1 \<le> calls_in (rl_sched s) \<longrightarrow>
      (\<exists>bs r s'. readline maxlen s = Some (Inr (bs, r), s')))"
proof (intro conjI impI allI)
  fix bs r s'
  assume run: "readline maxlen s = Some (Inr (bs, r), s')"
  show "bs = line_of (maxlen - 1) (rl_pending s)" and "rl_pending s' = drop (length bs) (rl_pending s)"
    and "r = (if rl_pending s = [] then 0 else if ends_line bs then length bs else length bs + 1)"
    using readline_correct [OF run assms] by blast+
next
  assume "fault_free (rl_sched s) \<and> maxlen - 1 \<le> calls_in (rl_sched s)"
  then show "\<exists>bs r s'. readline maxlen s = Some (Inr (bs, r), s')"
    using readline_loop_ends [of s "maxlen - 1"] by (auto simp: readline_def)
qed

theorem readline_returns_witness:
  "\<exists>s'. readline 4 \<lparr>rl_buf = [], rl_src = [65, 66], rl_sched = [Moves 9, Moves 9, Moves 9]\<rparr> =
    Some (Inr ([65, 66], 3), s')"
proof -
  let ?s = "\<lparr>rl_buf = [], rl_src = [65, 66], rl_sched = [Moves 9, Moves 9, Moves 9]\<rparr> :: rl_state"
  note r = readline_returns [of 4 ?s]
  from r obtain bs r s' where run: "readline 4 ?s = Some (Inr (bs, r), s')"
    by (auto simp: fault_free_def calls_in_def)
  from r run show ?thesis
    by (auto simp: rl_pending_def ends_line_def numeral_3_eq_3)
qed

end
