(* ===== verification/Lib_Misc.thy ===== *)
theory Lib_Misc
  imports Syscall
begin

text \<open>
  The remaining functions of \<open>src/lib\<close> that programs of the repository call: names of IPC objects,
  time differences, sleeping, the error functions, signal handlers, record locks, shared memory,
  timing and descriptor helpers.
\<close>

unbundle bit_operations_syntax

section \<open>px_ipc_name\<close>

abbreviation (input) PATH_MAX :: nat where "PATH_MAX \<equiv> 4096"

text \<open>
  \<open>ok\<close> tells whether \<open>malloc\<close> succeeds, \<open>env\<close> is the value of \<open>PX_IPC_NAME\<close>. For an empty value the
  code looks at the byte before the string: \<open>before\<close>.
\<close>

definition px_ipc_name :: "bool \<Rightarrow> string option \<Rightarrow> char \<Rightarrow> string \<Rightarrow> string option" where
  "px_ipc_name ok env before name =
    (if \<not> ok then None
     else
       let dir = (case env of None \<Rightarrow> ''/tmp/'' | Some d \<Rightarrow> d);
           slash = (if (if dir = [] then before else last dir) = CHR ''/'' then '''' else ''/'')
       in Some (take (PATH_MAX - 1) (dir @ slash @ name)))"

definition Px_ipc_name :: "bool \<Rightarrow> string option \<Rightarrow> char \<Rightarrow> string \<Rightarrow> string called" where
  "Px_ipc_name ok env before name =
    (case px_ipc_name ok env before name of
      None \<Rightarrow> Err_sys (''px_ipc_name error for '' @ name) ENOMEM
    | Some p \<Rightarrow> Done p)"

section \<open>Times\<close>

record timeval =
  tv_sec :: int
  tv_usec :: int

definition tv_sub :: "timeval \<Rightarrow> timeval \<Rightarrow> timeval" where
  "tv_sub out inn =
    (let us = tv_usec out - tv_usec inn in
     if us < 0 then \<lparr>tv_sec = tv_sec out - 1 - tv_sec inn, tv_usec = us + 1000000\<rparr>
     else \<lparr>tv_sec = tv_sec out - tv_sec inn, tv_usec = us\<rparr>)"

definition tv_valid :: "timeval \<Rightarrow> bool" where
  "tv_valid t \<longleftrightarrow> 0 \<le> tv_usec t \<and> tv_usec t < 1000000"

definition tv_us :: "timeval \<Rightarrow> int" where
  "tv_us t = tv_sec t * 1000000 + tv_usec t"

text \<open>
  \<open>sleep_us\<close>: each entry of \<open>sel\<close> is the outcome of one \<open>select\<close>, 0 or an error. The second component
  of the result is the list of the times asked for.
\<close>

fun sleep_us_loop :: "nat \<Rightarrow> unit result list \<Rightarrow> timeval list \<Rightarrow> (unit result \<times> timeval list) option" where
  "sleep_us_loop nusecs [] asked = None"
| "sleep_us_loop nusecs (r # sel) asked =
    (let tval = \<lparr>tv_sec = int (nusecs div 1000000), tv_usec = int (nusecs mod 1000000)\<rparr> in
     case r of
       Inr _ \<Rightarrow> Some (Inr (), asked @ [tval])
     | Inl e \<Rightarrow> if e \<noteq> EINTR then Some (Inl e, asked @ [tval]) else sleep_us_loop nusecs sel (asked @ [tval]))"

definition sleep_us :: "uint \<Rightarrow> unit result list \<Rightarrow> (unit result \<times> timeval list) option" where
  "sleep_us nusecs sel = (if nusecs = 0 then Some (Inr (), []) else sleep_us_loop (unat nusecs) sel [])"

definition Sleep_us :: "uint \<Rightarrow> unit result list \<Rightarrow> (unit called \<times> timeval list) option" where
  "Sleep_us nusecs sel = map_option (map_prod (wrap1 ''sleep_us error'') id) (sleep_us nusecs sel)"

text \<open>\<open>start_time\<close> and \<open>stop_time\<close>: \<open>now\<close> is the answer of \<open>gettimeofday\<close>; microseconds as an integer.\<close>

definition start_time :: "timeval result \<Rightarrow> timeval \<Rightarrow> timeval \<times> unit result" where
  "start_time now tv_start = (case now of Inl e \<Rightarrow> (tv_start, Inl e) | Inr t \<Rightarrow> (t, Inr ()))"

definition stop_time :: "timeval result \<Rightarrow> timeval \<Rightarrow> int" where
  "stop_time now tv_start = (case now of Inl e \<Rightarrow> 0 | Inr t \<Rightarrow> tv_us (tv_sub t tv_start))"

definition Start_time :: "timeval result \<Rightarrow> timeval \<Rightarrow> timeval \<times> unit called" where
  "Start_time now tv_start = map_prod id (wrap1 ''start_time error'') (start_time now tv_start)"

text \<open>\<open>Stop_time\<close> takes 0 for an error, whatever \<open>errno\<close> is.\<close>

definition Stop_time :: "errno \<Rightarrow> timeval result \<Rightarrow> timeval \<Rightarrow> int called" where
  "Stop_time errno now tv_start =
    (let clockus = stop_time now tv_start in
     if clockus = 0 then Err_sys ''stop_time error'' errno else Done clockus)"

text \<open>The loop of \<open>touch\<close>: the offsets that are written, one in each page.\<close>

partial_function (option) touch_loop :: "int \<Rightarrow> int \<Rightarrow> int \<Rightarrow> int list \<Rightarrow> int list option" where
  "touch_loop pagesize cptr nbytes touched =
    (if 0 < nbytes then touch_loop pagesize (cptr + pagesize) (nbytes - pagesize) (touched @ [cptr])
     else Some touched)"

text \<open>\<open>pagesize\<close> is the static variable, 0 at first; the result has its new value.\<close>

definition touch :: "int result \<Rightarrow> int \<Rightarrow> int \<Rightarrow> (int \<times> int list result) option" where
  "touch sysconf pagesize nbytes =
    (if pagesize = 0 then
       (case sysconf of
         Inl e \<Rightarrow> Some (- 1, Inl e)
       | Inr p \<Rightarrow>
           if p = - 1 then Some (- 1, Inl 0)
           else map_option (\<lambda>t. (p, Inr t)) (touch_loop p 0 nbytes []))
     else map_option (\<lambda>t. (pagesize, Inr t)) (touch_loop pagesize 0 nbytes []))"

definition Touch :: "int result \<Rightarrow> int \<Rightarrow> int \<Rightarrow> (int \<times> int list called) option" where
  "Touch sysconf pagesize nbytes =
    map_option (map_prod id (wrap1 ''touch error'')) (touch sysconf pagesize nbytes)"

section \<open>The error functions\<close>

abbreviation (input) ERR_MAXLINE :: nat where "ERR_MAXLINE \<equiv> 4096"

text \<open>
  What \<open>err_doit\<close> puts into \<open>buf\<close>: the formatted message cut to the buffer, the text of \<open>errno\<close> cut
  to the rest of it, and a newline appended without a test.
\<close>

definition err_line :: "bool \<Rightarrow> string \<Rightarrow> string \<Rightarrow> string" where
  "err_line errnoflag msg strerror =
    (let buf = take (ERR_MAXLINE - 1) msg;
         n = length buf;
         buf = (if errnoflag then buf @ take (ERR_MAXLINE - n - 1) ('': '' @ strerror) else buf)
     in buf @ [CHR 10])"

datatype err_dest = Syslog int | Stderr

text \<open>The line, where it goes, and whether the line and its null byte exceed the buffer.\<close>

definition err_doit :: "bool \<Rightarrow> int \<Rightarrow> bool \<Rightarrow> string \<Rightarrow> string \<Rightarrow> err_dest \<times> string \<times> bool" where
  "err_doit errnoflag level daemon_proc msg strerror =
    (let line = err_line errnoflag msg strerror in
     (if daemon_proc then Syslog level else Stderr, line, ERR_MAXLINE < length line + 1))"

datatype after_err = Continues | Exits int | Dumps_core

abbreviation (input) LOG_ERR :: int where "LOG_ERR \<equiv> 3"
abbreviation (input) LOG_INFO :: int where "LOG_INFO \<equiv> 6"

definition err_ret :: "bool \<Rightarrow> string \<Rightarrow> string \<Rightarrow> (err_dest \<times> string \<times> bool) \<times> after_err" where
  "err_ret d msg strerror = (err_doit True LOG_INFO d msg strerror, Continues)"

definition err_sys :: "bool \<Rightarrow> string \<Rightarrow> string \<Rightarrow> (err_dest \<times> string \<times> bool) \<times> after_err" where
  "err_sys d msg strerror = (err_doit True LOG_ERR d msg strerror, Exits 1)"

definition err_dump :: "bool \<Rightarrow> string \<Rightarrow> string \<Rightarrow> (err_dest \<times> string \<times> bool) \<times> after_err" where
  "err_dump d msg strerror = (err_doit True LOG_ERR d msg strerror, Dumps_core)"

definition err_msg :: "bool \<Rightarrow> string \<Rightarrow> (err_dest \<times> string \<times> bool) \<times> after_err" where
  "err_msg d msg = (err_doit False LOG_INFO d msg '''', Continues)"

definition err_quit :: "bool \<Rightarrow> string \<Rightarrow> (err_dest \<times> string \<times> bool) \<times> after_err" where
  "err_quit d msg = (err_doit False LOG_ERR d msg '''', Exits 1)"

section \<open>Signal handlers\<close>

abbreviation (input) SIGALRM :: int where "SIGALRM \<equiv> 14"

record sigaction =
  sa_handler :: nat
  sa_restart :: bool
  sa_siginfo :: bool

text \<open>
  The action that each function installs (\<open>SA_INTERRUPT\<close> does not exist on the systems where
  \<open>SA_RESTART\<close> does; \<open>sigaction\<close> answers with the old handler).
\<close>

definition signal :: "int \<Rightarrow> nat \<Rightarrow> nat result \<Rightarrow> sigaction \<times> nat result" where
  "signal signo func answer =
    (\<lparr>sa_handler = func, sa_restart = (signo \<noteq> SIGALRM), sa_siginfo = False\<rparr>, answer)"

definition signal_intr :: "int \<Rightarrow> nat \<Rightarrow> nat result \<Rightarrow> sigaction \<times> nat result" where
  "signal_intr signo func answer =
    (\<lparr>sa_handler = func, sa_restart = False, sa_siginfo = False\<rparr>, answer)"

definition signal_rt :: "int \<Rightarrow> nat \<Rightarrow> nat result \<Rightarrow> sigaction \<times> nat result" where
  "signal_rt signo func answer =
    (\<lparr>sa_handler = func, sa_restart = (signo \<noteq> SIGALRM), sa_siginfo = True\<rparr>, answer)"

definition signal_rt_intr :: "int \<Rightarrow> nat \<Rightarrow> nat result \<Rightarrow> sigaction \<times> nat result" where
  "signal_rt_intr signo func answer =
    (\<lparr>sa_handler = func, sa_restart = False, sa_siginfo = True\<rparr>, answer)"

section \<open>Record locks\<close>

datatype lock_type = F_RDLCK | F_WRLCK | F_UNLCK

record flock =
  l_type :: lock_type
  l_start :: int
  l_whence :: int
  l_len :: int
  l_pid :: int

text \<open>The structure handed to \<open>fcntl\<close>, and its answer.\<close>

definition lock_reg :: "(int \<Rightarrow> int \<Rightarrow> flock \<Rightarrow> 'a result) \<Rightarrow> int \<Rightarrow> int \<Rightarrow> lock_type \<Rightarrow> int \<Rightarrow> int \<Rightarrow> int \<Rightarrow> 'a result" where
  "lock_reg fcntl fd cmd type offset whence len =
    fcntl fd cmd \<lparr>l_type = type, l_start = offset, l_whence = whence, l_len = len, l_pid = 0\<rparr>"

text \<open>\<open>F_GETLK\<close> answers with the structure of a lock in the way, or with the type \<open>F_UNLCK\<close>.\<close>

definition lock_test :: "(int \<Rightarrow> flock \<Rightarrow> flock result) \<Rightarrow> int \<Rightarrow> lock_type \<Rightarrow> int \<Rightarrow> int \<Rightarrow> int \<Rightarrow> int result" where
  "lock_test getlk fd type offset whence len =
    (case getlk fd \<lparr>l_type = type, l_start = offset, l_whence = whence, l_len = len, l_pid = 0\<rparr> of
      Inl e \<Rightarrow> Inl e
    | Inr lock \<Rightarrow> if l_type lock = F_UNLCK then Inr 0 else Inr (l_pid lock))"

definition Lock_reg :: "(int \<Rightarrow> int \<Rightarrow> flock \<Rightarrow> 'a result) \<Rightarrow> int \<Rightarrow> int \<Rightarrow> lock_type \<Rightarrow> int \<Rightarrow> int \<Rightarrow> int \<Rightarrow> 'a called" where
  "Lock_reg fcntl fd cmd type offset whence len =
    wrap1 ''lock_reg error'' (lock_reg fcntl fd cmd type offset whence len)"

definition Lock_test :: "(int \<Rightarrow> flock \<Rightarrow> flock result) \<Rightarrow> int \<Rightarrow> lock_type \<Rightarrow> int \<Rightarrow> int \<Rightarrow> int \<Rightarrow> int called" where
  "Lock_test getlk fd type offset whence len =
    wrap1 ''lock_test error'' (lock_test getlk fd type offset whence len)"

section \<open>Descriptors\<close>

definition set_nonblock :: "int \<Rightarrow> world \<Rightarrow> (unit result \<times> world) option" where
  "set_nonblock fd w =
    do {
      (r, w) \<leftarrow> sys (Fcntl_getfl fd) w;
      case r of Inl e \<Rightarrow> Some (Inl e, w) | Inr flags \<Rightarrow> do {
      (r, w) \<leftarrow> sys (Fcntl_setfl fd (word_of_int flags OR O_NONBLOCK)) w;
      Some (map_sum id (\<lambda>_. ()) r, w)
      }
    }"

definition Set_nonblock :: "int \<Rightarrow> world \<Rightarrow> (unit called \<times> world) option" where
  "Set_nonblock fd w = map_option (map_prod (wrap1 ''set_nonblock error'') id) (set_nonblock fd w)"

text \<open>\<open>my_shm\<close> where \<open>MAP_ANON\<close> exists: an anonymous mapping, with descriptor -1.\<close>

definition my_shm :: "nat \<Rightarrow> world \<Rightarrow> (int result \<times> world) option" where
  "my_shm nbytes w = sys (Mmap nbytes (- 1)) w"

definition My_shm :: "nat \<Rightarrow> world \<Rightarrow> (int called \<times> world) option" where
  "My_shm nbytes w = map_option (map_prod (wrap1 ''my_shm error'') id) (my_shm nbytes w)"

text \<open>
  \<open>readable_timeo\<close> and \<open>writable_timeo\<close>: one \<open>select\<close> with the descriptor in one set and a timeout;
  \<open>select\<close> gets the read set, the write set and the time.
\<close>

definition readable_timeo :: "(int \<Rightarrow> int set \<Rightarrow> int set \<Rightarrow> timeval \<Rightarrow> int result) \<Rightarrow> int \<Rightarrow> int \<Rightarrow> int result" where
  "readable_timeo select fd sec = select (fd + 1) {fd} {} \<lparr>tv_sec = sec, tv_usec = 0\<rparr>"

definition writable_timeo :: "(int \<Rightarrow> int set \<Rightarrow> int set \<Rightarrow> timeval \<Rightarrow> int result) \<Rightarrow> int \<Rightarrow> int \<Rightarrow> int result" where
  "writable_timeo select fd sec = select (fd + 1) {} {fd} \<lparr>tv_sec = sec, tv_usec = 0\<rparr>"

definition Readable_timeo :: "(int \<Rightarrow> int set \<Rightarrow> int set \<Rightarrow> timeval \<Rightarrow> int result) \<Rightarrow> int \<Rightarrow> int \<Rightarrow> int called" where
  "Readable_timeo select fd sec = wrap1 ''readable_timeo error'' (readable_timeo select fd sec)"

definition Writable_timeo :: "(int \<Rightarrow> int set \<Rightarrow> int set \<Rightarrow> timeval \<Rightarrow> int result) \<Rightarrow> int \<Rightarrow> int \<Rightarrow> int called" where
  "Writable_timeo select fd sec = wrap1 ''writable_timeo error'' (writable_timeo select fd sec)"

text \<open>
  \<open>pselect\<close>: the mask is changed, \<open>select\<close> runs, the mask is restored, as three separate calls.
  \<open>curmask\<close> is the signal mask of the process; the masks at the three points are in the result.
\<close>

definition pselect ::
  "(timeval option \<Rightarrow> int result) \<Rightarrow> (int \<times> int) option \<Rightarrow> int set \<Rightarrow> int set \<Rightarrow> int result \<times> int set list" where
  "pselect select ts sigmask curmask =
    (let tv = map_option (\<lambda>(s, ns). \<lparr>tv_sec = s, tv_usec = ns div 1000\<rparr>) ts
     in (select tv, [sigmask, sigmask, curmask]))"

definition isfdtype :: "uint result \<Rightarrow> uint \<Rightarrow> int" where
  "isfdtype fstat fdtype =
    (case fstat of Inl _ \<Rightarrow> - 1 | Inr st_mode \<Rightarrow> if st_mode AND 61440 = fdtype then 1 else 0)"

text \<open>Without \<open>thr_setconcurrency\<close> the call does nothing.\<close>

definition set_concurrency :: "int \<Rightarrow> int" where
  "set_concurrency level = 0"

definition Set_concurrency :: "errno \<Rightarrow> int \<Rightarrow> unit called" where
  "Set_concurrency errno level =
    (if set_concurrency level \<noteq> 0 then Err_sys ''set_concurrency error'' errno else Done ())"

text \<open>The steps of \<open>daemon_init\<close> in the process that remains after two forks.\<close>

datatype daemon_step = Setsid | Ignore_sighup | Set_daemon_proc | Chdir string | Umask nat | Close_fd nat | Openlog string int

definition daemon_init :: "string \<Rightarrow> int \<Rightarrow> daemon_step list" where
  "daemon_init pname facility =
    [Setsid, Ignore_sighup, Set_daemon_proc, Chdir ''/'', Umask 0] @ map Close_fd [0..<64] @ [Openlog pname facility]"

definition daemon_inetd :: "string \<Rightarrow> int \<Rightarrow> daemon_step list" where
  "daemon_inetd pname facility = [Set_daemon_proc, Openlog pname facility]"

section \<open>Properties\<close>

text \<open>The directory with the slash that ends it.\<close>

definition ipc_dir :: "string option \<Rightarrow> string" where
  "ipc_dir env = (case env of None \<Rightarrow> ''/tmp/'' | Some d \<Rightarrow> if last d = CHR ''/'' then d else d @ ''/'')"

text \<open>
  \<open>px_ipc_name\<close> of a non-empty directory that fits: the directory, exactly one slash between it
  and the name, and the name; so different names give different paths.
\<close>

lemma px_ipc_name_path:
  assumes "env \<noteq> Some ''''" and "length (ipc_dir env @ name) < PATH_MAX"
    and "length (ipc_dir env @ name') < PATH_MAX"
  shows "px_ipc_name True env c name = Some (ipc_dir env @ name) \<and> last (ipc_dir env) = CHR ''/'' \<and>
    (px_ipc_name True env c name = px_ipc_name True env c name' \<longrightarrow> name = name')"
proof -
  have path: "px_ipc_name True env c n = Some (ipc_dir env @ n)"
    if "length (ipc_dir env @ n) < PATH_MAX" for n
    using that assms(1) by (auto simp: px_ipc_name_def ipc_dir_def split: option.splits)
  show ?thesis using path [OF assms(2)] path [OF assms(3)] by (auto simp: ipc_dir_def split: option.splits)
qed

text \<open>
  \<open>err_doit\<close> writes one byte past its buffer exactly when the message and the error text do not
  fit with room for the newline: both \<open>snprintf\<close> calls cut at the size of the buffer, but the
  \<open>strcat\<close> of the newline is not counted.
\<close>

lemma err_doit_overflows:
  "snd (snd (err_doit errnoflag level daemon_proc msg strerror)) \<longleftrightarrow>
    4095 \<le> length msg + (if errnoflag then length strerror + 2 else 0)"
  by (auto simp: err_doit_def err_line_def Let_def min_def)

lemma tv_sub_correct:
  assumes "tv_valid out" and "tv_valid inn"
  shows "tv_valid (tv_sub out inn) \<and> tv_us (tv_sub out inn) = tv_us out - tv_us inn"
  using assms by (auto simp: tv_valid_def tv_us_def tv_sub_def Let_def)

lemma sleep_us_loop_total:
  "sleep_us_loop n sel asked = Some (Inr (), ts) \<Longrightarrow>
    \<exists>k. ts = asked @ replicate (Suc k) \<lparr>tv_sec = int (n div 1000000), tv_usec = int (n mod 1000000)\<rparr> \<and>
      take k sel = replicate k (Inl EINTR)"
proof (induction sel arbitrary: asked)
  case (Cons r sel)
  show ?case
  proof (cases r)
    case (Inl e)
    with Cons.prems Cons.IH [of "asked @ [_]"] obtain k where
      "ts = asked @ replicate (Suc (Suc k)) \<lparr>tv_sec = int (n div 1000000), tv_usec = int (n mod 1000000)\<rparr>"
      "take k sel = replicate k (Inl EINTR)" "e = EINTR"
      by (fastforce simp: Let_def split: if_splits)
    with Inl show ?thesis by (intro exI [of _ "Suc k"]) simp
  next
    case (Inr u)
    with Cons.prems show ?thesis by (intro exI [of _ 0]) simp
  qed
qed simp

text \<open>
  The time functions: \<open>tv_sub\<close> of two normal times is normal and is their difference, and a
  \<open>sleep_us\<close> that returns 0 after \<open>k\<close> interruptions has asked for the whole time \<open>k + 1\<close> times.
\<close>

lemma lib_times:
  assumes "tv_valid out" and "tv_valid inn" and "nusecs \<noteq> 0" and "sleep_us nusecs sel = Some (Inr (), ts)"
  shows "tv_valid (tv_sub out inn) \<and> tv_us (tv_sub out inn) = tv_us out - tv_us inn \<and>
    (\<exists>k. take k sel = replicate k (Inl EINTR) \<and>
      sum_list (map tv_us ts) = int (Suc k) * uint nusecs)"
proof -
  obtain k where "ts = [] @ replicate (Suc k) \<lparr>tv_sec = int (unat nusecs div 1000000), tv_usec = int (unat nusecs mod 1000000)\<rparr>"
    and "take k sel = replicate k (Inl EINTR)"
    using sleep_us_loop_total [of "unat nusecs" sel "[]" ts] assms(3,4) by (auto simp: sleep_us_def)
  moreover have "tv_us \<lparr>tv_sec = int (unat nusecs div 1000000), tv_usec = int (unat nusecs mod 1000000)\<rparr> = uint nusecs"
    by (simp add: tv_us_def zdiv_int zmod_int)
  ultimately show ?thesis using tv_sub_correct [OF assms(1,2)]
    by (auto simp: sum_list_replicate algebra_simps intro!: exI [of _ k])
qed

end
