(* ===== verification/Lib_Wrap.thy ===== *)
theory Lib_Wrap
  imports Ipc_Prelude
begin

text \<open>
  The wrapper functions of \<open>src/lib/wrapunix.c\<close>, \<open>src/lib/wrappthread.c\<close> and
  \<open>src/lib/wrapstdio.c\<close>. A wrapper calls one function, tests what it returned, and either returns
  it or ends the process with a message; the tables list the wrappers in the order of the files
  with the function they call, the test and the message. The wrappers that do more are definitions
  of their own.
\<close>

section \<open>What a wrapper does\<close>

text \<open>
  The tests of a returned value: \<open>== -1\<close>; \<open>== NULL\<close>; \<open>< 0\<close>; \<open>== EOF\<close> (which is -1); \<open>!= 0\<close>; and an
  error number that is stored into \<open>errno\<close>. A null pointer is the value 0, and \<open>MAP_FAILED\<close> and
  \<open>SEM_FAILED\<close> are tested like -1.
\<close>

datatype wrap_test = Is_minus1 | Is_null | Is_negative | Is_nonzero | Is_errno

record wrapper =
  wr_name :: string
  wr_calls :: string
  wr_test :: wrap_test
  wr_msg :: string

fun wrap_fails :: "wrap_test \<Rightarrow> int \<Rightarrow> bool" where
  "wrap_fails Is_minus1 v = (v = - 1)"
| "wrap_fails Is_null v = (v = 0)"
| "wrap_fails Is_negative v = (v < 0)"
| "wrap_fails Is_nonzero v = (v \<noteq> 0)"
| "wrap_fails Is_errno v = (v \<noteq> 0)"

text \<open>\<open>v\<close> is what the wrapped function returned and \<open>errno\<close> the variable after the call.\<close>

definition run_wrapper :: "wrapper \<Rightarrow> int \<Rightarrow> errno \<Rightarrow> int called" where
  "run_wrapper wr v errno =
    (if wrap_fails (wr_test wr) v
     then Err_sys (wr_msg wr) (if wr_test wr = Is_errno then v else errno)
     else Done v)"

definition plain :: "string \<Rightarrow> string \<Rightarrow> wrap_test \<Rightarrow> wrapper" where
  "plain name fn test = \<lparr>wr_name = name, wr_calls = fn, wr_test = test, wr_msg = fn @ '' error''\<rparr>"

section \<open>wrapunix.c\<close>

definition wrapunix_files :: "wrapper list" where
  "wrapunix_files =
    [plain ''Calloc'' ''calloc'' Is_null, plain ''Close'' ''close'' Is_minus1,
     plain ''Dup2'' ''dup2'' Is_minus1, plain ''Fattach'' ''fattach'' Is_minus1,
     plain ''Fcntl'' ''fcntl'' Is_minus1, plain ''Fork'' ''fork'' Is_minus1,
     plain ''Fstat'' ''fstat'' Is_minus1,
     \<lparr>wr_name = ''Ftok'', wr_calls = ''ftok'', wr_test = Is_minus1,
      wr_msg = ''ftok error for pathname and id''\<rparr>,
     plain ''Ftruncate'' ''ftruncate'' Is_minus1,
     plain ''Gettimeofday'' ''gettimeofday'' Is_minus1, plain ''Ioctl'' ''ioctl'' Is_minus1,
     plain ''Kill'' ''kill'' Is_minus1]"

definition wrapunix_memory :: "wrapper list" where
  "wrapunix_memory =
    [plain ''Lseek'' ''lseek'' Is_minus1, plain ''Malloc'' ''malloc'' Is_null,
     \<lparr>wr_name = ''Mkfifo'', wr_calls = ''mkfifo'', wr_test = Is_minus1, wr_msg = ''mkfifo error for pathname''\<rparr>,
     plain ''Mmap'' ''mmap'' Is_minus1, plain ''Munmap'' ''munmap'' Is_minus1]"

definition wrapunix_mq :: "wrapper list" where
  "wrapunix_mq =
    [\<lparr>wr_name = ''Mq_open'', wr_calls = ''mq_open'', wr_test = Is_minus1, wr_msg = ''mq_open error for pathname''\<rparr>,
     plain ''Mq_close'' ''mq_close'' Is_minus1, plain ''Mq_unlink'' ''mq_unlink'' Is_minus1,
     plain ''Mq_send'' ''mq_send'' Is_minus1, plain ''Mq_receive'' ''mq_receive'' Is_minus1,
     plain ''Mq_notify'' ''mq_notify'' Is_minus1, plain ''Mq_getattr'' ''mq_getattr'' Is_minus1,
     plain ''Mq_setattr'' ''mq_setattr'' Is_minus1]"

definition wrapunix_msg :: "wrapper list" where
  "wrapunix_msg =
    [plain ''Msgget'' ''msgget'' Is_minus1, plain ''Msgctl'' ''msgctl'' Is_minus1,
     plain ''Msgsnd'' ''msgsnd'' Is_minus1, plain ''Msgrcv'' ''msgrcv'' Is_minus1,
     \<lparr>wr_name = ''Open'', wr_calls = ''open'', wr_test = Is_minus1, wr_msg = ''open error for pathname''\<rparr>,
     plain ''Pipe'' ''pipe'' Is_negative, plain ''Read'' ''read'' Is_minus1]"

definition wrapunix_sem :: "wrapper list" where
  "wrapunix_sem =
    [\<lparr>wr_name = ''Sem_open'', wr_calls = ''sem_open'', wr_test = Is_minus1, wr_msg = ''sem_open error for pathname''\<rparr>,
     plain ''Sem_close'' ''sem_close'' Is_minus1, plain ''Sem_unlink'' ''sem_unlink'' Is_minus1,
     plain ''Sem_init'' ''sem_init'' Is_minus1, plain ''Sem_destroy'' ''sem_destroy'' Is_minus1,
     plain ''Sem_wait'' ''sem_wait'' Is_minus1, plain ''Sem_post'' ''sem_post'' Is_minus1,
     plain ''Sem_getvalue'' ''sem_getvalue'' Is_minus1]"

text \<open>The message of \<open>Semop\<close> names \<open>semctl\<close>.\<close>

definition wrapunix_ipc :: "wrapper list" where
  "wrapunix_ipc =
    [plain ''Semget'' ''semget'' Is_minus1,
     \<lparr>wr_name = ''Semop'', wr_calls = ''semop'', wr_test = Is_minus1, wr_msg = ''semctl error''\<rparr>,
     plain ''Semctl'' ''semctl'' Is_minus1,
     \<lparr>wr_name = ''Shm_open'', wr_calls = ''shm_open'', wr_test = Is_minus1, wr_msg = ''shm_open error for pathname''\<rparr>,
     plain ''Shm_unlink'' ''shm_unlink'' Is_minus1, plain ''Shmget'' ''shmget'' Is_minus1,
     plain ''Shmat'' ''shmat'' Is_minus1, plain ''Shmdt'' ''shmdt'' Is_minus1,
     plain ''Shmctl'' ''shmctl'' Is_minus1]"

definition wrapunix_signals :: "wrapper list" where
  "wrapunix_signals =
    [plain ''Sigaddset'' ''sigaddset'' Is_minus1, plain ''Sigdelset'' ''sigdelset'' Is_minus1,
     plain ''Sigemptyset'' ''sigemptyset'' Is_minus1, plain ''Sigfillset'' ''sigfillset'' Is_minus1,
     plain ''Sigismember'' ''sigismember'' Is_minus1, plain ''Sigpending'' ''sigpending'' Is_minus1,
     plain ''Sigprocmask'' ''sigprocmask'' Is_minus1, plain ''Sigqueue'' ''sigqueue'' Is_minus1,
     plain ''Sigwait'' ''sigwait'' Is_errno, plain ''Stat'' ''stat'' Is_minus1,
     plain ''Strdup'' ''strdup'' Is_null]"

definition wrapunix_rest :: "wrapper list" where
  "wrapunix_rest =
    [plain ''Sysctl'' ''sysctl'' Is_minus1,
     \<lparr>wr_name = ''Unlink'', wr_calls = ''unlink'', wr_test = Is_minus1, wr_msg = ''unlink error for pathname''\<rparr>,
     plain ''Valloc'' ''valloc'' Is_null, plain ''Wait'' ''wait'' Is_minus1,
     plain ''Waitpid'' ''waitpid'' Is_minus1]"

text \<open>
  The wrappers that do more. \<open>Fpathconf\<close>, \<open>Pathconf\<close> and \<open>Sysconf\<close> set \<open>errno\<close> to 0 first and tell a
  missing limit from an error; both end the process. \<open>fn\<close> is the function and \<open>name\<close> the number of
  the limit as text.
\<close>

definition wrap_conf :: "string \<Rightarrow> string \<Rightarrow> int \<Rightarrow> errno \<Rightarrow> int called" where
  "wrap_conf fn name val errno =
    (if val = - 1 then
       if errno \<noteq> 0 then Err_sys (fn @ '' error'') errno
       else Err_sys (fn @ '': '' @ name @ '' not defined'') errno
     else Done val)"

definition Fpathconf :: "string \<Rightarrow> int \<Rightarrow> errno \<Rightarrow> int called" where
  "Fpathconf name val errno = wrap_conf ''fpathconf'' name val errno"

definition Pathconf :: "string \<Rightarrow> int \<Rightarrow> errno \<Rightarrow> int called" where
  "Pathconf name val errno = wrap_conf ''pathconf'' name val errno"

definition Sysconf_w :: "string \<Rightarrow> int \<Rightarrow> errno \<Rightarrow> int called" where
  "Sysconf_w name val errno = wrap_conf ''sysconf'' name val errno"

definition Getopt :: "char \<Rightarrow> char called" where
  "Getopt opt = (if opt = CHR ''?'' then Exit 1 else Done opt)"

text \<open>\<open>mktemp\<close> gives a null pointer or the template, which it makes empty when it fails.\<close>

definition Mktemp :: "bool \<Rightarrow> string \<Rightarrow> string called" where
  "Mktemp null template = (if null \<or> template = [] then Err_quit ''mktemp error'' else Done template)"

text \<open>
  \<open>Select\<close> calls \<open>select\<close> again after an interruption: \<open>sel\<close> has the outcomes of the calls one after
  the other; \<open>None\<close> is a call still running.
\<close>

fun Select :: "bool \<Rightarrow> int result list \<Rightarrow> int called option" where
  "Select has_timeout [] = None"
| "Select has_timeout (r # sel) =
    (case r of
      Inl e \<Rightarrow> if e = EINTR then Select has_timeout sel else Some (Err_sys ''select error'' e)
    | Inr n \<Rightarrow>
        if n = 0 \<and> \<not> has_timeout then Some (Err_quit ''select returned 0 with no timeout'')
        else Some (Done n))"

definition Sem_trywait :: "int \<Rightarrow> errno \<Rightarrow> int called" where
  "Sem_trywait rc errno =
    (if rc = - 1 \<and> errno \<noteq> EAGAIN then Err_sys ''sem_trywait error'' errno else Done rc)"

text \<open>\<open>Write\<close> ends the process for a short count too, with whatever \<open>errno\<close> is.\<close>

definition Write_w :: "nat \<Rightarrow> int \<Rightarrow> errno \<Rightarrow> unit called" where
  "Write_w nbytes n errno = (if n \<noteq> int nbytes then Err_sys ''write error'' errno else Done ())"

section \<open>wrappthread.c\<close>

definition wrappthread_threads :: "wrapper list" where
  "wrappthread_threads =
    [plain ''Pthread_attr_init'' ''pthread_attr_init'' Is_errno,
     plain ''Pthread_attr_destroy'' ''pthread_attr_destroy'' Is_errno,
     plain ''Pthread_attr_setdetachstate'' ''pthread_attr_setdetachstate'' Is_errno,
     plain ''Pthread_attr_setscope'' ''pthread_attr_setscope'' Is_errno,
     plain ''Pthread_create'' ''pthread_create'' Is_errno, plain ''Pthread_join'' ''pthread_join'' Is_errno,
     plain ''Pthread_detach'' ''pthread_detach'' Is_errno, plain ''Pthread_kill'' ''pthread_kill'' Is_errno,
     plain ''Pthread_mutexattr_init'' ''pthread_mutexattr_init'' Is_errno,
     plain ''Pthread_mutexattr_destroy'' ''pthread_mutexattr_destroy'' Is_errno]"

definition wrappthread_mutex :: "wrapper list" where
  "wrappthread_mutex =
    [plain ''Pthread_mutexattr_setpshared'' ''pthread_mutexattr_setpshared'' Is_errno,
     plain ''Pthread_mutex_init'' ''pthread_mutex_init'' Is_errno,
     plain ''Pthread_mutex_destroy'' ''pthread_mutex_destroy'' Is_errno,
     plain ''Pthread_mutex_lock'' ''pthread_mutex_lock'' Is_errno,
     plain ''Pthread_mutex_unlock'' ''pthread_mutex_unlock'' Is_errno,
     plain ''Pthread_condattr_init'' ''pthread_condattr_init'' Is_errno,
     plain ''Pthread_condattr_destroy'' ''pthread_condattr_destroy'' Is_errno,
     plain ''Pthread_condattr_setpshared'' ''pthread_condattr_setpshared'' Is_errno]"

definition wrappthread_cond :: "wrapper list" where
  "wrappthread_cond =
    [plain ''Pthread_cond_broadcast'' ''pthread_cond_broadcast'' Is_errno,
     plain ''Pthread_cond_signal'' ''pthread_cond_signal'' Is_errno,
     plain ''Pthread_cond_wait'' ''pthread_cond_wait'' Is_errno,
     plain ''Pthread_cond_timedwait'' ''pthread_cond_timedwait'' Is_errno,
     plain ''Pthread_once'' ''pthread_once'' Is_errno,
     plain ''Pthread_key_create'' ''pthread_key_create'' Is_errno,
     plain ''Pthread_setcancelstate'' ''pthread_setcancelstate'' Is_errno,
     plain ''Pthread_setspecific'' ''pthread_setspecific'' Is_errno]"

section \<open>wrapstdio.c\<close>

definition wrapstdio :: "wrapper list" where
  "wrapstdio =
    [plain ''Fclose'' ''fclose'' Is_nonzero, plain ''Fdopen'' ''fdopen'' Is_null,
     plain ''Fopen'' ''fopen'' Is_null, plain ''Fputs'' ''fputs'' Is_minus1,
     plain ''Popen'' ''popen'' Is_null, plain ''Pclose'' ''pclose'' Is_minus1]"

text \<open>\<open>Fgets\<close> returns a null pointer at end of file.\<close>

definition Fgets :: "int \<Rightarrow> bool \<Rightarrow> errno \<Rightarrow> int called" where
  "Fgets rptr ferror errno = (if rptr = 0 \<and> ferror then Err_sys ''fgets error'' errno else Done rptr)"

section \<open>Properties\<close>

definition lib_wrappers :: "wrapper list" where
  "lib_wrappers = wrapunix_files @ wrapunix_memory @ wrapunix_mq @ wrapunix_msg @ wrapunix_sem @
    wrapunix_ipc @ wrapunix_signals @ wrapunix_rest @ wrappthread_threads @ wrappthread_mutex @
    wrappthread_cond @ wrapstdio"

lemmas wrapper_tables = wrapunix_files_def wrapunix_memory_def wrapunix_mq_def wrapunix_msg_def
  wrapunix_sem_def wrapunix_ipc_def wrapunix_signals_def wrapunix_rest_def wrappthread_threads_def
  wrappthread_mutex_def wrappthread_cond_def wrapstdio_def

text \<open>Whether the message of a wrapper starts with the name of the function it calls.\<close>

definition names_its_call :: "wrapper \<Rightarrow> bool" where
  "names_its_call wr = (take (length (wr_calls wr)) (wr_msg wr) = wr_calls wr)"

lemma plain_names: "names_its_call (plain name fn test)"
  by (simp add: names_its_call_def plain_def)

text \<open>
  Of all the wrapper functions of the library, \<open>Semop\<close> is the one whose message does not name the
  call that failed: it says \<open>semctl error\<close>.
\<close>

lemma wrapper_messages:
  "map wr_name (filter (\<lambda>wr. \<not> names_its_call wr) lib_wrappers) = [''Semop'']"
  unfolding lib_wrappers_def wrapper_tables filter_append map_append
  by (simp add: plain_names) (simp add: names_its_call_def)

end
