(* ===== verification/Mutex_Prodcons.thy ===== *)
theory Mutex_Prodcons
  imports Ipc_Prelude
begin

text \<open>
  The producers and the consumer of \<open>src/mutex/prodcons2.c\<close> to \<open>prodcons7.c\<close>: several threads fill
  an array under a mutex, one thread compares it. In \<open>prodcons5.c\<close>, \<open>prodcons6.c\<close> and \<open>prodcons7.c\<close>
  the consumer waits on a condition variable. Each section under a mutex is one step of its thread;
  the statements outside the sections are steps of their own. What the consumer needs from the
  producers is a locale, which the three versions of \<open>produce\<close> interpret.
\<close>

section \<open>The shared data\<close>

abbreviation (input) MAXNITEMS :: int where "MAXNITEMS \<equiv> 1000000"
abbreviation (input) MAXNTHREADS :: int where "MAXNTHREADS \<equiv> 100"

text \<open>The array and the variables \<open>put\<close> and \<open>nready\<close>; \<open>nsignals\<close> is in \<open>prodcons7.c\<close> only.\<close>

record items =
  it_buff :: "int list"
  it_nput :: int
  it_nval :: int
  it_nready :: int
  it_nsignals :: int

datatype put_pc = Put | Ready | Count | Prod_done
datatype get_pc = Test | Lock | Parked | Check | Cons_done

text \<open>
  The program: the shared data, where each producer is, the counters it adds to, and the consumer
  with its \<open>i\<close> and the mismatches it has printed.
\<close>

record threads =
  th_items :: items
  th_prods :: "put_pc list"
  th_counts :: "int list"
  th_cons :: get_pc
  th_i :: int
  th_printed :: "(int \<times> int) list"

section \<open>The producers\<close>

text \<open>The section that stores an item, the same in all versions; \<open>None\<close> when the array is full.\<close>

definition put_item :: "int \<Rightarrow> items \<Rightarrow> items option" where
  "put_item nitems d =
    (if nitems \<le> it_nput d then None
     else Some (d\<lparr>it_buff := (it_buff d)[nat (it_nput d) := it_nval d],
       it_nput := it_nput d + 1, it_nval := it_nval d + 1\<rparr>))"

text \<open>\<open>Pthread_cond_signal\<close>: a parked consumer goes to lock the mutex again.\<close>

definition signal_cons :: "get_pc \<Rightarrow> get_pc" where
  "signal_cons c = (if c = Parked then Lock else c)"

definition at_prod :: "nat \<Rightarrow> put_pc \<Rightarrow> threads \<Rightarrow> threads" where
  "at_prod j p s = s\<lparr>th_prods := (th_prods s)[j := p]\<rparr>"

text \<open>\<open>*((int *) arg) += 1\<close> of thread \<open>j\<close>.\<close>

definition count_one :: "nat \<Rightarrow> threads \<Rightarrow> threads" where
  "count_one j s = at_prod j Put (s\<lparr>th_counts := (th_counts s)[j := th_counts s ! j + 1]\<rparr>)"

text \<open>
  \<open>produce\<close> of \<open>prodcons2.c\<close>, \<open>prodcons3.c\<close> and \<open>prodcons4.c\<close>, and of \<open>prodcons5.c\<close>: the section
  stores an item; in \<open>prodcons5.c\<close> it also counts it as ready and signals.
\<close>

definition produce2 :: "int \<Rightarrow> nat \<Rightarrow> threads \<Rightarrow> threads option" where
  "produce2 nitems j s =
    (case th_prods s ! j of
      Put \<Rightarrow>
        (case put_item nitems (th_items s) of
          None \<Rightarrow> Some (at_prod j Prod_done s)
        | Some d \<Rightarrow> Some (at_prod j Count (s\<lparr>th_items := d\<rparr>)))
    | Count \<Rightarrow> Some (count_one j s)
    | _ \<Rightarrow> None)"

definition produce5 :: "int \<Rightarrow> nat \<Rightarrow> threads \<Rightarrow> threads option" where
  "produce5 nitems j s =
    (case th_prods s ! j of
      Put \<Rightarrow>
        (case put_item nitems (th_items s) of
          None \<Rightarrow> Some (at_prod j Prod_done s)
        | Some d \<Rightarrow> Some (at_prod j Count
            (s\<lparr>th_items := d\<lparr>it_nready := it_nready d + 1\<rparr>, th_cons := signal_cons (th_cons s)\<rparr>)))
    | Count \<Rightarrow> Some (count_one j s)
    | _ \<Rightarrow> None)"

text \<open>
  \<open>produce\<close> of \<open>prodcons6.c\<close>: a second section, under another mutex, counts the item as ready and
  signals only when none was; and of \<open>prodcons7.c\<close>, which counts the signals too.
\<close>

definition produce6 :: "int \<Rightarrow> nat \<Rightarrow> threads \<Rightarrow> threads option" where
  "produce6 nitems j s =
    (let d = th_items s in
     case th_prods s ! j of
      Put \<Rightarrow>
        (case put_item nitems d of
          None \<Rightarrow> Some (at_prod j Prod_done s)
        | Some d' \<Rightarrow> Some (at_prod j Ready (s\<lparr>th_items := d'\<rparr>)))
    | Ready \<Rightarrow>
        Some (at_prod j Count
          (s\<lparr>th_items := d\<lparr>it_nready := it_nready d + 1\<rparr>,
             th_cons := (if it_nready d = 0 then signal_cons (th_cons s) else th_cons s)\<rparr>))
    | Count \<Rightarrow> Some (count_one j s)
    | _ \<Rightarrow> None)"

definition produce7 :: "int \<Rightarrow> nat \<Rightarrow> threads \<Rightarrow> threads option" where
  "produce7 nitems j s =
    (let d = th_items s in
     case th_prods s ! j of
      Put \<Rightarrow>
        (case put_item nitems d of
          None \<Rightarrow> Some (at_prod j Prod_done s)
        | Some d' \<Rightarrow> Some (at_prod j Ready (s\<lparr>th_items := d'\<rparr>)))
    | Ready \<Rightarrow>
        if it_nready d = 0
        then Some (at_prod j Count
          (s\<lparr>th_items := d\<lparr>it_nsignals := it_nsignals d + 1, it_nready := it_nready d + 1\<rparr>,
             th_cons := signal_cons (th_cons s)\<rparr>))
        else Some (at_prod j Count (s\<lparr>th_items := d\<lparr>it_nready := it_nready d + 1\<rparr>\<rparr>))
    | Count \<Rightarrow> Some (count_one j s)
    | _ \<Rightarrow> None)"

section \<open>The consumer\<close>

text \<open>\<open>if (buff[i] != i) printf(...)\<close> and the step of the loop.\<close>

definition check_item :: "threads \<Rightarrow> threads" where
  "check_item s =
    (let i = th_i s; v = it_buff (th_items s) ! nat i in
     s\<lparr>th_printed := (if v \<noteq> i then th_printed s @ [(i, v)] else th_printed s),
       th_i := i + 1, th_cons := Test\<rparr>)"

text \<open>
  \<open>consume\<close> of \<open>prodcons5.c\<close>, \<open>prodcons6.c\<close> and \<open>prodcons7.c\<close>. A parked thread does not run until it
  is signalled; \<open>spurious\<close> allows \<open>Pthread_cond_wait\<close> to return without a signal.
\<close>

definition consume5 :: "bool \<Rightarrow> int \<Rightarrow> threads \<Rightarrow> threads option" where
  "consume5 spurious nitems s =
    (let d = th_items s in
     case th_cons s of
      Test \<Rightarrow> Some (s\<lparr>th_cons := (if th_i s < nitems then Lock else Cons_done)\<rparr>)
    | Lock \<Rightarrow>
        if it_nready d = 0 then Some (s\<lparr>th_cons := Parked\<rparr>)
        else Some (s\<lparr>th_items := d\<lparr>it_nready := it_nready d - 1\<rparr>, th_cons := Check\<rparr>)
    | Parked \<Rightarrow> if spurious then Some (s\<lparr>th_cons := Lock\<rparr>) else None
    | Check \<Rightarrow> Some (check_item s)
    | Cons_done \<Rightarrow> None)"

text \<open>
  \<open>consume\<close> of \<open>prodcons3.c\<close> and \<open>prodcons4.c\<close> with \<open>consume_wait\<close>, which polls; and of \<open>prodcons2.c\<close>,
  a thread that \<open>main\<close> creates when it has joined all producers.
\<close>

definition consume3 :: "int \<Rightarrow> threads \<Rightarrow> threads option" where
  "consume3 nitems s =
    (case th_cons s of
      Test \<Rightarrow> Some (s\<lparr>th_cons := (if th_i s < nitems then Lock else Cons_done)\<rparr>)
    | Lock \<Rightarrow> if th_i s < it_nput (th_items s) then Some (s\<lparr>th_cons := Check\<rparr>) else Some s
    | Check \<Rightarrow> Some (check_item s)
    | _ \<Rightarrow> None)"

definition consume2 :: "int \<Rightarrow> threads \<Rightarrow> threads option" where
  "consume2 nitems s =
    (if list_all (\<lambda>p. p = Prod_done) (th_prods s)
     then (case th_cons s of
        Test \<Rightarrow> Some (s\<lparr>th_cons := (if th_i s < nitems then Check else Cons_done)\<rparr>)
      | Check \<Rightarrow> Some (check_item s)
      | _ \<Rightarrow> None)
     else None)"

section \<open>The programs\<close>

text \<open>\<open>nitems\<close> and the threads that \<open>main\<close> makes of its arguments.\<close>

definition main_nitems :: "int \<Rightarrow> int" where
  "main_nitems items = min items MAXNITEMS"

definition main_start :: "int \<Rightarrow> threads" where
  "main_start nthreads =
    (let n = nat (min nthreads MAXNTHREADS) in
     \<lparr>th_items = \<lparr>it_buff = replicate (nat MAXNITEMS) 0, it_nput = 0, it_nval = 0, it_nready = 0,
        it_nsignals = 0\<rparr>,
      th_prods = replicate n Put, th_counts = replicate n 0, th_cons = Test, th_i = 0, th_printed = []\<rparr>)"

definition run_threads ::
  "(int \<Rightarrow> nat \<Rightarrow> threads \<Rightarrow> threads option) \<Rightarrow> (int \<Rightarrow> threads \<Rightarrow> threads option) \<Rightarrow>
    int \<Rightarrow> threads \<Rightarrow> threads \<Rightarrow> bool" where
  "run_threads produce consume nitems s t \<longleftrightarrow>
    (\<exists>j < length (th_prods s). produce nitems j s = Some t) \<or> consume nitems s = Some t"

definition all_joined :: "threads \<Rightarrow> bool" where
  "all_joined s \<longleftrightarrow> list_all (\<lambda>p. p = Prod_done) (th_prods s) \<and> th_cons s = Cons_done"

section \<open>The invariant\<close>

text \<open>The items stored so far are their own indices.\<close>

definition items_ok :: "int \<Rightarrow> items \<Rightarrow> bool" where
  "items_ok nitems d \<longleftrightarrow>
    length (it_buff d) = nat MAXNITEMS \<and> nitems \<le> MAXNITEMS \<and>
    0 \<le> it_nput d \<and> it_nput d \<le> max 0 nitems \<and> it_nval d = it_nput d \<and>
    (\<forall>k. 0 \<le> k \<longrightarrow> k < it_nput d \<longrightarrow> it_buff d ! nat k = k)"

lemma put_item_ok:
  assumes "items_ok nitems d" and "put_item nitems d = Some d'"
  shows "items_ok nitems d' \<and> it_nput d' = it_nput d + 1 \<and> it_nready d' = it_nready d \<and> it_nput d < nitems"
proof -
  from assms have lt: "it_nput d < nitems" and d': "d' = d\<lparr>it_buff := (it_buff d)[nat (it_nput d) := it_nval d],
      it_nput := it_nput d + 1, it_nval := it_nval d + 1\<rparr>"
    by (auto simp: put_item_def split: if_splits)
  have "(it_buff d)[nat (it_nput d) := it_nput d] ! nat k = k" if "0 \<le> k" and "k < it_nput d + 1" for k
    using that assms(1) lt by (cases "k = it_nput d") (auto simp: items_ok_def nth_list_update nat_less_iff)
  with assms(1) lt d' show ?thesis by (auto simp: items_ok_def)
qed

text \<open>
  An item that is stored is not yet counted as ready, counted as ready, or taken by the consumer;
  the counters of the threads lag behind by the threads between storing and counting.
\<close>

definition counts_ok :: "threads \<Rightarrow> bool" where
  "counts_ok s \<longleftrightarrow> length (th_counts s) = length (th_prods s) \<and>
    sum_list (th_counts s) = it_nput (th_items s) - cnt Ready (th_prods s) - cnt Count (th_prods s)"

definition cons_ok :: "int \<Rightarrow> threads \<Rightarrow> bool" where
  "cons_ok nitems s \<longleftrightarrow> 0 \<le> th_i s \<and> th_i s \<le> max 0 nitems \<and> th_printed s = [] \<and>
    (th_cons s \<in> {Lock, Parked, Check} \<longrightarrow> th_i s < nitems) \<and>
    (th_cons s = Cons_done \<longrightarrow> nitems \<le> th_i s)"

definition ready_ok :: "threads \<Rightarrow> bool" where
  "ready_ok s \<longleftrightarrow> 0 \<le> it_nready (th_items s) \<and>
    it_nready (th_items s) = it_nput (th_items s) - cnt Ready (th_prods s) - th_i s -
      (if th_cons s = Check then 1 else 0) \<and>
    (th_cons s = Parked \<longrightarrow> it_nready (th_items s) = 0)"

definition threads_inv :: "int \<Rightarrow> threads \<Rightarrow> bool" where
  [inv_defs]: "threads_inv nitems s \<longleftrightarrow>
    items_ok nitems (th_items s) \<and> counts_ok s \<and> cons_ok nitems s \<and> ready_ok s \<and>
    (Prod_done \<in> set (th_prods s) \<longrightarrow> nitems \<le> it_nput (th_items s))"

text \<open>The steps that are left at most: a signal costs the consumer one step more.\<close>

fun put_rank :: "put_pc \<Rightarrow> int" where
  "put_rank Put = 1" | "put_rank Ready = 4" | "put_rank Count = 2" | "put_rank Prod_done = 0"

fun get_rank :: "get_pc \<Rightarrow> int" where
  "get_rank Test = 3" | "get_rank Lock = 2" | "get_rank Parked = 1" | "get_rank Check = 0"
| "get_rank Cons_done = 0"

definition steps_left :: "int \<Rightarrow> threads \<Rightarrow> int" where
  "steps_left nitems s =
    4 * (max 0 nitems - it_nput (th_items s)) + total_of put_rank (th_prods s) +
    4 * (max 0 nitems - th_i s) + get_rank (th_cons s)"

lemma put_rank_nonneg: "0 \<le> put_rank p"
  by (cases p) auto

lemma steps_left_nonneg: "threads_inv nitems s \<Longrightarrow> 0 \<le> steps_left nitems s"
  using total_nonneg [of put_rank "th_prods s"] put_rank_nonneg
  by (cases "th_cons s") (auto simp: threads_inv_def items_ok_def cons_ok_def steps_left_def)

lemmas threads_simps = at_prod_def count_one_def signal_cons_def cnt_update total_update sum_list_update_int

section \<open>What the consumer relies on\<close>

text \<open>
  A step of a producer keeps the invariant, brings the end nearer and stays within the points
  (\<open>pcs\<close>) of its version; a producer that has not returned can run.
\<close>

definition prod_step_ok :: "put_pc set \<Rightarrow> int \<Rightarrow> threads \<Rightarrow> threads \<Rightarrow> bool" where
  "prod_step_ok pcs nitems s t \<longleftrightarrow>
    threads_inv nitems t \<and> steps_left nitems t < steps_left nitems s \<and>
    length (th_prods t) = length (th_prods s) \<and> set (th_prods t) \<subseteq> pcs"

locale item_producers =
  fixes produce :: "int \<Rightarrow> nat \<Rightarrow> threads \<Rightarrow> threads option"
    and pcs :: "put_pc set"
  assumes starts: "Put \<in> pcs"
    and prod_keeps: "threads_inv nitems s \<Longrightarrow> set (th_prods s) \<subseteq> pcs \<Longrightarrow> j < length (th_prods s) \<Longrightarrow>
      produce nitems j s = Some t \<Longrightarrow> prod_step_ok pcs nitems s t"
    and prod_runs: "set (th_prods s) \<subseteq> pcs \<Longrightarrow> j < length (th_prods s) \<Longrightarrow> th_prods s ! j \<noteq> Prod_done \<Longrightarrow>
      produce nitems j s \<noteq> None"
begin

end

text \<open>The steps that the versions share: counting, finding the array full, storing, making ready.\<close>

lemma count_one_keeps:
  assumes "threads_inv nitems s" and "j < length (th_prods s)" and "th_prods s ! j = Count"
    and "set (th_prods s) \<subseteq> pcs" and "Put \<in> pcs"
  shows "prod_step_ok pcs nitems s (count_one j s)"
  using assms
  by (auto simp: prod_step_ok_def threads_simps threads_inv_def counts_ok_def cons_ok_def ready_ok_def steps_left_def
      dest!: in_set_updateD)

lemma put_full_keeps:
  assumes "threads_inv nitems s" and "j < length (th_prods s)" and "th_prods s ! j = Put"
    and "put_item nitems (th_items s) = None" and "set (th_prods s) \<subseteq> pcs" and "Prod_done \<in> pcs"
  shows "prod_step_ok pcs nitems s (at_prod j Prod_done s)"
  using assms
  by (auto simp: prod_step_ok_def threads_simps threads_inv_def counts_ok_def cons_ok_def ready_ok_def steps_left_def
      put_item_def split: if_splits dest!: in_set_updateD)

lemma put_one_keeps:
  assumes inv: "threads_inv nitems s" and j: "j < length (th_prods s)" and pc: "th_prods s ! j = Put"
    and put: "put_item nitems (th_items s) = Some d" and pcs: "set (th_prods s) \<subseteq> pcs" "Ready \<in> pcs"
  shows "prod_step_ok pcs nitems s (at_prod j Ready (s\<lparr>th_items := d\<rparr>))"
proof -
  note d = put_item_ok [OF _ put]
  show ?thesis using inv j pc d pcs
    by (auto simp: prod_step_ok_def threads_simps threads_inv_def counts_ok_def cons_ok_def ready_ok_def steps_left_def
      dest!: in_set_updateD)
qed

lemma ready_keeps:
  assumes inv: "threads_inv nitems s" and j: "j < length (th_prods s)" and pc: "th_prods s ! j = Ready"
    and pcs: "set ((th_prods s)[j := Count]) \<subseteq> pcs"
    and d: "it_buff d = it_buff (th_items s)" "it_nput d = it_nput (th_items s)" "it_nval d = it_nval (th_items s)"
      "it_nready d = it_nready (th_items s) + 1"
    and c: "c = (if it_nready (th_items s) = 0 \<or> sig then signal_cons (th_cons s) else th_cons s)"
  shows "prod_step_ok pcs nitems s (at_prod j Count (s\<lparr>th_items := d, th_cons := c\<rparr>))"
proof -
  let ?t = "at_prod j Count (s\<lparr>th_items := d, th_cons := c\<rparr>)"
  have "items_ok nitems (th_items ?t)" "counts_ok ?t"
    using inv d j pc by (auto simp: threads_inv_def items_ok_def counts_ok_def threads_simps)
  moreover have "cons_ok nitems ?t" using inv c by (auto simp: threads_inv_def cons_ok_def threads_simps)
  moreover have "ready_ok ?t" using inv c d j pc by (auto simp: threads_inv_def ready_ok_def threads_simps)
  moreover have "steps_left nitems ?t < steps_left nitems s"
    using j pc d c by (auto simp: steps_left_def threads_simps)
  ultimately show ?thesis
    using inv pcs d by (auto simp: prod_step_ok_def threads_inv_def at_prod_def dest!: in_set_updateD)
qed

interpretation prods6: item_producers produce6 UNIV
proof (unfold_locales, simp)
  fix nitems s j t
  assume inv: "threads_inv nitems s" and j: "j < length (th_prods s)" and run: "produce6 nitems j s = Some t"
  show "prod_step_ok UNIV nitems s t"
  proof (cases "th_prods s ! j")
    case Put
    with run inv j show ?thesis
      by (auto simp: produce6_def Let_def split: option.splits intro: put_full_keeps put_one_keeps)
  next
    case Ready
    with run show ?thesis
      by (auto simp: produce6_def Let_def intro!: ready_keeps [OF inv j, where sig = False])
  next
    case Count
    with run count_one_keeps [OF inv j] show ?thesis by (simp add: produce6_def)
  qed (use run in \<open>simp add: produce6_def\<close>)
next
  fix nitems j and s :: threads
  assume "th_prods s ! j \<noteq> Prod_done"
  then show "produce6 nitems j s \<noteq> None"
    by (cases "th_prods s ! j") (auto simp: produce6_def Let_def split: option.splits)
qed

interpretation prods7: item_producers produce7 UNIV
proof (unfold_locales, simp)
  fix nitems s j t
  assume inv: "threads_inv nitems s" and j: "j < length (th_prods s)" and run: "produce7 nitems j s = Some t"
  show "prod_step_ok UNIV nitems s t"
  proof (cases "th_prods s ! j")
    case Put
    with run inv j show ?thesis
      by (auto simp: produce7_def Let_def split: option.splits intro: put_full_keeps put_one_keeps)
  next
    case Ready
    let ?d = "(th_items s)\<lparr>it_nready := it_nready (th_items s) + 1\<rparr>"
    show ?thesis
    proof (cases "it_nready (th_items s) = 0")
      case True
      with run Ready show ?thesis
        by (auto simp: produce7_def Let_def intro!: ready_keeps [OF inv j, where sig = False])
    next
      case False
      with run Ready ready_keeps [OF inv j Ready, of UNIV ?d "th_cons s" False] show ?thesis
        by (simp add: produce7_def Let_def)
    qed
  next
    case Count
    with run count_one_keeps [OF inv j] show ?thesis by (simp add: produce7_def)
  qed (use run in \<open>simp add: produce7_def\<close>)
next
  fix nitems j and s :: threads
  assume "th_prods s ! j \<noteq> Prod_done"
  then show "produce7 nitems j s \<noteq> None"
    by (cases "th_prods s ! j") (auto simp: produce7_def Let_def split: option.splits)
qed

text \<open>\<open>prodcons5.c\<close> stores and makes ready in one section: the two steps one after the other.\<close>

lemma put_ready_keeps:
  assumes inv: "threads_inv nitems s" and j: "j < length (th_prods s)" and pc: "th_prods s ! j = Put"
    and put: "put_item nitems (th_items s) = Some d" and pcs: "set (th_prods s) \<subseteq> pcs" "Count \<in> pcs"
  shows "prod_step_ok pcs nitems s (at_prod j Count
    (s\<lparr>th_items := d\<lparr>it_nready := it_nready d + 1\<rparr>, th_cons := signal_cons (th_cons s)\<rparr>))"
proof -
  let ?s1 = "at_prod j Ready (s\<lparr>th_items := d\<rparr>)"
  let ?t = "at_prod j Count (?s1\<lparr>th_items := d\<lparr>it_nready := it_nready d + 1\<rparr>, th_cons := signal_cons (th_cons s)\<rparr>)"
  have one: "prod_step_ok UNIV nitems s ?s1" using put_one_keeps [OF inv j pc put] by simp
  then have "prod_step_ok pcs nitems ?s1 ?t"
    using j pcs by (intro ready_keeps [where sig = True])
      (auto simp: prod_step_ok_def at_prod_def dest!: in_set_updateD)
  moreover have "?t = at_prod j Count
    (s\<lparr>th_items := d\<lparr>it_nready := it_nready d + 1\<rparr>, th_cons := signal_cons (th_cons s)\<rparr>)"
    by (simp add: at_prod_def)
  ultimately show ?thesis using one by (auto simp: prod_step_ok_def)
qed

interpretation prods5: item_producers produce5 "- {Ready}"
proof (unfold_locales, simp)
  fix nitems s j t
  assume inv: "threads_inv nitems s" and j: "j < length (th_prods s)" and run: "produce5 nitems j s = Some t"
    and pcs: "set (th_prods s) \<subseteq> - {Ready}"
  show "prod_step_ok (- {Ready}) nitems s t"
  proof (cases "th_prods s ! j")
    case Put
    with run inv j pcs show ?thesis
      by (auto simp: produce5_def split: option.splits intro: put_full_keeps put_ready_keeps)
  next
    case Count
    with run pcs count_one_keeps [OF inv j Count pcs] show ?thesis by (simp add: produce5_def)
  qed (use run in \<open>simp_all add: produce5_def\<close>)
next
  fix nitems j and s :: threads
  assume "set (th_prods s) \<subseteq> - {Ready}" and "j < length (th_prods s)" and "th_prods s ! j \<noteq> Prod_done"
  moreover from this have "th_prods s ! j \<noteq> Ready" using nth_mem by fastforce
  ultimately show "produce5 nitems j s \<noteq> None"
    by (cases "th_prods s ! j") (auto simp: produce5_def split: option.splits)
qed

section \<open>The whole program\<close>

lemma check_item_keeps:
  assumes inv: "threads_inv nitems s" and c: "th_cons s = Check"
  shows "threads_inv nitems (check_item s) \<and> steps_left nitems (check_item s) < steps_left nitems s"
proof -
  have "0 \<le> th_i s" and "th_i s < it_nput (th_items s)"
    using inv c cnt_nonneg [of Ready "th_prods s"] by (auto simp: threads_inv_def ready_ok_def cons_ok_def)
  then have "it_buff (th_items s) ! nat (th_i s) = th_i s" using inv by (auto simp: threads_inv_def items_ok_def)
  with inv c show ?thesis
    by (auto simp: check_item_def Let_def threads_inv_def counts_ok_def cons_ok_def ready_ok_def steps_left_def)
qed

lemma cons_moves:
  assumes inv: "threads_inv nitems s" and t: "t = s\<lparr>th_items := (th_items s)\<lparr>it_nready := r\<rparr>, th_cons := c\<rparr>"
    and "cons_ok nitems t" and "ready_ok t"
  shows "threads_inv nitems t \<and> th_prods t = th_prods s \<and>
    steps_left nitems t = steps_left nitems s - get_rank (th_cons s) + get_rank c"
  using assms by (simp add: threads_inv_def items_ok_def counts_ok_def steps_left_def)

lemma consume5_keeps:
  assumes inv: "threads_inv nitems s" and run: "consume5 spurious nitems s = Some t"
  shows "threads_inv nitems t \<and> th_prods t = th_prods s \<and> (\<not> spurious \<longrightarrow> steps_left nitems t < steps_left nitems s)"
proof (cases "th_cons s = Check")
  case True
  with run check_item_keeps [OF inv True] show ?thesis by (auto simp: consume5_def check_item_def Let_def)
next
  case False
  define r where "r = (if th_cons s = Lock \<and> it_nready (th_items s) \<noteq> 0 then it_nready (th_items s) - 1
    else it_nready (th_items s))"
  from run False have t: "t = s\<lparr>th_items := (th_items s)\<lparr>it_nready := r\<rparr>, th_cons := th_cons t\<rparr>"
    by (auto simp: consume5_def Let_def r_def split: get_pc.splits if_splits)
  have c: "cons_ok nitems t" and "ready_ok t" and "\<not> spurious \<longrightarrow> get_rank (th_cons t) < get_rank (th_cons s)"
    using inv run False
    by (auto simp: consume5_def Let_def threads_inv_def cons_ok_def ready_ok_def split: get_pc.splits if_splits)
  with cons_moves [OF inv t] show ?thesis by simp
qed

lemma consume5_runs: "th_cons s \<noteq> Parked \<Longrightarrow> th_cons s \<noteq> Cons_done \<Longrightarrow> consume5 spurious nitems s \<noteq> None"
  by (cases "th_cons s") (auto simp: consume5_def Let_def)

lemma main_start_inv:
  "threads_inv (main_nitems n) (main_start k) \<and>
    steps_left (main_nitems n) (main_start k) = 8 * max 0 (main_nitems n) + max 0 (min k MAXNTHREADS) + 3"
  by (auto simp: threads_inv_def items_ok_def counts_ok_def cons_ok_def ready_ok_def steps_left_def main_start_def
      main_nitems_def Let_def cnt_replicate sum_list_replicate)

lemma all_done_iff: "list_all (\<lambda>p. p = Prod_done) ps \<longleftrightarrow> (\<forall>j < length ps. ps ! j = Prod_done)"
  by (simp add: list_all_length)

text \<open>When all producers have returned, nothing is on its way and the consumer is not parked.\<close>

lemma producers_done:
  assumes inv: "threads_inv nitems s" and fin: "list_all (\<lambda>p. p = Prod_done) (th_prods s)" and some: "th_prods s \<noteq> []"
  shows "th_cons s \<noteq> Parked \<and> sum_list (th_counts s) = max 0 nitems"
proof -
  have no: "cnt Ready (th_prods s) = 0" "cnt Count (th_prods s) = 0"
    using fin by (auto simp: cnt_zero_iff list_all_iff)
  have "Prod_done \<in> set (th_prods s)" using fin some by (cases "th_prods s") auto
  then have "it_nput (th_items s) = max 0 nitems" using inv by (auto simp: threads_inv_def items_ok_def)
  with no inv show ?thesis by (auto simp: threads_inv_def ready_ok_def cons_ok_def counts_ok_def)
qed

context item_producers
begin

abbreviation (input) prog :: "bool \<Rightarrow> int \<Rightarrow> threads \<Rightarrow> threads \<Rightarrow> bool" where
  "prog spurious nitems \<equiv> run_threads produce (consume5 spurious) nitems"

lemma step_keeps:
  assumes "threads_inv nitems s" and "set (th_prods s) \<subseteq> pcs" and "prog spurious nitems s t"
  shows "threads_inv nitems t \<and> set (th_prods t) \<subseteq> pcs \<and> length (th_prods t) = length (th_prods s) \<and>
    (\<not> spurious \<longrightarrow> steps_left nitems t < steps_left nitems s)"
  using assms prod_keeps [of nitems s _ t] consume5_keeps [of nitems s spurious t]
  by (auto simp: run_threads_def prod_step_ok_def)

lemma path_keeps:
  assumes "threads_inv nitems s" and "set (th_prods s) \<subseteq> pcs" and "path_steps (prog spurious nitems) s ts"
  shows "threads_inv nitems (last (s # ts)) \<and> set (th_prods (last (s # ts))) \<subseteq> pcs \<and>
    length (th_prods (last (s # ts))) = length (th_prods s) \<and>
    (\<not> spurious \<longrightarrow> int (length ts) + steps_left nitems (last (s # ts)) \<le> steps_left nitems s)"
  using assms
proof (induction ts arbitrary: s)
  case (Cons t ts)
  then have "prog spurious nitems s t" by simp
  from step_keeps [OF Cons.prems(1,2) this] Cons.IH [of t] Cons.prems(3) show ?case by auto
qed simp

lemma progress:
  assumes inv: "threads_inv nitems s" and pcs: "set (th_prods s) \<subseteq> pcs" and some: "th_prods s \<noteq> []"
  shows "all_joined s \<or> (\<exists>t. prog spurious nitems s t)"
proof (cases "list_all (\<lambda>p. p = Prod_done) (th_prods s)")
  case True
  with producers_done [OF inv True some] consume5_runs [of s spurious nitems] show ?thesis
    by (auto simp: all_joined_def run_threads_def)
next
  case False
  then obtain j where "j < length (th_prods s)" and "th_prods s ! j \<noteq> Prod_done" by (auto simp: all_done_iff)
  with prod_runs [OF pcs, of j nitems] show ?thesis by (auto simp: run_threads_def)
qed

lemma program_correct:
  assumes run: "path_steps (prog spurious (main_nitems n)) (main_start k) ts"
    and s: "s = last (main_start k # ts)" and k: "1 \<le> k"
  shows "th_printed s = [] \<and>
    (all_joined s \<or> (\<exists>t. prog spurious (main_nitems n) s t)) \<and>
    (all_joined s \<longrightarrow> sum_list (th_counts s) = max 0 (main_nitems n) \<and> th_i s = max 0 (main_nitems n)) \<and>
    (\<not> spurious \<longrightarrow> length ts \<le> 8 * nat (main_nitems n) + nat (min k MAXNTHREADS) + 3)"
proof -
  note start = main_start_inv [of n k]
  have pcs: "set (th_prods (main_start k)) \<subseteq> pcs" using starts by (auto simp: main_start_def Let_def)
  have inv: "threads_inv (main_nitems n) s" "set (th_prods s) \<subseteq> pcs" "length (th_prods s) = length (th_prods (main_start k))"
    and len: "\<not> spurious \<longrightarrow> int (length ts) + steps_left (main_nitems n) s \<le> steps_left (main_nitems n) (main_start k)"
    using path_keeps [OF conjunct1 [OF start] pcs run] s by auto
  have some: "th_prods s \<noteq> []" using inv(3) k by (auto simp: main_start_def Let_def)
  have "all_joined s \<longrightarrow> sum_list (th_counts s) = max 0 (main_nitems n) \<and> th_i s = max 0 (main_nitems n)"
    using producers_done [OF inv(1) _ some] inv(1) by (auto simp: all_joined_def threads_inv_def cons_ok_def)
  moreover have "\<not> spurious \<longrightarrow> length ts \<le> 8 * nat (main_nitems n) + nat (min k MAXNTHREADS) + 3"
    using len start steps_left_nonneg [OF inv(1)] by linarith
  ultimately show ?thesis using progress [OF inv(1,2) some] inv(1) by (auto simp: threads_inv_def cons_ok_def)
qed

end

section \<open>The polling versions\<close>

text \<open>What holds in \<open>prodcons2.c\<close> to \<open>prodcons4.c\<close>: an item that the consumer looks at is stored.\<close>

definition poll_inv :: "int \<Rightarrow> threads \<Rightarrow> bool" where
  [inv_defs]: "poll_inv nitems s \<longleftrightarrow>
    items_ok nitems (th_items s) \<and> counts_ok s \<and> cons_ok nitems s \<and>
    th_prods s \<noteq> [] \<and> Ready \<notin> set (th_prods s) \<and>
    (th_cons s = Check \<longrightarrow> th_i s < it_nput (th_items s)) \<and>
    (Prod_done \<in> set (th_prods s) \<longrightarrow> nitems \<le> it_nput (th_items s))"

lemma poll_inv_left: "poll_inv nitems s \<Longrightarrow> 0 \<le> steps_left nitems s"
  using total_nonneg [of put_rank "th_prods s"] put_rank_nonneg
  by (cases "th_cons s") (auto simp: poll_inv_def items_ok_def cons_ok_def steps_left_def)

lemma produce2_keeps:
  assumes inv: "poll_inv nitems s" and j: "j < length (th_prods s)" and run: "produce2 nitems j s = Some t"
  shows "poll_inv nitems t \<and> steps_left nitems t < steps_left nitems s \<and> length (th_prods t) = length (th_prods s)"
proof (cases "th_prods s ! j")
  case Put
  show ?thesis
  proof (cases "put_item nitems (th_items s)")
    case None
    then have full: "nitems \<le> it_nput (th_items s)" by (simp add: put_item_def split: if_splits)
    from run Put None have t: "t = at_prod j Prod_done s" by (simp add: produce2_def)
    have "counts_ok t" and "cons_ok nitems t" and "steps_left nitems t < steps_left nitems s"
      using t inv j Put by (simp_all add: threads_simps poll_inv_def counts_ok_def cons_ok_def steps_left_def)
    with t inv full show ?thesis by (auto simp: poll_inv_def at_prod_def dest!: in_set_updateD)
  next
    case (Some d)
    note d = put_item_ok [OF _ Some]
    from run Put Some have t: "t = at_prod j Count (s\<lparr>th_items := d\<rparr>)" by (simp add: produce2_def)
    have "items_ok nitems (th_items t)" and nput: "it_nput (th_items t) = it_nput (th_items s) + 1"
      using t inv d by (simp_all add: poll_inv_def at_prod_def)
    moreover have "counts_ok t" and "cons_ok nitems t"
      using t inv j Put nput by (simp_all add: threads_simps poll_inv_def counts_ok_def cons_ok_def)
    moreover have "steps_left nitems t < steps_left nitems s"
      using t j Put nput by (simp add: threads_simps steps_left_def)
    ultimately show ?thesis using t inv j by (auto simp: poll_inv_def at_prod_def dest!: in_set_updateD)
  qed
next
  case Count
  with run have t: "t = count_one j s" by (simp add: produce2_def)
  have "counts_ok t" and "cons_ok nitems t" using t inv j Count
    by (simp_all add: threads_simps poll_inv_def counts_ok_def cons_ok_def)
  moreover have "steps_left nitems t < steps_left nitems s" using t j Count by (simp add: threads_simps steps_left_def)
  ultimately show ?thesis
    using t inv by (auto simp: poll_inv_def count_one_def at_prod_def dest!: in_set_updateD)
qed (use run in \<open>simp_all add: produce2_def\<close>)

lemma produce2_runs:
  assumes "poll_inv nitems s" and "j < length (th_prods s)" and "th_prods s ! j \<noteq> Prod_done"
  shows "\<exists>t. produce2 nitems j s = Some t"
proof -
  have "th_prods s ! j \<noteq> Ready" using assms by (auto simp: poll_inv_def dest: nth_mem)
  with assms show ?thesis by (cases "th_prods s ! j") (auto simp: produce2_def split: option.splits)
qed

lemma check_item_polls:
  assumes inv: "poll_inv nitems s" and c: "th_cons s = Check"
  shows "poll_inv nitems (check_item s) \<and> steps_left nitems (check_item s) < steps_left nitems s \<and>
    th_prods (check_item s) = th_prods s \<and> th_cons (check_item s) = Test"
proof -
  have "it_buff (th_items s) ! nat (th_i s) = th_i s"
    using inv c by (simp add: poll_inv_def items_ok_def cons_ok_def)
  then have "check_item s = s\<lparr>th_i := th_i s + 1, th_cons := Test\<rparr>" by (simp add: check_item_def Let_def)
  with inv c show ?thesis by (simp add: poll_inv_def counts_ok_def cons_ok_def steps_left_def)
qed

text \<open>
  A consumer that polls, with the points it can be at: a step either changes nothing or brings the
  end nearer, and when the producers have returned there is a step of the second kind.
\<close>

locale item_consumer =
  fixes consume :: "int \<Rightarrow> threads \<Rightarrow> threads option"
    and points :: "get_pc set"
  assumes cons_starts: "Test \<in> points"
    and cons_keeps: "poll_inv nitems s \<Longrightarrow> th_cons s \<in> points \<Longrightarrow> consume nitems s = Some t \<Longrightarrow> t \<noteq> s \<Longrightarrow>
      poll_inv nitems t \<and> steps_left nitems t < steps_left nitems s \<and> th_prods t = th_prods s \<and> th_cons t \<in> points"
    and cons_runs: "poll_inv nitems s \<Longrightarrow> th_cons s \<in> points \<Longrightarrow> list_all (\<lambda>p. p = Prod_done) (th_prods s) \<Longrightarrow>
      th_cons s \<noteq> Cons_done \<Longrightarrow> \<exists>t. consume nitems s = Some t \<and> t \<noteq> s"
begin

abbreviation (input) moves :: "int \<Rightarrow> threads \<Rightarrow> threads \<Rightarrow> bool" where
  "moves nitems s t \<equiv> run_threads produce2 consume nitems s t \<and> t \<noteq> s"

lemma poll_step_keeps:
  assumes "poll_inv nitems s" and "th_cons s \<in> points" and "moves nitems s t"
  shows "poll_inv nitems t \<and> steps_left nitems t < steps_left nitems s \<and>
    length (th_prods t) = length (th_prods s) \<and> th_cons t \<in> points"
proof -
  have "th_cons t = th_cons s" if "produce2 nitems j s = Some t" for j
    using that by (auto simp: produce2_def at_prod_def count_one_def split: put_pc.splits option.splits)
  then show ?thesis
    using assms produce2_keeps [of nitems s _ t] cons_keeps [of nitems s t]
    by (auto simp: run_threads_def)
qed

lemma poll_path_keeps:
  assumes "poll_inv nitems s" and "th_cons s \<in> points" and "path_steps (moves nitems) s ts"
  shows "poll_inv nitems (last (s # ts)) \<and> th_cons (last (s # ts)) \<in> points \<and>
    length (th_prods (last (s # ts))) = length (th_prods s) \<and>
    int (length ts) + steps_left nitems (last (s # ts)) \<le> steps_left nitems s"
  using assms
proof (induction ts arbitrary: s)
  case (Cons t ts)
  then have "moves nitems s t" by simp
  from poll_step_keeps [OF Cons.prems(1,2) this] Cons.IH [of t] Cons.prems(3) show ?case by auto
qed simp

lemma poll_progress:
  assumes inv: "poll_inv nitems s" and pt: "th_cons s \<in> points"
  shows "all_joined s \<or> (\<exists>t. moves nitems s t)"
proof (cases "list_all (\<lambda>p. p = Prod_done) (th_prods s)")
  case True
  with cons_runs [OF inv pt True] show ?thesis by (auto simp: all_joined_def run_threads_def)
next
  case False
  then obtain j where j: "j < length (th_prods s)" and "th_prods s ! j \<noteq> Prod_done" by (auto simp: all_done_iff)
  with produce2_runs [OF inv, of j] obtain t where "produce2 nitems j s = Some t" by auto
  with produce2_keeps [OF inv j this] j show ?thesis by (auto simp: run_threads_def)
qed

lemma poll_program_correct:
  assumes run: "path_steps (moves (main_nitems n)) (main_start k) ts"
    and s: "s = last (main_start k # ts)" and k: "1 \<le> k"
  shows "th_printed s = [] \<and> (all_joined s \<or> (\<exists>t. moves (main_nitems n) s t)) \<and>
    (all_joined s \<longrightarrow> sum_list (th_counts s) = max 0 (main_nitems n) \<and> th_i s = max 0 (main_nitems n)) \<and>
    length ts \<le> 8 * nat (main_nitems n) + nat (min k MAXNTHREADS) + 3"
proof -
  note start = main_start_inv [of n k]
  have "poll_inv (main_nitems n) (main_start k)"
    using start k by (auto simp: poll_inv_def threads_inv_def main_start_def Let_def)
  from poll_path_keeps [OF this _ run] cons_starts s
  have inv: "poll_inv (main_nitems n) s" and pt: "th_cons s \<in> points"
    and len: "int (length ts) + steps_left (main_nitems n) s \<le> steps_left (main_nitems n) (main_start k)"
    by (auto simp: main_start_def Let_def)
  have some: "th_prods s \<noteq> []" using inv by (simp add: poll_inv_def)
  have "sum_list (th_counts s) = max 0 (main_nitems n) \<and> th_i s = max 0 (main_nitems n)" if "all_joined s"
  proof -
    have "Prod_done \<in> set (th_prods s)" "cnt Ready (th_prods s) = 0" "cnt Count (th_prods s) = 0"
      using that some by (cases "th_prods s"; auto simp: all_joined_def list_all_iff cnt_zero_iff)+
    with inv that show ?thesis
      by (auto simp: poll_inv_def items_ok_def counts_ok_def cons_ok_def all_joined_def)
  qed
  moreover have "length ts \<le> 8 * nat (main_nitems n) + nat (min k MAXNTHREADS) + 3"
    using len start poll_inv_left [OF inv] by linarith
  ultimately show ?thesis
    using poll_progress [OF inv pt] inv by (auto simp: poll_inv_def cons_ok_def)
qed

end

lemma check_differs: "check_item s \<noteq> s"
proof
  assume "check_item s = s"
  then have "th_i (check_item s) = th_i s" by simp
  then show False by (simp add: check_item_def Let_def)
qed

lemma cons_same [simp]: "s\<lparr>th_cons := c\<rparr> = s \<longleftrightarrow> c = th_cons s"
  by (metis threads.select_convs(4) threads.surjective threads.update_convs(4))

lemma poll_cons_moves:
  assumes "poll_inv nitems s" and "cons_ok nitems (s\<lparr>th_cons := c\<rparr>)" and "get_rank c < get_rank (th_cons s)"
    and "c = Check \<longrightarrow> th_i s < it_nput (th_items s)"
  shows "poll_inv nitems (s\<lparr>th_cons := c\<rparr>) \<and> steps_left nitems (s\<lparr>th_cons := c\<rparr>) < steps_left nitems s"
  using assms by (simp add: poll_inv_def counts_ok_def steps_left_def)

interpretation cons2: item_consumer consume2 "{Test, Check, Cons_done}"
proof (unfold_locales, simp)
  fix nitems t and s :: threads
  assume inv: "poll_inv nitems s" and run: "consume2 nitems s = Some t"
  then have fin: "list_all (\<lambda>p. p = Prod_done) (th_prods s)" by (auto simp: consume2_def split: if_splits)
  then have full: "nitems \<le> it_nput (th_items s)" using inv by (cases "th_prods s") (auto simp: poll_inv_def)
  show "poll_inv nitems t \<and> steps_left nitems t < steps_left nitems s \<and> th_prods t = th_prods s \<and>
    th_cons t \<in> {Test, Check, Cons_done}"
  proof (cases "th_cons s")
    case Test
    let ?c = "if th_i s < nitems then Check else Cons_done"
    from run fin Test have t: "t = s\<lparr>th_cons := ?c\<rparr>" by (simp add: consume2_def)
    have "cons_ok nitems (s\<lparr>th_cons := ?c\<rparr>)" using inv by (auto simp: poll_inv_def cons_ok_def)
    from poll_cons_moves [OF inv this] Test full t show ?thesis by simp
  next
    case Check
    with run fin check_item_polls [OF inv Check] show ?thesis by (simp add: consume2_def)
  qed (use run fin in \<open>simp_all add: consume2_def\<close>)
next
  fix nitems and s :: threads
  assume "list_all (\<lambda>p. p = Prod_done) (th_prods s)" "th_cons s \<noteq> Cons_done" "th_cons s \<in> {Test, Check, Cons_done}"
  then show "\<exists>t. consume2 nitems s = Some t \<and> t \<noteq> s"
    by (auto simp: consume2_def check_differs)
qed

interpretation cons3: item_consumer consume3 "- {Parked}"
proof (unfold_locales, simp)
  fix nitems t and s :: threads
  assume inv: "poll_inv nitems s" and run: "consume3 nitems s = Some t" and "t \<noteq> s"
  show "poll_inv nitems t \<and> steps_left nitems t < steps_left nitems s \<and> th_prods t = th_prods s \<and>
    th_cons t \<in> - {Parked}"
  proof (cases "th_cons s")
    case Test
    let ?c = "if th_i s < nitems then Lock else Cons_done"
    from run Test have t: "t = s\<lparr>th_cons := ?c\<rparr>" by (simp add: consume3_def)
    have "cons_ok nitems (s\<lparr>th_cons := ?c\<rparr>)" using inv by (auto simp: poll_inv_def cons_ok_def)
    from poll_cons_moves [OF inv this] Test t show ?thesis by simp
  next
    case Lock
    from run Lock \<open>t \<noteq> s\<close> have t: "t = s\<lparr>th_cons := Check\<rparr>" and lt: "th_i s < it_nput (th_items s)"
      by (auto simp: consume3_def split: if_splits)
    have "cons_ok nitems (s\<lparr>th_cons := Check\<rparr>)" using inv Lock by (auto simp: poll_inv_def cons_ok_def)
    from poll_cons_moves [OF inv this] Lock t lt show ?thesis by simp
  next
    case Check
    with run check_item_polls [OF inv Check] show ?thesis by (simp add: consume3_def)
  qed (use run in \<open>simp_all add: consume3_def\<close>)
next
  fix nitems and s :: threads
  assume inv: "poll_inv nitems s" and "list_all (\<lambda>p. p = Prod_done) (th_prods s)"
    and c: "th_cons s \<noteq> Cons_done" "th_cons s \<in> - {Parked}"
  then have full: "nitems \<le> it_nput (th_items s)" by (cases "th_prods s") (auto simp: poll_inv_def)
  then show "\<exists>t. consume3 nitems s = Some t \<and> t \<noteq> s"
    using inv c by (cases "th_cons s")
      (auto simp: consume3_def check_differs poll_inv_def cons_ok_def)
qed

section \<open>Properties\<close>

text \<open>
  C22. The producers and the consumer of \<open>prodcons5.c\<close>, \<open>prodcons6.c\<close> and \<open>prodcons7.c\<close>, started by
  \<open>main\<close> with at least one producer: under every interleaving, spurious wakeups included, the
  consumer prints no mismatch, some thread can run until all have returned, the counters then add up
  to the number of items and the consumer has looked at all of them; without spurious wakeups every
  run is finite.
\<close>

theorem prodcons_cond_correct:
  assumes "produce \<in> {produce5, produce6, produce7}"
    and "path_steps (run_threads produce (consume5 spurious) (main_nitems n)) (main_start k) ts"
    and "s = last (main_start k # ts)" and "1 \<le> k"
  shows "th_printed s = [] \<and>
    (all_joined s \<or> (\<exists>t. run_threads produce (consume5 spurious) (main_nitems n) s t)) \<and>
    (all_joined s \<longrightarrow> sum_list (th_counts s) = max 0 (main_nitems n) \<and> th_i s = max 0 (main_nitems n)) \<and>
    (\<not> spurious \<longrightarrow> length ts \<le> 8 * nat (main_nitems n) + nat (min k MAXNTHREADS) + 3)"
  using assms prods5.program_correct [of spurious n k ts s] prods6.program_correct [of spurious n k ts s]
    prods7.program_correct [of spurious n k ts s] by auto

theorem prodcons_cond_correct_witness:
  "\<exists>t. run_threads produce6 (consume5 False) (main_nitems 3) (main_start 2) t"
  using prodcons_cond_correct [of produce6 False 3 2 "[]"]
  by (simp add: all_joined_def main_start_def)

text \<open>
  The polling versions: in \<open>prodcons2.c\<close> the consumer starts when the producers have been joined,
  in \<open>prodcons3.c\<close> and \<open>prodcons4.c\<close> it polls. No mismatch is printed, some step that changes the
  state is possible until all have returned, there are only finitely many such steps in a run, and
  at the end all items are counted and looked at.
\<close>

lemma prodcons_poll_correct:
  assumes "consume \<in> {consume2, consume3}"
    and "path_steps (\<lambda>s t. run_threads produce2 consume (main_nitems n) s t \<and> t \<noteq> s) (main_start k) ts"
    and "s = last (main_start k # ts)" and "1 \<le> k"
  shows "th_printed s = [] \<and>
    (all_joined s \<or> (\<exists>t. run_threads produce2 consume (main_nitems n) s t \<and> t \<noteq> s)) \<and>
    (all_joined s \<longrightarrow> sum_list (th_counts s) = max 0 (main_nitems n) \<and> th_i s = max 0 (main_nitems n)) \<and>
    length ts \<le> 8 * nat (main_nitems n) + nat (min k MAXNTHREADS) + 3"
  using assms cons2.poll_program_correct [of n k ts s] cons3.poll_program_correct [of n k ts s] by auto

end
