(* ===== verification/Px_Prodcons.thy ===== *)
theory Px_Prodcons
  imports Pxsem_Prodcons
begin

text \<open>
  The producer and consumer programs of \<open>src/pxsem\<close> over the semaphores of the system:
  \<open>prodcons1.c\<close> and \<open>prodcons2.c\<close> with one producer and one consumer, and \<open>deadlock.c\<close>, where the
  consumer takes its semaphores in the wrong order.
\<close>

section \<open>The semaphores of the system\<close>

abbreviation (input) SEM_VALUE_MAX :: nat where "SEM_VALUE_MAX \<equiv> 2147483647"

text \<open>
  A POSIX semaphore is its value: \<open>sem_wait\<close> blocks at 0, \<open>sem_post\<close> fails with \<open>EOVERFLOW\<close> at the
  largest value (and the wrapper \<open>Sem_post\<close> then ends the process).
\<close>

definition px_wait :: "nat \<Rightarrow> nat option" where
  "px_wait v = (if v = 0 then None else Some (v - 1))"

definition px_post :: "nat \<Rightarrow> nat option" where
  "px_post v = (if v < SEM_VALUE_MAX then Some (v + 1) else None)"

interpretation px_sem: counting_sem "\<lambda>v. v" px_wait px_post "\<lambda>_. True" SEM_VALUE_MAX
  by unfold_locales (auto simp: px_wait_def px_post_def)

section \<open>One producer and one consumer\<close>

text \<open>
  \<open>prodcons2.c\<close> is the program of the library's own semaphores over these. In \<open>prodcons1.c\<close> the main
  thread joins the producer before it creates the consumer.
\<close>

abbreviation (input) px_inv :: "int \<Rightarrow> nat prodcons \<Rightarrow> bool" where
  "px_inv \<equiv> prodcons_inv (\<lambda>v. v) (\<lambda>_. True)"

definition px_prodcons2_step :: "int \<Rightarrow> nat prodcons \<Rightarrow> nat prodcons \<Rightarrow> bool" where
  "px_prodcons2_step = prodcons_step px_wait px_post"

definition px_prodcons1_step :: "int \<Rightarrow> nat prodcons \<Rightarrow> nat prodcons \<Rightarrow> bool" where
  "px_prodcons1_step nitems s t \<longleftrightarrow>
    produce_step px_wait px_post nitems s = Some t \<or>
    prod_pc s = P_done \<and> consume_step px_wait px_post nitems s = Some t"

definition px_start :: "nat prodcons" where
  "px_start = prodcons_start id"

text \<open>Before the producer returns the consumer does not exist, and more items than slots keep it from returning.\<close>

definition joined_inv :: "int \<Rightarrow> nat prodcons \<Rightarrow> bool" where
  [inv_defs]: "joined_inv nitems s \<longleftrightarrow> px_inv nitems s \<and>
    (if prod_pc s = P_done then nitems \<le> int NBUFF else cons_i s = 0 \<and> cons_pc s = C_test)"

lemma produce_step_frame:
  "produce_step swait spost nitems s = Some t \<Longrightarrow>
    cons_i t = cons_i s \<and> cons_pc t = cons_pc s \<and> prod_pc s \<noteq> P_done"
  by (auto simp: produce_step_def split: prod_pc.splits)

lemma consume_step_frame:
  "consume_step swait spost nitems s = Some t \<Longrightarrow> prod_i t = prod_i s \<and> prod_pc t = prod_pc s"
  by (auto simp: consume_step_def Let_def split: cons_pc.splits)

lemma px1_is_px2: "px_prodcons1_step nitems s t \<Longrightarrow> prodcons_step px_wait px_post nitems s t"
  by (auto simp: px_prodcons1_step_def prodcons_step_def)

lemma px_start_inv: "px_inv nitems px_start"
  unfolding px_start_def by (rule px_sem.prodcons_start_inv) simp

lemma px1_produce_keeps:
  assumes inv: "joined_inv nitems s" and step: "produce_step px_wait px_post nitems s = Some t"
    and inv': "px_inv nitems t"
  shows "joined_inv nitems t"
proof -
  have c: "cons_i t = 0" "cons_pc t = C_test"
    using produce_step_frame [OF step] inv by (auto simp: joined_inv_def)
  have "nitems \<le> 10" if "prod_pc t = P_done"
    using that inv' c by (auto simp: prodcons_inv_def)
  with inv' c show ?thesis by (simp add: joined_inv_def)
qed

interpretation px1: inductive_invariant "\<lambda>s. s = px_start" "px_prodcons1_step nitems" "joined_inv nitems"
  for nitems
proof
  fix s assume "s = px_start"
  then show "joined_inv nitems s" using px_start_inv by (simp add: joined_inv_def px_start_def prodcons_start_def)
next
  fix s t assume inv: "joined_inv nitems s" and step: "px_prodcons1_step nitems s t"
  have "px_inv nitems t"
    using px_sem.prodcons_keeps [OF _ _ px1_is_px2 [OF step]] inv by (simp add: joined_inv_def)
  with inv step px1_produce_keeps [OF inv] consume_step_frame [of px_wait px_post nitems s t]
  show "joined_inv nitems t" by (auto simp: joined_inv_def px_prodcons1_step_def)
qed

lemma path_mono: "path_steps r s ts \<Longrightarrow> (\<And>s t. r s t \<Longrightarrow> q s t) \<Longrightarrow> path_steps q s ts"
  by (induction ts arbitrary: s) auto

lemma px1_progress:
  assumes inv: "joined_inv nitems s" and "\<not> both_done s" and few: "nitems \<le> 10"
  shows "\<exists>t. px_prodcons1_step nitems s t"
proof (cases "prod_pc s = P_done")
  case True
  then have "produce_step px_wait px_post nitems s = None" by (simp add: produce_step_def)
  with px_sem.prodcons_progress [of nitems s] inv assms(2) True show ?thesis
    by (auto simp: joined_inv_def prodcons_step_def px_prodcons1_step_def)
next
  case False
  have "produce_step px_wait px_post nitems s \<noteq> None"
  proof
    assume "produce_step px_wait px_post nitems s = None"
    from px_sem.prod_blocked [OF _ _ this] inv False few show False
      by (auto simp: joined_inv_def prodcons_inv_def)
  qed
  then show ?thesis by (auto simp: px_prodcons1_step_def)
qed

section \<open>deadlock.c\<close>

abbreviation (input) NBUFF2 :: nat where "NBUFF2 \<equiv> 2"

definition deadlock_produce :: "int \<Rightarrow> nat prodcons \<Rightarrow> nat prodcons option" where
  "deadlock_produce nitems s =
    (case prod_pc s of
      P_test \<Rightarrow> Some (s\<lparr>prod_pc := (if prod_i s < nitems then P_nempty else P_done)\<rparr>)
    | P_nempty \<Rightarrow> map_option (\<lambda>q. s\<lparr>nempty := q, prod_pc := P_mutex\<rparr>) (px_wait (nempty s))
    | P_mutex \<Rightarrow> map_option (\<lambda>q. s\<lparr>mutex := q, prod_pc := P_store\<rparr>) (px_wait (mutex s))
    | P_store \<Rightarrow> Some (s\<lparr>buff := (buff s)[nat (prod_i s mod int NBUFF2) := prod_i s], prod_pc := P_unlock\<rparr>)
    | P_unlock \<Rightarrow> map_option (\<lambda>q. s\<lparr>mutex := q, prod_pc := P_post\<rparr>) (px_post (mutex s))
    | P_post \<Rightarrow> map_option (\<lambda>q. s\<lparr>nstored := q, prod_i := prod_i s + 1, prod_pc := P_test\<rparr>) (px_post (nstored s))
    | P_done \<Rightarrow> None)"

text \<open>The consumer takes the mutex first and then waits for an item; it prints what it fetched.\<close>

definition deadlock_consume :: "int \<Rightarrow> nat prodcons \<Rightarrow> nat prodcons option" where
  "deadlock_consume nitems s =
    (case cons_pc s of
      C_test \<Rightarrow> Some (s\<lparr>cons_pc := (if cons_i s < nitems then C_mutex else C_done)\<rparr>)
    | C_mutex \<Rightarrow> map_option (\<lambda>q. s\<lparr>mutex := q, cons_pc := C_nstored\<rparr>) (px_wait (mutex s))
    | C_nstored \<Rightarrow> map_option (\<lambda>q. s\<lparr>nstored := q, cons_pc := C_check\<rparr>) (px_wait (nstored s))
    | C_check \<Rightarrow>
        Some (s\<lparr>printed := printed s @ [(cons_i s, buff s ! nat (cons_i s mod int NBUFF2))], cons_pc := C_unlock\<rparr>)
    | C_unlock \<Rightarrow> map_option (\<lambda>q. s\<lparr>mutex := q, cons_pc := C_post\<rparr>) (px_post (mutex s))
    | C_post \<Rightarrow> map_option (\<lambda>q. s\<lparr>nempty := q, cons_i := cons_i s + 1, cons_pc := C_test\<rparr>) (px_post (nempty s))
    | C_done \<Rightarrow> None)"

definition deadlock_step :: "int \<Rightarrow> nat prodcons \<Rightarrow> nat prodcons \<Rightarrow> bool" where
  "deadlock_step nitems s t \<longleftrightarrow> deadlock_produce nitems s = Some t \<or> deadlock_consume nitems s = Some t"

definition deadlock_start :: "nat prodcons" where
  "deadlock_start =
    \<lparr>buff = replicate NBUFF2 0, mutex = 1, nempty = NBUFF2, nstored = 0,
     prod_pc = P_test, prod_i = 0, cons_pc = C_test, cons_i = 0, printed = []\<rparr>"

section \<open>Properties\<close>

text \<open>
  \<open>prodcons2.c\<close> of \<open>src/pxsem\<close> over the semaphores of the system: no mismatch is printed, some
  thread can run until both have returned, every run is finite and ends with all items consumed.
  In \<open>prodcons1.c\<close>, where the producer is joined before the consumer is created, this holds for at
  most \<open>NBUFF\<close> items; with more no run ends with both threads returned, and as every run is finite
  each ends with the producer blocked for ever.
\<close>

lemma px_prodcons1_prodcons2:
  assumes "path_steps (px_prodcons2_step nitems) px_start ts" and "s = last (px_start # ts)"
    and "path_steps (px_prodcons1_step nitems) px_start us" and "u = last (px_start # us)"
  shows "printed s = [] \<and> length ts \<le> 12 * nat nitems + 2 \<and>
    (both_done s \<or> (\<exists>t. px_prodcons2_step nitems s t)) \<and>
    printed u = [] \<and> length us \<le> 12 * nat nitems + 2 \<and>
    (if nitems \<le> int NBUFF then both_done u \<or> (\<exists>t. px_prodcons1_step nitems u t) else \<not> both_done u)"
proof -
  have "path_steps (prodcons_step px_wait px_post nitems) px_start us"
    using assms(3) px1_is_px2 by (rule path_mono)
  note one = px_sem.prodcons_correct [of id nitems us u, folded px_start_def, OF _ _ this assms(4)]
  note two = px_sem.prodcons_correct [of id nitems ts s, folded px_start_def px_prodcons2_step_def, OF _ _ assms(1,2)]
  have "reach (\<lambda>s. s = px_start) (px_prodcons1_step nitems) u"
    unfolding assms(4) by (rule reach_path [OF reach_start assms(3)]) simp
  then have inv: "joined_inv nitems u" by (rule px1.inv_reach)
  with px1_progress [OF inv] one two show ?thesis by (auto simp: joined_inv_def both_done_def)
qed

text \<open>
  \<open>deadlock.c\<close> deadlocks: for any number of items there is a run after which neither thread can
  run, the consumer holding the mutex and waiting for an item, the producer waiting for the mutex.
\<close>

lemma deadlock_deadlocks:
  assumes "0 < nitems"
  shows "\<exists>ts. path_steps (deadlock_step nitems) deadlock_start ts \<and>
    (\<forall>t. \<not> deadlock_step nitems (last (deadlock_start # ts)) t) \<and>
    \<not> both_done (last (deadlock_start # ts))"
proof -
  let ?s1 = "deadlock_start\<lparr>cons_pc := C_mutex\<rparr>"
  let ?s2 = "?s1\<lparr>mutex := 0, cons_pc := C_nstored\<rparr>"
  let ?s3 = "?s2\<lparr>prod_pc := P_nempty\<rparr>"
  let ?s4 = "?s3\<lparr>nempty := 1, prod_pc := P_mutex\<rparr>"
  have "path_steps (deadlock_step nitems) deadlock_start [?s1, ?s2, ?s3, ?s4]"
    using assms by (simp add: deadlock_step_def deadlock_produce_def deadlock_consume_def deadlock_start_def px_wait_def)
  moreover have "\<not> deadlock_step nitems ?s4 t" for t
    by (simp add: deadlock_step_def deadlock_produce_def deadlock_consume_def deadlock_start_def px_wait_def)
  moreover have "\<not> both_done ?s4" by (simp add: both_done_def)
  ultimately show ?thesis by (intro exI [of _ "[?s1, ?s2, ?s3, ?s4]"]) simp
qed

end
