(* ===== verification/Px_Multi.thy ===== *)
theory Px_Multi
  imports Px_Prodcons
begin

text \<open>
  \<open>src/pxsem/prodcons4.c\<close>: several producers and several consumers share a circular buffer under
  three semaphores. Each statement that touches a semaphore is a step of its thread; the body
  between a wait for the mutex and the first post after it is one step, since it runs under the
  mutex.
\<close>

section \<open>The program\<close>

datatype mprod_pc =
    MP_nempty | MP_mutex | MP_body | MP_unlock | MP_nstored | MP_count
  | MP_x_nstored | MP_x_nempty | MP_x_mutex | MP_done

datatype mcons_pc =
    MC_nstored | MC_mutex | MC_body | MC_unlock | MC_nempty | MC_count
  | MC_x_nstored | MC_x_mutex | MC_done

record multi =
  m_buff :: "int list"
  m_nput :: int
  m_nputval :: int
  m_nget :: int
  m_ngetval :: int
  m_mutex :: nat
  m_nempty :: nat
  m_nstored :: nat
  m_prods :: "mprod_pc list"
  m_prodcount :: "int list"
  m_cons :: "mcons_pc list"
  m_conscount :: "int list"
  m_printed :: "(int \<times> int) list"

definition mp_at :: "nat \<Rightarrow> mprod_pc \<Rightarrow> multi \<Rightarrow> multi" where
  "mp_at j p s = s\<lparr>m_prods := (m_prods s)[j := p]\<rparr>"

definition mc_at :: "nat \<Rightarrow> mcons_pc \<Rightarrow> multi \<Rightarrow> multi" where
  "mc_at j p s = s\<lparr>m_cons := (m_cons s)[j := p]\<rparr>"

text \<open>\<open>produce\<close> of thread \<open>j\<close>; the body tests whether all items are put and stores one otherwise.\<close>

definition put_body :: "int \<Rightarrow> nat \<Rightarrow> multi \<Rightarrow> multi" where
  "put_body nitems j s =
    (if nitems \<le> m_nput s then mp_at j MP_x_nstored s
     else mp_at j MP_unlock
       (s\<lparr>m_buff := (m_buff s)[nat (m_nput s mod int NBUFF) := m_nputval s],
          m_nput := m_nput s + 1, m_nputval := m_nputval s + 1\<rparr>))"

definition multi_produce :: "int \<Rightarrow> nat \<Rightarrow> multi \<Rightarrow> multi option" where
  "multi_produce nitems j s =
    (case m_prods s ! j of
      MP_nempty \<Rightarrow> map_option (\<lambda>q. mp_at j MP_mutex (s\<lparr>m_nempty := q\<rparr>)) (px_wait (m_nempty s))
    | MP_mutex \<Rightarrow> map_option (\<lambda>q. mp_at j MP_body (s\<lparr>m_mutex := q\<rparr>)) (px_wait (m_mutex s))
    | MP_body \<Rightarrow> Some (put_body nitems j s)
    | MP_unlock \<Rightarrow> map_option (\<lambda>q. mp_at j MP_nstored (s\<lparr>m_mutex := q\<rparr>)) (px_post (m_mutex s))
    | MP_nstored \<Rightarrow> map_option (\<lambda>q. mp_at j MP_count (s\<lparr>m_nstored := q\<rparr>)) (px_post (m_nstored s))
    | MP_count \<Rightarrow> Some (mp_at j MP_nempty (s\<lparr>m_prodcount := (m_prodcount s)[j := m_prodcount s ! j + 1]\<rparr>))
    | MP_x_nstored \<Rightarrow> map_option (\<lambda>q. mp_at j MP_x_nempty (s\<lparr>m_nstored := q\<rparr>)) (px_post (m_nstored s))
    | MP_x_nempty \<Rightarrow> map_option (\<lambda>q. mp_at j MP_x_mutex (s\<lparr>m_nempty := q\<rparr>)) (px_post (m_nempty s))
    | MP_x_mutex \<Rightarrow> map_option (\<lambda>q. mp_at j MP_done (s\<lparr>m_mutex := q\<rparr>)) (px_post (m_mutex s))
    | MP_done \<Rightarrow> None)"

definition get_body :: "int \<Rightarrow> nat \<Rightarrow> multi \<Rightarrow> multi" where
  "get_body nitems j s =
    (if nitems \<le> m_nget s then mc_at j MC_x_nstored s
     else
       let i = m_nget s mod int NBUFF; v = m_buff s ! nat i in
       mc_at j MC_unlock
         (s\<lparr>m_printed := (if v \<noteq> m_ngetval s then m_printed s @ [(i, v)] else m_printed s),
            m_nget := m_nget s + 1, m_ngetval := m_ngetval s + 1\<rparr>))"

definition multi_consume :: "int \<Rightarrow> nat \<Rightarrow> multi \<Rightarrow> multi option" where
  "multi_consume nitems j s =
    (case m_cons s ! j of
      MC_nstored \<Rightarrow> map_option (\<lambda>q. mc_at j MC_mutex (s\<lparr>m_nstored := q\<rparr>)) (px_wait (m_nstored s))
    | MC_mutex \<Rightarrow> map_option (\<lambda>q. mc_at j MC_body (s\<lparr>m_mutex := q\<rparr>)) (px_wait (m_mutex s))
    | MC_body \<Rightarrow> Some (get_body nitems j s)
    | MC_unlock \<Rightarrow> map_option (\<lambda>q. mc_at j MC_nempty (s\<lparr>m_mutex := q\<rparr>)) (px_post (m_mutex s))
    | MC_nempty \<Rightarrow> map_option (\<lambda>q. mc_at j MC_count (s\<lparr>m_nempty := q\<rparr>)) (px_post (m_nempty s))
    | MC_count \<Rightarrow> Some (mc_at j MC_nstored (s\<lparr>m_conscount := (m_conscount s)[j := m_conscount s ! j + 1]\<rparr>))
    | MC_x_nstored \<Rightarrow> map_option (\<lambda>q. mc_at j MC_x_mutex (s\<lparr>m_nstored := q\<rparr>)) (px_post (m_nstored s))
    | MC_x_mutex \<Rightarrow> map_option (\<lambda>q. mc_at j MC_done (s\<lparr>m_mutex := q\<rparr>)) (px_post (m_mutex s))
    | MC_done \<Rightarrow> None)"

definition multi_step :: "int \<Rightarrow> multi \<Rightarrow> multi \<Rightarrow> bool" where
  "multi_step nitems s t \<longleftrightarrow>
    (\<exists>j < length (m_prods s). multi_produce nitems j s = Some t) \<or>
    (\<exists>j < length (m_cons s). multi_consume nitems j s = Some t)"

text \<open>What \<open>main\<close> sets up from its arguments.\<close>

abbreviation (input) MAX_N_THREADS :: int where "MAX_N_THREADS \<equiv> 100"

definition multi_start :: "int \<Rightarrow> int \<Rightarrow> multi" where
  "multi_start nproducers nconsumers =
    (let p = nat (min nproducers MAX_N_THREADS); c = nat (min nconsumers MAX_N_THREADS) in
     \<lparr>m_buff = replicate NBUFF 0, m_nput = 0, m_nputval = 0, m_nget = 0, m_ngetval = 0,
      m_mutex = 1, m_nempty = NBUFF, m_nstored = 0,
      m_prods = replicate p MP_nempty, m_prodcount = replicate p 0,
      m_cons = replicate c MC_nstored, m_conscount = replicate c 0, m_printed = []\<rparr>)"

definition multi_joined :: "multi \<Rightarrow> bool" where
  "multi_joined s \<longleftrightarrow> list_all (\<lambda>p. p = MP_done) (m_prods s) \<and> list_all (\<lambda>p. p = MC_done) (m_cons s)"

section \<open>The invariant\<close>

text \<open>What a thread holds at each point: a slot, the mutex, an item not yet announced, and so on.\<close>

fun mp_slot :: "mprod_pc \<Rightarrow> int" where
  "mp_slot MP_mutex = 1" | "mp_slot MP_body = 1" | "mp_slot MP_x_nstored = 1" | "mp_slot MP_x_nempty = 1"
| "mp_slot _ = 0"

fun mp_lock :: "mprod_pc \<Rightarrow> int" where
  "mp_lock MP_body = 1" | "mp_lock MP_unlock = 1" | "mp_lock MP_x_nstored = 1" | "mp_lock MP_x_nempty = 1"
| "mp_lock MP_x_mutex = 1" | "mp_lock _ = 0"

fun mp_stored :: "mprod_pc \<Rightarrow> int" where
  "mp_stored MP_unlock = 1" | "mp_stored MP_nstored = 1" | "mp_stored _ = 0"

fun mp_told :: "mprod_pc \<Rightarrow> int" where
  "mp_told MP_x_nempty = 1" | "mp_told MP_x_mutex = 1" | "mp_told MP_done = 1" | "mp_told _ = 0"

fun mp_leaving :: "mprod_pc \<Rightarrow> bool" where
  "mp_leaving MP_x_nstored = True" | "mp_leaving MP_x_nempty = True" | "mp_leaving MP_x_mutex = True"
| "mp_leaving MP_done = True" | "mp_leaving _ = False"

fun mc_item :: "mcons_pc \<Rightarrow> int" where
  "mc_item MC_mutex = 1" | "mc_item MC_body = 1" | "mc_item MC_x_nstored = 1" | "mc_item _ = 0"

fun mc_lock :: "mcons_pc \<Rightarrow> int" where
  "mc_lock MC_body = 1" | "mc_lock MC_unlock = 1" | "mc_lock MC_x_nstored = 1" | "mc_lock MC_x_mutex = 1"
| "mc_lock _ = 0"

fun mc_freed :: "mcons_pc \<Rightarrow> int" where
  "mc_freed MC_unlock = 1" | "mc_freed MC_nempty = 1" | "mc_freed _ = 0"

fun mc_leaving :: "mcons_pc \<Rightarrow> bool" where
  "mc_leaving MC_x_nstored = True" | "mc_leaving MC_x_mutex = True" | "mc_leaving MC_done = True"
| "mc_leaving _ = False"

lemma mp_weights:
  "0 \<le> mp_slot p" "0 \<le> mp_lock p" "0 \<le> mp_stored p" "0 \<le> mp_told p" "mp_told p \<le> 1"
  by (cases p; simp)+

lemma mp_told_leaving: "0 < mp_told p \<Longrightarrow> mp_leaving p"
  by (cases p) auto

lemma mc_weights: "0 \<le> mc_item p" "0 \<le> mc_lock p" "0 \<le> mc_freed p"
  by (cases p; simp)+

definition sems_ok :: "multi \<Rightarrow> bool" where
  "sems_ok s \<longleftrightarrow>
    int (m_mutex s) = 1 - total_of mp_lock (m_prods s) - total_of mc_lock (m_cons s) \<and>
    int (m_nempty s) = 10 - (m_nput s - m_nget s) - total_of mp_slot (m_prods s) - total_of mc_freed (m_cons s) \<and>
    int (m_nstored s) = m_nput s - m_nget s + total_of mp_told (m_prods s) -
      total_of mc_item (m_cons s) - total_of mp_stored (m_prods s) \<and>
    length (m_prods s) \<le> 100"

definition ring_ok :: "int \<Rightarrow> multi \<Rightarrow> bool" where
  "ring_ok nitems s \<longleftrightarrow>
    0 \<le> m_nget s \<and> m_nget s \<le> m_nput s \<and> m_nput s \<le> max 0 nitems \<and>
    m_nputval s = m_nput s \<and> m_ngetval s = m_nget s \<and>
    buff_holds (m_buff s) (m_nget s) (m_nput s) \<and> m_printed s = []"

definition leaving_ok :: "int \<Rightarrow> multi \<Rightarrow> bool" where
  "leaving_ok nitems s \<longleftrightarrow>
    (\<forall>p \<in> set (m_prods s). mp_leaving p \<longrightarrow> nitems \<le> m_nput s) \<and>
    (\<forall>c \<in> set (m_cons s). mc_leaving c \<longrightarrow> nitems \<le> m_nget s)"

definition multi_inv :: "int \<Rightarrow> multi \<Rightarrow> bool" where
  [inv_defs]: "multi_inv nitems s \<longleftrightarrow> sems_ok s \<and> ring_ok nitems s \<and> leaving_ok nitems s"

lemma mp_totals:
  "0 \<le> total_of mp_slot ps" "0 \<le> total_of mp_lock ps" "0 \<le> total_of mp_stored ps" "0 \<le> total_of mp_told ps"
  "total_of mp_told ps \<le> int (length ps)"
  by (auto intro!: total_nonneg total_le_length mp_weights)

lemma mc_totals: "0 \<le> total_of mc_item cs" "0 \<le> total_of mc_lock cs" "0 \<le> total_of mc_freed cs"
  by (auto intro!: total_nonneg mc_weights)

lemma mp_totals_nth:
  assumes "j < length ps"
  shows "mp_slot (ps ! j) \<le> total_of mp_slot ps" "mp_lock (ps ! j) \<le> total_of mp_lock ps"
    "mp_stored (ps ! j) \<le> total_of mp_stored ps" "mp_told (ps ! j) \<le> total_of mp_told ps"
  using assms by (auto intro!: total_nth mp_weights)

lemma mc_totals_nth:
  assumes "j < length cs"
  shows "mc_item (cs ! j) \<le> total_of mc_item cs" "mc_lock (cs ! j) \<le> total_of mc_lock cs"
    "mc_freed (cs ! j) \<le> total_of mc_freed cs"
  using assms by (auto intro!: total_nth mc_weights)

text \<open>A producer is told to leave only when all items are put, so an item that is held is there.\<close>

lemma item_there:
  assumes inv: "multi_inv nitems s" and j: "j < length (m_cons s)" and "m_cons s ! j = MC_body"
    and "m_nget s < nitems"
  shows "m_nget s < m_nput s"
proof (cases "0 < total_of mp_told (m_prods s)")
  case True
  then obtain i where "i < length (m_prods s)" and "0 < mp_told (m_prods s ! i)"
    using total_pos [of mp_told "m_prods s"] mp_weights by blast
  then have "m_prods s ! i \<in> set (m_prods s)" and "mp_leaving (m_prods s ! i)" by (simp_all add: mp_told_leaving)
  with inv assms(4) show ?thesis by (auto simp: multi_inv_def leaving_ok_def)
next
  case False
  with inv mc_totals_nth(1) [OF j] assms(3) mp_totals [of "m_prods s"] show ?thesis
    by (auto simp: multi_inv_def sems_ok_def)
qed

lemmas px_sem_simps = px_wait_def px_post_def
lemmas multi_moves = mp_at_def mc_at_def total_update

lemma leaving_prods:
  assumes "leaving_ok nitems s" and "m_cons t = m_cons s" and "m_prods t = (m_prods s)[j := p]"
    and "m_nput s \<le> m_nput t" and "m_nget s \<le> m_nget t" and "mp_leaving p \<longrightarrow> nitems \<le> m_nput t"
  shows "leaving_ok nitems t"
  using assms by (auto simp: leaving_ok_def dest!: in_set_updateD)

lemma leaving_cons:
  assumes "leaving_ok nitems s" and "m_prods t = m_prods s" and "m_cons t = (m_cons s)[j := c]"
    and "m_nput s \<le> m_nput t" and "m_nget s \<le> m_nget t" and "mc_leaving c \<longrightarrow> nitems \<le> m_nget t"
  shows "leaving_ok nitems t"
  using assms by (auto simp: leaving_ok_def dest!: in_set_updateD)

lemma put_body_keeps:
  assumes inv: "multi_inv nitems s" and j: "j < length (m_prods s)" and pc: "m_prods s ! j = MP_body"
  shows "multi_inv nitems (put_body nitems j s)"
proof (cases "nitems \<le> m_nput s")
  case True
  then have t: "put_body nitems j s = mp_at j MP_x_nstored s" by (simp add: put_body_def)
  have "sems_ok (mp_at j MP_x_nstored s)"
    using inv j pc by (simp add: multi_inv_def sems_ok_def multi_moves)
  moreover have "ring_ok nitems (mp_at j MP_x_nstored s)"
    using inv by (simp add: multi_inv_def ring_ok_def mp_at_def)
  moreover have "leaving_ok nitems (mp_at j MP_x_nstored s)"
    using inv True leaving_prods [of nitems s "mp_at j MP_x_nstored s" j MP_x_nstored]
    by (simp add: multi_inv_def mp_at_def)
  ultimately show ?thesis unfolding t by (simp add: multi_inv_def)
next
  case False
  let ?t = "mp_at j MP_unlock (s\<lparr>m_buff := (m_buff s)[nat (m_nput s mod 10) := m_nput s],
    m_nput := m_nput s + 1, m_nputval := m_nput s + 1\<rparr>)"
  have t: "put_body nitems j s = ?t" using False inv by (simp add: put_body_def multi_inv_def ring_ok_def)
  have "m_nput s < m_nget s + 10"
    using inv mp_totals_nth(1) [OF j] pc mc_totals [of "m_cons s"]
    by (auto simp: multi_inv_def sems_ok_def)
  then have "buff_holds (m_buff ?t) (m_nget s) (m_nput s + 1)"
    using inv by (auto simp: multi_inv_def ring_ok_def mp_at_def intro: buff_holds_store)
  then have "ring_ok nitems ?t" using inv False by (simp add: multi_inv_def ring_ok_def mp_at_def)
  moreover have "sems_ok ?t" using inv j pc by (simp add: multi_inv_def sems_ok_def multi_moves)
  moreover have "leaving_ok nitems ?t"
    using inv leaving_prods [of nitems s ?t j MP_unlock] by (simp add: multi_inv_def mp_at_def)
  ultimately show ?thesis unfolding t by (simp add: multi_inv_def)
qed

lemma get_body_keeps:
  assumes inv: "multi_inv nitems s" and j: "j < length (m_cons s)" and pc: "m_cons s ! j = MC_body"
  shows "multi_inv nitems (get_body nitems j s)"
proof (cases "nitems \<le> m_nget s")
  case True
  then have t: "get_body nitems j s = mc_at j MC_x_nstored s" by (simp add: get_body_def)
  have "sems_ok (mc_at j MC_x_nstored s)"
    using inv j pc by (simp add: multi_inv_def sems_ok_def multi_moves)
  moreover have "ring_ok nitems (mc_at j MC_x_nstored s)"
    using inv by (simp add: multi_inv_def ring_ok_def mc_at_def)
  moreover have "leaving_ok nitems (mc_at j MC_x_nstored s)"
    using inv True leaving_cons [of nitems s "mc_at j MC_x_nstored s" j MC_x_nstored]
    by (simp add: multi_inv_def mc_at_def)
  ultimately show ?thesis unfolding t by (simp add: multi_inv_def)
next
  case False
  let ?t = "mc_at j MC_unlock (s\<lparr>m_printed := [], m_nget := m_nget s + 1, m_ngetval := m_nget s + 1\<rparr>)"
  have lt: "m_nget s < m_nput s" using item_there [OF inv j pc] False by simp
  then have "m_buff s ! nat (m_nget s mod 10) = m_nget s"
    using inv by (intro buff_holds_read) (auto simp: multi_inv_def ring_ok_def)
  then have t: "get_body nitems j s = ?t"
    using False inv by (simp add: get_body_def Let_def multi_inv_def ring_ok_def)
  have "ring_ok nitems ?t"
    using inv lt by (auto simp: multi_inv_def ring_ok_def mc_at_def intro: buff_holds_mono)
  moreover have "sems_ok ?t" using inv j pc by (simp add: multi_inv_def sems_ok_def multi_moves)
  moreover have "leaving_ok nitems ?t"
    using inv leaving_cons [of nitems s ?t j MC_unlock] by (simp add: multi_inv_def mc_at_def)
  ultimately show ?thesis unfolding t by (simp add: multi_inv_def)
qed

text \<open>The steps that only use a semaphore.\<close>

lemma sem_step_prods:
  assumes "multi_inv nitems s" and "sems_ok t" and "m_prods t = (m_prods s)[j := p]"
    and "mp_leaving p \<longrightarrow> nitems \<le> m_nput s" and "m_cons t = m_cons s" and "m_buff t = m_buff s"
    and "m_nput t = m_nput s" "m_nget t = m_nget s" "m_nputval t = m_nputval s" "m_ngetval t = m_ngetval s"
    and "m_printed t = m_printed s"
  shows "multi_inv nitems t"
  using assms leaving_prods [of nitems s t j p] by (simp add: multi_inv_def ring_ok_def)

lemma sem_step_cons:
  assumes "multi_inv nitems s" and "sems_ok t" and "m_cons t = (m_cons s)[j := c]"
    and "mc_leaving c \<longrightarrow> nitems \<le> m_nget s" and "m_prods t = m_prods s" and "m_buff t = m_buff s"
    and "m_nput t = m_nput s" "m_nget t = m_nget s" "m_nputval t = m_nputval s" "m_ngetval t = m_ngetval s"
    and "m_printed t = m_printed s"
  shows "multi_inv nitems t"
  using assms leaving_cons [of nitems s t j c] by (simp add: multi_inv_def ring_ok_def)

lemma multi_produce_keeps:
  assumes inv: "multi_inv nitems s" and j: "j < length (m_prods s)" and run: "multi_produce nitems j s = Some t"
  shows "multi_inv nitems t"
proof (cases "m_prods s ! j = MP_body")
  case True
  with run put_body_keeps [OF inv j] show ?thesis by (simp add: multi_produce_def)
next
  case False
  have leave: "mp_leaving (m_prods s ! j) \<Longrightarrow> nitems \<le> m_nput s"
    using inv j by (auto simp: multi_inv_def leaving_ok_def)
  have sems: "sems_ok s" using inv by (simp add: multi_inv_def)
  from run False sems j have "sems_ok t"
    by (cases "m_prods s ! j")
      (auto simp: multi_produce_def px_sem_simps sems_ok_def multi_moves of_nat_diff split: if_splits)
  with run False leave show ?thesis
    by (cases "m_prods s ! j")
      (auto simp: multi_produce_def mp_at_def intro!: sem_step_prods [OF inv, where j = j])
qed

lemma multi_consume_keeps:
  assumes inv: "multi_inv nitems s" and j: "j < length (m_cons s)" and run: "multi_consume nitems j s = Some t"
  shows "multi_inv nitems t"
proof (cases "m_cons s ! j = MC_body")
  case True
  with run get_body_keeps [OF inv j] show ?thesis by (simp add: multi_consume_def)
next
  case False
  have leave: "mc_leaving (m_cons s ! j) \<Longrightarrow> nitems \<le> m_nget s"
    using inv j by (auto simp: multi_inv_def leaving_ok_def)
  have sems: "sems_ok s" using inv by (simp add: multi_inv_def)
  from run False sems j have "sems_ok t"
    by (cases "m_cons s ! j")
      (auto simp: multi_consume_def px_sem_simps sems_ok_def multi_moves of_nat_diff split: if_splits)
  with run False leave show ?thesis
    by (cases "m_cons s ! j")
      (auto simp: multi_consume_def mc_at_def intro!: sem_step_cons [OF inv, where j = j])
qed

lemma multi_step_keeps: "multi_inv nitems s \<Longrightarrow> multi_step nitems s t \<Longrightarrow> multi_inv nitems t"
  unfolding multi_step_def by (blast intro: multi_produce_keeps multi_consume_keeps)

section \<open>The counters\<close>

fun mp_uncounted :: "mprod_pc \<Rightarrow> int" where
  "mp_uncounted MP_unlock = 1" | "mp_uncounted MP_nstored = 1" | "mp_uncounted MP_count = 1" | "mp_uncounted _ = 0"

fun mc_uncounted :: "mcons_pc \<Rightarrow> int" where
  "mc_uncounted MC_unlock = 1" | "mc_uncounted MC_nempty = 1" | "mc_uncounted MC_count = 1" | "mc_uncounted _ = 0"

definition multi_counts :: "multi \<Rightarrow> bool" where
  [inv_defs]: "multi_counts s \<longleftrightarrow>
    length (m_prodcount s) = length (m_prods s) \<and> length (m_conscount s) = length (m_cons s) \<and>
    sum_list (m_prodcount s) = m_nput s - total_of mp_uncounted (m_prods s) \<and>
    sum_list (m_conscount s) = m_nget s - total_of mc_uncounted (m_cons s)"

text \<open>The statements that are left at most.\<close>

fun mp_rank :: "mprod_pc \<Rightarrow> int" where
  "mp_rank MP_nempty = 7" | "mp_rank MP_mutex = 6" | "mp_rank MP_body = 5" | "mp_rank MP_unlock = 10"
| "mp_rank MP_nstored = 9" | "mp_rank MP_count = 8" | "mp_rank MP_x_nstored = 3" | "mp_rank MP_x_nempty = 2"
| "mp_rank MP_x_mutex = 1" | "mp_rank MP_done = 0"

fun mc_rank :: "mcons_pc \<Rightarrow> int" where
  "mc_rank MC_nstored = 6" | "mc_rank MC_mutex = 5" | "mc_rank MC_body = 4" | "mc_rank MC_unlock = 9"
| "mc_rank MC_nempty = 8" | "mc_rank MC_count = 7" | "mc_rank MC_x_nstored = 2" | "mc_rank MC_x_mutex = 1"
| "mc_rank MC_done = 0"

definition multi_left :: "int \<Rightarrow> multi \<Rightarrow> int" where
  "multi_left nitems s =
    6 * (max 0 nitems - m_nput s) + total_of mp_rank (m_prods s) +
    6 * (max 0 nitems - m_nget s) + total_of mc_rank (m_cons s)"

lemma multi_left_nonneg: "multi_inv nitems s \<Longrightarrow> 0 \<le> multi_left nitems s"
proof -
  have "0 \<le> mp_rank p" "0 \<le> mc_rank c" for p c by (cases p; simp) (cases c; simp)
  then have "0 \<le> total_of mp_rank (m_prods s)" "0 \<le> total_of mc_rank (m_cons s)" by (blast intro: total_nonneg)+
  then show "multi_inv nitems s \<Longrightarrow> 0 \<le> multi_left nitems s"
    by (auto simp: multi_inv_def ring_ok_def multi_left_def)
qed

lemma multi_produce_counts:
  assumes "multi_produce nitems j s = Some t" and "j < length (m_prods s)" and "multi_counts s"
  shows "multi_counts t \<and> multi_left nitems t < multi_left nitems s \<and>
    length (m_prods t) = length (m_prods s) \<and> length (m_cons t) = length (m_cons s)"
  using assms
  by (cases "m_prods s ! j")
    (auto simp: multi_produce_def put_body_def multi_moves multi_counts_def multi_left_def sum_list_update_int)

lemma multi_consume_counts:
  assumes "multi_consume nitems j s = Some t" and "j < length (m_cons s)" and "multi_counts s"
  shows "multi_counts t \<and> multi_left nitems t < multi_left nitems s \<and>
    length (m_prods t) = length (m_prods s) \<and> length (m_cons t) = length (m_cons s)"
  using assms
  by (cases "m_cons s ! j")
    (auto simp: multi_consume_def get_body_def Let_def multi_moves multi_counts_def multi_left_def sum_list_update_int)

section \<open>Progress\<close>

text \<open>A thread is held up at a semaphore only, and only at these points.\<close>

lemma multi_bounds:
  assumes "multi_inv nitems s"
  shows "m_mutex s \<le> 1" "m_nempty s \<le> 10" "m_nstored s \<le> 110"
  using assms mp_totals [of "m_prods s"] mc_totals [of "m_cons s"]
  by (auto simp: multi_inv_def sems_ok_def ring_ok_def)

lemma multi_produce_runs:
  assumes inv: "multi_inv nitems s" and "m_prods s ! j \<notin> {MP_nempty, MP_mutex, MP_done}"
  shows "multi_produce nitems j s \<noteq> None"
  using assms(2) multi_bounds [OF inv] by (cases "m_prods s ! j") (auto simp: multi_produce_def px_post_def)

lemma multi_consume_runs:
  assumes inv: "multi_inv nitems s" and "m_cons s ! j \<notin> {MC_nstored, MC_mutex, MC_done}"
  shows "multi_consume nitems j s \<noteq> None"
  using assms(2) multi_bounds [OF inv] by (cases "m_cons s ! j") (auto simp: multi_consume_def px_post_def)

lemma multi_stuck_none:
  assumes "\<And>t. \<not> multi_step nitems s t"
  shows "j < length (m_prods s) \<Longrightarrow> multi_produce nitems j s = None"
    and "j < length (m_cons s) \<Longrightarrow> multi_consume nitems j s = None"
  using assms unfolding multi_step_def by (metis not_None_eq)+

lemma multi_stuck_points:
  assumes inv: "multi_inv nitems s" and stuck: "\<And>t. \<not> multi_step nitems s t"
  shows "set (m_prods s) \<subseteq> {MP_nempty, MP_done}" and "set (m_cons s) \<subseteq> {MC_nstored, MC_done}"
proof -
  note none = multi_stuck_none [OF stuck]
  have p: "set (m_prods s) \<subseteq> {MP_nempty, MP_mutex, MP_done}"
    and c: "set (m_cons s) \<subseteq> {MC_nstored, MC_mutex, MC_done}"
    using multi_produce_runs [OF inv] multi_consume_runs [OF inv] none
    unfolding subset_iff in_set_conv_nth by metis+
  then have "total_of mp_lock (m_prods s) = 0" "total_of mc_lock (m_cons s) = 0" by (force intro: total_eq_0)+
  with inv have "m_mutex s = 1" by (simp add: multi_inv_def sems_ok_def)
  then have "m_prods s ! j \<noteq> MP_mutex" if "j < length (m_prods s)" for j
    using none(1) [OF that] by (auto simp: multi_produce_def px_wait_def)
  moreover have "m_cons s ! j \<noteq> MC_mutex" if "j < length (m_cons s)" for j
    using none(2) [OF that] \<open>m_mutex s = 1\<close> by (auto simp: multi_consume_def px_wait_def)
  ultimately show "set (m_prods s) \<subseteq> {MP_nempty, MP_done}" and "set (m_cons s) \<subseteq> {MC_nstored, MC_done}"
    using p c unfolding subset_iff in_set_conv_nth by (metis insert_iff)+
qed

lemma multi_progress:
  assumes inv: "multi_inv nitems s" and some: "m_prods s \<noteq> []" "m_cons s \<noteq> []" and "\<not> multi_joined s"
  shows "\<exists>t. multi_step nitems s t"
proof (rule ccontr)
  assume "\<not> ?thesis"
  then have stuck: "\<And>t. \<not> multi_step nitems s t" by blast
  note pts = multi_stuck_points [OF inv stuck]
  have zero: "total_of mp_slot (m_prods s) = 0" "total_of mp_stored (m_prods s) = 0"
    "total_of mc_freed (m_cons s) = 0" "total_of mc_item (m_cons s) = 0"
    using pts by (force intro: total_eq_0)+
  have cons: "MC_nstored \<notin> set (m_cons s)" if "0 < m_nstored s"
    using that multi_stuck_none(2) [OF stuck] by (fastforce simp: in_set_conv_nth multi_consume_def px_wait_def)
  have done_get: "nitems \<le> m_nget s" if "MC_nstored \<notin> set (m_cons s)"
    using that some(2) pts(2) inv by (cases "m_cons s") (auto simp: multi_inv_def leaving_ok_def)
  show False
  proof (cases "MP_nempty \<in> set (m_prods s)")
    case True
    then have "m_nempty s = 0"
      using multi_stuck_none(1) [OF stuck]
      by (fastforce simp: in_set_conv_nth multi_produce_def px_wait_def split: if_splits)
    with inv zero have full: "m_nput s - m_nget s = 10" by (simp add: multi_inv_def sems_ok_def)
    then have "0 < m_nstored s" using inv zero mp_totals(4) [of "m_prods s"] by (auto simp: multi_inv_def sems_ok_def)
    with done_get cons full inv show False by (auto simp: multi_inv_def ring_ok_def)
  next
    case False
    then have "total_of mp_told (m_prods s) = int (length (m_prods s))"
      using pts(1) by (intro total_eq_length) auto
    moreover have "0 < length (m_prods s)" using some(1) by simp
    moreover have "int (m_nstored s) = m_nput s - m_nget s + total_of mp_told (m_prods s)" "m_nget s \<le> m_nput s"
      using inv zero by (simp_all add: multi_inv_def sems_ok_def ring_ok_def)
    ultimately have "0 < m_nstored s" by linarith
    with cons False pts assms(4) show False by (auto simp: multi_joined_def list_all_iff)
  qed
qed

lemma multi_start_inv:
  "multi_inv nitems (multi_start p c) \<and> multi_counts (multi_start p c) \<and>
    multi_left nitems (multi_start p c) =
      12 * max 0 nitems + 7 * max 0 (min p MAX_N_THREADS) + 6 * max 0 (min c MAX_N_THREADS)"
  by (auto simp: multi_inv_def sems_ok_def ring_ok_def leaving_ok_def multi_counts_def multi_left_def
      multi_start_def Let_def buff_holds_def sum_list_replicate)

lemma multi_path_keeps:
  assumes "multi_inv nitems s" and "multi_counts s" and "path_steps (multi_step nitems) s ts"
  shows "multi_inv nitems (last (s # ts)) \<and> multi_counts (last (s # ts)) \<and>
    length (m_prods (last (s # ts))) = length (m_prods s) \<and> length (m_cons (last (s # ts))) = length (m_cons s) \<and>
    int (length ts) + multi_left nitems (last (s # ts)) \<le> multi_left nitems s"
  using assms
proof (induction ts arbitrary: s)
  case (Cons t ts)
  then have step: "multi_step nitems s t" and path: "path_steps (multi_step nitems) t ts" by auto
  have "multi_counts t \<and> multi_left nitems t < multi_left nitems s \<and>
    length (m_prods t) = length (m_prods s) \<and> length (m_cons t) = length (m_cons s)"
    using step Cons.prems(2) multi_produce_counts multi_consume_counts unfolding multi_step_def by blast
  with Cons.IH [OF multi_step_keeps [OF Cons.prems(1) step] _ path] show ?case by auto
qed simp

section \<open>Properties\<close>

text \<open>
  C17. \<open>prodcons4.c\<close> with at least one producer and one consumer: under every interleaving no mismatch
  is printed, some thread can run until all have returned, every run is finite, and at the end the
  counters of the producers and those of the consumers both add up to the number of items.
\<close>

theorem px_prodcons4_correct:
  assumes "path_steps (multi_step nitems) (multi_start p c) ts" and "s = last (multi_start p c # ts)"
    and "1 \<le> p" and "1 \<le> c"
  shows "m_printed s = [] \<and> (multi_joined s \<or> (\<exists>t. multi_step nitems s t)) \<and>
    length ts \<le> 12 * nat nitems + 1300 \<and>
    (multi_joined s \<longrightarrow> sum_list (m_prodcount s) = max 0 nitems \<and> sum_list (m_conscount s) = max 0 nitems)"
proof -
  note start = multi_start_inv [of nitems p c]
  note run = multi_path_keeps [OF conjunct1 [OF start] conjunct1 [OF conjunct2 [OF start]] assms(1)]
  have inv: "multi_inv nitems s" and counts: "multi_counts s" and some: "m_prods s \<noteq> []" "m_cons s \<noteq> []"
    using run assms by (auto simp: multi_start_def Let_def)
  have "int (length ts) \<le> 12 * max 0 nitems + 7 * max 0 (min p 100) + 6 * max 0 (min c 100)"
    using run start multi_left_nonneg [OF inv] unfolding assms(2) by linarith
  then have "length ts \<le> 12 * nat nitems + 1300" by linarith
  moreover have "sum_list (m_prodcount s) = max 0 nitems \<and> sum_list (m_conscount s) = max 0 nitems"
    if "multi_joined s"
  proof -
    have "total_of mp_uncounted (m_prods s) = 0" "total_of mc_uncounted (m_cons s) = 0"
      using that by (auto simp: multi_joined_def list_all_iff intro!: total_eq_0)
    moreover have "nitems \<le> m_nput s" "nitems \<le> m_nget s"
      using that some inv by (cases "m_prods s"; cases "m_cons s"; simp add: multi_joined_def multi_inv_def leaving_ok_def)+
    ultimately show ?thesis using counts inv by (auto simp: multi_counts_def multi_inv_def ring_ok_def)
  qed
  ultimately show ?thesis using multi_progress [OF inv some] inv by (auto simp: multi_inv_def ring_ok_def)
qed

theorem px_prodcons4_correct_witness: "\<exists>t. multi_step 5 (multi_start 2 3) t"
  using px_prodcons4_correct [of 5 2 3 "[]"] by (auto simp: multi_joined_def multi_start_def list_all_iff)

end
