(* ===== verification/C_Text.thy ===== *)
theory C_Text
  imports Lib_IO
begin

text \<open>
  Text as the client and server programs use it: strings that end at a null byte, numbers printed with
  \<open>%ld\<close> and read with \<open>atol\<close>, and the lines that \<open>fgets\<close> gives.
\<close>

section \<open>Strings\<close>

abbreviation (input) blank :: byte where "blank \<equiv> 32"

text \<open>The string at the start of a buffer, up to the null byte.\<close>

definition cstr :: "byte list \<Rightarrow> byte list" where
  "cstr bs = takeWhile (\<lambda>c. c \<noteq> 0) bs"

text \<open>A number printed with \<open>%ld\<close>, and read with \<open>atol\<close>.\<close>

fun dec :: "nat \<Rightarrow> byte list" where
  "dec n = (if n < 10 then [word_of_nat (48 + n)] else dec (n div 10) @ [word_of_nat (48 + n mod 10)])"

declare dec.simps [simp del]

definition is_digit :: "byte \<Rightarrow> bool" where
  "is_digit c \<longleftrightarrow> 48 \<le> unat c \<and> unat c \<le> 57"

definition is_space :: "byte \<Rightarrow> bool" where
  "is_space c \<longleftrightarrow> unat c = 32 \<or> 9 \<le> unat c \<and> unat c \<le> 13"

fun digits_val :: "nat \<Rightarrow> byte list \<Rightarrow> nat" where
  "digits_val acc [] = acc"
| "digits_val acc (c # cs) = (if is_digit c then digits_val (10 * acc + (unat c - 48)) cs else acc)"

definition atol :: "byte list \<Rightarrow> int" where
  "atol bs =
    (case dropWhile is_space bs of
      [] \<Rightarrow> 0
    | c # cs \<Rightarrow>
        if unat c = 45 then - int (digits_val 0 cs)
        else if unat c = 43 then int (digits_val 0 cs)
        else int (digits_val 0 (c # cs)))"

section \<open>Printing and reading\<close>

lemma word8_digit: "k < 10 \<Longrightarrow> unat (48 + word_of_nat k :: byte) = 48 + k"
  by (simp add: unat_word_ariths unat_of_nat)

lemma dec_digits: "c \<in> set (dec n) \<Longrightarrow> is_digit c"
proof (induction n rule: dec.induct)
  case (1 n)
  show ?case
  proof (cases "n < 10")
    case True
    with 1 show ?thesis by (simp add: dec.simps [of n] is_digit_def word8_digit)
  next
    case False
    with 1 show ?thesis by (auto simp: dec.simps [of n] is_digit_def word8_digit)
  qed
qed

lemma dec_not_Nil: "dec n \<noteq> []"
  by (simp add: dec.simps [of n])

lemma digits_val_append:
  "(\<And>c. c \<in> set xs \<Longrightarrow> is_digit c) \<Longrightarrow> digits_val acc (xs @ ys) = digits_val (digits_val acc xs) ys"
  by (induction xs arbitrary: acc) auto

lemma digits_val_dec: "digits_val 0 (dec n) = n"
proof (induction n rule: dec.induct)
  case (1 n)
  show ?case
  proof (cases "n < 10")
    case True
    then show ?thesis by (simp add: dec.simps [of n] is_digit_def word8_digit)
  next
    case False
    have "digits_val 0 (dec (n div 10) @ [word_of_nat (48 + n mod 10)]) =
        digits_val (n div 10) [word_of_nat (48 + n mod 10)]"
      using 1 False dec_digits by (subst digits_val_append) auto
    with False show ?thesis by (simp add: dec.simps [of n] is_digit_def word8_digit)
  qed
qed

lemma is_digit_unat: "is_digit c \<Longrightarrow> unat c \<noteq> 32 \<and> \<not> is_space c \<and> unat c \<noteq> 45 \<and> unat c \<noteq> 43 \<and> unat c \<noteq> 0 \<and> unat c \<noteq> 10"
  by (auto simp: is_digit_def is_space_def)

lemma atol_dec: "atol (dec n) = int n"
proof -
  obtain c cs where d: "dec n = c # cs" using dec_not_Nil [of n] by (cases "dec n") auto
  then have "is_digit c" using dec_digits [of c n] by simp
  with d digits_val_dec [of n] is_digit_unat [of c] show ?thesis by (simp add: atol_def)
qed

lemma length_dec: "n < 10 ^ k \<Longrightarrow> 0 < k \<Longrightarrow> length (dec n) \<le> k"
proof (induction k arbitrary: n)
  case (Suc k)
  show ?case
  proof (cases "n < 10")
    case False
    then have "0 < k" using Suc.prems by (cases k) auto
    moreover have "n div 10 < 10 ^ k" using Suc.prems(1) by (simp add: less_mult_imp_div_less mult.commute)
    ultimately show ?thesis using Suc.IH [of "n div 10"] False by (simp add: dec.simps [of n])
  qed (simp add: dec.simps [of n])
qed simp

section \<open>Lines\<close>

lemma line_of_take: "\<exists>k. line_of n bs = take k bs \<and> k \<le> n"
proof (induction n bs rule: line_of.induct)
  case (3 n c cs)
  then show ?case
    by (cases "c = newline") (auto intro: exI [of _ 1] exI [of _ "Suc _"])
qed auto

lemma line_of_set: "set (line_of n bs) \<subseteq> set bs"
  using line_of_take [of n bs] set_take_subset by metis

lemma line_of_short: "newline \<notin> set bs \<Longrightarrow> length bs \<le> n \<Longrightarrow> line_of n bs = bs"
  by (induction n bs rule: line_of.induct) auto

lemma cstr_id: "0 \<notin> set bs \<Longrightarrow> cstr bs = bs"
  by (induction bs) (auto simp: cstr_def)

lemma line_of_nonempty: "0 < k \<Longrightarrow> bs \<noteq> [] \<Longrightarrow> line_of k bs \<noteq> []"
  by (cases k; cases bs) auto

lemma line_of_split: "line_of n bs @ drop (length (line_of n bs)) bs = bs"
  by (induction n bs rule: line_of.induct) auto

end
