(* ===== verification/Px_Mycat.thy ===== *)
theory Px_Mycat
  imports Px_Prodcons C_Text
begin

text \<open>
  \<open>src/pxsem/mycat2.c\<close>: one thread reads a file into a circular buffer of blocks and another writes
  the blocks to the standard output. The reads and writes are outside the mutex; a read gives any
  part of what is left. \<open>main\<close> prints the values of the semaphores to the same output before it creates
  the threads and after it has joined them (\<open>DEBUG\<close> is defined), through the buffer of \<open>stdio\<close>, while
  the blocks are written directly.
\<close>

section \<open>The program\<close>

abbreviation (input) NBLOCKS :: nat where "NBLOCKS \<equiv> 8"
abbreviation (input) BLOCKSIZE :: nat where "BLOCKSIZE \<equiv> 64"

datatype reader_pc = R_nempty | R_mutex | R_unlock | R_read | R_nstored | R_x_nstored | R_x_nempty | R_done
datatype writer_pc = W_nstored | W_mutex | W_unlock | W_write | W_nempty | W_done

datatype main_pc = M_join | M_exited

text \<open>
  A block is its bytes, and its count \<open>n\<close> is their number. \<open>cat_out\<close> is what has reached the standard
  output and \<open>cat_stdio\<close> what \<open>printf\<close> holds back in its buffer.
\<close>

record cat =
  cat_buff :: "byte list list"
  cat_mutex :: nat
  cat_nempty :: nat
  cat_nstored :: nat
  cat_reader :: reader_pc
  cat_ri :: nat
  cat_file :: "byte list"
  cat_writer :: writer_pc
  cat_wi :: nat
  cat_out :: "byte list"
  cat_stdio :: "byte list"
  cat_main :: main_pc

text \<open>\<open>produce\<close>; \<open>k\<close> is how much the next \<open>Read\<close> gives.\<close>

definition cat_produce :: "nat \<Rightarrow> cat \<Rightarrow> cat option" where
  "cat_produce k s =
    (case cat_reader s of
      R_nempty \<Rightarrow> map_option (\<lambda>q. s\<lparr>cat_nempty := q, cat_reader := R_mutex\<rparr>) (px_wait (cat_nempty s))
    | R_mutex \<Rightarrow> map_option (\<lambda>q. s\<lparr>cat_mutex := q, cat_reader := R_unlock\<rparr>) (px_wait (cat_mutex s))
    | R_unlock \<Rightarrow> map_option (\<lambda>q. s\<lparr>cat_mutex := q, cat_reader := R_read\<rparr>) (px_post (cat_mutex s))
    | R_read \<Rightarrow>
        (let n = min BLOCKSIZE (k + 1);
             s' = s\<lparr>cat_buff := (cat_buff s)[cat_ri s := take n (cat_file s)], cat_file := drop n (cat_file s)\<rparr>
         in if take n (cat_file s) = [] then Some (s'\<lparr>cat_reader := R_x_nstored\<rparr>)
            else Some (s'\<lparr>cat_ri := (if NBLOCKS \<le> Suc (cat_ri s) then 0 else Suc (cat_ri s)), cat_reader := R_nstored\<rparr>))
    | R_nstored \<Rightarrow> map_option (\<lambda>q. s\<lparr>cat_nstored := q, cat_reader := R_nempty\<rparr>) (px_post (cat_nstored s))
    | R_x_nstored \<Rightarrow> map_option (\<lambda>q. s\<lparr>cat_nstored := q, cat_reader := R_x_nempty\<rparr>) (px_post (cat_nstored s))
    | R_x_nempty \<Rightarrow> map_option (\<lambda>q. s\<lparr>cat_nempty := q, cat_reader := R_done\<rparr>) (px_post (cat_nempty s))
    | R_done \<Rightarrow> None)"

text \<open>\<open>consume\<close>.\<close>

definition cat_consume :: "cat \<Rightarrow> cat option" where
  "cat_consume s =
    (case cat_writer s of
      W_nstored \<Rightarrow> map_option (\<lambda>q. s\<lparr>cat_nstored := q, cat_writer := W_mutex\<rparr>) (px_wait (cat_nstored s))
    | W_mutex \<Rightarrow> map_option (\<lambda>q. s\<lparr>cat_mutex := q, cat_writer := W_unlock\<rparr>) (px_wait (cat_mutex s))
    | W_unlock \<Rightarrow> map_option (\<lambda>q. s\<lparr>cat_mutex := q, cat_writer := W_write\<rparr>) (px_post (cat_mutex s))
    | W_write \<Rightarrow>
        (let block = cat_buff s ! cat_wi s in
         if block = [] then Some (s\<lparr>cat_writer := W_done\<rparr>)
         else Some (s\<lparr>cat_out := cat_out s @ block,
           cat_wi := (if NBLOCKS \<le> Suc (cat_wi s) then 0 else Suc (cat_wi s)), cat_writer := W_nempty\<rparr>))
    | W_nempty \<Rightarrow> map_option (\<lambda>q. s\<lparr>cat_nempty := q, cat_writer := W_nstored\<rparr>) (px_post (cat_nempty s))
    | W_done \<Rightarrow> None)"

definition cat_step :: "cat \<Rightarrow> cat \<Rightarrow> bool" where
  "cat_step s t \<longleftrightarrow> (\<exists>k. cat_produce k s = Some t) \<or> cat_consume s = Some t"

text \<open>
  The three lines that \<open>main\<close> prints. When the standard output is a terminal (\<open>tty\<close>) each line is written
  as it is printed; otherwise the lines, far fewer bytes than the buffer has, stay in it until \<open>exit\<close>.
\<close>

definition debug_line :: "string \<Rightarrow> nat \<Rightarrow> byte list" where
  "debug_line name val = map of_char (''shared.'' @ name @ '' value = '') @ dec val @ [10]"

definition debug_lines :: "nat \<Rightarrow> nat \<Rightarrow> nat \<Rightarrow> byte list" where
  "debug_lines m ne ns = debug_line ''mutex'' m @ debug_line ''nempty'' ne @ debug_line ''nstored'' ns"

definition cat_debug :: "bool \<Rightarrow> cat \<Rightarrow> cat" where
  "cat_debug tty s =
    (let l = debug_lines (cat_mutex s) (cat_nempty s) (cat_nstored s) in
     if tty then s\<lparr>cat_out := cat_out s @ l\<rparr> else s\<lparr>cat_stdio := cat_stdio s @ l\<rparr>)"

definition cat_start :: "bool \<Rightarrow> byte list \<Rightarrow> cat" where
  "cat_start tty input = cat_debug tty
    \<lparr>cat_buff = replicate NBLOCKS [], cat_mutex = 1, cat_nempty = NBLOCKS, cat_nstored = 0,
     cat_reader = R_nempty, cat_ri = 0, cat_file = input,
     cat_writer = W_nstored, cat_wi = 0, cat_out = [], cat_stdio = [], cat_main = M_join\<rparr>"

definition cat_joined :: "cat \<Rightarrow> bool" where
  "cat_joined s \<longleftrightarrow> cat_reader s = R_done \<and> cat_writer s = W_done"

text \<open>\<open>main\<close> once it has joined both threads: it prints the values again, and \<open>exit\<close> writes the buffer.\<close>

definition cat_exit :: "bool \<Rightarrow> cat \<Rightarrow> cat option" where
  "cat_exit tty s =
    (if cat_main s = M_join \<and> cat_joined s then
       let s' = cat_debug tty s in
       Some (s'\<lparr>cat_out := cat_out s' @ cat_stdio s', cat_stdio := [], cat_main := M_exited\<rparr>)
     else None)"

definition mycat2_step :: "bool \<Rightarrow> cat \<Rightarrow> cat \<Rightarrow> bool" where
  "mycat2_step tty s t \<longleftrightarrow> cat_step s t \<or> cat_exit tty s = Some t"

section \<open>The invariant\<close>

fun r_slot :: "reader_pc \<Rightarrow> nat" where
  "r_slot R_mutex = 1" | "r_slot R_unlock = 1" | "r_slot R_read = 1" | "r_slot _ = 0"

fun r_lock :: "reader_pc \<Rightarrow> nat" where
  "r_lock R_unlock = 1" | "r_lock _ = 0"

fun r_stored :: "reader_pc \<Rightarrow> nat" where
  "r_stored R_nstored = 1" | "r_stored R_x_nstored = 1" | "r_stored _ = 0"

text \<open>Whether the empty block of the end of file is in the buffer, and whether its slot was given back.\<close>

fun r_eof :: "reader_pc \<Rightarrow> nat" where
  "r_eof R_x_nstored = 1" | "r_eof R_x_nempty = 1" | "r_eof R_done = 1" | "r_eof _ = 0"

fun r_extra :: "reader_pc \<Rightarrow> nat" where
  "r_extra R_done = 1" | "r_extra _ = 0"

fun w_block :: "writer_pc \<Rightarrow> nat" where
  "w_block W_mutex = 1" | "w_block W_unlock = 1" | "w_block W_write = 1" | "w_block W_done = 1" | "w_block _ = 0"

fun w_lock :: "writer_pc \<Rightarrow> nat" where
  "w_lock W_unlock = 1" | "w_lock _ = 0"

fun w_freed :: "writer_pc \<Rightarrow> nat" where
  "w_freed W_nempty = 1" | "w_freed _ = 0"

text \<open>With \<open>n\<close> blocks of the file in the buffer.\<close>

definition cat_sems :: "nat \<Rightarrow> cat \<Rightarrow> bool" where
  "cat_sems n s \<longleftrightarrow>
    cat_mutex s + r_lock (cat_reader s) + w_lock (cat_writer s) = 1 \<and>
    cat_nstored s + r_stored (cat_reader s) + w_block (cat_writer s) = n + r_eof (cat_reader s) \<and>
    cat_nempty s + r_slot (cat_reader s) + w_freed (cat_writer s) + n + r_eof (cat_reader s) =
      NBLOCKS + r_extra (cat_reader s)"

definition cat_data :: "byte list \<Rightarrow> nat \<Rightarrow> cat \<Rightarrow> bool" where
  "cat_data input n s \<longleftrightarrow>
    length (cat_buff s) = NBLOCKS \<and> cat_wi s < NBLOCKS \<and> cat_ri s = (cat_wi s + n) mod NBLOCKS \<and>
    cat_out s @ concat (ring NBLOCKS (cat_buff s) (cat_wi s) n) @ cat_file s = input \<and>
    [] \<notin> set (ring NBLOCKS (cat_buff s) (cat_wi s) n) \<and>
    (r_eof (cat_reader s) = 1 \<longrightarrow> cat_file s = [] \<and> cat_buff s ! cat_ri s = []) \<and>
    (cat_writer s = W_done \<longrightarrow> r_eof (cat_reader s) = 1 \<and> n = 0)"

definition cat_inv :: "byte list \<Rightarrow> nat \<Rightarrow> cat \<Rightarrow> bool" where
  [inv_defs]: "cat_inv input n s \<longleftrightarrow> cat_sems n s \<and> cat_data input n s"

lemma cat_inv_fields:
  assumes "cat_data input n s" and "cat_buff t = cat_buff s" and "cat_wi t = cat_wi s" and "cat_ri t = cat_ri s"
    and "cat_out t = cat_out s" and "cat_file t = cat_file s"
    and "r_eof (cat_reader t) = r_eof (cat_reader s)" and "cat_writer t = W_done \<longrightarrow> cat_writer s = W_done"
  shows "cat_data input n t"
  using assms unfolding cat_data_def by metis

text \<open>A read at end of file, and a read of a block.\<close>

lemma cat_read_keeps:
  assumes inv: "cat_inv input n s" and pc: "cat_reader s = R_read" and run: "cat_produce k s = Some t"
  shows "cat_writer t = cat_writer s \<and>
    (cat_reader t = R_x_nstored \<and> cat_file t = cat_file s \<and> cat_inv input n t \<or>
     cat_reader t = R_nstored \<and> length (cat_file t) < length (cat_file s) \<and> cat_inv input (Suc n) t)"
proof -
  let ?m = "min BLOCKSIZE (k + 1)" and ?b = "take (min BLOCKSIZE (k + 1)) (cat_file s)"
  have sems: "cat_sems n s" and data: "cat_data input n s" using inv by (simp_all add: cat_inv_def)
  have n: "n < NBLOCKS" using sems pc by (simp add: cat_sems_def)
  have ri: "cat_ri s < NBLOCKS" "cat_ri s = (cat_wi s + n) mod NBLOCKS" "length (cat_buff s) = NBLOCKS"
    using data by (simp_all add: cat_data_def)
  show ?thesis
  proof (cases "?b = []")
    case True
    then have t: "t = s\<lparr>cat_buff := (cat_buff s)[cat_ri s := []], cat_reader := R_x_nstored\<rparr>" and "cat_file s = []"
      using run pc by (auto simp: cat_produce_def Let_def)
    have "ring NBLOCKS (cat_buff t) (cat_wi t) n = ring NBLOCKS (cat_buff s) (cat_wi s) n"
      using ring_same [OF ri(3) n, of "cat_wi s" "[]", folded ri(2)] t by simp
    then have "cat_data input n t" using data t ri \<open>cat_file s = []\<close> pc by (simp add: cat_data_def)
    moreover have "cat_sems n t" using sems t pc by (simp add: cat_sems_def)
    ultimately show ?thesis using t by (simp add: cat_inv_def)
  next
    case False
    then have t: "t = s\<lparr>cat_buff := (cat_buff s)[cat_ri s := ?b], cat_file := drop ?m (cat_file s),
        cat_ri := Suc (cat_ri s) mod NBLOCKS, cat_reader := R_nstored\<rparr>"
      using run pc ring_next [OF ri(1)] by (auto simp: cat_produce_def Let_def)
    have "Suc (cat_ri s) mod NBLOCKS = (cat_wi s + Suc n) mod NBLOCKS" using ri(2) by (simp add: mod_Suc_eq)
    then have "cat_data input (Suc n) t"
      using data t ring_put [OF ri(3) n, of "cat_wi s" ?b, folded ri(2)] ri False pc by (auto simp: cat_data_def)
    moreover have "cat_sems (Suc n) t" using sems t pc by (simp add: cat_sems_def)
    moreover have "length (cat_file t) < length (cat_file s)" using False t by simp
    ultimately show ?thesis using t by (simp add: cat_inv_def)
  qed
qed

lemma cat_write_keeps:
  assumes inv: "cat_inv input n s" and pc: "cat_writer s = W_write" and run: "cat_consume s = Some t"
  shows "cat_reader t = cat_reader s \<and> cat_file t = cat_file s \<and>
    (cat_writer t = W_done \<and> cat_inv input n t \<or> cat_writer t = W_nempty \<and> 0 < n \<and> cat_inv input (n - 1) t)"
proof -
  have sems: "cat_sems n s" and data: "cat_data input n s" using inv by (simp_all add: cat_inv_def)
  show ?thesis
  proof (cases n)
    case 0
    have eof: "r_eof (cat_reader s) = 1" using sems pc 0 by (cases "cat_reader s") (auto simp: cat_sems_def)
    then have "cat_buff s ! cat_wi s = []" using data 0 by (auto simp: cat_data_def)
    then have t: "t = s\<lparr>cat_writer := W_done\<rparr>" using run pc by (simp add: cat_consume_def)
    have "cat_data input n t" using data t 0 eof by (auto simp: cat_data_def)
    moreover have "cat_sems n t" using sems t pc by (simp add: cat_sems_def)
    ultimately show ?thesis using t by (simp add: cat_inv_def)
  next
    case (Suc m)
    have wi: "cat_wi s < NBLOCKS" using data by (simp add: cat_data_def)
    note r = ring_Suc [of NBLOCKS "cat_buff s" "cat_wi s" m]
    have block: "cat_buff s ! cat_wi s \<noteq> []" using data r Suc wi by (auto simp: cat_data_def)
    then have t: "t = s\<lparr>cat_out := cat_out s @ cat_buff s ! cat_wi s, cat_wi := Suc (cat_wi s) mod NBLOCKS,
        cat_writer := W_nempty\<rparr>"
      using run pc ring_next [OF wi] by (auto simp: cat_consume_def Let_def)
    have "(Suc (cat_wi s) mod NBLOCKS + m) mod NBLOCKS = (cat_wi s + n) mod NBLOCKS"
      using Suc by (simp add: mod_simps)
    then have "cat_data input m t" using data t r Suc wi pc by (auto simp: cat_data_def)
    moreover have "cat_sems m t" using sems t pc Suc by (simp add: cat_sems_def)
    ultimately show ?thesis using t Suc by (simp add: cat_inv_def)
  qed
qed

text \<open>The other statements change one semaphore.\<close>

lemma cat_produce_moves:
  assumes "cat_sems n s" and "cat_data input n s" and "cat_reader s \<noteq> R_read" and "cat_produce k s = Some t"
  shows "cat_sems n t \<and> cat_data input n t"
proof
  show "cat_sems n t" using assms(1,3,4)
    by (cases "cat_reader s") (auto simp: cat_produce_def cat_sems_def px_wait_def px_post_def split: if_splits)
  show "cat_data input n t" using assms(3,4)
    by (cases "cat_reader s")
      (auto simp: cat_produce_def px_wait_def px_post_def split: if_splits intro!: cat_inv_fields [OF assms(2)])
qed

lemma cat_consume_moves:
  assumes "cat_sems n s" and "cat_data input n s" and "cat_writer s \<noteq> W_write" and "cat_consume s = Some t"
  shows "cat_sems n t \<and> cat_data input n t"
proof
  show "cat_sems n t" using assms(1,3,4)
    by (cases "cat_writer s") (auto simp: cat_consume_def cat_sems_def px_wait_def px_post_def split: if_splits)
  show "cat_data input n t" using assms(3,4)
    by (cases "cat_writer s")
      (auto simp: cat_consume_def px_wait_def px_post_def split: if_splits intro!: cat_inv_fields [OF assms(2)])
qed

text \<open>The statements that are left at most, with \<open>n\<close> blocks in the buffer.\<close>

fun r_rank :: "reader_pc \<Rightarrow> nat" where
  "r_rank R_nempty = 7" | "r_rank R_mutex = 6" | "r_rank R_unlock = 5" | "r_rank R_read = 4" | "r_rank R_nstored = 8"
| "r_rank R_x_nstored = 2" | "r_rank R_x_nempty = 1" | "r_rank R_done = 0"

fun w_rank :: "writer_pc \<Rightarrow> nat" where
  "w_rank W_nstored = 6" | "w_rank W_mutex = 5" | "w_rank W_unlock = 4" | "w_rank W_write = 3" | "w_rank W_nempty = 7"
| "w_rank W_done = 0"

definition cat_left :: "nat \<Rightarrow> cat \<Rightarrow> nat" where
  "cat_left n s = 12 * length (cat_file s) + 6 * n + r_rank (cat_reader s) + w_rank (cat_writer s)"

lemma cat_step_keeps:
  assumes inv: "cat_inv input n s" and step: "cat_step s t"
  shows "\<exists>n'. cat_inv input n' t \<and> cat_left n' t < cat_left n s"
proof -
  have sd: "cat_sems n s" "cat_data input n s" using inv by (simp_all add: cat_inv_def)
  consider (r) k where "cat_produce k s = Some t" | (w) "cat_consume s = Some t"
    using step by (auto simp: cat_step_def)
  then show ?thesis
  proof cases
    case r
    show ?thesis
    proof (cases "cat_reader s = R_read")
      case True
      from cat_read_keeps [OF inv True r] True show ?thesis by (auto simp: cat_left_def)
    next
      case False
      have "cat_left n t < cat_left n s" using r False
        by (cases "cat_reader s") (auto simp: cat_produce_def cat_left_def)
      with cat_produce_moves [OF sd False r] show ?thesis by (auto simp: cat_inv_def)
    qed
  next
    case w
    show ?thesis
    proof (cases "cat_writer s = W_write")
      case True
      from cat_write_keeps [OF inv True w] True show ?thesis
        by (elim conjE disjE) (rule exI [of _ n], simp add: cat_left_def, rule exI [of _ "n - 1"], simp add: cat_left_def)
    next
      case False
      have "cat_left n t < cat_left n s" using w False
        by (cases "cat_writer s") (auto simp: cat_consume_def cat_left_def)
      with cat_consume_moves [OF sd False w] show ?thesis by (auto simp: cat_inv_def)
    qed
  qed
qed

section \<open>Progress\<close>

lemma cat_progress:
  assumes inv: "cat_inv input n s" and "\<not> cat_joined s"
  shows "\<exists>t. cat_step s t"
proof (rule ccontr)
  assume "\<not> ?thesis"
  then have none: "cat_produce 0 s = None" "cat_consume s = None"
    unfolding cat_step_def by (metis not_None_eq)+
  have sems: "cat_sems n s" and data: "cat_data input n s" using inv by (simp_all add: cat_inv_def)
  have r: "cat_reader s = R_nempty \<and> cat_nempty s = 0 \<or> cat_reader s = R_mutex \<and> cat_mutex s = 0 \<or> cat_reader s = R_done"
    using none(1) sems
    by (cases "cat_reader s") (auto simp: cat_produce_def Let_def px_wait_def px_post_def cat_sems_def split: if_splits)
  have "r_extra (cat_reader s) \<le> 1" by (cases "cat_reader s") auto
  then have w: "cat_writer s = W_nstored \<and> cat_nstored s = 0 \<or> cat_writer s = W_mutex \<and> cat_mutex s = 0 \<or> cat_writer s = W_done"
    using none(2) sems
    by (cases "cat_writer s") (auto simp: cat_consume_def Let_def px_wait_def px_post_def cat_sems_def split: if_splits)
  from r w sems data assms(2) show False
    by (auto simp: cat_sems_def cat_data_def cat_joined_def)
qed

section \<open>The whole program\<close>

abbreviation start_lines :: "byte list" where
  "start_lines \<equiv> debug_lines 1 NBLOCKS 0"

text \<open>The threads leave the buffer of \<open>stdio\<close> and \<open>main\<close> alone and only add to the output.\<close>

lemma cat_produce_main:
  "cat_produce k s = Some t \<Longrightarrow> cat_stdio t = cat_stdio s \<and> cat_main t = cat_main s \<and> cat_out t = cat_out s"
  by (cases "cat_reader s") (auto simp: cat_produce_def Let_def split: if_splits)

lemma cat_consume_main:
  "cat_consume s = Some t \<Longrightarrow> cat_stdio t = cat_stdio s \<and> cat_main t = cat_main s \<and> (\<exists>d. cat_out t = cat_out s @ d)"
  by (cases "cat_writer s") (auto simp: cat_consume_def Let_def split: if_splits)

lemma cat_step_main:
  "cat_step s t \<Longrightarrow> cat_stdio t = cat_stdio s \<and> cat_main t = cat_main s \<and> (\<exists>d. cat_out t = cat_out s @ d)"
  using cat_produce_main [of _ s t] cat_consume_main [of s t] by (auto simp: cat_step_def)

definition mycat2_inv :: "bool \<Rightarrow> byte list \<Rightarrow> nat \<Rightarrow> cat \<Rightarrow> bool" where
  [inv_defs]: "mycat2_inv tty input left s \<longleftrightarrow>
    (if cat_main s = M_join then
       cat_stdio s = (if tty then [] else start_lines) \<and> (\<exists>d. cat_out s = (if tty then start_lines else []) @ d) \<and>
       (\<exists>n. cat_inv ((if tty then start_lines else []) @ input) n s \<and> left = Suc (cat_left n s))
     else cat_joined s \<and>
       cat_out s = (if tty then start_lines @ input @ start_lines else input @ start_lines @ start_lines) \<and> left = 0)"

lemma cat_joined_values:
  assumes "cat_inv input n s" and "cat_joined s"
  shows "cat_out s = input \<and> cat_mutex s = 1 \<and> cat_nempty s = NBLOCKS \<and> cat_nstored s = 0"
  using assms by (auto simp: cat_inv_def cat_data_def cat_sems_def cat_joined_def)

lemma cat_joined_stops: "cat_joined s \<Longrightarrow> \<not> cat_step s t"
  by (auto simp: cat_joined_def cat_step_def cat_produce_def cat_consume_def)

lemma mycat2_keeps:
  assumes inv: "mycat2_inv tty input left s" and step: "mycat2_step tty s t"
  shows "\<exists>left'. mycat2_inv tty input left' t \<and> left' < left"
proof -
  have join: "cat_main s = M_join"
    using inv step cat_joined_stops [of s t]
    by (cases "cat_main s") (auto simp: mycat2_inv_def mycat2_step_def cat_exit_def)
  let ?in = "(if tty then start_lines else []) @ input"
  from inv join obtain n where n: "cat_inv ?in n s" "left = Suc (cat_left n s)"
    and out: "cat_stdio s = (if tty then [] else start_lines)" "\<exists>d. cat_out s = (if tty then start_lines else []) @ d"
    by (auto simp: mycat2_inv_def)
  show ?thesis
  proof (cases "cat_exit tty s = Some t")
    case True
    then have j: "cat_joined s" by (auto simp: cat_exit_def split: if_splits)
    from True join cat_joined_values [OF n(1) j] out n(2) have "mycat2_inv tty input 0 t"
      by (auto simp: mycat2_inv_def cat_exit_def cat_debug_def Let_def cat_joined_def j split: if_splits)
    with n(2) show ?thesis by auto
  next
    case False
    with step have cs: "cat_step s t" by (simp add: mycat2_step_def)
    from cat_step_keeps [OF n(1) cs] obtain n' where n': "cat_inv ?in n' t" "cat_left n' t < cat_left n s" by auto
    have "mycat2_inv tty input (Suc (cat_left n' t)) t"
      using n'(1) out cat_step_main [OF cs] join by (auto simp: mycat2_inv_def)
    with n' n(2) show ?thesis by auto
  qed
qed

lemma mycat2_path:
  assumes "mycat2_inv tty input left s" and "path_steps (mycat2_step tty) s ts"
  shows "\<exists>left'. mycat2_inv tty input left' (last (s # ts)) \<and> length ts + left' \<le> left"
  using assms
proof (induction ts arbitrary: left s)
  case (Cons t ts)
  then obtain l1 where "mycat2_inv tty input l1 t" and less: "l1 < left"
    using mycat2_keeps [of tty input left s t] by auto
  with Cons.IH [of l1 t] Cons.prems(2) obtain l' where
    "mycat2_inv tty input l' (last (t # ts))" "length ts + l' \<le> l1" by auto
  with less show ?case by (intro exI [of _ l']) auto
qed auto

lemma mycat2_progress:
  assumes "mycat2_inv tty input left s" and "cat_main s = M_join"
  shows "\<exists>t. mycat2_step tty s t"
proof (cases "cat_joined s")
  case True
  with assms(2) have "\<exists>t. cat_exit tty s = Some t" by (simp add: cat_exit_def Let_def)
  then show ?thesis by (auto simp: mycat2_step_def)
next
  case False
  with assms obtain n where "cat_inv ((if tty then start_lines else []) @ input) n s"
    by (auto simp: mycat2_inv_def)
  from cat_progress [OF this False] show ?thesis by (auto simp: mycat2_step_def)
qed

lemma mycat2_start: "mycat2_inv tty input (12 * length input + 14) (cat_start tty input)"
proof -
  have "cat_inv ((if tty then start_lines else []) @ input) 0 (cat_start tty input)"
    by (simp add: cat_inv_def cat_sems_def cat_data_def cat_start_def cat_debug_def Let_def)
  then show ?thesis
    by (auto simp: mycat2_inv_def cat_start_def cat_debug_def Let_def cat_left_def intro!: exI [of _ 0])
qed

section \<open>Properties\<close>

text \<open>
  C25. \<open>mycat2.c\<close> copies its input between the lines that \<open>main\<close> prints. Under every interleaving of the
  two threads and \<open>main\<close> and however much each read gives: until \<open>main\<close> exits, the standard output has
  the three lines of the start, if it is a terminal, and then a beginning of the file; some thread or
  \<open>main\<close> can run; every run is finite. When \<open>main\<close> has exited, the output is the whole file, and the
  six lines, three before and three after it on a terminal and all six after it otherwise, where
  \<open>printf\<close> is buffered until \<open>exit\<close>; the last three show the semaphores with the values they started with.
\<close>

theorem mycat2_copies:
  assumes "path_steps (mycat2_step tty) (cat_start tty input) ts" and "s = last (cat_start tty input # ts)"
  shows "(if cat_main s = M_join
      then (\<exists>copied rest. cat_out s = (if tty then debug_lines 1 NBLOCKS 0 else []) @ copied \<and> input = copied @ rest) \<and>
        (\<exists>t. mycat2_step tty s t)
      else cat_out s = (if tty then debug_lines 1 NBLOCKS 0 @ input @ debug_lines 1 NBLOCKS 0
        else input @ debug_lines 1 NBLOCKS 0 @ debug_lines 1 NBLOCKS 0)) \<and>
    length ts \<le> 12 * length input + 14"
proof -
  from mycat2_path [OF mycat2_start assms(1)] obtain l where inv: "mycat2_inv tty input l s"
    and len: "length ts + l \<le> 12 * length input + 14" unfolding assms(2) by blast
  have "\<exists>copied rest. cat_out s = (if tty then start_lines else []) @ copied \<and> input = copied @ rest"
    if "cat_main s = M_join"
    using inv that by (auto simp: mycat2_inv_def cat_inv_def cat_data_def)
  with inv mycat2_progress [OF inv] len show ?thesis by (auto simp: mycat2_inv_def)
qed

theorem mycat2_copies_witness: "\<exists>t. mycat2_step True (cat_start True [1, 2, 3]) t"
  using mycat2_copies [of True "[1, 2, 3]" "[]"] by (simp add: cat_start_def cat_debug_def Let_def)

text \<open>The lines as \<open>printf\<close> writes them.\<close>

lemma start_lines_text:
  "debug_lines 1 NBLOCKS 0 = map of_char (''shared.mutex value = 1'' @ [CHR 0x0A] @ ''shared.nempty value = 8'' @ [CHR 0x0A] @
    ''shared.nstored value = 0'' @ [CHR 0x0A])"
  by (simp add: debug_lines_def debug_line_def dec.simps)

end
