(* ===== verification/Px_Shm.thy ===== *)
theory Px_Shm
  imports Px_Prodcons
begin

text \<open>
  \<open>src/pxshm/client2.c\<close> and \<open>src/pxshm/server2.c\<close>: clients store messages into a circular buffer in
  shared memory and a server prints them; a client that finds the buffer full counts an overflow
  and goes on. A client takes its slot under the mutex and copies the message into it afterwards.
\<close>

section \<open>The shared memory\<close>

abbreviation (input) MESGSIZE :: nat where "MESGSIZE \<equiv> 256"
abbreviation (input) NMESG :: nat where "NMESG \<equiv> 16"

text \<open>
  A message is the \<open>pid\<close> of the client and its number. \<open>shm_data\<close> is the message at an offset, \<open>None\<close>
  before one was copied there.
\<close>

type_synonym shm_mesg = "int \<times> int"

datatype client_pc =
    K_test | K_try | K_ov_wait | K_ov_add | K_ov_post | K_mutex | K_take | K_unlock | K_copy | K_post | K_done

datatype server_pc =
    S_nstored | S_mutex | S_print | S_unlock | S_nempty | S_ov_wait | S_ov_read | S_ov_post | S_report

record client =
  cl_pid :: int
  cl_pc :: client_pc
  cl_i :: int
  cl_offset :: nat

record shm =
  shm_mutex :: nat
  shm_nempty :: nat
  shm_nstored :: nat
  shm_nput :: nat
  shm_noverflow :: int
  shm_noverflowmutex :: nat
  shm_msgoff :: "nat list"
  shm_data :: "nat \<Rightarrow> shm_mesg option"
  shm_clients :: "client list"
  srv_pc :: server_pc
  srv_index :: nat
  srv_temp :: int
  srv_last :: int
  srv_printed :: "(nat \<times> shm_mesg option) list"
  srv_reports :: "int list"

section \<open>The client\<close>

definition cl_at :: "nat \<Rightarrow> client_pc \<Rightarrow> shm \<Rightarrow> shm" where
  "cl_at j p s = s\<lparr>shm_clients := (shm_clients s)[j := (shm_clients s ! j)\<lparr>cl_pc := p\<rparr>]\<rparr>"

text \<open>The end of a round: \<open>i++\<close>.\<close>

definition cl_next :: "nat \<Rightarrow> shm \<Rightarrow> shm" where
  "cl_next j s =
    s\<lparr>shm_clients := (shm_clients s)[j := (shm_clients s ! j)\<lparr>cl_i := cl_i (shm_clients s ! j) + 1, cl_pc := K_test\<rparr>]\<rparr>"

definition client_step :: "int \<Rightarrow> nat \<Rightarrow> shm \<Rightarrow> shm option" where
  "client_step nloop j s =
    (let c = shm_clients s ! j in
     case cl_pc c of
      K_test \<Rightarrow> Some (cl_at j (if cl_i c < nloop then K_try else K_done) s)
    | K_try \<Rightarrow>
        (case px_wait (shm_nempty s) of
          None \<Rightarrow> Some (cl_at j K_ov_wait s)
        | Some q \<Rightarrow> Some (cl_at j K_mutex (s\<lparr>shm_nempty := q\<rparr>)))
    | K_ov_wait \<Rightarrow>
        map_option (\<lambda>q. cl_at j K_ov_add (s\<lparr>shm_noverflowmutex := q\<rparr>)) (px_wait (shm_noverflowmutex s))
    | K_ov_add \<Rightarrow> Some (cl_at j K_ov_post (s\<lparr>shm_noverflow := shm_noverflow s + 1\<rparr>))
    | K_ov_post \<Rightarrow> map_option (\<lambda>q. cl_next j (s\<lparr>shm_noverflowmutex := q\<rparr>)) (px_post (shm_noverflowmutex s))
    | K_mutex \<Rightarrow> map_option (\<lambda>q. cl_at j K_take (s\<lparr>shm_mutex := q\<rparr>)) (px_wait (shm_mutex s))
    | K_take \<Rightarrow>
        Some (s\<lparr>shm_clients := (shm_clients s)[j := c\<lparr>cl_offset := shm_msgoff s ! shm_nput s, cl_pc := K_unlock\<rparr>],
                shm_nput := (if NMESG \<le> Suc (shm_nput s) then 0 else Suc (shm_nput s))\<rparr>)
    | K_unlock \<Rightarrow> map_option (\<lambda>q. cl_at j K_copy (s\<lparr>shm_mutex := q\<rparr>)) (px_post (shm_mutex s))
    | K_copy \<Rightarrow> Some (cl_at j K_post (s\<lparr>shm_data := (shm_data s)(cl_offset c := Some (cl_pid c, cl_i c))\<rparr>))
    | K_post \<Rightarrow> map_option (\<lambda>q. cl_next j (s\<lparr>shm_nstored := q\<rparr>)) (px_post (shm_nstored s))
    | K_done \<Rightarrow> None)"

section \<open>The server\<close>

definition server_step :: "shm \<Rightarrow> shm option" where
  "server_step s =
    (case srv_pc s of
      S_nstored \<Rightarrow> map_option (\<lambda>q. s\<lparr>shm_nstored := q, srv_pc := S_mutex\<rparr>) (px_wait (shm_nstored s))
    | S_mutex \<Rightarrow> map_option (\<lambda>q. s\<lparr>shm_mutex := q, srv_pc := S_print\<rparr>) (px_wait (shm_mutex s))
    | S_print \<Rightarrow>
        Some (s\<lparr>srv_printed := srv_printed s @ [(srv_index s, shm_data s (shm_msgoff s ! srv_index s))],
                srv_index := (if NMESG \<le> Suc (srv_index s) then 0 else Suc (srv_index s)), srv_pc := S_unlock\<rparr>)
    | S_unlock \<Rightarrow> map_option (\<lambda>q. s\<lparr>shm_mutex := q, srv_pc := S_nempty\<rparr>) (px_post (shm_mutex s))
    | S_nempty \<Rightarrow> map_option (\<lambda>q. s\<lparr>shm_nempty := q, srv_pc := S_ov_wait\<rparr>) (px_post (shm_nempty s))
    | S_ov_wait \<Rightarrow> map_option (\<lambda>q. s\<lparr>shm_noverflowmutex := q, srv_pc := S_ov_read\<rparr>) (px_wait (shm_noverflowmutex s))
    | S_ov_read \<Rightarrow> Some (s\<lparr>srv_temp := shm_noverflow s, srv_pc := S_ov_post\<rparr>)
    | S_ov_post \<Rightarrow> map_option (\<lambda>q. s\<lparr>shm_noverflowmutex := q, srv_pc := S_report\<rparr>) (px_post (shm_noverflowmutex s))
    | S_report \<Rightarrow>
        Some (if srv_temp s \<noteq> srv_last s
          then s\<lparr>srv_reports := srv_reports s @ [srv_temp s], srv_last := srv_temp s, srv_pc := S_nstored\<rparr>
          else s\<lparr>srv_pc := S_nstored\<rparr>))"

definition shm_step :: "int \<Rightarrow> shm \<Rightarrow> shm \<Rightarrow> bool" where
  "shm_step nloop s t \<longleftrightarrow>
    (\<exists>j < length (shm_clients s). client_step nloop j s = Some t) \<or> server_step s = Some t"

text \<open>The memory as \<open>server2\<close> sets it up, with clients of the given processes that have opened it.\<close>

definition shm_start :: "int list \<Rightarrow> shm" where
  "shm_start pids =
    \<lparr>shm_mutex = 1, shm_nempty = NMESG, shm_nstored = 0, shm_nput = 0, shm_noverflow = 0, shm_noverflowmutex = 1,
     shm_msgoff = map (\<lambda>index. index * MESGSIZE) [0..<NMESG], shm_data = (\<lambda>_. None),
     shm_clients = map (\<lambda>pid. \<lparr>cl_pid = pid, cl_pc = K_test, cl_i = 0, cl_offset = 0\<rparr>) pids,
     srv_pc = S_nstored, srv_index = 0, srv_temp = 0, srv_last = 0, srv_printed = [], srv_reports = []\<rparr>"

section \<open>One client\<close>

fun k_slot :: "client_pc \<Rightarrow> nat" where
  "k_slot K_mutex = 1" | "k_slot K_take = 1" | "k_slot _ = 0"

fun k_lock :: "client_pc \<Rightarrow> nat" where
  "k_lock K_take = 1" | "k_lock K_unlock = 1" | "k_lock _ = 0"

fun k_ovlock :: "client_pc \<Rightarrow> nat" where
  "k_ovlock K_ov_add = 1" | "k_ovlock K_ov_post = 1" | "k_ovlock _ = 0"

text \<open>A slot that is taken and not announced, and one that has no message yet.\<close>

fun k_taken :: "client_pc \<Rightarrow> nat" where
  "k_taken K_unlock = 1" | "k_taken K_copy = 1" | "k_taken K_post = 1" | "k_taken _ = 0"

fun k_open :: "client_pc \<Rightarrow> nat" where
  "k_open K_unlock = 1" | "k_open K_copy = 1" | "k_open _ = 0"

text \<open>The round is accounted for before its number is raised.\<close>

fun k_counted :: "client_pc \<Rightarrow> int" where
  "k_counted K_post = 1" | "k_counted K_ov_post = 1" | "k_counted _ = 0"

fun s_item :: "server_pc \<Rightarrow> nat" where
  "s_item S_mutex = 1" | "s_item S_print = 1" | "s_item _ = 0"

fun s_lock :: "server_pc \<Rightarrow> nat" where
  "s_lock S_print = 1" | "s_lock S_unlock = 1" | "s_lock _ = 0"

fun s_freed :: "server_pc \<Rightarrow> nat" where
  "s_freed S_unlock = 1" | "s_freed S_nempty = 1" | "s_freed _ = 0"

fun s_ovlock :: "server_pc \<Rightarrow> nat" where
  "s_ovlock S_ov_read = 1" | "s_ovlock S_ov_post = 1" | "s_ovlock _ = 0"

definition slots :: "shm \<Rightarrow> shm_mesg option list" where
  "slots s = map (shm_data s) (shm_msgoff s)"

text \<open>With \<open>n\<close> slots in use.\<close>

definition shm_sems :: "nat \<Rightarrow> client \<Rightarrow> shm \<Rightarrow> bool" where
  "shm_sems n c s \<longleftrightarrow>
    shm_mutex s + k_lock (cl_pc c) + s_lock (srv_pc s) = 1 \<and>
    shm_noverflowmutex s + k_ovlock (cl_pc c) + s_ovlock (srv_pc s) = 1 \<and>
    shm_nstored s + s_item (srv_pc s) + k_taken (cl_pc c) = n \<and>
    shm_nempty s + n + k_slot (cl_pc c) + s_freed (srv_pc s) = NMESG"

text \<open>The slots: where the next message goes and where the one in progress is.\<close>

definition shm_ring :: "nat \<Rightarrow> client \<Rightarrow> shm \<Rightarrow> bool" where
  "shm_ring n c s \<longleftrightarrow>
    shm_msgoff s = map (\<lambda>index. index * MESGSIZE) [0..<NMESG] \<and> srv_index s < NMESG \<and>
    shm_nput s = (srv_index s + n) mod NMESG \<and>
    (k_taken (cl_pc c) = 1 \<longrightarrow> cl_offset c = (srv_index s + (n - 1)) mod NMESG * MESGSIZE)"

text \<open>The messages printed and the ones in the buffer are those of the rounds \<open>is\<close>.\<close>

definition shm_mesgs :: "nat \<Rightarrow> int list \<Rightarrow> client \<Rightarrow> shm \<Rightarrow> bool" where
  "shm_mesgs n is c s \<longleftrightarrow>
    map snd (srv_printed s) @ ring NMESG (slots s) (srv_index s) (n - k_open (cl_pc c)) =
      map (\<lambda>i. Some (cl_pid c, i)) is \<and>
    sorted_wrt (<) is \<and> (\<forall>i \<in> set is. 0 \<le> i \<and> i < cl_i c + k_counted (cl_pc c)) \<and>
    int (length is) + shm_noverflow s = cl_i c + k_counted (cl_pc c)"

text \<open>The server goes round the slots.\<close>

definition shm_order :: "shm \<Rightarrow> bool" where
  "shm_order s \<longleftrightarrow>
    map fst (srv_printed s) = map (\<lambda>k. k mod NMESG) [0..<length (srv_printed s)] \<and>
    srv_index s = length (srv_printed s) mod NMESG"

definition cl_range :: "int \<Rightarrow> client \<Rightarrow> bool" where
  "cl_range nloop c \<longleftrightarrow> 0 \<le> cl_i c \<and> cl_i c \<le> max 0 nloop \<and>
    (cl_pc c \<notin> {K_test, K_done} \<longrightarrow> cl_i c < nloop) \<and> (cl_pc c = K_done \<longrightarrow> nloop \<le> cl_i c)"

definition shm_inv :: "int \<Rightarrow> int \<Rightarrow> nat \<Rightarrow> int list \<Rightarrow> client \<Rightarrow> shm \<Rightarrow> bool" where
  [inv_defs]: "shm_inv nloop pid n is c s \<longleftrightarrow>
    shm_clients s = [c] \<and> cl_pid c = pid \<and> cl_range nloop c \<and> shm_sems n c s \<and> shm_ring n c s \<and> shm_mesgs n is c s \<and>
    shm_order s"

lemma slots_length: "shm_ring n c s \<Longrightarrow> length (slots s) = NMESG"
  by (simp add: shm_ring_def slots_def)

lemma slots_nth: "shm_ring n c s \<Longrightarrow> k < NMESG \<Longrightarrow> slots s ! k = shm_data s (k * MESGSIZE)"
  by (simp add: shm_ring_def slots_def)

lemma slots_copy:
  assumes "shm_msgoff s = map (\<lambda>index. index * MESGSIZE) [0..<NMESG]" and "k < NMESG"
  shows "slots (s\<lparr>shm_data := (shm_data s)(k * MESGSIZE := Some m)\<rparr>) = (slots s)[k := Some m]"
  using assms by (auto simp: slots_def intro!: nth_equalityI simp: nth_list_update)

text \<open>The three statements that move messages.\<close>

lemma take_keeps:
  assumes inv: "shm_inv nloop pid n is c s" and pc: "cl_pc c = K_take" and run: "client_step nloop 0 s = Some t"
  shows "\<exists>c'. shm_inv nloop pid (Suc n) is c' t"
proof -
  let ?c = "c\<lparr>cl_offset := shm_msgoff s ! shm_nput s, cl_pc := K_unlock\<rparr>"
  have p: "shm_nput s < NMESG" using inv by (simp add: shm_inv_def shm_ring_def)
  have t: "t = s\<lparr>shm_clients := [?c], shm_nput := Suc (shm_nput s) mod NMESG\<rparr>"
    using run pc inv ring_next [OF p] by (auto simp: client_step_def shm_inv_def)
  have "shm_sems (Suc n) ?c t" using inv pc t by (simp add: shm_inv_def shm_sems_def)
  moreover have "shm_ring (Suc n) ?c t" using inv pc t p by (auto simp: shm_inv_def shm_ring_def mod_Suc_eq)
  moreover have "shm_mesgs n is c s" using inv by (simp add: shm_inv_def)
  then have "shm_mesgs (Suc n) is ?c t" using pc t by (simp add: shm_mesgs_def slots_def)
  ultimately have "shm_inv nloop pid (Suc n) is ?c t"
    using inv pc t by (simp add: shm_inv_def cl_range_def shm_order_def)
  then show ?thesis by blast
qed

lemma copy_keeps:
  assumes inv: "shm_inv nloop pid n is c s" and pc: "cl_pc c = K_copy" and run: "client_step nloop 0 s = Some t"
  shows "\<exists>c'. shm_inv nloop pid n (is @ [cl_i c]) c' t"
proof -
  let ?c = "c\<lparr>cl_pc := K_post\<rparr>" and ?k = "(srv_index s + (n - 1)) mod NMESG"
  have ring: "shm_ring n c s" and mesgs: "shm_mesgs n is c s" and sems: "shm_sems n c s"
    using inv by (simp_all add: shm_inv_def)
  have off: "cl_offset c = ?k * MESGSIZE" using ring pc by (simp add: shm_ring_def)
  have t: "t = s\<lparr>shm_clients := [?c], shm_data := (shm_data s)(?k * MESGSIZE := Some (cl_pid c, cl_i c))\<rparr>"
    using run pc inv off by (auto simp: client_step_def shm_inv_def cl_at_def)
  have n: "n - 1 < NMESG" "Suc (n - 1) = n" using sems pc by (auto simp: shm_sems_def)
  have "slots t = (slots s)[?k := Some (cl_pid c, cl_i c)]"
    using slots_copy [of s ?k "(cl_pid c, cl_i c)"] ring t by (simp add: shm_ring_def slots_def)
  then have "ring NMESG (slots t) (srv_index s) n = ring NMESG (slots s) (srv_index s) (n - 1) @ [Some (cl_pid c, cl_i c)]"
    using ring_put [OF slots_length [OF ring] n(1), of "srv_index s" "Some (cl_pid c, cl_i c)"] n(2) by simp
  then have "shm_mesgs n (is @ [cl_i c]) ?c t"
    using mesgs pc t inv by (auto simp: shm_mesgs_def sorted_wrt_append shm_inv_def cl_range_def)
  then have "shm_inv nloop pid n (is @ [cl_i c]) ?c t"
    using inv pc t by (simp add: shm_inv_def shm_sems_def shm_ring_def cl_range_def shm_order_def)
  then show ?thesis by blast
qed

lemma print_keeps:
  assumes inv: "shm_inv nloop pid n is c s" and pc: "srv_pc s = S_print" and run: "server_step s = Some t"
  shows "shm_inv nloop pid (n - 1) is c t"
proof -
  have ring: "shm_ring n c s" and mesgs: "shm_mesgs n is c s" and sems: "shm_sems n c s"
    using inv by (simp_all add: shm_inv_def)
  have i: "srv_index s < NMESG" using ring by (simp add: shm_ring_def)
  let ?i = "Suc (srv_index s) mod NMESG"
  have t: "t = s\<lparr>srv_printed := srv_printed s @ [(srv_index s, slots s ! srv_index s)], srv_index := ?i, srv_pc := S_unlock\<rparr>"
    using run pc ring_next [OF i] slots_nth [OF ring i] ring i
    by (auto simp: server_step_def shm_ring_def)
  have "k_open (cl_pc c) \<le> k_taken (cl_pc c)" by (cases "cl_pc c") auto
  then obtain f where f: "n - k_open (cl_pc c) = Suc f" "n - 1 - k_open (cl_pc c) = f"
    using sems pc by (cases "n - k_open (cl_pc c)") (auto simp: shm_sems_def)
  have same: "slots t = slots s" using t by (simp add: slots_def)
  have fields: "srv_printed t = srv_printed s @ [(srv_index s, slots s ! srv_index s)]" "srv_index t = ?i"
    "shm_noverflow t = shm_noverflow s" using t by simp_all
  have "shm_mesgs (n - 1) is c t"
    using mesgs f fields ring_Suc [of NMESG "slots s" "srv_index s" f] i
    by (simp add: shm_mesgs_def same)
  moreover have "shm_order t" using inv t by (auto simp: shm_inv_def shm_order_def mod_Suc_eq)
  moreover have "shm_sems (n - 1) c t" using sems pc t by (auto simp: shm_sems_def)
  moreover have "shm_ring (n - 1) c t"
  proof -
    have "0 < n" using f by (cases n) auto
    then have "(?i + (n - 1)) mod NMESG = (srv_index s + n) mod NMESG" by (cases n) (simp_all add: mod_simps)
    moreover have "(?i + (n - 1 - 1)) mod NMESG = (srv_index s + (n - 1)) mod NMESG" if "k_taken (cl_pc c) = 1"
    proof -
      have "Suc (n - 1 - 1) = n - 1" using sems pc that by (auto simp: shm_sems_def)
      then show ?thesis by (metis add_Suc_shift mod_add_left_eq)
    qed
    ultimately show ?thesis using ring t by (simp add: shm_ring_def)
  qed
  ultimately show ?thesis using inv t by (simp add: shm_inv_def)
qed

text \<open>The other statements leave the slots alone.\<close>

lemma shm_frame:
  assumes inv: "shm_inv nloop pid n is c s" and cl: "shm_clients t = [c']" "cl_pid c' = cl_pid c" "cl_offset c' = cl_offset c"
    and same: "shm_msgoff t = shm_msgoff s" "shm_data t = shm_data s" "shm_nput t = shm_nput s"
      "srv_index t = srv_index s" "srv_printed t = srv_printed s"
    and taken: "k_taken (cl_pc c') = 1 \<longrightarrow> k_taken (cl_pc c) = 1" "k_open (cl_pc c') = k_open (cl_pc c)"
    and count: "shm_noverflow t + cl_i c + k_counted (cl_pc c) = shm_noverflow s + cl_i c' + k_counted (cl_pc c')"
      "cl_i c + k_counted (cl_pc c) \<le> cl_i c' + k_counted (cl_pc c')"
    and new: "shm_sems n c' t" "cl_range nloop c'"
  shows "shm_inv nloop pid n is c' t"
proof -
  have "slots t = slots s" using same by (simp add: slots_def)
  moreover have "\<forall>i \<in> set is. 0 \<le> i \<and> i < cl_i c' + k_counted (cl_pc c')"
    using inv count(2) by (fastforce simp: shm_inv_def shm_mesgs_def)
  ultimately have "shm_mesgs n is c' t"
    using inv same cl taken(2) count(1) by (simp add: shm_inv_def shm_mesgs_def)
  moreover have "shm_ring n c' t" using inv same cl taken(1) by (simp add: shm_inv_def shm_ring_def)
  moreover have "shm_order t" using inv same by (simp add: shm_inv_def shm_order_def)
  ultimately show ?thesis using inv cl new by (simp add: shm_inv_def)
qed

lemmas client_moves = client_step_def cl_at_def cl_next_def px_wait_def px_post_def

lemma client_sems:
  assumes "shm_inv nloop pid n is c s" and "client_step nloop 0 s = Some t" and "cl_pc c \<notin> {K_take, K_copy}"
  shows "shm_sems n (shm_clients t ! 0) t \<and> cl_range nloop (shm_clients t ! 0)"
  using assms
  by (cases "cl_pc c") (auto simp: client_moves shm_inv_def shm_sems_def cl_range_def split: if_splits)

lemma client_keeps:
  assumes inv: "shm_inv nloop pid n is c s" and run: "client_step nloop 0 s = Some t"
  shows "\<exists>n' is' c'. shm_inv nloop pid n' is' c' t"
proof (cases "cl_pc c \<in> {K_take, K_copy}")
  case True
  with take_keeps [OF inv _ run] copy_keeps [OF inv _ run] show ?thesis by auto
next
  case False
  have c: "shm_clients s = [c]" using inv by (simp add: shm_inv_def)
  have "shm_inv nloop pid n is (shm_clients t ! 0) t"
    using client_sems [OF inv run False] False run c
    by (intro shm_frame [OF inv]; cases "cl_pc c") (auto simp: client_moves split: if_splits)
  then show ?thesis by blast
qed

lemma server_keeps:
  assumes inv: "shm_inv nloop pid n is c s" and run: "server_step s = Some t"
  shows "\<exists>n'. shm_inv nloop pid n' is c t"
proof (cases "srv_pc s = S_print")
  case True
  with print_keeps [OF inv _ run] show ?thesis by blast
next
  case False
  have c: "shm_clients s = [c]" "cl_range nloop c" using inv by (simp_all add: shm_inv_def)
  have "shm_sems n c t" using inv run False
    by (cases "srv_pc s") (auto simp: server_step_def px_wait_def px_post_def shm_inv_def shm_sems_def split: if_splits)
  then have "shm_inv nloop pid n is c t" using c False run
    by (intro shm_frame [OF inv]; cases "srv_pc s")
      (auto simp: server_step_def px_wait_def px_post_def split: if_splits)
  then show ?thesis by blast
qed

lemma shm_start_inv: "shm_inv nloop pid 0 [] \<lparr>cl_pid = pid, cl_pc = K_test, cl_i = 0, cl_offset = 0\<rparr> (shm_start [pid])"
  by (simp add: shm_inv_def cl_range_def shm_sems_def shm_ring_def shm_mesgs_def shm_order_def shm_start_def)

interpretation one_client: inductive_invariant "\<lambda>s. s = shm_start [pid]" "shm_step nloop"
  "\<lambda>s. \<exists>n is c. shm_inv nloop pid n is c s" for pid nloop
proof
  fix s assume "s = shm_start [pid]"
  then show "\<exists>n is c. shm_inv nloop pid n is c s" using shm_start_inv by blast
next
  fix s t assume "\<exists>n is c. shm_inv nloop pid n is c s" and step: "shm_step nloop s t"
  then obtain n "is" c where inv: "shm_inv nloop pid n is c s" by blast
  have one: "length (shm_clients s) = 1" using inv by (simp add: shm_inv_def)
  from step have "client_step nloop 0 s = Some t \<or> server_step s = Some t" by (auto simp: shm_step_def one)
  then show "\<exists>n is c. shm_inv nloop pid n is c t" using client_keeps [OF inv] server_keeps [OF inv] by blast
qed

lemma shm_quiet:
  assumes inv: "shm_inv nloop pid n is c s" and stuck: "\<And>t. \<not> shm_step nloop s t"
  shows "n = 0 \<and> cl_pc c = K_done"
proof -
  have cl: "shm_clients s = [c]" and sems: "shm_sems n c s" using inv by (simp_all add: shm_inv_def)
  then have none: "client_step nloop 0 s = None" "server_step s = None"
    using stuck unfolding shm_step_def by (metis length_Cons not_None_eq zero_less_Suc)+
  have "cl_pc c = K_ov_wait \<and> shm_noverflowmutex s = 0 \<or> cl_pc c = K_mutex \<and> shm_mutex s = 0 \<or> cl_pc c = K_done"
    using none(1) sems cl
    by (cases "cl_pc c") (auto simp: client_moves shm_sems_def Let_def split: if_splits)
  moreover have "srv_pc s = S_nstored \<and> shm_nstored s = 0 \<or> srv_pc s = S_mutex \<and> shm_mutex s = 0 \<or>
      srv_pc s = S_ov_wait \<and> shm_noverflowmutex s = 0"
    using none(2) sems
    by (cases "srv_pc s") (auto simp: server_step_def px_wait_def px_post_def shm_sems_def split: if_splits)
  ultimately show ?thesis using sems by (auto simp: shm_sems_def)
qed

section \<open>Two clients\<close>

text \<open>A run given by the thread of each step: a client by its number, or the server.\<close>

fun shm_run :: "int \<Rightarrow> nat option list \<Rightarrow> shm \<Rightarrow> shm option" where
  "shm_run nloop [] s = Some s"
| "shm_run nloop (Some j # who) s =
    (if j < length (shm_clients s)
     then (case client_step nloop j s of None \<Rightarrow> None | Some t \<Rightarrow> shm_run nloop who t) else None)"
| "shm_run nloop (None # who) s = (case server_step s of None \<Rightarrow> None | Some t \<Rightarrow> shm_run nloop who t)"

lemma shm_run_reach:
  "shm_run nloop who s = Some t \<Longrightarrow> reach start (shm_step nloop) s \<Longrightarrow> reach start (shm_step nloop) t"
proof (induction nloop who s rule: shm_run.induct)
  case (2 nloop j who s)
  then obtain u where "j < length (shm_clients s)" "client_step nloop j s = Some u" "shm_run nloop who u = Some t"
    by (auto split: if_splits option.splits)
  with 2 show ?case by (auto simp: shm_step_def intro: reach_step)
next
  case (3 nloop who s)
  then obtain u where "server_step s = Some u" "shm_run nloop who u = Some t" by (auto split: option.splits)
  with 3 show ?case by (auto simp: shm_step_def intro: reach_step)
qed simp

section \<open>Properties\<close>

text \<open>
  C28. With one client, \<open>server2\<close> prints the messages that \<open>client2\<close> stored, in order and each once,
  going round the slots; and whenever nothing can run the client is done and every one of its rounds
  was printed or counted as an overflow.
\<close>

theorem shm_one_client:
  assumes "reach (\<lambda>s. s = shm_start [pid]) (shm_step nloop) s"
  shows "map fst (srv_printed s) = map (\<lambda>k. k mod NMESG) [0..<length (srv_printed s)] \<and>
    (\<exists>is. map snd (srv_printed s) = map (\<lambda>i. Some (pid, i)) is \<and> sorted_wrt (<) is \<and> set is \<subseteq> {0..<nloop}) \<and>
    ((\<exists>t. shm_step nloop s t) \<or> int (length (srv_printed s)) + shm_noverflow s = max 0 nloop)"
proof -
  obtain n "is" c where inv: "shm_inv nloop pid n is c s" using one_client.inv_reach [OF assms] by blast
  let ?p = "length (srv_printed s)"
  have mesgs: "shm_mesgs n is c s" and range: "cl_range nloop c" and pid: "cl_pid c = pid"
    using inv by (simp_all add: shm_inv_def)
  have "map snd (srv_printed s) = map (\<lambda>i. Some (pid, i)) (take ?p is)"
    using mesgs pid by (auto simp: shm_mesgs_def append_eq_conv_conj take_map)
  moreover have "sorted_wrt (<) (take ?p is)" using mesgs by (simp add: shm_mesgs_def sorted_wrt_take)
  moreover have "set is \<subseteq> {0..<nloop}"
  proof -
    have "cl_i c + k_counted (cl_pc c) \<le> max 0 nloop" using range by (cases "cl_pc c") (auto simp: cl_range_def)
    then show ?thesis using mesgs by (fastforce simp: shm_mesgs_def)
  qed
  then have "set (take ?p is) \<subseteq> {0..<nloop}" using set_take_subset [of ?p "is"] by blast
  moreover have "int ?p + shm_noverflow s = max 0 nloop" if "\<And>t. \<not> shm_step nloop s t"
  proof -
    note q = shm_quiet [OF inv that]
    have "map snd (srv_printed s) = map (\<lambda>i. Some (cl_pid c, i)) is"
      using mesgs q by (simp add: shm_mesgs_def)
    then have "?p = length is" by (metis length_map)
    with mesgs range q show ?thesis by (auto simp: shm_mesgs_def cl_range_def)
  qed
  ultimately show ?thesis using inv by (auto simp: shm_inv_def shm_order_def)
qed

theorem shm_one_client_witness: "\<exists>t. shm_step 3 (shm_start [7]) t"
  using shm_one_client [of 7 3 "shm_start [7]", OF reach_start] by (simp add: shm_start_def)

text \<open>
  With two clients the server can print a slot that holds no message: a client that has taken its
  slot but not copied its message yet is overtaken by another, whose post lets the server go on to
  the first slot.
\<close>

lemma shm_two_clients_race:
  "\<exists>s. reach (\<lambda>s. s = shm_start [1, 2]) (shm_step 1) s \<and> srv_printed s = [(0, None)] \<and>
    cl_pc (shm_clients s ! 0) = K_copy \<and> shm_data s MESGSIZE = Some (2, 0)"
proof -
  let ?c = "\<lambda>pid pc i off. \<lparr>cl_pid = pid, cl_pc = pc, cl_i = i, cl_offset = off\<rparr> :: client"
  let ?s1 = "(shm_start [1, 2])\<lparr>shm_nempty := 15, shm_nput := 1, shm_clients := [?c 1 K_copy 0 0, ?c 2 K_test 0 0]\<rparr>"
  let ?s2 = "?s1\<lparr>shm_nempty := 14, shm_nput := 2, shm_clients := [?c 1 K_copy 0 0, ?c 2 K_unlock 0 MESGSIZE], shm_mutex := 0\<rparr>"
  let ?s3 = "?s2\<lparr>shm_mutex := 1, shm_data := (shm_data ?s2)(MESGSIZE := Some (2, 0)), shm_nstored := 1,
    shm_clients := [?c 1 K_copy 0 0, ?c 2 K_test 1 MESGSIZE]\<rparr>"
  let ?s4 = "?s3\<lparr>shm_nstored := 0, shm_mutex := 0, srv_printed := [(0, None)], srv_index := 1, srv_pc := S_unlock\<rparr>"
  note run = shm_start_def client_moves server_step_def
  have start: "reach (\<lambda>s. s = shm_start [1, 2]) (shm_step 1) (shm_start [1, 2])" by (rule reach_start) simp
  have 1: "shm_run 1 [Some 0, Some 0, Some 0, Some 0, Some 0] (shm_start [1, 2]) = Some ?s1"
    by (simp add: run del: upt_Suc)
  have 2: "shm_run 1 [Some 1, Some 1, Some 1, Some 1] ?s1 = Some ?s2" by (simp add: run del: upt_Suc)
  have 3: "shm_run 1 [Some 1, Some 1, Some 1] ?s2 = Some ?s3" by (simp add: run del: upt_Suc)
  have 4: "shm_run 1 [None, None, None] ?s3 = Some ?s4" by (simp add: run del: upt_Suc)
  note shm_run_reach [OF 4 shm_run_reach [OF 3 shm_run_reach [OF 2 shm_run_reach [OF 1 start]]]]
  then show ?thesis by (intro exI [of _ ?s4]) simp
qed

end
