(* ===== verification/Mesg.thy ===== *)
theory Mesg
  imports Lib_IO
begin

text \<open>
  The messages of \<open>src/pipemesg\<close>: a structure with a length, a type and data is sent over a pipe or
  a FIFO as a header and the bytes of the data, and received by reading the header first
  (\<open>mesg.h\<close>, \<open>mesg_send.c\<close>, \<open>mesg_recv.c\<close>). The messages are modelled down to the bytes of the structure.
\<close>

section \<open>The bytes of a long\<close>

type_synonym long = "64 word"

text \<open>Little endian.\<close>

primrec bytes_of :: "nat \<Rightarrow> nat \<Rightarrow> byte list" where
  "bytes_of 0 v = []"
| "bytes_of (Suc k) v = word_of_nat v # bytes_of k (v div 256)"

primrec of_bytes :: "byte list \<Rightarrow> nat" where
  "of_bytes [] = 0"
| "of_bytes (b # bs) = unat b + 256 * of_bytes bs"

definition long_bytes :: "long \<Rightarrow> byte list" where
  "long_bytes w = bytes_of 8 (unat w)"

definition long_of :: "byte list \<Rightarrow> long" where
  "long_of bs = word_of_nat (of_bytes bs)"

lemma length_bytes_of [simp]: "length (bytes_of k v) = k"
  by (induction k arbitrary: v) auto

lemma of_bytes_of: "v < 256 ^ k \<Longrightarrow> of_bytes (bytes_of k v) = v"
proof (induction k arbitrary: v)
  case (Suc k)
  have "v div 256 < 256 ^ k" using Suc.prems by (simp add: less_mult_imp_div_less mult.commute)
  with Suc.IH show ?case by (simp add: unat_of_nat)
qed simp

lemma length_long_bytes [simp]: "length (long_bytes w) = 8"
  by (simp add: long_bytes_def)

lemma long_bytes_not_Nil [simp]: "long_bytes w \<noteq> []"
  using length_long_bytes [of w] by (metis length_0_conv zero_neq_numeral)

lemma long_of_bytes [simp]: "long_of (long_bytes w) = w"
proof -
  have "unat w < 2 ^ LENGTH(64)" by (rule unsigned_less)
  then have "of_bytes (bytes_of 8 (unat w)) = unat w" by (intro of_bytes_of) simp
  then show ?thesis by (simp add: long_of_def long_bytes_def)
qed

section \<open>mesg.h\<close>

abbreviation (input) PIPE_BUF :: nat where "PIPE_BUF \<equiv> 4096"
abbreviation (input) MAXMESGDATA :: nat where "MAXMESGDATA \<equiv> 4080"
abbreviation (input) MESGHDRSIZE :: nat where "MESGHDRSIZE \<equiv> 16"

record mymesg =
  mesg_len :: long
  mesg_type :: long
  mesg_data :: "byte list"

definition mymesg_bytes :: "mymesg \<Rightarrow> byte list" where
  "mymesg_bytes m = long_bytes (mesg_len m) @ long_bytes (mesg_type m) @ mesg_data m"

definition mesg_wf :: "mymesg \<Rightarrow> bool" where
  "mesg_wf m \<longleftrightarrow> length (mesg_data m) = MAXMESGDATA \<and> unat (mesg_len m) \<le> MAXMESGDATA"

section \<open>mesg_send\<close>

text \<open>
  A \<open>write\<close> of at most \<open>PIPE_BUF\<close> bytes to a pipe or FIFO is atomic: it fails or appends all of them.
  The number of bytes is computed as an unsigned 64-bit number. \<open>None\<close> is a write from beyond the
  structure.
\<close>

definition mesg_send :: "unit result \<Rightarrow> mymesg \<Rightarrow> byte list \<Rightarrow> (nat result \<times> byte list) option" where
  "mesg_send wr m chan =
    (let n = unat (of_nat MESGHDRSIZE + mesg_len m) in
     if PIPE_BUF < n then None
     else
       (case wr of
         Inl e \<Rightarrow> Some (Inl e, chan)
       | Inr _ \<Rightarrow> Some (Inr n, chan @ take n (mymesg_bytes m))))"

text \<open>The wrapper compares what was written with the length of the data.\<close>

definition Mesg_send :: "unit result \<Rightarrow> mymesg \<Rightarrow> byte list \<Rightarrow> (unit called \<times> byte list) option" where
  "Mesg_send wr m chan =
    map_option (\<lambda>(r, chan').
      (if (case r of Inl e \<Rightarrow> - 1 | Inr n \<Rightarrow> int n) \<noteq> sint (mesg_len m)
       then Err_quit ''mesg_send error'' else Done (), chan')) (mesg_send wr m chan)"

section \<open>mesg_recv\<close>

text \<open>
  A \<open>Read\<close> from the pipe gives what is there up to the number of bytes asked for, nothing at end of
  file. The result is the number returned, the structure and what is left in the pipe; \<open>None\<close> is a
  read of more data than \<open>mesg_data\<close> has room for.
\<close>

definition mesg_recv :: "mymesg \<Rightarrow> byte list \<Rightarrow> ((nat \<times> mymesg) called \<times> byte list) option" where
  "mesg_recv m chan =
    (let hdr = take MESGHDRSIZE chan; chan = drop MESGHDRSIZE chan in
     if hdr = [] then Some (Done (0, m), chan)
     else if length hdr \<noteq> MESGHDRSIZE then Some (Err_quit ''message header'', chan)
     else
       let m = m\<lparr>mesg_len := long_of (take 8 hdr), mesg_type := long_of (drop 8 hdr)\<rparr>;
           len = unat (mesg_len m)
       in if len = 0 then Some (Done (0, m), chan)
          else
            let data = take len chan in
            if MAXMESGDATA < length data then None
            else if length data \<noteq> len then Some (Err_quit ''message data'', drop len chan)
            else Some (Done (len, m\<lparr>mesg_data := data @ drop len (mesg_data m)\<rparr>), drop len chan))"

definition Mesg_recv :: "mymesg \<Rightarrow> byte list \<Rightarrow> ((nat \<times> mymesg) called \<times> byte list) option" where
  "Mesg_recv m chan = mesg_recv m chan"

text \<open>What a receiver sees of a message: its type and the bytes of its data.\<close>

definition mesg_view :: "mymesg \<Rightarrow> long \<times> byte list" where
  "mesg_view m = (mesg_type m, take (unat (mesg_len m)) (mesg_data m))"

fun send_all :: "mymesg list \<Rightarrow> byte list \<Rightarrow> byte list option" where
  "send_all [] chan = Some chan"
| "send_all (m # ms) chan =
    (case mesg_send (Inr ()) m chan of Some (Inr n, chan') \<Rightarrow> send_all ms chan' | _ \<Rightarrow> None)"

fun recv_all :: "nat \<Rightarrow> mymesg \<Rightarrow> byte list \<Rightarrow> (long \<times> byte list) list option" where
  "recv_all 0 m chan = Some []"
| "recv_all (Suc k) m chan =
    (case mesg_recv m chan of
      Some (Done (n, m'), chan') \<Rightarrow> map_option (Cons (mesg_view m')) (recv_all k m' chan')
    | _ \<Rightarrow> None)"

section \<open>Lemmas\<close>

definition mesg_wire :: "mymesg \<Rightarrow> byte list" where
  "mesg_wire m = long_bytes (mesg_len m) @ long_bytes (mesg_type m) @ take (unat (mesg_len m)) (mesg_data m)"

lemma mesg_wf_bytes: "mesg_wf m \<Longrightarrow> unat (of_nat MESGHDRSIZE + mesg_len m) = MESGHDRSIZE + unat (mesg_len m)"
  by (subst unat_add_lem [THEN iffD1]) (auto simp: mesg_wf_def)

lemma mesg_send_wire:
  "mesg_wf m \<Longrightarrow> mesg_send (Inr ()) m chan = Some (Inr (MESGHDRSIZE + unat (mesg_len m)), chan @ mesg_wire m)"
  using mesg_wf_bytes [of m] by (simp add: mesg_send_def mesg_wf_def mesg_wire_def mymesg_bytes_def Let_def)

lemma mesg_recv_wire:
  assumes wf: "mesg_wf m" and buf: "length (mesg_data m0) = MAXMESGDATA"
  shows "\<exists>m'. mesg_recv m0 (mesg_wire m @ chan) = Some (Done (unat (mesg_len m), m'), chan) \<and>
    mesg_view m' = mesg_view m \<and> length (mesg_data m') = MAXMESGDATA"
proof -
  let ?h = "long_bytes (mesg_len m) @ long_bytes (mesg_type m)"
  let ?d = "take (unat (mesg_len m)) (mesg_data m)"
  have d: "length ?d = unat (mesg_len m)" using wf by (simp add: mesg_wf_def)
  have h: "take MESGHDRSIZE (mesg_wire m @ chan) = ?h" "drop MESGHDRSIZE (mesg_wire m @ chan) = ?d @ chan"
    by (simp_all add: mesg_wire_def)
  have hl: "length ?h = MESGHDRSIZE" "?h \<noteq> []" "long_of (take 8 ?h) = mesg_len m" "long_of (drop 8 ?h) = mesg_type m"
    by simp_all
  have le: "\<not> MAXMESGDATA < unat (mesg_len m)" using wf by (simp add: mesg_wf_def)
  let ?m = "m0\<lparr>mesg_len := mesg_len m, mesg_type := mesg_type m\<rparr>"
  show ?thesis
  proof (cases "unat (mesg_len m) = 0")
    case True
    then have "mesg_recv m0 (mesg_wire m @ chan) = Some (Done (unat (mesg_len m), ?m), chan)"
      unfolding mesg_recv_def Let_def h using hl by simp
    with True buf show ?thesis by (auto simp: mesg_view_def)
  next
    case False
    have t: "take (unat (mesg_len m)) (?d @ chan) = ?d" "drop (unat (mesg_len m)) (?d @ chan) = chan" using d by simp_all
    have "mesg_recv m0 (mesg_wire m @ chan) =
        Some (Done (unat (mesg_len m), ?m\<lparr>mesg_data := ?d @ drop (unat (mesg_len m)) (mesg_data m0)\<rparr>), chan)"
      unfolding mesg_recv_def Let_def h using hl False le d t by (simp del: take_append drop_append)
    with d buf le show ?thesis by (auto simp: mesg_view_def)
  qed
qed

section \<open>Properties\<close>

text \<open>
  C29. Messages survive the pipe: any sequence of messages sent one after the other is received as the
  same sequence of types and data, whatever was in the receiver's structure before, and nothing else
  is taken from the pipe.
\<close>

theorem mesg_roundtrip:
  assumes "\<forall>m \<in> set ms. mesg_wf m" and "length (mesg_data m0) = MAXMESGDATA"
  shows "\<exists>chan. send_all ms [] = Some chan \<and> recv_all (length ms) m0 chan = Some (map mesg_view ms)"
proof -
  have send: "send_all ms c = Some (c @ concat (map mesg_wire ms))" if "\<forall>m \<in> set ms. mesg_wf m" for c
    using that by (induction ms arbitrary: c) (auto simp: mesg_send_wire)
  have "recv_all (length ms) m0 (concat (map mesg_wire ms)) = Some (map mesg_view ms)"
    if "\<forall>m \<in> set ms. mesg_wf m" "length (mesg_data m0) = MAXMESGDATA"
    using that
  proof (induction ms arbitrary: m0)
    case (Cons m ms)
    then obtain m' where "mesg_recv m0 (mesg_wire m @ concat (map mesg_wire ms)) =
        Some (Done (unat (mesg_len m), m'), concat (map mesg_wire ms))"
      "mesg_view m' = mesg_view m" "length (mesg_data m') = MAXMESGDATA"
      using mesg_recv_wire [of m m0 "concat (map mesg_wire ms)"] by auto
    with Cons show ?case by simp
  qed simp
  with send [OF assms(1), of "[]"] assms show ?thesis by auto
qed

theorem mesg_roundtrip_witness:
  "\<exists>chan. send_all [\<lparr>mesg_len = 2, mesg_type = 1, mesg_data = 65 # 66 # replicate 4078 0\<rparr>] [] = Some chan \<and>
    recv_all 1 \<lparr>mesg_len = 0, mesg_type = 0, mesg_data = replicate 4080 0\<rparr> chan = Some [(1, [65, 66])]"
  using mesg_roundtrip [of "[\<lparr>mesg_len = 2, mesg_type = 1, mesg_data = 65 # 66 # replicate 4078 0\<rparr>]"
      "\<lparr>mesg_len = 0, mesg_type = 0, mesg_data = replicate 4080 0\<rparr>"]
  by (simp add: mesg_wf_def mesg_view_def del: send_all.simps recv_all.simps)

text \<open>
  \<open>Mesg_send\<close> ends the process for every message, also when the whole message was written: it
  compares the number of bytes written, header included, with the length of the data alone.
\<close>

lemma Mesg_send_always_quits:
  assumes "mesg_wf m"
  shows "\<exists>chan'. Mesg_send wr m chan = Some (Err_quit ''mesg_send error'', chan')"
proof -
  have u: "uint (mesg_len m) = int (unat (mesg_len m))" by simp
  have "unat (mesg_len m) \<le> 4080" using assms by (simp add: mesg_wf_def)
  then have "uint (mesg_len m) \<le> 4080" unfolding u by linarith
  then have "uint (mesg_len m) < 2 ^ 63" by (rule order.strict_trans1) simp
  moreover have "- (2 ^ 63) \<le> uint (mesg_len m)" by (rule order.trans [OF _ uint_ge_0]) simp
  ultimately have "signed_take_bit 63 (uint (mesg_len m)) = uint (mesg_len m)"
    by (rule signed_take_bit_int_eq_self [rotated])
  then have s: "sint (mesg_len m) = int (unat (mesg_len m))"
    unfolding sint_uint of_nat_unat by simp
  have ne: "- 1 \<noteq> uint (mesg_len m)" using uint_ge_0 [of "mesg_len m"] by arith
  show ?thesis using assms ne mesg_wf_bytes [OF assms]
    by (cases wr) (auto simp: Mesg_send_def mesg_send_def mesg_wf_def Let_def s)
qed

end
