(* ===== verification/Svmsg_Serv.thy ===== *)
theory Svmsg_Serv
  imports Mesg C_Text "HOL-Library.Multiset"
begin

text \<open>
  The file server of \<open>src/svmsgmpx1q\<close> and its clients: one System V message queue carries the
  requests (type 1) and the answers (type the process id of the client). The server answers one
  request after the other with the lines of a file, or an error line, and an empty message.
\<close>

section \<open>The queue\<close>

type_synonym svmsg = "int \<times> byte list"

text \<open>\<open>msgrcv\<close> with a positive type takes the first message of that type; \<open>None\<close> is a call that waits.\<close>

fun msgrcv :: "int \<Rightarrow> svmsg list \<Rightarrow> (byte list \<times> svmsg list) option" where
  "msgrcv t [] = None"
| "msgrcv t ((ty, d) # q) = (if ty = t then Some (d, q) else map_option (map_prod id (Cons (ty, d))) (msgrcv t q))"

text \<open>
  \<open>msgsnd\<close> waits while the queue is full: while the new message would bring the bytes, or the number, of
  the messages on it over \<open>msg_qbytes\<close>.
\<close>

definition msgsnd :: "nat \<Rightarrow> int \<Rightarrow> byte list \<Rightarrow> svmsg list \<Rightarrow> svmsg list option" where
  "msgsnd qbytes ty d q =
    (if sum_list (map (\<lambda>m. length (snd m)) q) + length d \<le> qbytes \<and> length q + 1 \<le> qbytes
     then Some (q @ [(ty, d)]) else None)"

section \<open>The client\<close>

text \<open>The request: the process id, a blank and the line that \<open>Fgets\<close> read, without its newline.\<close>

definition mpx_request :: "nat \<Rightarrow> byte list \<Rightarrow> byte list" where
  "mpx_request pid stdin =
    (let pre = dec pid @ [blank];
         str = pre @ cstr (line_of (MAXMESGDATA - length pre - 1) stdin)
     in if last str = newline then butlast str else str)"

datatype rq_pc = Rq_send | Rq_recv | Rq_done

record rqclient =
  rq_pid :: nat
  rq_stdin :: "byte list"
  rq_pc :: rq_pc
  rq_out :: "byte list"

section \<open>The server\<close>

text \<open>A request without a blank is bogus, and an empty one has no pathname: both are dropped.\<close>

definition server_parse :: "byte list \<Rightarrow> (int \<times> byte list) option" where
  "server_parse data =
    (if data = [] then None
     else
       let str = cstr data in
       if blank \<notin> set str then None
       else Some (atol (takeWhile (\<lambda>c. c \<noteq> blank) str), tl (dropWhile (\<lambda>c. c \<noteq> blank) str)))"

text \<open>The messages for a file: each has a line, or what \<open>Fgets\<close> gave of it, up to its first null byte.\<close>

function file_msgs :: "byte list \<Rightarrow> byte list list" where
  "file_msgs content =
    (if content = [] then []
     else
       let line = line_of (MAXMESGDATA - 1) content in
       cstr line # file_msgs (drop (length line) content))"
  by pat_completeness auto

termination file_msgs
proof (relation "measure length", simp)
  fix content :: "byte list" and line
  assume "content \<noteq> []" and "line = line_of (MAXMESGDATA - 1) content"
  then show "(drop (length line) content, content) \<in> measure length"
    using line_of_nonempty [of "MAXMESGDATA - 1" content] by (cases content) auto
qed

declare file_msgs.simps [simp del]

text \<open>
  \<open>opened\<close> is what \<open>fopen\<close> of a path gives: the text of \<open>errno\<close>, or the content of the file. The error
  line is put behind the request in the buffer, as far as there is room; a null byte in the request
  hides it.
\<close>

definition cant_open :: "byte list" where
  "cant_open = map (\<lambda>c. of_char c) '': can't open, ''"

definition error_line :: "byte list \<Rightarrow> byte list \<Rightarrow> byte list \<Rightarrow> byte list" where
  "error_line data path errtext =
    (if 0 \<in> set data then path
     else path @ cstr (take (MAXMESGDATA - length data - 1) (cant_open @ errtext @ [newline])))"

definition server_reply :: "(byte list \<Rightarrow> byte list + byte list) \<Rightarrow> byte list \<Rightarrow> byte list \<Rightarrow> byte list list" where
  "server_reply opened data path =
    (case opened path of
      Inl errtext \<Rightarrow> [error_line data path errtext]
    | Inr content \<Rightarrow> file_msgs content) @ [[]]"

definition mpx_serve :: "(byte list \<Rightarrow> byte list + byte list) \<Rightarrow> byte list \<Rightarrow> (int \<times> byte list list) option" where
  "mpx_serve opened data =
    map_option (\<lambda>(pid, path). (pid, server_reply opened data path)) (server_parse data)"

section \<open>The system\<close>

record mpx =
  mpx_queue :: "svmsg list"
  mpx_server :: "(int \<times> byte list list) option"
  mpx_clients :: "rqclient list"

definition mpx_client_step :: "nat \<Rightarrow> nat \<Rightarrow> mpx \<Rightarrow> mpx option" where
  "mpx_client_step qbytes j s =
    (let c = mpx_clients s ! j in
     case rq_pc c of
      Rq_send \<Rightarrow>
        map_option (\<lambda>q. s\<lparr>mpx_queue := q, mpx_clients := (mpx_clients s)[j := c\<lparr>rq_pc := Rq_recv\<rparr>]\<rparr>)
          (msgsnd qbytes 1 (mpx_request (rq_pid c) (rq_stdin c)) (mpx_queue s))
    | Rq_recv \<Rightarrow>
        (case msgrcv (int (rq_pid c)) (mpx_queue s) of
          None \<Rightarrow> None
        | Some (d, q) \<Rightarrow>
            Some (s\<lparr>mpx_queue := q,
                    mpx_clients := (mpx_clients s)[j := (if d = [] then c\<lparr>rq_pc := Rq_done\<rparr>
                      else c\<lparr>rq_out := rq_out c @ d\<rparr>)]\<rparr>))
    | Rq_done \<Rightarrow> None)"

text \<open>
  The server reads a request, sends the messages of its answer, and reads again. A type that is not
  positive ends it with the error of \<open>msgsnd\<close>: then it takes no further step.
\<close>

definition mpx_server_step :: "nat \<Rightarrow> (byte list \<Rightarrow> byte list + byte list) \<Rightarrow> mpx \<Rightarrow> mpx option" where
  "mpx_server_step qbytes opened s =
    (case mpx_server s of
      None \<Rightarrow>
        (case msgrcv 1 (mpx_queue s) of
          None \<Rightarrow> None
        | Some (d, q) \<Rightarrow> Some (s\<lparr>mpx_queue := q, mpx_server := mpx_serve opened d\<rparr>))
    | Some (pid, []) \<Rightarrow> Some (s\<lparr>mpx_server := None\<rparr>)
    | Some (pid, m # ms) \<Rightarrow>
        if pid \<le> 0 then None
        else map_option (\<lambda>q. s\<lparr>mpx_queue := q, mpx_server := Some (pid, ms)\<rparr>) (msgsnd qbytes pid m (mpx_queue s)))"

definition mpx_step :: "nat \<Rightarrow> (byte list \<Rightarrow> byte list + byte list) \<Rightarrow> mpx \<Rightarrow> mpx \<Rightarrow> bool" where
  "mpx_step qbytes opened s t \<longleftrightarrow>
    (\<exists>j < length (mpx_clients s). mpx_client_step qbytes j s = Some t) \<or> mpx_server_step qbytes opened s = Some t"

text \<open>Clients with their process ids and standard inputs, and an idle server.\<close>

definition mpx_start :: "(nat \<times> byte list) list \<Rightarrow> mpx" where
  "mpx_start cls =
    \<lparr>mpx_queue = [], mpx_server = None,
     mpx_clients = map (\<lambda>(pid, stdin). \<lparr>rq_pid = pid, rq_stdin = stdin, rq_pc = Rq_send, rq_out = []\<rparr>) cls\<rparr>"

section \<open>Requests\<close>

text \<open>What the server reads of a request is what the client wrote.\<close>

definition rq_path :: "nat \<Rightarrow> byte list \<Rightarrow> byte list" where
  "rq_path pid stdin =
    (let line = line_of (MAXMESGDATA - length (dec pid) - 2) stdin in if ends_line line then butlast line else line)"

lemma mpx_request_eq:
  assumes "0 \<notin> set stdin"
  shows "mpx_request pid stdin = dec pid @ [blank] @ rq_path pid stdin"
proof -
  let ?line = "line_of (MAXMESGDATA - length (dec pid) - 2) stdin"
  have "cstr ?line = ?line" using assms line_of_set by (blast intro: cstr_id)
  then show ?thesis
    by (auto simp: mpx_request_def Let_def rq_path_def ends_line_def butlast_append diff_diff_eq)
qed

lemma server_parse_request:
  assumes "0 \<notin> set stdin"
  shows "server_parse (mpx_request pid stdin) = Some (int pid, rq_path pid stdin)"
proof -
  have d: "c \<noteq> blank \<and> c \<noteq> 0" if "c \<in> set (dec pid)" for c
    using is_digit_unat [OF dec_digits [OF that]] by auto
  have "0 \<notin> set (rq_path pid stdin)"
    using assms line_of_set [of _ stdin] by (auto simp: rq_path_def Let_def dest: in_set_butlastD)
  then have "cstr (dec pid @ [blank] @ rq_path pid stdin) = dec pid @ [blank] @ rq_path pid stdin"
    using d by (intro cstr_id) auto
  moreover have "takeWhile (\<lambda>c. c \<noteq> blank) (dec pid @ [blank] @ rq_path pid stdin) = dec pid"
    "dropWhile (\<lambda>c. c \<noteq> blank) (dec pid @ [blank] @ rq_path pid stdin) = blank # rq_path pid stdin"
    using d by (simp_all add: takeWhile_append2 dropWhile_append2)
  ultimately show ?thesis
    by (simp add: server_parse_def mpx_request_eq [OF assms] Let_def atol_dec)
qed

text \<open>The messages of a file without null bytes are not empty and make up the file.\<close>

lemma file_msgs_content: "0 \<notin> set content \<Longrightarrow> concat (file_msgs content) = content \<and> [] \<notin> set (file_msgs content)"
proof (induction content rule: file_msgs.induct)
  case (1 content)
  show ?case
  proof (cases "content = []")
    case False
    let ?line = "line_of (MAXMESGDATA - 1) content"
    have line: "cstr ?line = ?line" "?line \<noteq> []"
      using 1(2) line_of_set [of _ content] False by (auto intro: cstr_id simp: line_of_nonempty)
    have "0 \<notin> set (drop (length ?line) content)" using 1(2) set_drop_subset by fastforce
    from 1(1) [OF False refl this] line line_of_split [of "MAXMESGDATA - 1" content] False show ?thesis
      by (simp add: file_msgs.simps [of content] Let_def)
  qed (simp add: file_msgs.simps)
qed

section \<open>Messages by type\<close>

definition of_type :: "int \<Rightarrow> svmsg list \<Rightarrow> byte list list" where
  "of_type t q = map snd (filter (\<lambda>m. fst m = t) q)"

lemma of_type_append [simp]: "of_type t (q @ [(ty, d)]) = of_type t q @ (if ty = t then [d] else [])"
  by (simp add: of_type_def)

lemma msgrcv_Some:
  "msgrcv t q = Some (d, q') \<Longrightarrow>
    of_type t q = d # of_type t q' \<and> (\<forall>t'. t' \<noteq> t \<longrightarrow> of_type t' q' = of_type t' q) \<and>
    sum_list (map w q) = w (t, d) + sum_list (map (w :: svmsg \<Rightarrow> nat) q')"
proof (induction q arbitrary: q')
  case (Cons m q)
  then show ?case by (cases m) (fastforce simp: of_type_def split: if_splits)
qed simp

lemma msgrcv_set: "msgrcv t q = Some (d, q') \<Longrightarrow> set q' \<subseteq> set q"
  by (induction q arbitrary: q') (fastforce split: if_splits)+

lemma msgsnd_Some: "msgsnd qbytes ty d q = Some q' \<Longrightarrow> q' = q @ [(ty, d)]"
  by (simp add: msgsnd_def split: if_splits)

lemma msgrcv_None: "msgrcv t q = None \<longleftrightarrow> of_type t q = []"
  by (induction q) (auto simp: of_type_def)

section \<open>The invariant\<close>

definition rq_request :: "rqclient \<Rightarrow> byte list" where
  "rq_request c = mpx_request (rq_pid c) (rq_stdin c)"

definition rq_reply :: "(byte list \<Rightarrow> byte list + byte list) \<Rightarrow> rqclient \<Rightarrow> byte list list" where
  "rq_reply opened c = server_reply opened (rq_request c) (rq_path (rq_pid c) (rq_stdin c))"

text \<open>The messages on their way to a process: in the queue, and still to be sent by the server.\<close>

definition pend :: "mpx \<Rightarrow> int \<Rightarrow> byte list list" where
  "pend s p = of_type p (mpx_queue s) @ (case mpx_server s of Some (p', ms) \<Rightarrow> if p' = p then ms else [] | None \<Rightarrow> [])"

text \<open>A client has nothing on its way before its request is read; then its output and what is on its
  way are the answer. \<open>n\<close> is how often its request is in the queue and \<open>pd\<close> what is on its way.\<close>

definition client_ok :: "(byte list \<Rightarrow> byte list + byte list) \<Rightarrow> nat \<Rightarrow> byte list list \<Rightarrow> rqclient \<Rightarrow> bool" where
  "client_ok opened n pd c \<longleftrightarrow>
    (case rq_pc c of
      Rq_send \<Rightarrow> rq_out c = [] \<and> pd = [] \<and> n = 0
    | Rq_recv \<Rightarrow> rq_out c = [] \<and> pd = [] \<and> n = 1 \<or>
        n = 0 \<and> (\<exists>k < length (rq_reply opened c). rq_out c = concat (take k (rq_reply opened c)) \<and>
          pd = drop k (rq_reply opened c))
    | Rq_done \<Rightarrow> n = 0 \<and> pd = [] \<and> rq_out c = concat (rq_reply opened c))"

lemma client_ok_count: "client_ok opened n pd c \<Longrightarrow> n \<le> 1"
  by (auto simp: client_ok_def split: rq_pc.splits)

lemma client_ok_pend: "client_ok opened n pd c \<Longrightarrow> pd \<noteq> [] \<Longrightarrow> rq_pc c = Rq_recv"
  by (cases "rq_pc c") (simp_all add: client_ok_def)

definition mpx_setup :: "(byte list \<Rightarrow> byte list + byte list) \<Rightarrow> (nat \<times> byte list) list \<Rightarrow> bool" where
  "mpx_setup opened cls \<longleftrightarrow>
    distinct (map fst cls) \<and> (\<forall>cl \<in> set cls. 1 < fst cl \<and> fst cl < 10 ^ 10 \<and> 0 \<notin> set (snd cl)) \<and>
    (\<forall>path content. opened path = Inr content \<longrightarrow> 0 \<notin> set content)"

definition rq_count :: "mpx \<Rightarrow> rqclient \<Rightarrow> nat" where
  "rq_count s c = count_list (of_type 1 (mpx_queue s)) (rq_request c)"

definition mpx_inv :: "(byte list \<Rightarrow> byte list + byte list) \<Rightarrow> (nat \<times> byte list) list \<Rightarrow> mpx \<Rightarrow> bool" where
  [inv_defs]: "mpx_inv opened cls s \<longleftrightarrow>
    map (\<lambda>c. (rq_pid c, rq_stdin c)) (mpx_clients s) = cls \<and>
    set (of_type 1 (mpx_queue s)) \<subseteq> rq_request ` set (mpx_clients s) \<and>
    (\<forall>m \<in> set (mpx_queue s). fst m = 1 \<or> fst m \<in> (int \<circ> fst) ` set cls) \<and>
    (\<forall>p ms. mpx_server s = Some (p, ms) \<longrightarrow> p \<in> (int \<circ> fst) ` set cls \<and> list_all (\<lambda>m. length m \<le> MAXMESGDATA) ms) \<and>
    (\<forall>i < length (mpx_clients s).
      client_ok opened (rq_count s (mpx_clients s ! i)) (pend s (int (rq_pid (mpx_clients s ! i)))) (mpx_clients s ! i))"

lemma mpx_client_facts:
  assumes "mpx_setup opened cls" and "mpx_inv opened cls s" and "i < length (mpx_clients s)"
  shows "1 < rq_pid (mpx_clients s ! i)" "rq_pid (mpx_clients s ! i) < 10 ^ 10" "0 \<notin> set (rq_stdin (mpx_clients s ! i))"
    "int (rq_pid (mpx_clients s ! i)) \<in> (int \<circ> fst) ` set cls"
proof -
  have "cls ! i \<in> set cls" "cls ! i = (rq_pid (mpx_clients s ! i), rq_stdin (mpx_clients s ! i))"
    using assms(2,3) by (auto simp: mpx_inv_def)
  with assms(1) show "1 < rq_pid (mpx_clients s ! i)" "rq_pid (mpx_clients s ! i) < 10 ^ 10"
    "0 \<notin> set (rq_stdin (mpx_clients s ! i))" "int (rq_pid (mpx_clients s ! i)) \<in> (int \<circ> fst) ` set cls"
    by (force simp: mpx_setup_def)+
qed

lemma mpx_pids_distinct:
  assumes "mpx_setup opened cls" and "mpx_inv opened cls s"
  shows "distinct (map rq_pid (mpx_clients s))"
proof -
  have "map rq_pid (mpx_clients s) = map fst cls" using assms(2) by (auto simp: mpx_inv_def)
  with assms(1) show ?thesis by (simp add: mpx_setup_def)
qed

lemma mpx_requests_distinct:
  assumes stp: "mpx_setup opened cls" and inv: "mpx_inv opened cls s"
    and "i < length (mpx_clients s)" and "j < length (mpx_clients s)" and "i \<noteq> j"
  shows "rq_request (mpx_clients s ! i) \<noteq> rq_request (mpx_clients s ! j)"
    and "rq_pid (mpx_clients s ! i) \<noteq> rq_pid (mpx_clients s ! j)"
proof -
  show ne: "rq_pid (mpx_clients s ! i) \<noteq> rq_pid (mpx_clients s ! j)"
    using mpx_pids_distinct [OF stp inv] assms(3-5) by (simp add: distinct_conv_nth)
  show "rq_request (mpx_clients s ! i) \<noteq> rq_request (mpx_clients s ! j)"
  proof
    assume "rq_request (mpx_clients s ! i) = rq_request (mpx_clients s ! j)"
    then have "server_parse (rq_request (mpx_clients s ! i)) = server_parse (rq_request (mpx_clients s ! j))" by simp
    with ne show False
      using mpx_client_facts(3) [OF stp inv assms(3)] mpx_client_facts(3) [OF stp inv assms(4)]
      by (simp add: rq_request_def server_parse_request)
  qed
qed

lemma mpx_serve_request:
  assumes "0 \<notin> set (rq_stdin c)"
  shows "mpx_serve opened (rq_request c) = Some (int (rq_pid c), rq_reply opened c)"
  using server_parse_request [OF assms, of "rq_pid c"] by (simp add: mpx_serve_def rq_request_def rq_reply_def)

text \<open>Only the last message of an answer is empty.\<close>

lemma file_msgs_length: "m \<in> set (file_msgs content) \<Longrightarrow> length m \<le> MAXMESGDATA"
proof (induction content rule: file_msgs.induct)
  case (1 content)
  have "length (cstr (line_of (MAXMESGDATA - 1) content)) \<le> MAXMESGDATA"
    using line_of_take [of "MAXMESGDATA - 1" content] length_takeWhile_le [of "\<lambda>c. c \<noteq> 0" "line_of (MAXMESGDATA - 1) content"]
    by (auto simp: cstr_def)
  with 1 show ?case by (auto simp: file_msgs.simps [of content] Let_def split: if_splits)
qed

lemma rq_request_length:
  assumes "0 \<notin> set (rq_stdin c)" and "rq_pid c < 10 ^ 10"
  shows "length (rq_request c) < MAXMESGDATA"
proof -
  obtain k where k: "line_of (MAXMESGDATA - length (dec (rq_pid c)) - 2) (rq_stdin c) = take k (rq_stdin c)"
    "k \<le> MAXMESGDATA - length (dec (rq_pid c)) - 2"
    using line_of_take by blast
  then have "length (rq_path (rq_pid c) (rq_stdin c)) \<le> MAXMESGDATA - length (dec (rq_pid c)) - 2"
    by (auto simp: rq_path_def Let_def)
  moreover have "length (dec (rq_pid c)) \<le> 10" using length_dec [OF assms(2)] by simp
  ultimately show ?thesis by (simp add: rq_request_def mpx_request_eq [OF assms(1)])
qed

lemma rq_reply_length:
  assumes "0 \<notin> set (rq_stdin c)" and "rq_pid c < 10 ^ 10" and "m \<in> set (rq_reply opened c)"
  shows "length m \<le> MAXMESGDATA"
proof -
  let ?p = "rq_path (rq_pid c) (rq_stdin c)" and ?n = "length (rq_request c)"
  have n: "length ?p < ?n" "?n < MAXMESGDATA"
    using rq_request_length [OF assms(1,2)] by (simp_all add: rq_request_def mpx_request_eq [OF assms(1)])
  have "length (cstr (take (MAXMESGDATA - ?n - 1) x)) \<le> MAXMESGDATA - ?n - 1" for x
    using length_takeWhile_le [of "\<lambda>c. c \<noteq> 0" "take (MAXMESGDATA - ?n - 1) x"] by (simp add: cstr_def)
  then have "length (error_line (rq_request c) ?p e) \<le> MAXMESGDATA" for e
  proof -
    have "length (error_line (rq_request c) ?p e) \<le> length ?p + (MAXMESGDATA - ?n - 1)"
      using \<open>\<And>x. length (cstr (take (MAXMESGDATA - ?n - 1) x)) \<le> MAXMESGDATA - ?n - 1\<close>
      unfolding error_line_def by (simp del: diff_diff_left take_append)
    with n show ?thesis by linarith
  qed
  with assms(3) file_msgs_length show ?thesis
    by (auto simp: rq_reply_def server_reply_def split: sum.splits)
qed

lemma rq_reply_shape:
  assumes "0 \<notin> set (rq_stdin c)" and "rq_pid c < 10 ^ 10"
    and "\<forall>path content. opened path = Inr content \<longrightarrow> 0 \<notin> set content"
  shows "\<exists>ms. rq_reply opened c = ms @ [[]] \<and> [] \<notin> set ms"
proof (cases "opened (rq_path (rq_pid c) (rq_stdin c))")
  case (Inr content)
  with assms(3) file_msgs_content [of content] show ?thesis by (auto simp: rq_reply_def server_reply_def)
next
  case (Inl e)
  let ?p = "rq_path (rq_pid c) (rq_stdin c)" and ?n = "length (rq_request c)"
  have "error_line (rq_request c) ?p e \<noteq> []"
  proof (cases "?p = []")
    case True
    have "0 \<notin> set (rq_request c)"
      using True is_digit_unat [OF dec_digits [of 0 "rq_pid c"]] by (auto simp: rq_request_def mpx_request_eq [OF assms(1)])
    moreover
    have "length (dec (rq_pid c)) \<le> 10" using length_dec [OF assms(2)] by simp
    then have "MAXMESGDATA - ?n - 1 = Suc (MAXMESGDATA - ?n - 2)"
      using True by (simp add: rq_request_def mpx_request_eq [OF assms(1)])
    ultimately show ?thesis unfolding error_line_def by (simp add: cant_open_def cstr_def del: diff_diff_left)
  qed (simp add: error_line_def)
  with Inl show ?thesis by (simp add: rq_reply_def server_reply_def)
qed

section \<open>Every step keeps the invariant\<close>

text \<open>The other clients do not see a step that changes neither their request nor their messages.\<close>

lemma mpx_frame:
  assumes inv: "mpx_inv opened cls s" and j: "j < length (mpx_clients s)"
    and cl: "mpx_clients t = (mpx_clients s)[j := c']"
      "rq_pid c' = rq_pid (mpx_clients s ! j)" "rq_stdin c' = rq_stdin (mpx_clients s ! j)"
    and reqs: "set (of_type 1 (mpx_queue t)) \<subseteq> rq_request ` set (mpx_clients s)"
    and types: "\<forall>m \<in> set (mpx_queue t). fst m = 1 \<or> fst m \<in> (int \<circ> fst) ` set cls"
    and srv: "\<forall>p ms. mpx_server t = Some (p, ms) \<longrightarrow>
      p \<in> (int \<circ> fst) ` set cls \<and> list_all (\<lambda>m. length m \<le> MAXMESGDATA) ms"
    and same: "\<And>i. i < length (mpx_clients s) \<Longrightarrow> i \<noteq> j \<Longrightarrow>
      rq_count t (mpx_clients s ! i) = rq_count s (mpx_clients s ! i) \<and>
      pend t (int (rq_pid (mpx_clients s ! i))) = pend s (int (rq_pid (mpx_clients s ! i)))"
    and this_one: "client_ok opened (rq_count t c') (pend t (int (rq_pid c'))) c'"
  shows "mpx_inv opened cls t"
proof -
  have "map (\<lambda>c. (rq_pid c, rq_stdin c)) (mpx_clients t) = map (\<lambda>c. (rq_pid c, rq_stdin c)) (mpx_clients s)"
    using j cl by (auto intro!: nth_equalityI simp: nth_list_update)
  moreover have "rq_request ` set (mpx_clients t) = rq_request ` set (mpx_clients s)"
  proof -
    have "map rq_request (mpx_clients t) = map rq_request (mpx_clients s)"
      using j cl by (auto intro!: nth_equalityI simp: nth_list_update rq_request_def)
    then show ?thesis by (metis list.set_map)
  qed
  moreover have "client_ok opened (rq_count t (mpx_clients t ! i)) (pend t (int (rq_pid (mpx_clients t ! i)))) (mpx_clients t ! i)"
    if "i < length (mpx_clients s)" for i
    using that inv same [OF that] this_one j cl(1) by (cases "i = j") (auto simp: mpx_inv_def)
  ultimately show ?thesis using inv reqs types srv cl(1) by (simp add: mpx_inv_def)
qed

lemma client_send_keeps:
  assumes stp: "mpx_setup opened cls" and inv: "mpx_inv opened cls s" and j: "j < length (mpx_clients s)"
    and pc: "rq_pc (mpx_clients s ! j) = Rq_send" and run: "mpx_client_step qbytes j s = Some t"
  shows "mpx_inv opened cls t"
proof -
  let ?c = "mpx_clients s ! j" and ?c' = "(mpx_clients s ! j)\<lparr>rq_pc := Rq_recv\<rparr>"
  have t: "t = s\<lparr>mpx_queue := mpx_queue s @ [(1, rq_request ?c)], mpx_clients := (mpx_clients s)[j := ?c']\<rparr>"
    using run pc by (auto simp: mpx_client_step_def rq_request_def Let_def dest: msgsnd_Some)
  have ok: "client_ok opened (rq_count s ?c) (pend s (int (rq_pid ?c))) ?c" using inv j by (simp add: mpx_inv_def)
  show ?thesis
  proof (rule mpx_frame [OF inv j, of t ?c'])
    show "set (of_type 1 (mpx_queue t)) \<subseteq> rq_request ` set (mpx_clients s)"
      using inv j t by (auto simp: mpx_inv_def)
    show "client_ok opened (rq_count t ?c') (pend t (int (rq_pid ?c'))) ?c'"
      using ok pc t mpx_client_facts(1) [OF stp inv j]
      by (simp add: client_ok_def rq_count_def pend_def rq_request_def)
  next
    fix i assume i: "i < length (mpx_clients s)" "i \<noteq> j"
    show "rq_count t (mpx_clients s ! i) = rq_count s (mpx_clients s ! i) \<and>
      pend t (int (rq_pid (mpx_clients s ! i))) = pend s (int (rq_pid (mpx_clients s ! i)))"
      using mpx_requests_distinct(1) [OF stp inv j i(1)] i(2) mpx_client_facts(1) [OF stp inv i(1)] t
      by (auto simp: rq_count_def pend_def)
  qed (use inv t in \<open>auto simp: mpx_inv_def\<close>)
qed

lemma client_recv_keeps:
  assumes stp: "mpx_setup opened cls" and inv: "mpx_inv opened cls s" and j: "j < length (mpx_clients s)"
    and pc: "rq_pc (mpx_clients s ! j) = Rq_recv" and run: "mpx_client_step qbytes j s = Some t"
  shows "mpx_inv opened cls t"
proof -
  let ?c = "mpx_clients s ! j"
  obtain d q where rcv: "msgrcv (int (rq_pid ?c)) (mpx_queue s) = Some (d, q)"
    using run pc by (auto simp: mpx_client_step_def Let_def split: option.splits)
  define c' where "c' = (if d = [] then ?c\<lparr>rq_pc := Rq_done\<rparr> else ?c\<lparr>rq_out := rq_out ?c @ d\<rparr>)"
  have t: "t = s\<lparr>mpx_queue := q, mpx_clients := (mpx_clients s)[j := c']\<rparr>"
    using run pc rcv by (simp add: mpx_client_step_def Let_def c'_def)
  have same: "rq_pid c' = rq_pid ?c" "rq_stdin c' = rq_stdin ?c" by (simp_all add: c'_def)
  note q = msgrcv_Some [OF rcv]
  have pid: "int (rq_pid ?c) \<noteq> 1" using mpx_client_facts(1) [OF stp inv j] by simp
  then have reqs: "of_type 1 q = of_type 1 (mpx_queue s)" using q by metis
  have pd: "pend s (int (rq_pid ?c)) = d # pend t (int (rq_pid ?c))" using q t by (simp add: pend_def)
  have ok: "client_ok opened (rq_count s ?c) (d # pend t (int (rq_pid ?c))) ?c"
    unfolding pd [symmetric] using inv j by (simp add: mpx_inv_def)
  then obtain k where n: "rq_count s ?c = 0" and k: "k < length (rq_reply opened ?c)"
    and out: "rq_out ?c = concat (take k (rq_reply opened ?c))"
    and dk: "d # pend t (int (rq_pid ?c)) = drop k (rq_reply opened ?c)"
    using pc by (auto simp: client_ok_def)
  have d: "d = rq_reply opened ?c ! k" "pend t (int (rq_pid ?c)) = drop (Suc k) (rq_reply opened ?c)"
    using dk k by (simp_all add: Cons_nth_drop_Suc [symmetric])
  have n': "rq_count t c' = 0" using n reqs t same by (simp add: rq_count_def rq_request_def)
  have reply: "rq_reply opened c' = rq_reply opened ?c" using same by (simp add: rq_reply_def rq_request_def)
  obtain ms where ms: "rq_reply opened ?c = ms @ [[]]" "[] \<notin> set ms"
    using rq_reply_shape [OF mpx_client_facts(3,2) [OF stp inv j], of opened] stp by (auto simp: mpx_setup_def)
  have "client_ok opened (rq_count t c') (pend t (int (rq_pid c'))) c'"
  proof (cases "d = []")
    case True
    have "k = length ms"
    proof (rule ccontr)
      assume "k \<noteq> length ms"
      then have "k < length ms" using k ms(1) by simp
      then show False using d(1) True ms by (metis nth_append nth_mem)
    qed
    then show ?thesis using True out d ms same reply n' by (simp add: client_ok_def c'_def)
  next
    case False
    then have "k < length ms" using k d(1) ms(1) by (auto simp: nth_append split: if_splits)
    then have "Suc k < length (rq_reply opened ?c)" using ms(1) by simp
    moreover have "rq_out c' = concat (take (Suc k) (rq_reply opened ?c))"
      using False out d(1) k by (simp add: c'_def take_Suc_conv_app_nth)
    ultimately show ?thesis using False d(2) same reply n' pc by (auto simp: client_ok_def c'_def)
  qed
  then show ?thesis
  proof (rule mpx_frame [OF inv j, of t c', rotated -1])
    show "set (of_type 1 (mpx_queue t)) \<subseteq> rq_request ` set (mpx_clients s)" using inv reqs t by (simp add: mpx_inv_def)
  next
    fix i assume i: "i < length (mpx_clients s)" "i \<noteq> j"
    have "int (rq_pid (mpx_clients s ! i)) \<noteq> int (rq_pid ?c)"
      using mpx_requests_distinct(2) [OF stp inv i(1) j i(2)] by simp
    then show "rq_count t (mpx_clients s ! i) = rq_count s (mpx_clients s ! i) \<and>
      pend t (int (rq_pid (mpx_clients s ! i))) = pend s (int (rq_pid (mpx_clients s ! i)))"
      using q reqs t by (auto simp: rq_count_def pend_def)
  qed (use inv t same msgrcv_set [OF rcv] in \<open>auto simp: mpx_inv_def\<close>)
qed

lemma server_read_keeps:
  assumes stp: "mpx_setup opened cls" and inv: "mpx_inv opened cls s" and idle: "mpx_server s = None"
    and run: "mpx_server_step qbytes opened s = Some t"
  shows "mpx_inv opened cls t"
proof -
  obtain d q where rcv: "msgrcv 1 (mpx_queue s) = Some (d, q)"
    and t: "t = s\<lparr>mpx_queue := q, mpx_server := mpx_serve opened d\<rparr>"
    using run idle by (auto simp: mpx_server_step_def split: option.splits)
  note q = msgrcv_Some [OF rcv]
  have "d \<in> rq_request ` set (mpx_clients s)" using inv q by (auto simp: mpx_inv_def)
  then obtain j where j: "j < length (mpx_clients s)" and d: "d = rq_request (mpx_clients s ! j)"
    by (auto simp: in_set_conv_nth)
  let ?c = "mpx_clients s ! j"
  have serve: "mpx_serve opened d = Some (int (rq_pid ?c), rq_reply opened ?c)"
    using mpx_serve_request [OF mpx_client_facts(3) [OF stp inv j]] d by simp
  have other: "of_type (int (rq_pid (mpx_clients s ! i))) q = of_type (int (rq_pid (mpx_clients s ! i))) (mpx_queue s)"
    if "i < length (mpx_clients s)" for i
    using q mpx_client_facts(1) [OF stp inv that] by simp
  have n: "rq_count s ?c = Suc (rq_count t ?c)" using q d t by (simp add: rq_count_def)
  have "client_ok opened (rq_count s ?c) (pend s (int (rq_pid ?c))) ?c" using inv j by (simp add: mpx_inv_def)
  with n have recv: "rq_pc ?c = Rq_recv" "rq_out ?c = []" "pend s (int (rq_pid ?c)) = []" "rq_count t ?c = 0"
    by (auto simp: client_ok_def split: rq_pc.splits)
  have "pend t (int (rq_pid ?c)) = rq_reply opened ?c"
    using recv(3) idle other [OF j] t serve by (simp add: pend_def)
  moreover have "0 < length (rq_reply opened ?c)" by (simp add: rq_reply_def server_reply_def)
  ultimately have ok: "client_ok opened (rq_count t ?c) (pend t (int (rq_pid ?c))) ?c"
    using recv by (auto simp: client_ok_def intro!: exI [of _ 0])
  show ?thesis
  proof (rule mpx_frame [OF inv j, of t ?c, OF _ _ _ _ _ _ _ ok])
    show "set (of_type 1 (mpx_queue t)) \<subseteq> rq_request ` set (mpx_clients s)" using inv q t by (auto simp: mpx_inv_def)
    show "\<forall>m \<in> set (mpx_queue t). fst m = 1 \<or> fst m \<in> (int \<circ> fst) ` set cls"
      using inv t msgrcv_set [OF rcv] by (auto simp: mpx_inv_def)
    show "\<forall>p ms. mpx_server t = Some (p, ms) \<longrightarrow> p \<in> (int \<circ> fst) ` set cls \<and> list_all (\<lambda>m. length m \<le> MAXMESGDATA) ms"
      using t serve mpx_client_facts(4) [OF stp inv j] rq_reply_length [OF mpx_client_facts(3,2) [OF stp inv j]]
      by (simp add: list_all_iff)
  next
    fix i assume i: "i < length (mpx_clients s)" "i \<noteq> j"
    have "int (rq_pid ?c) \<noteq> int (rq_pid (mpx_clients s ! i))" "d \<noteq> rq_request (mpx_clients s ! i)"
      using mpx_requests_distinct [OF stp inv j i(1)] i(2) d by auto
    then show "rq_count t (mpx_clients s ! i) = rq_count s (mpx_clients s ! i) \<and>
      pend t (int (rq_pid (mpx_clients s ! i))) = pend s (int (rq_pid (mpx_clients s ! i)))"
      using q other [OF i(1)] t idle serve by (simp add: rq_count_def pend_def)
  qed (use t in simp_all)
qed

lemma mpx_server_pid:
  assumes "mpx_setup opened cls" and "mpx_inv opened cls s" and "mpx_server s = Some (p, ms)"
  shows "1 < p"
proof -
  have "p \<in> (int \<circ> fst) ` set cls" using assms(2,3) by (simp add: mpx_inv_def)
  with assms(1) show ?thesis by (auto simp: mpx_setup_def)
qed

lemma server_send_keeps:
  assumes stp: "mpx_setup opened cls" and inv: "mpx_inv opened cls s" and busy: "mpx_server s = Some (p, ms)"
    and run: "mpx_server_step qbytes opened s = Some t"
  shows "mpx_inv opened cls t"
proof -
  have p: "1 < p" by (rule mpx_server_pid [OF stp inv busy])
  have srv: "p \<in> (int \<circ> fst) ` set cls" "list_all (\<lambda>m. length m \<le> MAXMESGDATA) ms" using inv busy by (simp_all add: mpx_inv_def)
  have "mpx_clients t = mpx_clients s \<and> of_type 1 (mpx_queue t) = of_type 1 (mpx_queue s) \<and>
      (\<forall>x. pend t x = pend s x) \<and> (\<forall>m \<in> set (mpx_queue t). m \<in> set (mpx_queue s) \<or> fst m = p) \<and>
      (\<forall>x y. mpx_server t = Some (x, y) \<longrightarrow> x = p \<and> set y \<subseteq> set ms)"
    using run busy p by (cases ms) (auto simp: mpx_server_step_def pend_def dest!: msgsnd_Some)
  then show ?thesis using inv srv by (simp add: mpx_inv_def rq_count_def list_all_iff) blast
qed

lemma mpx_step_keeps:
  assumes stp: "mpx_setup opened cls" and inv: "mpx_inv opened cls s" and step: "mpx_step qbytes opened s t"
  shows "mpx_inv opened cls t"
proof -
  consider (cl) j where "j < length (mpx_clients s)" "mpx_client_step qbytes j s = Some t" | (srv) "mpx_server_step qbytes opened s = Some t"
    using step by (auto simp: mpx_step_def)
  then show ?thesis
  proof cases
    case cl
    then show ?thesis
      using client_send_keeps [OF stp inv cl(1)] client_recv_keeps [OF stp inv cl(1)]
      by (cases "rq_pc (mpx_clients s ! j)") (auto simp: mpx_client_step_def Let_def)
  next
    case srv
    then show ?thesis
      using server_read_keeps [OF stp inv] server_send_keeps [OF stp inv] by (cases "mpx_server s") auto
  qed
qed

section \<open>Progress and termination\<close>

definition mpx_done :: "mpx \<Rightarrow> bool" where
  "mpx_done s \<longleftrightarrow> list_all (\<lambda>c. rq_pc c = Rq_done) (mpx_clients s) \<and> mpx_server s = None"

text \<open>
  The room that is enough: all requests can be on the queue, and one more message. Each message counts
  with its bytes and one more, which bounds the number of messages too.
\<close>

definition rq_room :: "byte list \<Rightarrow> nat" where
  "rq_room d = length d + 1"

definition mpx_room :: "nat \<Rightarrow> (nat \<times> byte list) list \<Rightarrow> bool" where
  "mpx_room qbytes cls \<longleftrightarrow>
    (\<Sum>(pid, stdin) \<leftarrow> cls. rq_room (mpx_request pid stdin)) + MAXMESGDATA + 1 \<le> qbytes"

lemma msgsnd_room:
  "sum_list (map (rq_room \<circ> snd) q) + length d + 1 \<le> qbytes \<Longrightarrow> msgsnd qbytes ty d q = Some (q @ [(ty, d)])"
proof -
  assume a: "sum_list (map (rq_room \<circ> snd) q) + length d + 1 \<le> qbytes"
  have "sum_list (map (rq_room \<circ> snd) q) = sum_list (map (\<lambda>m. length (snd m)) q) + length q"
    by (induction q) (auto simp: rq_room_def)
  with a show ?thesis by (simp add: msgsnd_def)
qed

lemma sum_list_mset_mono: "mset xs \<subseteq># mset ys \<Longrightarrow> sum_list (map f xs) \<le> sum_list (map (f :: 'a \<Rightarrow> nat) ys)"
proof -
  assume "mset xs \<subseteq># mset ys"
  then obtain Z where "mset ys = mset xs + Z" by (auto simp: mset_subset_eq_exists_conv)
  then have "sum_mset (image_mset f (mset ys)) = sum_mset (image_mset f (mset xs)) + sum_mset (image_mset f Z)" by simp
  then show ?thesis by (simp add: sum_mset_sum_list flip: mset_map)
qed

text \<open>Three clients fit on a queue of the usual limit, 16384 bytes.\<close>

lemma mpx_room_clients:
  assumes "mpx_setup opened cls" and "(length cls + 1) * MAXMESGDATA + 1 \<le> qbytes"
  shows "mpx_room qbytes cls"
proof -
  have "rq_room (mpx_request pid stdin) \<le> MAXMESGDATA" if "(pid, stdin) \<in> set cls" for pid stdin
    using rq_request_length [of "\<lparr>rq_pid = pid, rq_stdin = stdin, rq_pc = Rq_send, rq_out = []\<rparr>"] that assms(1)
    by (force simp: mpx_setup_def rq_request_def rq_room_def)
  then have "(\<Sum>(pid, stdin) \<leftarrow> cls. rq_room (mpx_request pid stdin)) \<le> (\<Sum>_ \<leftarrow> cls. MAXMESGDATA)"
    by (intro sum_list_mono) auto
  then show ?thesis using assms(2) by (simp add: mpx_room_def sum_list_triv)
qed

text \<open>Each request is on the queue at most once.\<close>

lemma mpx_queued_requests:
  assumes inv: "mpx_inv opened cls s"
  shows "sum_list (map rq_room (of_type 1 (mpx_queue s))) \<le> (\<Sum>(pid, stdin) \<leftarrow> cls. rq_room (mpx_request pid stdin))"
proof -
  let ?rs = "map rq_request (mpx_clients s)"
  have "count_list (of_type 1 (mpx_queue s)) x \<le> count_list ?rs x" for x
  proof (cases "x \<in> set ?rs")
    case True
    then obtain i where i: "i < length (mpx_clients s)" "x = rq_request (mpx_clients s ! i)"
      by (auto simp: in_set_conv_nth)
    then have "rq_count s (mpx_clients s ! i) \<le> 1"
      using inv client_ok_count unfolding mpx_inv_def by blast
    then have "count_list (of_type 1 (mpx_queue s)) x \<le> 1" using i(2) by (simp add: rq_count_def)
    moreover have "count_list ?rs x \<noteq> 0" using True by (simp add: count_list_0_iff)
    ultimately show ?thesis by linarith
  next
    case False
    then have "x \<notin> set (of_type 1 (mpx_queue s))" using inv by (auto simp: mpx_inv_def)
    then show ?thesis by simp
  qed
  then have "mset (of_type 1 (mpx_queue s)) \<subseteq># mset ?rs"
    by (simp add: subseteq_mset_def count_mset del: mset_map)
  then have "sum_list (map rq_room (of_type 1 (mpx_queue s))) \<le> sum_list (map rq_room ?rs)"
    by (rule sum_list_mset_mono)
  also have "map rq_room ?rs = map (\<lambda>(pid, stdin). rq_room (mpx_request pid stdin)) cls"
    using inv by (auto simp: mpx_inv_def rq_request_def)
  finally show ?thesis .
qed

lemma of_type_all: "(\<forall>m \<in> set q. fst m = t) \<Longrightarrow> of_type t q = map snd q"
  by (simp add: of_type_def)

text \<open>When no client has an answer to take, only requests are on the queue, and there is room.\<close>

lemma mpx_quiet_room:
  assumes stp: "mpx_setup opened cls" and inv: "mpx_inv opened cls s" and room: "mpx_room qbytes cls"
    and quiet: "\<forall>j < length (mpx_clients s). mpx_client_step qbytes j s = None \<or> rq_pc (mpx_clients s ! j) \<noteq> Rq_recv"
    and d: "length d \<le> MAXMESGDATA"
  shows "msgsnd qbytes ty d (mpx_queue s) = Some (mpx_queue s @ [(ty, d)])"
proof (rule msgsnd_room)
  have "fst m = 1" if m: "m \<in> set (mpx_queue s)" for m
  proof (rule ccontr)
    assume "fst m \<noteq> 1"
    then have "fst m \<in> (int \<circ> fst) ` set cls" using inv m by (auto simp: mpx_inv_def)
    moreover have "map fst cls = map rq_pid (mpx_clients s)" using inv by (auto simp: mpx_inv_def)
    ultimately have "fst m \<in> int ` set (map rq_pid (mpx_clients s))" by (metis image_comp list.set_map)
    then obtain i where i: "i < length (mpx_clients s)" "fst m = int (rq_pid (mpx_clients s ! i))"
      by (auto simp: in_set_conv_nth)
    then have some: "of_type (int (rq_pid (mpx_clients s ! i))) (mpx_queue s) \<noteq> []"
      using m by (auto simp: of_type_def filter_empty_conv)
    then have "pend s (int (rq_pid (mpx_clients s ! i))) \<noteq> []" by (simp add: pend_def)
    then have pc: "rq_pc (mpx_clients s ! i) = Rq_recv"
      using inv i(1) client_ok_pend unfolding mpx_inv_def by blast
    have "msgrcv (int (rq_pid (mpx_clients s ! i))) (mpx_queue s) \<noteq> None" using some by (simp add: msgrcv_None)
    then obtain d q where "msgrcv (int (rq_pid (mpx_clients s ! i))) (mpx_queue s) = Some (d, q)" by fast
    with pc have "mpx_client_step qbytes i s \<noteq> None" by (simp add: mpx_client_step_def Let_def)
    with quiet [rule_format, OF i(1)] pc show False by simp
  qed
  then have "of_type 1 (mpx_queue s) = map snd (mpx_queue s)" by (simp add: of_type_all)
  then show "sum_list (map (rq_room \<circ> snd) (mpx_queue s)) + length d + 1 \<le> qbytes"
    using mpx_queued_requests [OF inv] room d by (simp add: mpx_room_def)
qed

lemma mpx_progress:
  assumes stp: "mpx_setup opened cls" and inv: "mpx_inv opened cls s" and room: "mpx_room qbytes cls"
    and "\<not> mpx_done s"
  shows "\<exists>t. mpx_step qbytes opened s t"
proof (rule ccontr)
  assume stuck: "\<not> ?thesis"
  then have cl: "mpx_client_step qbytes j s = None" if "j < length (mpx_clients s)" for j
    using that by (auto simp: mpx_step_def) (meson not_None_eq)
  have srv: "mpx_server_step qbytes opened s = None" using stuck by (auto simp: mpx_step_def) (meson not_None_eq)
  note sends = mpx_quiet_room [OF stp inv room]
  have idle: "mpx_server s = None"
  proof (cases "mpx_server s")
    case (Some pm)
    obtain p ms where pm: "pm = (p, ms)" by (cases pm)
    then have "1 < p" "list_all (\<lambda>m. length m \<le> MAXMESGDATA) ms"
      using mpx_server_pid [OF stp inv] inv Some by (auto simp: mpx_inv_def)
    then show ?thesis using srv Some pm sends cl by (cases ms) (auto simp: mpx_server_step_def)
  qed
  have none: "of_type 1 (mpx_queue s) = []"
    using srv idle msgrcv_None [of 1 "mpx_queue s"] by (auto simp: mpx_server_step_def split: option.splits)
  obtain j where j: "j < length (mpx_clients s)" and nd: "rq_pc (mpx_clients s ! j) \<noteq> Rq_done"
    using assms(4) idle by (auto simp: mpx_done_def list_all_length)
  let ?c = "mpx_clients s ! j"
  have ok: "client_ok opened (rq_count s ?c) (pend s (int (rq_pid ?c))) ?c" using inv j by (simp add: mpx_inv_def)
  have len: "length (rq_request ?c) \<le> MAXMESGDATA"
    using rq_request_length [OF mpx_client_facts(3,2) [OF stp inv j]] by simp
  show False
  proof (cases "rq_pc ?c")
    case Rq_send
    then show False using cl [OF j] sends [OF _ len] cl by (auto simp: mpx_client_step_def rq_request_def Let_def)
  next
    case Rq_recv
    with ok none have "pend s (int (rq_pid ?c)) \<noteq> []" by (auto simp: client_ok_def rq_count_def)
    then have "msgrcv (int (rq_pid ?c)) (mpx_queue s) \<noteq> None" using idle by (auto simp: pend_def msgrcv_None)
    then show False using cl [OF j] Rq_recv by (auto simp: mpx_client_step_def Let_def)
  qed (use nd in simp)
qed

text \<open>The steps that are left at most: a request to be read is worth its whole answer.\<close>

fun srv_weight :: "(int \<times> byte list list) option \<Rightarrow> nat" where
  "srv_weight None = 0"
| "srv_weight (Some (p, ms)) = 1 + 2 * length ms"

definition msg_weight :: "(byte list \<Rightarrow> byte list + byte list) \<Rightarrow> svmsg \<Rightarrow> nat" where
  "msg_weight opened m = (if fst m = 1 then 2 + srv_weight (mpx_serve opened (snd m)) else 1)"

definition rq_weight :: "(byte list \<Rightarrow> byte list + byte list) \<Rightarrow> rqclient \<Rightarrow> int" where
  "rq_weight opened c = (if rq_pc c = Rq_send then 1 + int (msg_weight opened (1, rq_request c)) else 0)"

definition mpx_left :: "(byte list \<Rightarrow> byte list + byte list) \<Rightarrow> mpx \<Rightarrow> int" where
  "mpx_left opened s =
    int (sum_list (map (msg_weight opened) (mpx_queue s))) + int (srv_weight (mpx_server s)) +
    total_of (rq_weight opened) (mpx_clients s)"

lemma mpx_left_nonneg: "0 \<le> mpx_left opened s"
  using total_nonneg [of "rq_weight opened" "mpx_clients s"] by (simp add: mpx_left_def rq_weight_def)

lemma mpx_client_left:
  assumes "mpx_client_step qbytes j s = Some t" and j: "j < length (mpx_clients s)"
  shows "mpx_left opened t < mpx_left opened s"
proof (cases "rq_pc (mpx_clients s ! j)")
  case Rq_send
  with assms show ?thesis
    by (auto simp: mpx_client_step_def Let_def mpx_left_def total_update rq_weight_def rq_request_def dest!: msgsnd_Some)
next
  case Rq_recv
  then obtain d q where rcv: "msgrcv (int (rq_pid (mpx_clients s ! j))) (mpx_queue s) = Some (d, q)"
    using assms by (auto simp: mpx_client_step_def Let_def split: option.splits)
  have "0 < msg_weight opened (int (rq_pid (mpx_clients s ! j)), d)" by (simp add: msg_weight_def)
  with msgrcv_Some [OF rcv, where w = "msg_weight opened"] rcv assms Rq_recv show ?thesis
    by (auto simp: mpx_client_step_def Let_def mpx_left_def total_update rq_weight_def)
qed (use assms in \<open>simp add: mpx_client_step_def Let_def\<close>)

lemma mpx_server_left:
  assumes stp: "mpx_setup opened cls" and inv: "mpx_inv opened cls s" and run: "mpx_server_step qbytes opened s = Some t"
  shows "mpx_left opened t < mpx_left opened s"
proof (cases "mpx_server s")
  case None
  then obtain d q where rcv: "msgrcv 1 (mpx_queue s) = Some (d, q)"
    using run by (auto simp: mpx_server_step_def split: option.splits)
  with msgrcv_Some [OF rcv, where w = "msg_weight opened"] None run show ?thesis
    by (auto simp: mpx_server_step_def mpx_left_def msg_weight_def)
next
  case (Some pm)
  obtain p ms where "pm = (p, ms)" by (cases pm)
  with mpx_server_pid [OF stp inv] Some run show ?thesis
    by (cases ms) (auto simp: mpx_server_step_def mpx_left_def msg_weight_def dest!: msgsnd_Some)
qed

lemma mpx_path_keeps:
  assumes stp: "mpx_setup opened cls" and "mpx_inv opened cls s" and "path_steps (mpx_step qbytes opened) s ts"
  shows "mpx_inv opened cls (last (s # ts)) \<and> int (length ts) + mpx_left opened (last (s # ts)) \<le> mpx_left opened s"
  using assms(2,3)
proof (induction ts arbitrary: s)
  case (Cons t ts)
  then have step: "mpx_step qbytes opened s t" by simp
  have "mpx_left opened t < mpx_left opened s"
    using step mpx_client_left mpx_server_left [OF stp Cons.prems(1)] by (auto simp: mpx_step_def)
  with Cons.IH [OF mpx_step_keeps [OF stp Cons.prems(1) step]] Cons.prems(2) show ?case by auto
qed simp

lemma mpx_start_inv: "mpx_inv opened cls (mpx_start cls)"
proof -
  have "map (\<lambda>c. (rq_pid c, rq_stdin c)) (mpx_clients (mpx_start cls)) = cls"
    by (auto simp: mpx_start_def o_def intro!: map_idI)
  then show ?thesis
  by (auto simp: mpx_inv_def mpx_start_def of_type_def rq_count_def pend_def client_ok_def nth_map split: prod.splits)
qed

text \<open>What a client is to print: the file, or the error line.\<close>

definition mpx_answer :: "(byte list \<Rightarrow> byte list + byte list) \<Rightarrow> nat \<Rightarrow> byte list \<Rightarrow> byte list" where
  "mpx_answer opened pid stdin =
    (let path = rq_path pid stdin in
     case opened path of
      Inl errtext \<Rightarrow> error_line (mpx_request pid stdin) path errtext
    | Inr content \<Rightarrow> content)"

lemma rq_reply_answer:
  assumes "0 \<notin> set (rq_stdin c)" and "\<forall>path content. opened path = Inr content \<longrightarrow> 0 \<notin> set content"
  shows "concat (rq_reply opened c) = mpx_answer opened (rq_pid c) (rq_stdin c)"
  using assms file_msgs_content
  by (auto simp: rq_reply_def server_reply_def mpx_answer_def rq_request_def Let_def split: sum.splits)

section \<open>Properties\<close>

text \<open>The clients from number \<open>k\<close> on send their requests one after the other.\<close>

definition mpx_sent :: "(nat \<times> byte list) list \<Rightarrow> svmsg list" where
  "mpx_sent cls = map (\<lambda>x. (1, mpx_request (fst x) (snd x))) cls"

definition mpx_waiting :: "nat \<times> byte list \<Rightarrow> rqclient" where
  "mpx_waiting cl = \<lparr>rq_pid = fst cl, rq_stdin = snd cl, rq_pc = Rq_recv, rq_out = []\<rparr>"

definition mpx_fresh :: "nat \<times> byte list \<Rightarrow> rqclient" where
  "mpx_fresh cl = \<lparr>rq_pid = fst cl, rq_stdin = snd cl, rq_pc = Rq_send, rq_out = []\<rparr>"

lemma mpx_client_sends:
  assumes "msgsnd qbytes 1 (mpx_request (fst cl) (snd cl)) q = Some q'"
  shows "mpx_client_step qbytes (length pre) \<lparr>mpx_queue = q, mpx_server = srv, mpx_clients = pre @ mpx_fresh cl # post\<rparr> =
    Some \<lparr>mpx_queue = q', mpx_server = srv, mpx_clients = pre @ mpx_waiting cl # post\<rparr>"
  using assms by (simp add: mpx_client_step_def Let_def mpx_fresh_def mpx_waiting_def)

lemma mpx_all_send:
  assumes "(\<Sum>m \<leftarrow> q @ mpx_sent cls. length (snd m)) \<le> qbytes" and "length q + length cls \<le> qbytes"
  shows "\<exists>ts. path_steps (mpx_step qbytes opened) \<lparr>mpx_queue = q, mpx_server = srv, mpx_clients = pre @ map mpx_fresh cls\<rparr> ts \<and>
    last (\<lparr>mpx_queue = q, mpx_server = srv, mpx_clients = pre @ map mpx_fresh cls\<rparr> # ts) =
      \<lparr>mpx_queue = q @ mpx_sent cls, mpx_server = srv, mpx_clients = pre @ map mpx_waiting cls\<rparr>"
  using assms
proof (induction cls arbitrary: q pre)
  case Nil
  show ?case by (rule exI [of _ "[]"]) (simp add: mpx_sent_def)
next
  case (Cons cl cls)
  let ?q = "q @ [(1, mpx_request (fst cl) (snd cl))]"
  let ?s = "\<lparr>mpx_queue = q, mpx_server = srv, mpx_clients = pre @ mpx_fresh cl # map mpx_fresh cls\<rparr>"
  let ?t = "\<lparr>mpx_queue = ?q, mpx_server = srv, mpx_clients = (pre @ [mpx_waiting cl]) @ map mpx_fresh cls\<rparr>"
  have fits: "msgsnd qbytes 1 (mpx_request (fst cl) (snd cl)) q = Some ?q"
    using Cons.prems by (auto simp: msgsnd_def mpx_sent_def split_beta)
  have "mpx_step qbytes opened ?s ?t"
    using mpx_client_sends [OF fits, of pre srv "map mpx_fresh cls"]
    unfolding mpx_step_def by (intro disjI1 exI [of _ "length pre"]) simp
  moreover obtain ts where "path_steps (mpx_step qbytes opened) ?t ts"
    "last (?t # ts) = \<lparr>mpx_queue = ?q @ mpx_sent cls, mpx_server = srv, mpx_clients = (pre @ [mpx_waiting cl]) @ map mpx_waiting cls\<rparr>"
    using Cons.IH [of ?q "pre @ [mpx_waiting cl]"] Cons.prems by (auto simp: mpx_sent_def split_beta)
  ultimately show ?case by (intro exI [of _ "?t # ts"]) (auto simp: mpx_sent_def split_beta)
qed

lemma mpx_full_stuck:
  assumes stp: "mpx_setup opened (cl # cls)"
    and full: "qbytes < (\<Sum>x \<leftarrow> cls. length (mpx_request (fst x) (snd x))) + length (hd (rq_reply opened (mpx_waiting cl)))"
  shows "\<forall>t. \<not> mpx_step qbytes opened \<lparr>mpx_queue = mpx_sent cls,
    mpx_server = Some (int (fst cl), rq_reply opened (mpx_waiting cl)), mpx_clients = [mpx_waiting cl] @ map mpx_waiting cls\<rparr> t"
    (is "\<forall>t. \<not> mpx_step qbytes opened ?s t")
proof -
  obtain m ms where reply: "rq_reply opened (mpx_waiting cl) = m # ms"
    by (cases "rq_reply opened (mpx_waiting cl)") (auto simp: rq_reply_def server_reply_def)
  have "1 < fst cl" using stp by (simp add: mpx_setup_def)
  then have "mpx_server_step qbytes opened ?s = None"
    using full reply by (simp add: mpx_server_step_def msgsnd_def mpx_sent_def o_def)
  moreover have "mpx_client_step qbytes j ?s = None" if "j < length (mpx_clients ?s)" for j
  proof -
    have cj: "mpx_clients ?s ! j = mpx_waiting ((cl # cls) ! j)" using that by (cases j) auto
    have "1 < fst ((cl # cls) ! j)" using stp that nth_mem [of j "cl # cls"] by (auto simp: mpx_setup_def)
    then have "msgrcv (int (fst ((cl # cls) ! j))) (mpx_sent cls) = None"
      by (auto simp: msgrcv_None of_type_def mpx_sent_def filter_empty_conv)
    then show ?thesis unfolding mpx_client_step_def Let_def cj by (simp add: mpx_waiting_def)
  qed
  ultimately show ?thesis by (simp add: mpx_step_def)
qed

text \<open>
  The queue of \<open>svmsgmpx1q\<close> can fill up with requests: when the requests of the other clients fit on
  it but leave no room for the first message of the answer to a client, then a run leads to a state
  in which the server waits to send that answer, all clients wait to receive, and no process can run.
\<close>

lemma mpx_full_queue_deadlocks:
  assumes stp: "mpx_setup opened (cl # cls)"
    and first: "length (mpx_request (fst cl) (snd cl)) \<le> qbytes" "1 \<le> qbytes"
    and others: "(\<Sum>x \<leftarrow> cls. length (mpx_request (fst x) (snd x))) \<le> qbytes" "length cls \<le> qbytes"
    and full: "qbytes < (\<Sum>x \<leftarrow> cls. length (mpx_request (fst x) (snd x))) +
      length (hd (server_reply opened (mpx_request (fst cl) (snd cl)) (rq_path (fst cl) (snd cl))))"
  shows "\<exists>ts s. path_steps (mpx_step qbytes opened) (mpx_start (cl # cls)) ts \<and> s = last (mpx_start (cl # cls) # ts) \<and>
    \<not> mpx_done s \<and> (\<forall>t. \<not> mpx_step qbytes opened s t)"
proof -
  let ?c = "mpx_waiting cl" and ?srv = "Some (int (fst cl), rq_reply opened (mpx_waiting cl))"
  let ?s0 = "mpx_start (cl # cls)"
  let ?s1 = "\<lparr>mpx_queue = [(1, rq_request ?c)], mpx_server = None, mpx_clients = ?c # map mpx_fresh cls\<rparr>"
  let ?s2 = "\<lparr>mpx_queue = [], mpx_server = ?srv, mpx_clients = [?c] @ map mpx_fresh cls\<rparr>"
  let ?s3 = "\<lparr>mpx_queue = mpx_sent cls, mpx_server = ?srv, mpx_clients = [?c] @ map mpx_waiting cls\<rparr>"
  have s0: "?s0 = \<lparr>mpx_queue = [], mpx_server = None, mpx_clients = [] @ mpx_fresh cl # map mpx_fresh cls\<rparr>"
    by (auto simp: mpx_start_def mpx_fresh_def split_beta)
  have fits: "msgsnd qbytes 1 (mpx_request (fst cl) (snd cl)) [] = Some [(1, mpx_request (fst cl) (snd cl))]"
    using first by (simp add: msgsnd_def)
  have step1: "mpx_step qbytes opened ?s0 ?s1"
    using mpx_client_sends [OF fits, of "[]" None "map mpx_fresh cls"] s0
    unfolding mpx_step_def by (intro disjI1 exI [of _ 0]) (simp add: rq_request_def mpx_waiting_def)
  have stdin: "0 \<notin> set (rq_stdin ?c)" and pid: "1 < fst cl" using stp by (auto simp: mpx_setup_def mpx_waiting_def)
  have step2: "mpx_step qbytes opened ?s1 ?s2"
    unfolding mpx_step_def using mpx_serve_request [OF stdin, of opened]
    by (simp add: mpx_server_step_def) (simp add: mpx_waiting_def)
  obtain ts where ts: "path_steps (mpx_step qbytes opened) ?s2 ts" "last (?s2 # ts) = ?s3"
    using mpx_all_send [of "[]" cls qbytes opened ?srv "[?c]"] others by (auto simp: mpx_sent_def split_beta o_def)
  have "qbytes < (\<Sum>x \<leftarrow> cls. length (mpx_request (fst x) (snd x))) + length (hd (rq_reply opened ?c))"
    using full by (simp add: rq_reply_def rq_request_def mpx_waiting_def)
  then have stuck: "\<forall>t. \<not> mpx_step qbytes opened ?s3 t" by (rule mpx_full_stuck [OF stp])
  have "path_steps (mpx_step qbytes opened) ?s0 (?s1 # ?s2 # ts)" using step1 step2 ts(1) by simp
  moreover have "last (?s0 # ?s1 # ?s2 # ts) = ?s3" using ts(2) by simp
  moreover have "\<not> mpx_done ?s3" by (simp add: mpx_done_def)
  ultimately show ?thesis using stuck by metis
qed

text \<open>
  C19. The server of \<open>svmsgmpx1q\<close> over one queue: for clients with different process ids above 1 and
  files without null bytes, under every interleaving and for every limit \<open>msg_qbytes\<close> each client prints
  a beginning of the answer to its own request, the file or the error line, and a client that is done
  has printed the whole answer; every run is finite; and when the limit leaves room for all requests
  and one more message, some process can run until all clients are done.
\<close>

theorem mpx_delivers:
  assumes "mpx_setup opened cls" and "path_steps (mpx_step qbytes opened) (mpx_start cls) ts"
    and "s = last (mpx_start cls # ts)" and "j < length cls"
  shows "(\<exists>rest. mpx_answer opened (fst (cls ! j)) (snd (cls ! j)) = rq_out (mpx_clients s ! j) @ rest) \<and>
    (rq_pc (mpx_clients s ! j) = Rq_done \<longrightarrow>
      rq_out (mpx_clients s ! j) = mpx_answer opened (fst (cls ! j)) (snd (cls ! j))) \<and>
    (mpx_room qbytes cls \<longrightarrow> mpx_done s \<or> (\<exists>t. mpx_step qbytes opened s t)) \<and>
    int (length ts) \<le> mpx_left opened (mpx_start cls)"
proof -
  have inv: "mpx_inv opened cls s" and len: "int (length ts) + mpx_left opened s \<le> mpx_left opened (mpx_start cls)"
    using mpx_path_keeps [OF assms(1) mpx_start_inv assms(2)] assms(3) by auto
  have n: "length (mpx_clients s) = length cls" "cls ! j = (rq_pid (mpx_clients s ! j), rq_stdin (mpx_clients s ! j))"
    using inv assms(4) by (auto simp: mpx_inv_def)
  then have j: "j < length (mpx_clients s)" using assms(4) by simp
  let ?c = "mpx_clients s ! j"
  have ok: "client_ok opened (rq_count s ?c) (pend s (int (rq_pid ?c))) ?c" using inv j by (simp add: mpx_inv_def)
  have ans: "concat (rq_reply opened ?c) = mpx_answer opened (fst (cls ! j)) (snd (cls ! j))"
    using rq_reply_answer [OF mpx_client_facts(3) [OF assms(1) inv j]] assms(1) n(2) by (simp add: mpx_setup_def)
  have "\<exists>rest. concat (rq_reply opened ?c) = rq_out ?c @ rest"
    using ok by (auto simp: client_ok_def split: rq_pc.splits) (metis append_take_drop_id concat_append)+
  moreover have "rq_pc ?c = Rq_done \<longrightarrow> rq_out ?c = concat (rq_reply opened ?c)" using ok by (auto simp: client_ok_def)
  ultimately show ?thesis
    using ans mpx_progress [OF assms(1) inv] len mpx_left_nonneg [of opened s] by auto
qed

theorem mpx_delivers_witness:
  "\<exists>t. mpx_step 16384 (\<lambda>path. Inr [104, 105, 10]) (mpx_start [(2, [97, 10]), (3, [98])]) t"
proof -
  have "mpx_setup (\<lambda>path. Inr [104, 105, 10]) [(2, [97, 10]), (3, [98])]" by (simp add: mpx_setup_def)
  with mpx_delivers [OF this, of 16384 "[]" _ 0] mpx_room_clients [OF this, of 16384] show ?thesis
    by (simp add: mpx_done_def mpx_start_def)
qed

end
