(* ===== verification/Critical.thy ===== *)
theory Critical
  imports Px_Prodcons
begin

text \<open>
  Programs whose threads or processes repeat a critical section: lock, read the shared data, write it
  back changed, unlock. They are the counters of \<open>src/bench/incr_*.c\<close> and \<open>src/shm/incr*.c\<close> and the
  sequence numbers of \<open>src/lock\<close>. What such a program needs from its lock is the locale \<open>exclusion\<close>;
  every semaphore that counts is such a lock.
\<close>

section \<open>The program\<close>

text \<open>
  A round of a worker is the test of its loop, the lock, the read of the shared data into a local
  variable, the write, and the unlock. \<open>cr_log\<close> has the values read, with the worker that read them, in
  order; \<open>cr_main\<close> says that the main thread still holds the lock.
\<close>

datatype crit_pc = L_test | L_lock | L_load | L_store | L_unlock | L_done

record 'v worker =
  w_pc :: crit_pc
  w_i :: int
  w_val :: 'v

record ('l, 'd, 'v) crit =
  cr_lock :: 'l
  cr_data :: 'd
  cr_workers :: "'v worker list"
  cr_log :: "(nat \<times> 'v) list"
  cr_main :: bool

definition set_worker :: "nat \<Rightarrow> 'v worker \<Rightarrow> ('l, 'd, 'v) crit \<Rightarrow> ('l, 'd, 'v) crit" where
  "set_worker j w s = s\<lparr>cr_workers := (cr_workers s)[j := w]\<rparr>"

definition worker_step ::
  "(nat \<Rightarrow> 'l \<Rightarrow> 'l option) \<Rightarrow> (nat \<Rightarrow> 'l \<Rightarrow> 'l option) \<Rightarrow> ('d \<Rightarrow> 'v) \<Rightarrow> ('v \<Rightarrow> 'd \<Rightarrow> 'd) \<Rightarrow>
    int \<Rightarrow> nat \<Rightarrow> ('l, 'd, 'v) crit \<Rightarrow> ('l, 'd, 'v) crit option" where
  "worker_step acquire release rd wr nloop j s =
    (let w = cr_workers s ! j in
     case w_pc w of
      L_test \<Rightarrow> Some (set_worker j (w\<lparr>w_pc := (if w_i w < nloop then L_lock else L_done)\<rparr>) s)
    | L_lock \<Rightarrow> map_option (\<lambda>l. set_worker j (w\<lparr>w_pc := L_load\<rparr>) (s\<lparr>cr_lock := l\<rparr>)) (acquire j (cr_lock s))
    | L_load \<Rightarrow>
        Some (set_worker j (w\<lparr>w_pc := L_store, w_val := rd (cr_data s)\<rparr>)
          (s\<lparr>cr_log := cr_log s @ [(j, rd (cr_data s))]\<rparr>))
    | L_store \<Rightarrow> Some (set_worker j (w\<lparr>w_pc := L_unlock\<rparr>) (s\<lparr>cr_data := wr (w_val w) (cr_data s)\<rparr>))
    | L_unlock \<Rightarrow>
        map_option (\<lambda>l. set_worker j (w\<lparr>w_pc := L_test, w_i := w_i w + 1\<rparr>) (s\<lparr>cr_lock := l\<rparr>)) (release j (cr_lock s))
    | L_done \<Rightarrow> None)"

text \<open>The main thread releases the lock once, when it has started the workers.\<close>

definition main_release :: "(nat \<Rightarrow> 'l \<Rightarrow> 'l option) \<Rightarrow> ('l, 'd, 'v) crit \<Rightarrow> ('l, 'd, 'v) crit option" where
  "main_release release s =
    (if cr_main s then map_option (\<lambda>l. s\<lparr>cr_lock := l, cr_main := False\<rparr>) (release (length (cr_workers s)) (cr_lock s))
     else None)"

definition crit_step ::
  "(nat \<Rightarrow> 'l \<Rightarrow> 'l option) \<Rightarrow> (nat \<Rightarrow> 'l \<Rightarrow> 'l option) \<Rightarrow> ('d \<Rightarrow> 'v) \<Rightarrow> ('v \<Rightarrow> 'd \<Rightarrow> 'd) \<Rightarrow>
    int \<Rightarrow> ('l, 'd, 'v) crit \<Rightarrow> ('l, 'd, 'v) crit \<Rightarrow> bool" where
  "crit_step acquire release rd wr nloop s t \<longleftrightarrow>
    (\<exists>j < length (cr_workers s). worker_step acquire release rd wr nloop j s = Some t) \<or>
    main_release release s = Some t"

definition crit_start :: "nat \<Rightarrow> 'l \<Rightarrow> 'd \<Rightarrow> 'v \<Rightarrow> bool \<Rightarrow> ('l, 'd, 'v) crit" where
  "crit_start n l d v mn =
    \<lparr>cr_lock = l, cr_data = d, cr_workers = replicate n \<lparr>w_pc = L_test, w_i = 0, w_val = v\<rparr>, cr_log = [], cr_main = mn\<rparr>"

definition crit_joined :: "('l, 'd, 'v) crit \<Rightarrow> bool" where
  "crit_joined s \<longleftrightarrow> \<not> cr_main s \<and> list_all (\<lambda>w. w_pc w = L_done) (cr_workers s)"

text \<open>One round of any worker, seen from outside.\<close>

definition upd :: "('d \<Rightarrow> 'v) \<Rightarrow> ('v \<Rightarrow> 'd \<Rightarrow> 'd) \<Rightarrow> 'd \<Rightarrow> 'd" where
  "upd rd wr d = wr (rd d) d"

section \<open>The invariant\<close>

fun inside :: "crit_pc \<Rightarrow> bool" where
  "inside L_load = True" | "inside L_store = True" | "inside L_unlock = True" | "inside _ = False"

fun counted :: "crit_pc \<Rightarrow> int" where
  "counted L_store = 1" | "counted L_unlock = 1" | "counted _ = 0"

definition rounds :: "'v worker \<Rightarrow> int" where
  "rounds w = w_i w + counted (w_pc w)"

text \<open>Who has the lock, by its number; the main thread has the number after the last worker.\<close>

definition crit_excl :: "(nat option \<Rightarrow> 'l \<Rightarrow> bool) \<Rightarrow> ('l, 'd, 'v) crit \<Rightarrow> bool" where
  "crit_excl own s \<longleftrightarrow>
    (\<exists>ow. own ow (cr_lock s) \<and> (ow = Some (length (cr_workers s)) \<longleftrightarrow> cr_main s) \<and>
      (\<forall>k. ow = Some k \<longrightarrow> k \<le> length (cr_workers s)) \<and>
      (\<forall>j < length (cr_workers s). inside (w_pc (cr_workers s ! j)) \<longleftrightarrow> ow = Some j))"

text \<open>The data is what the rounds so far made of it, and each round read what the one before left.\<close>

definition crit_data :: "('d \<Rightarrow> 'v) \<Rightarrow> ('v \<Rightarrow> 'd \<Rightarrow> 'd) \<Rightarrow> 'd \<Rightarrow> ('l, 'd, 'v) crit \<Rightarrow> bool" where
  "crit_data rd wr d0 s \<longleftrightarrow>
    map snd (cr_log s) = map (\<lambda>k. rd ((upd rd wr ^^ k) d0)) [0..<length (cr_log s)] \<and>
    (if \<exists>j < length (cr_workers s). w_pc (cr_workers s ! j) = L_store
     then \<exists>k. length (cr_log s) = Suc k \<and> cr_data s = (upd rd wr ^^ k) d0
     else cr_data s = (upd rd wr ^^ length (cr_log s)) d0) \<and>
    (\<forall>j < length (cr_workers s). w_pc (cr_workers s ! j) = L_store \<longrightarrow> w_val (cr_workers s ! j) = rd (cr_data s))"

definition crit_counts :: "int \<Rightarrow> ('l, 'd, 'v) crit \<Rightarrow> bool" where
  "crit_counts nloop s \<longleftrightarrow>
    total_of rounds (cr_workers s) = int (length (cr_log s)) \<and>
    (\<forall>w \<in> set (cr_workers s). 0 \<le> w_i w \<and> w_i w \<le> max 0 nloop \<and>
      (w_pc w = L_lock \<or> inside (w_pc w) \<longrightarrow> w_i w < nloop) \<and> (w_pc w = L_done \<longrightarrow> nloop \<le> w_i w))"

definition crit_inv ::
  "(nat option \<Rightarrow> 'l \<Rightarrow> bool) \<Rightarrow> ('d \<Rightarrow> 'v) \<Rightarrow> ('v \<Rightarrow> 'd \<Rightarrow> 'd) \<Rightarrow> int \<Rightarrow> nat \<Rightarrow> 'd \<Rightarrow> ('l, 'd, 'v) crit \<Rightarrow> bool" where
  "crit_inv own rd wr nloop n d0 s \<longleftrightarrow>
    length (cr_workers s) = n \<and> crit_excl own s \<and> crit_data rd wr d0 s \<and> crit_counts nloop s"

text \<open>The steps that are left at most.\<close>

fun pc_left :: "crit_pc \<Rightarrow> int" where
  "pc_left L_test = 1" | "pc_left L_lock = 0" | "pc_left L_load = - 1" | "pc_left L_store = - 2"
| "pc_left L_unlock = - 3" | "pc_left L_done = 0"

definition worker_left :: "int \<Rightarrow> 'v worker \<Rightarrow> int" where
  "worker_left nloop w = 5 * (max 0 nloop - w_i w) + pc_left (w_pc w)"

definition crit_left :: "int \<Rightarrow> ('l, 'd, 'v) crit \<Rightarrow> int" where
  "crit_left nloop s = total_of (worker_left nloop) (cr_workers s) + (if cr_main s then 1 else 0)"

lemmas worker_defs = worker_step_def set_worker_def Let_def

section \<open>Steps\<close>

lemma worker_step_cases:
  assumes "worker_step acquire release rd wr nloop j s = Some t"
  obtains
    (test) "w_pc (cr_workers s ! j) = L_test"
      "t = set_worker j ((cr_workers s ! j)\<lparr>w_pc := (if w_i (cr_workers s ! j) < nloop then L_lock else L_done)\<rparr>) s"
  | (lock) l where "w_pc (cr_workers s ! j) = L_lock" "acquire j (cr_lock s) = Some l"
      "t = set_worker j ((cr_workers s ! j)\<lparr>w_pc := L_load\<rparr>) (s\<lparr>cr_lock := l\<rparr>)"
  | (load) "w_pc (cr_workers s ! j) = L_load"
      "t = set_worker j ((cr_workers s ! j)\<lparr>w_pc := L_store, w_val := rd (cr_data s)\<rparr>)
        (s\<lparr>cr_log := cr_log s @ [(j, rd (cr_data s))]\<rparr>)"
  | (store) "w_pc (cr_workers s ! j) = L_store"
      "t = set_worker j ((cr_workers s ! j)\<lparr>w_pc := L_unlock\<rparr>) (s\<lparr>cr_data := wr (w_val (cr_workers s ! j)) (cr_data s)\<rparr>)"
  | (unlock) l where "w_pc (cr_workers s ! j) = L_unlock" "release j (cr_lock s) = Some l"
      "t = set_worker j ((cr_workers s ! j)\<lparr>w_pc := L_test, w_i := w_i (cr_workers s ! j) + 1\<rparr>) (s\<lparr>cr_lock := l\<rparr>)"
  using assms by (cases "w_pc (cr_workers s ! j)") (auto simp: worker_step_def Let_def)

lemma worker_counts:
  assumes step: "worker_step acquire release rd wr nloop j s = Some t" and j: "j < length (cr_workers s)"
    and inv: "crit_counts nloop s"
  shows "crit_counts nloop t \<and> crit_left nloop t < crit_left nloop s"
proof -
  let ?w = "cr_workers s ! j"
  have w: "?w \<in> set (cr_workers s)" using j by simp
  have ok: "0 \<le> w_i ?w" "w_i ?w \<le> max 0 nloop" "w_pc ?w = L_lock \<or> inside (w_pc ?w) \<Longrightarrow> w_i ?w < nloop"
    using inv w by (auto simp: crit_counts_def)
  have "inside (w_pc ?w) \<Longrightarrow> w_i ?w + 1 \<le> max 0 nloop" using ok(3) by simp
  from step this show ?thesis
    by (cases rule: worker_step_cases)
      (use inv ok j in \<open>auto simp: crit_counts_def crit_left_def set_worker_def total_update rounds_def worker_left_def
        dest!: in_set_updateD\<close>)
qed

lemma main_counts:
  assumes "main_release release s = Some t" and "crit_counts nloop s"
  shows "crit_counts nloop t \<and> crit_left nloop t < crit_left nloop s"
  using assms by (auto simp: main_release_def crit_counts_def crit_left_def split: if_splits)

lemma crit_left_nonneg:
  assumes "crit_counts nloop s"
  shows "0 \<le> crit_left nloop s"
proof -
  have "0 \<le> worker_left nloop w" if "w \<in> set (cr_workers s)" for w
    using assms that by (cases "w_pc w") (auto simp: crit_counts_def worker_left_def)
  then have "0 \<le> sum_list (map (worker_left nloop) (cr_workers s))" by (intro sum_list_nonneg) auto
  then show ?thesis by (simp add: crit_left_def total_of_def)
qed

lemma main_data: "main_release release s = Some t \<Longrightarrow> crit_data rd wr d0 s \<Longrightarrow> crit_data rd wr d0 t"
  by (auto simp: main_release_def crit_data_def split: if_splits)

lemma data_same:
  assumes inv: "crit_data rd wr d0 s" and j: "j < length (cr_workers s)"
    and t: "cr_workers t = (cr_workers s)[j := w]" "cr_log t = cr_log s" "cr_data t = cr_data s"
    and pc: "w_pc (cr_workers s ! j) \<noteq> L_store" "w_pc w \<noteq> L_store"
  shows "crit_data rd wr d0 t"
proof -
  have nth: "w_pc (cr_workers t ! i) = L_store \<longleftrightarrow> w_pc (cr_workers s ! i) = L_store"
    "w_pc (cr_workers s ! i) = L_store \<Longrightarrow> cr_workers t ! i = cr_workers s ! i" if "i < length (cr_workers s)" for i
    using that j pc t(1) by (auto simp: nth_list_update)
  have len: "length (cr_workers t) = length (cr_workers s)" using t(1) by simp
  have "(\<exists>i < length (cr_workers t). w_pc (cr_workers t ! i) = L_store) \<longleftrightarrow>
      (\<exists>i < length (cr_workers s). w_pc (cr_workers s ! i) = L_store)" using nth(1) len by auto
  then show ?thesis using inv nth len t(2,3) by (simp add: crit_data_def)
qed

section \<open>Exclusion\<close>

text \<open>
  A lock is taken by one at a time: whoever asks while it is free gets it, whoever else asks waits, and
  the one who has it can give it back.
\<close>

locale exclusion =
  fixes acquire :: "nat \<Rightarrow> 'l \<Rightarrow> 'l option"
    and release :: "nat \<Rightarrow> 'l \<Rightarrow> 'l option"
    and own :: "nat option \<Rightarrow> 'l \<Rightarrow> bool"
  assumes acquire_free: "own None l \<Longrightarrow> \<exists>l'. acquire j l = Some l' \<and> own (Some j) l'"
    and acquire_taken: "own (Some k) l \<Longrightarrow> k \<noteq> j \<Longrightarrow> acquire j l = None"
    and release_own: "own (Some j) l \<Longrightarrow> \<exists>l'. release j l = Some l' \<and> own None l'"
begin

lemma worker_excl:
  assumes step: "worker_step acquire release rd wr nloop j s = Some t" and j: "j < length (cr_workers s)"
    and inv: "crit_excl own s"
  shows "crit_excl own t"
proof -
  obtain ow where ow: "own ow (cr_lock s)" "ow = Some (length (cr_workers s)) \<longleftrightarrow> cr_main s"
    "\<forall>k. ow = Some k \<longrightarrow> k \<le> length (cr_workers s)"
    "\<forall>i < length (cr_workers s). inside (w_pc (cr_workers s ! i)) \<longleftrightarrow> ow = Some i"
    using inv by (auto simp: crit_excl_def)
  from step show ?thesis
  proof (cases rule: worker_step_cases)
    case (lock l)
    have "ow = None"
    proof (rule ccontr)
      assume "ow \<noteq> None"
      then obtain k where k: "ow = Some k" by blast
      then have "k \<noteq> j" using ow(4) j lock(1) by auto
      then show False using acquire_taken ow(1) k lock(2) by auto
    qed
    then have "own (Some j) l" using acquire_free [of "cr_lock s" j] ow(1) lock(2) by auto
    then show ?thesis using ow j lock(1,3) \<open>ow = None\<close>
      by (auto simp: crit_excl_def set_worker_def nth_list_update intro!: exI [of _ "Some j"])
  next
    case (unlock l)
    have "ow = Some j" using ow(4) j unlock(1) by auto
    then have "own None l" using release_own [of j "cr_lock s"] ow(1) unlock(2) by auto
    then show ?thesis using ow j unlock(1,3) \<open>ow = Some j\<close>
      by (auto simp: crit_excl_def set_worker_def nth_list_update intro!: exI [of _ None])
  qed (use ow j in \<open>auto simp: crit_excl_def set_worker_def nth_list_update intro!: exI [of _ ow]\<close>)
qed

lemma main_excl:
  assumes step: "main_release release s = Some t" and inv: "crit_excl own s"
  shows "crit_excl own t"
proof -
  have main: "cr_main s" using step by (simp add: main_release_def split: if_splits)
  obtain l where l: "release (length (cr_workers s)) (cr_lock s) = Some l" "t = s\<lparr>cr_lock := l, cr_main := False\<rparr>"
    using step main by (auto simp: main_release_def)
  have o: "own (Some (length (cr_workers s))) (cr_lock s)"
    and none: "\<forall>i < length (cr_workers s). \<not> inside (w_pc (cr_workers s ! i))"
    using inv main by (auto simp: crit_excl_def)
  have "own None l" using release_own [OF o] l(1) by auto
  then show ?thesis using l(2) none by (auto simp: crit_excl_def intro!: exI [of _ None])
qed

lemma one_inside:
  assumes "crit_excl own s" and "i < length (cr_workers s)" and "j < length (cr_workers s)"
    and "inside (w_pc (cr_workers s ! i))" and "inside (w_pc (cr_workers s ! j))"
  shows "i = j"
  using assms by (auto simp: crit_excl_def)

lemma worker_data:
  assumes step: "worker_step acquire release rd wr nloop j s = Some t" and j: "j < length (cr_workers s)"
    and excl: "crit_excl own s" and inv: "crit_data rd wr d0 s"
  shows "crit_data rd wr d0 t"
proof -
  have other: "w_pc (cr_workers s ! i) \<noteq> L_store"
    if "inside (w_pc (cr_workers s ! j))" "i < length (cr_workers s)" "i \<noteq> j" for i
    using one_inside [OF excl that(2) j] that by auto
  from step show ?thesis
  proof (cases rule: worker_step_cases)
    case load
    have "cr_data s = (upd rd wr ^^ length (cr_log s)) d0"
      using inv other load(1) unfolding crit_data_def by (metis crit_pc.distinct(19) inside.simps(1))
    with inv other load j show ?thesis
      by (auto simp: crit_data_def set_worker_def nth_list_update)
  next
    case store
    have ex: "\<exists>i < length (cr_workers s). w_pc (cr_workers s ! i) = L_store" using store(1) j by blast
    obtain k where k: "length (cr_log s) = Suc k" "cr_data s = (upd rd wr ^^ k) d0"
      using inv ex by (auto simp: crit_data_def)
    have v: "w_val (cr_workers s ! j) = rd (cr_data s)" using inv store(1) j by (auto simp: crit_data_def)
    have none: "\<not> (\<exists>i < length (cr_workers t). w_pc (cr_workers t ! i) = L_store)"
      using other store j by (auto simp: set_worker_def nth_list_update)
    have "cr_data t = (upd rd wr ^^ length (cr_log t)) d0"
      using store(2) k v by (simp add: set_worker_def upd_def)
    with none inv store(2) show ?thesis by (auto simp: crit_data_def set_worker_def)
  qed (auto simp: set_worker_def intro!: data_same [OF inv j])
qed

lemma crit_step_keeps:
  assumes "crit_inv own rd wr nloop n d0 s" and "crit_step acquire release rd wr nloop s t"
  shows "crit_inv own rd wr nloop n d0 t \<and> crit_left nloop t < crit_left nloop s"
proof -
  have len: "length (cr_workers t) = length (cr_workers s)"
    using assms(2) unfolding crit_step_def
    by (auto simp: main_release_def set_worker_def split: if_splits elim: worker_step_cases)
  from assms show ?thesis
    using worker_excl worker_data worker_counts main_excl main_data main_counts len
    unfolding crit_step_def crit_inv_def by metis
qed

lemma crit_progress:
  assumes inv: "crit_inv own rd wr nloop n d0 s" and "\<not> crit_joined s"
  shows "\<exists>t. crit_step acquire release rd wr nloop s t"
proof -
  obtain ow where ow: "own ow (cr_lock s)" "ow = Some (length (cr_workers s)) \<longleftrightarrow> cr_main s"
    "\<forall>k. ow = Some k \<longrightarrow> k \<le> length (cr_workers s)"
    "\<forall>i < length (cr_workers s). inside (w_pc (cr_workers s ! i)) \<longleftrightarrow> ow = Some i"
    using inv by (auto simp: crit_inv_def crit_excl_def)
  have stepI: "\<exists>t. crit_step acquire release rd wr nloop s t"
    if "j < length (cr_workers s)" "worker_step acquire release rd wr nloop j s \<noteq> None" for j
    using that by (auto simp: crit_step_def)
  show ?thesis
  proof (cases ow)
    case None
    then obtain j where j: "j < length (cr_workers s)" "w_pc (cr_workers s ! j) \<noteq> L_done"
      using assms(2) ow(2) by (auto simp: crit_joined_def list_all_length)
    then have "worker_step acquire release rd wr nloop j s \<noteq> None"
      using ow(1,4) None acquire_free [of "cr_lock s" j]
      by (cases "w_pc (cr_workers s ! j)") (auto simp: worker_step_def Let_def)
    with j(1) show ?thesis by (rule stepI)
  next
    case (Some k)
    show ?thesis
    proof (cases "k = length (cr_workers s)")
      case True
      then show ?thesis using Some ow(1,2) release_own [of k "cr_lock s"]
        by (auto simp: crit_step_def main_release_def)
    next
      case False
      then have k: "k < length (cr_workers s)" "inside (w_pc (cr_workers s ! k))" using ow(3,4) Some by auto
      then have "worker_step acquire release rd wr nloop k s \<noteq> None"
        using ow(1) Some release_own [of k "cr_lock s"]
        by (cases "w_pc (cr_workers s ! k)") (auto simp: worker_step_def Let_def)
      with k(1) show ?thesis by (rule stepI)
    qed
  qed
qed

lemma crit_start_inv:
  assumes "own (if mn then Some n else None) l"
  shows "crit_inv own rd wr nloop n d0 (crit_start n l d0 v mn)"
proof -
  have "\<forall>j < n. w_pc ((replicate n \<lparr>w_pc = L_test, w_i = 0, w_val = v\<rparr>) ! j) = L_test" by simp
  then show ?thesis using assms
    by (auto simp: crit_inv_def crit_start_def crit_excl_def crit_data_def crit_counts_def rounds_def
        intro!: exI [of _ "if mn then Some n else None"] split: if_splits)
qed

lemma crit_end:
  assumes inv: "crit_inv own rd wr nloop n d0 s" and j: "crit_joined s"
  shows "length (cr_log s) = n * nat nloop \<and> cr_data s = (upd rd wr ^^ (n * nat nloop)) d0"
proof -
  have w: "rounds w = max 0 nloop \<and> w_pc w \<noteq> L_store" if "w \<in> set (cr_workers s)" for w
    using inv j that by (force simp: crit_inv_def crit_counts_def crit_joined_def list_all_iff rounds_def)
  then have "map rounds (cr_workers s) = replicate n (max 0 nloop)"
    using inv by (intro replicate_eqI) (auto simp: crit_inv_def)
  then have "total_of rounds (cr_workers s) = int (n * nat nloop)"
    by (simp add: total_of_def sum_list_replicate)
  moreover have "total_of rounds (cr_workers s) = int (length (cr_log s))" using inv by (simp add: crit_inv_def crit_counts_def)
  ultimately have "length (cr_log s) = n * nat nloop" by linarith
  moreover have "\<not> (\<exists>i < length (cr_workers s). w_pc (cr_workers s ! i) = L_store)" using w nth_mem by blast
  ultimately show ?thesis using inv by (auto simp: crit_inv_def crit_data_def)
qed

lemma crit_log_bound:
  assumes inv: "crit_inv own rd wr nloop n d0 s"
  shows "length (cr_log s) \<le> n * nat nloop"
proof -
  have "rounds w \<le> max 0 nloop" if "w \<in> set (cr_workers s)" for w
    using inv that by (cases "w_pc w") (force simp: crit_inv_def crit_counts_def rounds_def)+
  then have "sum_list (map rounds (cr_workers s)) \<le> (\<Sum>_ \<leftarrow> cr_workers s. max 0 nloop)" by (intro sum_list_mono) auto
  also have "\<dots> = int (n * nat nloop)" using inv by (simp add: crit_inv_def sum_list_triv)
  finally show ?thesis using inv by (simp add: crit_inv_def crit_counts_def total_of_def del: of_nat_mult)
qed

text \<open>What a run gives: the values read, in order; the data at the end; no deadlock; a bound on the steps.\<close>

lemma crit_run:
  assumes "own (if mn then Some n else None) l"
    and "path_steps (crit_step acquire release rd wr nloop) (crit_start n l d0 v mn) ts"
    and "s = last (crit_start n l d0 v mn # ts)"
  shows "map snd (cr_log s) = map (\<lambda>k. rd ((upd rd wr ^^ k) d0)) [0..<length (cr_log s)] \<and>
    length (cr_log s) \<le> n * nat nloop \<and>
    (crit_joined s \<longrightarrow> length (cr_log s) = n * nat nloop \<and> cr_data s = (upd rd wr ^^ (n * nat nloop)) d0) \<and>
    (crit_joined s \<or> (\<exists>t. crit_step acquire release rd wr nloop s t)) \<and>
    int (length ts) \<le> int n * (5 * max 0 nloop + 1) + 1"
proof -
  let ?s0 = "crit_start n l d0 v mn"
  have "crit_inv own rd wr nloop n d0 (last (s0 # ts)) \<and> int (length ts) + crit_left nloop (last (s0 # ts)) \<le> crit_left nloop s0"
    if "crit_inv own rd wr nloop n d0 s0" "path_steps (crit_step acquire release rd wr nloop) s0 ts" for s0
    using that
  proof (induction ts arbitrary: s0)
    case (Cons t ts)
    then have "crit_inv own rd wr nloop n d0 t" "crit_left nloop t < crit_left nloop s0"
      using crit_step_keeps [of rd wr nloop n d0 s0 t] by auto
    with Cons.IH [of t] Cons.prems(2) show ?case by auto
  qed simp
  from this [OF crit_start_inv [OF assms(1)] assms(2)]
  have inv: "crit_inv own rd wr nloop n d0 s" and left: "int (length ts) + crit_left nloop s \<le> crit_left nloop ?s0"
    using assms(3) by auto
  have data: "map snd (cr_log s) = map (\<lambda>k. rd ((upd rd wr ^^ k) d0)) [0..<length (cr_log s)]"
    using inv by (auto simp: crit_inv_def crit_data_def)
  have "0 \<le> crit_left nloop s" using inv crit_left_nonneg by (auto simp: crit_inv_def)
  moreover have "crit_left nloop ?s0 \<le> int n * (5 * max 0 nloop + 1) + 1"
    by (simp add: crit_left_def crit_start_def worker_left_def)
  ultimately show ?thesis using data left crit_progress [OF inv] crit_end [OF inv] crit_log_bound [OF inv] by auto
qed

end

section \<open>Schedules\<close>

text \<open>A run given by the threads that step, in order; the main thread has the number after the last worker.\<close>

fun sched_run :: "(nat \<Rightarrow> 's \<Rightarrow> 's option) \<Rightarrow> nat list \<Rightarrow> 's \<Rightarrow> 's option" where
  "sched_run f [] s = Some s"
| "sched_run f (j # js) s = (case f j s of None \<Rightarrow> None | Some t \<Rightarrow> sched_run f js t)"

lemma sched_path:
  assumes "\<And>j s t. f j s = Some t \<Longrightarrow> step s t" and "sched_run f js s = Some t"
  shows "\<exists>ts. path_steps step s ts \<and> t = last (s # ts)"
  using assms(2)
proof (induction js arbitrary: s)
  case (Cons j js)
  then obtain u where u: "f j s = Some u" "sched_run f js u = Some t" by (auto split: option.splits)
  from Cons.IH [OF u(2)] obtain ts where "path_steps step u ts" "t = last (u # ts)" by blast
  with assms(1) [OF u(1)] show ?case by (intro exI [of _ "u # ts"]) simp
qed (auto intro: exI [of _ "[]"])

definition crit_thread ::
  "(nat \<Rightarrow> 'l \<Rightarrow> 'l option) \<Rightarrow> (nat \<Rightarrow> 'l \<Rightarrow> 'l option) \<Rightarrow> ('d \<Rightarrow> 'v) \<Rightarrow> ('v \<Rightarrow> 'd \<Rightarrow> 'd) \<Rightarrow>
    int \<Rightarrow> nat \<Rightarrow> ('l, 'd, 'v) crit \<Rightarrow> ('l, 'd, 'v) crit option" where
  "crit_thread acquire release rd wr nloop j s =
    (if j < length (cr_workers s) then worker_step acquire release rd wr nloop j s else main_release release s)"

lemma crit_thread_step:
  "crit_thread acquire release rd wr nloop j s = Some t \<Longrightarrow> crit_step acquire release rd wr nloop s t"
  by (auto simp: crit_thread_def crit_step_def split: if_splits)

lemma crit_sched:
  assumes "sched_run (crit_thread acquire release rd wr nloop) js s = Some t"
  shows "\<exists>ts. path_steps (crit_step acquire release rd wr nloop) s ts \<and> t = last (s # ts)"
  by (rule sched_path [OF crit_thread_step assms])

section \<open>Semaphores are locks\<close>

text \<open>A counting semaphore that starts at 1 (or at 0, taken) is a lock.\<close>

definition sem_own :: "('s \<Rightarrow> nat) \<Rightarrow> ('s \<Rightarrow> bool) \<Rightarrow> nat option \<Rightarrow> 's \<Rightarrow> bool" where
  "sem_own value_of ok ow s \<longleftrightarrow> ok s \<and> value_of s = (case ow of None \<Rightarrow> 1 | Some _ \<Rightarrow> 0)"

locale binary_sem = counting_sem +
  assumes limit_pos: "0 < limit"

sublocale binary_sem \<subseteq> lk: exclusion "\<lambda>_. swait" "\<lambda>_. spost" "sem_own sval usable"
proof
  fix l j
  assume "sem_own sval usable None l"
  then show "\<exists>l'. swait l = Some l' \<and> sem_own sval usable (Some j) l'"
    using wait_takes [of l] by (auto simp: sem_own_def)
next
  fix k l and j :: nat
  assume "sem_own sval usable (Some k) l"
  then show "swait l = None" using wait_blocks by (simp add: sem_own_def)
next
  fix j l
  assume "sem_own sval usable (Some j) l"
  then show "\<exists>l'. spost l = Some l' \<and> sem_own sval usable None l'"
    using post_adds [of l] limit_pos by (auto simp: sem_own_def)
qed

interpretation px_bin: binary_sem "\<lambda>v. v" px_wait px_post "\<lambda>_. True" SEM_VALUE_MAX
  by unfold_locales simp

interpretation mmap_bin: binary_sem "\<lambda>sem. unat (sem_count sem)" mmap_wait mmap_post
  "\<lambda>sem. sem_magic sem = SEM_MAGIC" 4294967295
  by unfold_locales simp

interpretation sv_bin: binary_sem sv_value sv_wait sv_post sv_usable SEMVMX
  by unfold_locales simp

end
