(* ===== verification/Incr.thy ===== *)
theory Incr
  imports Critical
begin

text \<open>
  The programs of \<open>src/bench\<close> in which threads or processes increment a counter under a lock:
  \<open>incr_pxmutex1.c\<close> and \<open>incr_pxmutex5.c\<close>, \<open>incr_pxsem1.c\<close>, \<open>incr_pxsem2.c\<close> and \<open>incr_pxsem5.c\<close> to
  \<open>incr_pxsem8.c\<close>, \<open>incr_svsem1.c\<close> and \<open>incr_svsem5.c\<close>, \<open>incr_fcntl5.c\<close>; \<open>incr_fcntl1.c\<close>, whose lock does not exclude
  threads; \<open>incr_pxmutex0.c\<close>, which has none; \<open>incr_pxsem9.c\<close>, whose semaphore is not shared; and the
  counters of \<open>src/shm\<close>.
\<close>

section \<open>The locks\<close>

text \<open>A mutex is the thread that has it.\<close>

definition pmutex_lock :: "nat \<Rightarrow> nat option \<Rightarrow> nat option option" where
  "pmutex_lock j m = (if m = None then Some (Some j) else None)"

definition pmutex_unlock :: "nat \<Rightarrow> nat option \<Rightarrow> nat option option" where
  "pmutex_unlock j m = Some None"

interpretation pmutex: exclusion pmutex_lock pmutex_unlock "\<lambda>ow m. m = ow"
  by unfold_locales (auto simp: pmutex_lock_def pmutex_unlock_def)

text \<open>\<open>Semop\<close> on the System V semaphore with \<open>waitop\<close> and \<open>postop\<close>.\<close>

definition semop_down :: "svsem option \<Rightarrow> svsem option option" where
  "semop_down ks = completes (semop False (- 1) False ks)"

definition semop_up :: "svsem option \<Rightarrow> svsem option option" where
  "semop_up ks = completes (semop False 1 False ks)"

definition semop_value :: "svsem option \<Rightarrow> nat" where
  "semop_value ks = (case ks of None \<Rightarrow> 0 | Some k \<Rightarrow> semval k)"

interpretation semop_bin: binary_sem semop_value semop_down semop_up "\<lambda>ks. ks \<noteq> None" SEMVMX
  by unfold_locales (auto simp: semop_value_def semop_down_def semop_up_def semop_def)

text \<open>
  A write lock on the whole file with \<open>fcntl\<close>: it belongs to a process, and a process that has it gets
  it again. Unlocking what one does not have succeeds and changes nothing. \<open>proc\<close> is the process of a
  worker.
\<close>

definition fcntl_wrlock :: "(nat \<Rightarrow> nat) \<Rightarrow> nat \<Rightarrow> nat option \<Rightarrow> nat option option" where
  "fcntl_wrlock proc j m = (if m = None \<or> m = Some (proc j) then Some (Some (proc j)) else None)"

definition fcntl_unlock :: "(nat \<Rightarrow> nat) \<Rightarrow> nat \<Rightarrow> nat option \<Rightarrow> nat option option" where
  "fcntl_unlock proc j m = Some (if m = Some (proc j) then None else m)"

interpretation fcntl_procs: exclusion "fcntl_wrlock id" "fcntl_unlock id" "\<lambda>ow m. m = ow"
  by unfold_locales (auto simp: fcntl_wrlock_def fcntl_unlock_def)

section \<open>The programs\<close>

text \<open>\<open>counter++\<close> reads the counter and stores the next number.\<close>

abbreviation (input) counter_next :: "int \<Rightarrow> int \<Rightarrow> int" where
  "counter_next v d \<equiv> v + 1"

definition incr_pxmutex1 :: "int \<Rightarrow> (nat option, int, int) crit \<Rightarrow> (nat option, int, int) crit \<Rightarrow> bool" where
  "incr_pxmutex1 = crit_step pmutex_lock pmutex_unlock id counter_next"

text \<open>\<open>incr_pxmutex5.c\<close> has processes and a mutex in shared memory.\<close>

definition incr_pxmutex5 :: "int \<Rightarrow> (nat option, int, int) crit \<Rightarrow> (nat option, int, int) crit \<Rightarrow> bool" where
  "incr_pxmutex5 = crit_step pmutex_lock pmutex_unlock id counter_next"

text \<open>
  Semaphores: in memory (\<open>incr_pxsem1.c\<close>), named (\<open>incr_pxsem2.c\<close>), or in memory shared by processes
  (\<open>incr_pxsem5.c\<close>).
\<close>

definition incr_pxsem1 :: "int \<Rightarrow> (nat, int, int) crit \<Rightarrow> (nat, int, int) crit \<Rightarrow> bool" where
  "incr_pxsem1 = crit_step (\<lambda>_. px_wait) (\<lambda>_. px_post) id counter_next"

definition incr_pxsem2 :: "int \<Rightarrow> (nat, int, int) crit \<Rightarrow> (nat, int, int) crit \<Rightarrow> bool" where
  "incr_pxsem2 = crit_step (\<lambda>_. px_wait) (\<lambda>_. px_post) id counter_next"

definition incr_pxsem5 :: "int \<Rightarrow> (nat, int, int) crit \<Rightarrow> (nat, int, int) crit \<Rightarrow> bool" where
  "incr_pxsem5 = crit_step (\<lambda>_. px_wait) (\<lambda>_. px_post) id counter_next"

text \<open>
  Named semaphores between processes: the pointer to the semaphore in shared memory (\<open>incr_pxsem6.c\<close>), or
  copied by \<open>fork\<close> (\<open>incr_pxsem7.c\<close>), or opened by each child under its name (\<open>incr_pxsem8.c\<close>); in each case
  the pointers lead to the one semaphore of that name.
\<close>

definition incr_pxsem6 :: "int \<Rightarrow> (nat, int, int) crit \<Rightarrow> (nat, int, int) crit \<Rightarrow> bool" where
  "incr_pxsem6 = crit_step (\<lambda>_. px_wait) (\<lambda>_. px_post) id counter_next"

definition incr_pxsem7 :: "int \<Rightarrow> (nat, int, int) crit \<Rightarrow> (nat, int, int) crit \<Rightarrow> bool" where
  "incr_pxsem7 = crit_step (\<lambda>_. px_wait) (\<lambda>_. px_post) id counter_next"

definition incr_pxsem8 :: "int \<Rightarrow> (nat, int, int) crit \<Rightarrow> (nat, int, int) crit \<Rightarrow> bool" where
  "incr_pxsem8 = crit_step (\<lambda>_. px_wait) (\<lambda>_. px_post) id counter_next"

text \<open>
  In \<open>incr_pxsem9.c\<close> the semaphore is a global variable, of which \<open>fork\<close> gives each process its own copy.
\<close>

definition copy_wait :: "nat \<Rightarrow> (nat \<Rightarrow> nat) \<Rightarrow> (nat \<Rightarrow> nat) option" where
  "copy_wait j m = map_option (\<lambda>v. m(j := v)) (px_wait (m j))"

definition copy_post :: "nat \<Rightarrow> (nat \<Rightarrow> nat) \<Rightarrow> (nat \<Rightarrow> nat) option" where
  "copy_post j m = map_option (\<lambda>v. m(j := v)) (px_post (m j))"

definition incr_pxsem9 :: "int \<Rightarrow> (nat \<Rightarrow> nat, int, int) crit \<Rightarrow> (nat \<Rightarrow> nat, int, int) crit \<Rightarrow> bool" where
  "incr_pxsem9 = crit_step copy_wait copy_post id counter_next"

text \<open>System V semaphores, between threads and between processes.\<close>

definition incr_svsem1 :: "int \<Rightarrow> (svsem option, int, int) crit \<Rightarrow> (svsem option, int, int) crit \<Rightarrow> bool" where
  "incr_svsem1 = crit_step (\<lambda>_. semop_down) (\<lambda>_. semop_up) id counter_next"

definition incr_svsem5 :: "int \<Rightarrow> (svsem option, int, int) crit \<Rightarrow> (svsem option, int, int) crit \<Rightarrow> bool" where
  "incr_svsem5 = crit_step (\<lambda>_. semop_down) (\<lambda>_. semop_up) id counter_next"

text \<open>
  \<open>incr_svsem2.c\<close> and \<open>incr_svsem6.c\<close> set \<open>SEM_UNDO\<close>, which has nothing to undo for a process that ends after
  its loop, with as many posts as waits; the post of the parent is undone only when it exits, at the end.
\<close>

definition incr_svsem2 :: "int \<Rightarrow> (svsem option, int, int) crit \<Rightarrow> (svsem option, int, int) crit \<Rightarrow> bool" where
  "incr_svsem2 = crit_step (\<lambda>_. semop_down) (\<lambda>_. semop_up) id counter_next"

definition incr_svsem6 :: "int \<Rightarrow> (svsem option, int, int) crit \<Rightarrow> (svsem option, int, int) crit \<Rightarrow> bool" where
  "incr_svsem6 = crit_step (\<lambda>_. semop_down) (\<lambda>_. semop_up) id counter_next"

definition incr_fcntl5 :: "int \<Rightarrow> (nat option, int, int) crit \<Rightarrow> (nat option, int, int) crit \<Rightarrow> bool" where
  "incr_fcntl5 = crit_step (fcntl_wrlock id) (fcntl_unlock id) id counter_next"

definition incr_fcntl1 :: "int \<Rightarrow> (nat option, int, int) crit \<Rightarrow> (nat option, int, int) crit \<Rightarrow> bool" where
  "incr_fcntl1 = crit_step (fcntl_wrlock (\<lambda>_. 0)) (fcntl_unlock (\<lambda>_. 0)) id counter_next"

text \<open>
  \<open>main\<close> takes the lock (or makes the semaphore with the value 0), starts the threads, releases the
  lock, joins the threads and compares the counter with the product of two \<open>int\<close>s, which has 32 bits.
\<close>

abbreviation (input) MAXNPROC :: int where "MAXNPROC \<equiv> 100"

definition incr_workers :: "int \<Rightarrow> nat" where
  "incr_workers nthreads = nat (min nthreads MAXNPROC)"

definition incr_start :: "'l \<Rightarrow> int \<Rightarrow> ('l, int, int) crit" where
  "incr_start l nthreads = crit_start (incr_workers nthreads) l 0 0 True"

definition incr_error :: "int \<Rightarrow> int \<Rightarrow> int \<Rightarrow> int option" where
  "incr_error nloop nthreads counter =
    (if counter \<noteq> sint (word_of_int nloop * word_of_int (min nthreads MAXNPROC) :: 32 word) then Some counter else None)"

text \<open>
  \<open>incr\<close> of \<open>incr_pxmutex0.c\<close> takes the mutex only once, to wait for the start.
\<close>

datatype incr0_pc = Z_lock | Z_unlock | Z_test | Z_load | Z_store | Z_done

record incr0 =
  z_mutex :: "nat option"
  z_counter :: int
  z_main :: bool
  z_workers :: "(incr0_pc \<times> int \<times> int) list"

definition incr0_worker :: "int \<Rightarrow> nat \<Rightarrow> incr0 \<Rightarrow> incr0 option" where
  "incr0_worker nloop j s =
    (case z_workers s ! j of (pc, i, v) \<Rightarrow>
      (case pc of
        Z_lock \<Rightarrow> map_option (\<lambda>m. s\<lparr>z_mutex := m, z_workers := (z_workers s)[j := (Z_unlock, i, v)]\<rparr>) (pmutex_lock j (z_mutex s))
      | Z_unlock \<Rightarrow> map_option (\<lambda>m. s\<lparr>z_mutex := m, z_workers := (z_workers s)[j := (Z_test, i, v)]\<rparr>) (pmutex_unlock j (z_mutex s))
      | Z_test \<Rightarrow> Some (s\<lparr>z_workers := (z_workers s)[j := (if i < nloop then Z_load else Z_done, i, v)]\<rparr>)
      | Z_load \<Rightarrow> Some (s\<lparr>z_workers := (z_workers s)[j := (Z_store, i, z_counter s)]\<rparr>)
      | Z_store \<Rightarrow> Some (s\<lparr>z_counter := v + 1, z_workers := (z_workers s)[j := (Z_test, i + 1, v)]\<rparr>)
      | Z_done \<Rightarrow> None))"

definition incr0_step :: "int \<Rightarrow> incr0 \<Rightarrow> incr0 \<Rightarrow> bool" where
  "incr0_step nloop s t \<longleftrightarrow>
    (\<exists>j < length (z_workers s). incr0_worker nloop j s = Some t) \<or>
    (z_main s \<and> t = s\<lparr>z_mutex := None, z_main := False\<rparr>)"

definition incr0_start :: "int \<Rightarrow> incr0" where
  "incr0_start nthreads =
    \<lparr>z_mutex = Some (incr_workers nthreads), z_counter = 0, z_main = True,
     z_workers = replicate (incr_workers nthreads) (Z_lock, 0, 0)\<rparr>"

definition incr0_joined :: "incr0 \<Rightarrow> bool" where
  "incr0_joined s \<longleftrightarrow> \<not> z_main s \<and> list_all (\<lambda>w. fst w = Z_done) (z_workers s)"

text \<open>
  In \<open>src/shm/incr2.c\<close> a parent and a child share the counter, in a mapped file, and a semaphore that
  starts at 1, and print each number they take. In \<open>incr3.c\<close> the semaphore is in the file too, in
  \<open>incr_dev_zero.c\<close> and \<open>incr_map_anon.c\<close> the shared memory has no file.
\<close>

definition shm_incr :: "int \<Rightarrow> (nat, int, int) crit \<Rightarrow> (nat, int, int) crit \<Rightarrow> bool" where
  "shm_incr = crit_step (\<lambda>_. px_wait) (\<lambda>_. px_post) id counter_next"

definition shm_incr3 :: "int \<Rightarrow> (nat, int, int) crit \<Rightarrow> (nat, int, int) crit \<Rightarrow> bool" where
  "shm_incr3 = crit_step (\<lambda>_. px_wait) (\<lambda>_. px_post) id counter_next"

definition incr_dev_zero :: "int \<Rightarrow> (nat, int, int) crit \<Rightarrow> (nat, int, int) crit \<Rightarrow> bool" where
  "incr_dev_zero = crit_step (\<lambda>_. px_wait) (\<lambda>_. px_post) id counter_next"

definition incr_map_anon :: "int \<Rightarrow> (nat, int, int) crit \<Rightarrow> (nat, int, int) crit \<Rightarrow> bool" where
  "incr_map_anon = crit_step (\<lambda>_. px_wait) (\<lambda>_. px_post) id counter_next"

definition shm_incr_start :: "(nat, int, int) crit" where
  "shm_incr_start = crit_start 2 1 0 0 False"

section \<open>Lemmas\<close>

lemma upd_counter: "(upd id counter_next ^^ k) d = d + int k"
  by (induction k) (auto simp: upd_def)

text \<open>What a program that counts right does: it ends, does not get stuck, and reports no error.\<close>

definition counts_right :: "(('l, int, int) crit \<Rightarrow> ('l, int, int) crit \<Rightarrow> bool) \<Rightarrow> 'l \<Rightarrow> int \<Rightarrow> int \<Rightarrow> bool" where
  "counts_right step l nloop nthreads \<longleftrightarrow>
    (\<forall>ts s. path_steps step (incr_start l nthreads) ts \<longrightarrow> s = last (incr_start l nthreads # ts) \<longrightarrow>
      (crit_joined s \<longrightarrow> cr_data s = nloop * min nthreads MAXNPROC \<and> incr_error nloop nthreads (cr_data s) = None) \<and>
      (crit_joined s \<or> (\<exists>t. step s t)) \<and>
      int (length ts) \<le> int (incr_workers nthreads) * (5 * nloop + 1) + 1)"

lemma sint_int32: "0 \<le> p \<Longrightarrow> p < 2 ^ 31 \<Longrightarrow> sint (word_of_int p :: 32 word) = p"
  by (simp add: sint_uint uint_word_of_int signed_take_bit_int_eq_self)

lemma incr_error_small:
  assumes "0 \<le> nloop" and "0 \<le> nthreads" and "nloop * min nthreads MAXNPROC < 2 ^ 31"
  shows "incr_error nloop nthreads (nloop * min nthreads MAXNPROC) = None"
proof -
  let ?p = "nloop * min nthreads MAXNPROC"
  have "sint (word_of_int ?p :: 32 word) = ?p"
    using assms by (intro sint_int32) auto
  then show ?thesis by (simp add: incr_error_def)
qed

text \<open>The children of \<open>incr_pxsem9\<close> wait for their own copies, which nobody posts.\<close>

definition unshared_inv :: "int \<Rightarrow> nat \<Rightarrow> (nat \<Rightarrow> nat, int, int) crit \<Rightarrow> bool" where
  [inv_defs]: "unshared_inv nloop n s \<longleftrightarrow>
    length (cr_workers s) = n \<and> cr_data s = 0 \<and> (\<forall>j < n. cr_lock s j = 0) \<and>
    (\<forall>w \<in> set (cr_workers s). w_i w = 0 \<and> (w_pc w = L_test \<or> w_pc w = L_lock \<or> w_pc w = L_done \<and> nloop \<le> 0))"

interpretation unshared: inductive_invariant "\<lambda>s. s = incr_start (\<lambda>_. 0) nthreads" "incr_pxsem9 nloop"
  "unshared_inv nloop (incr_workers nthreads)" for nloop nthreads
proof (unfold_locales, goal_cases)
  case (1 s)
  then show ?case by (auto simp: unshared_inv_def incr_start_def crit_start_def)
next
  case (2 s t)
  have pc: "w_pc (cr_workers s ! j) \<in> {L_test, L_lock, L_done}" "w_i (cr_workers s ! j) = 0"
    if "j < length (cr_workers s)" for j
    using 2(1) that by (auto simp: unshared_inv_def)
  show ?case
  proof (cases "main_release copy_post s = Some t")
    case True
    with 2(1) show ?thesis
      by (auto simp: main_release_def copy_post_def unshared_inv_def split: if_splits)
  next
    case False
    then obtain j where j: "j < length (cr_workers s)" and step: "worker_step copy_wait copy_post id counter_next nloop j s = Some t"
      using 2(2) by (auto simp: incr_pxsem9_def crit_step_def)
    from step show ?thesis
    proof (cases rule: worker_step_cases)
      case test
      with 2(1) pc [OF j] j show ?thesis by (auto simp: unshared_inv_def set_worker_def dest!: in_set_updateD)
    next
      case (lock l)
      then show ?thesis using 2(1) j by (simp add: unshared_inv_def copy_wait_def px_wait_def)
    qed (use pc [OF j] in auto)
  qed
qed

context exclusion
begin

lemma exclusion_counts_right:
  assumes "0 \<le> nloop" and "0 \<le> nthreads" and "nloop * min nthreads MAXNPROC < 2 ^ 31"
    and "own (Some (incr_workers nthreads)) l"
  shows "counts_right (crit_step acquire release id counter_next nloop) l nloop nthreads"
  unfolding counts_right_def
proof (intro allI impI)
  fix ts s
  assume "path_steps (crit_step acquire release id counter_next nloop) (incr_start l nthreads) ts"
    and "s = last (incr_start l nthreads # ts)"
  from crit_run [OF _ this [unfolded incr_start_def]] assms(4)
  have run: "(crit_joined s \<longrightarrow> cr_data s = int (incr_workers nthreads * nat nloop)) \<and>
    (crit_joined s \<or> (\<exists>t. crit_step acquire release id counter_next nloop s t)) \<and>
    int (length ts) \<le> int (incr_workers nthreads) * (5 * max 0 nloop + 1) + 1"
    by (simp add: upd_counter)
  have eq: "int (incr_workers nthreads * nat nloop) = nloop * min nthreads MAXNPROC"
    using assms(1,2) by (simp add: incr_workers_def mult.commute)
  show "(crit_joined s \<longrightarrow> cr_data s = nloop * min nthreads MAXNPROC \<and> incr_error nloop nthreads (cr_data s) = None) \<and>
      (crit_joined s \<or> (\<exists>t. crit_step acquire release id counter_next nloop s t)) \<and>
      int (length ts) \<le> int (incr_workers nthreads) * (5 * nloop + 1) + 1"
    using run [unfolded eq] assms(1) incr_error_small [OF assms(1-3)] by simp
qed

end

section \<open>Properties\<close>

text \<open>
  C34. The counting programs of \<open>bench\<close> with a mutex, a POSIX semaphore, a System V semaphore, and with
  \<open>fcntl\<close> locks between processes: under every interleaving of the separate reads and stores of the
  counter, the counter at the end is the number of loops times the number of threads and \<open>main\<close> reports
  no error; some thread can run until all are joined; and every run is finite.
\<close>

theorem incr_programs_count:
  assumes "0 \<le> nloop" and "0 \<le> nthreads" and "nloop * min nthreads MAXNPROC < 2 ^ 31"
  shows "counts_right (incr_pxmutex1 nloop) (Some (incr_workers nthreads)) nloop nthreads \<and>
    counts_right (incr_pxmutex5 nloop) (Some (incr_workers nthreads)) nloop nthreads \<and>
    counts_right (incr_pxsem1 nloop) 0 nloop nthreads \<and>
    counts_right (incr_pxsem2 nloop) 0 nloop nthreads \<and>
    counts_right (incr_pxsem5 nloop) 0 nloop nthreads \<and>
    counts_right (incr_pxsem6 nloop) 0 nloop nthreads \<and>
    counts_right (incr_pxsem7 nloop) 0 nloop nthreads \<and>
    counts_right (incr_pxsem8 nloop) 0 nloop nthreads \<and>
    counts_right (incr_svsem5 nloop) (Some \<lparr>semval = 0, sem_otime = b\<rparr>) nloop nthreads \<and>
    counts_right (incr_svsem1 nloop) (Some \<lparr>semval = 0, sem_otime = b\<rparr>) nloop nthreads \<and>
    counts_right (incr_svsem2 nloop) (Some \<lparr>semval = 0, sem_otime = b\<rparr>) nloop nthreads \<and>
    counts_right (incr_svsem6 nloop) (Some \<lparr>semval = 0, sem_otime = b\<rparr>) nloop nthreads \<and>
    counts_right (incr_fcntl5 nloop) (Some (incr_workers nthreads)) nloop nthreads"
  unfolding incr_pxmutex1_def incr_pxmutex5_def incr_pxsem1_def incr_pxsem2_def incr_pxsem5_def incr_pxsem6_def
    incr_pxsem7_def incr_pxsem8_def incr_svsem1_def incr_svsem2_def incr_svsem5_def incr_svsem6_def incr_fcntl5_def
  using assms by (auto intro!: pmutex.exclusion_counts_right px_bin.lk.exclusion_counts_right
      semop_bin.lk.exclusion_counts_right fcntl_procs.exclusion_counts_right simp: sem_own_def semop_value_def)

theorem incr_programs_count_witness:
  "counts_right (incr_pxmutex1 1000) (Some 2) 1000 2"
  using incr_programs_count [of 1000 2] by (simp add: incr_workers_def)

text \<open>
  Counting without exclusion loses increments: \<open>incr_fcntl1\<close>, where the threads of one process share
  the \<open>fcntl\<close> lock, and \<open>incr_pxmutex0\<close>, which does not lock at all, have runs of two threads with one
  loop each at whose end the counter is 1 and \<open>main\<close> reports the error.
\<close>

lemma incr_unlocked_loses:
  "(\<exists>ts s. path_steps (incr_fcntl1 1) (incr_start (Some 0) 2) ts \<and> s = last (incr_start (Some 0) 2 # ts) \<and>
      crit_joined s \<and> incr_error 1 2 (cr_data s) = Some 1) \<and>
   (\<exists>ts s. path_steps (incr0_step 1) (incr0_start 2) ts \<and> s = last (incr0_start 2 # ts) \<and>
      incr0_joined s \<and> incr_error 1 2 (z_counter s) = Some 1)"
proof
  let ?f = "crit_thread (fcntl_wrlock (\<lambda>_. 0)) (fcntl_unlock (\<lambda>_. 0)) id counter_next 1"
  let ?s = "crit_start 2 (Some 0) 0 0 True"
  have "\<exists>s. sched_run ?f [2, 0, 0, 1, 1, 0, 1, 0, 1, 0, 1, 0, 1] ?s = Some s \<and> crit_joined s \<and> cr_data s = 1"
    by (simp add: crit_thread_def crit_start_def worker_defs main_release_def fcntl_wrlock_def fcntl_unlock_def
        eval_nat_numeral crit_joined_def)
  then obtain s where s: "sched_run ?f [2, 0, 0, 1, 1, 0, 1, 0, 1, 0, 1, 0, 1] ?s = Some s" "crit_joined s" "cr_data s = 1"
    by blast
  obtain ts where "path_steps (incr_fcntl1 1) ?s ts" "s = last (?s # ts)"
    using crit_sched [OF s(1)] unfolding incr_fcntl1_def by blast
  with s show "\<exists>ts s. path_steps (incr_fcntl1 1) (incr_start (Some 0) 2) ts \<and> s = last (incr_start (Some 0) 2 # ts) \<and>
      crit_joined s \<and> incr_error 1 2 (cr_data s) = Some 1"
    by (intro exI [of _ ts] exI [of _ s]) (simp add: incr_start_def incr_workers_def incr_error_def)
next
  let ?g = "\<lambda>j s. if j < length (z_workers s) then incr0_worker 1 j s
    else if z_main s then Some (s\<lparr>z_mutex := None, z_main := False\<rparr>) else None"
  have "\<exists>s. sched_run ?g [2, 0, 0, 1, 1, 0, 0, 1, 1, 0, 1, 0, 1] (incr0_start 2) = Some s \<and> incr0_joined s \<and> z_counter s = 1"
    by (simp add: incr0_start_def incr0_worker_def incr_workers_def pmutex_lock_def pmutex_unlock_def
        eval_nat_numeral incr0_joined_def)
  then obtain s where s: "sched_run ?g [2, 0, 0, 1, 1, 0, 0, 1, 1, 0, 1, 0, 1] (incr0_start 2) = Some s"
    "incr0_joined s" "z_counter s = 1" by blast
  have "?g j s = Some t \<Longrightarrow> incr0_step 1 s t" for j s t
    by (auto simp: incr0_step_def split: if_splits)
  then obtain ts where "path_steps (incr0_step 1) (incr0_start 2) ts" "s = last (incr0_start 2 # ts)"
    using sched_path [of ?g "incr0_step 1", OF _ s(1)] by blast
  with s show "\<exists>ts s. path_steps (incr0_step 1) (incr0_start 2) ts \<and> s = last (incr0_start 2 # ts) \<and>
      incr0_joined s \<and> incr_error 1 2 (z_counter s) = Some 1"
    by (intro exI [of _ ts] exI [of _ s]) (simp add: incr_error_def)
qed

text \<open>
  \<open>incr_pxsem9\<close> never ends: in no run do the processes get past their first wait, the counter stays
  at 0, and the parent waits for children that wait for a semaphore nobody posts.
\<close>

lemma incr_pxsem9_never_joins:
  assumes "0 < nloop" and "0 < nthreads" and "path_steps (incr_pxsem9 nloop) (incr_start (\<lambda>_. 0) nthreads) ts"
    and "s = last (incr_start (\<lambda>_. 0) nthreads # ts)"
  shows "cr_data s = 0 \<and> \<not> crit_joined s"
proof -
  have "reach (\<lambda>s. s = incr_start (\<lambda>_. 0) nthreads) (incr_pxsem9 nloop) s"
    unfolding assms(4) by (rule reach_path [OF _ assms(3)]) (simp add: reach_start)
  then have inv: "unshared_inv nloop (incr_workers nthreads) s" by (rule unshared.inv_reach)
  have "cr_workers s \<noteq> []" using inv assms(2) by (auto simp: unshared_inv_def incr_workers_def)
  then obtain w where "w \<in> set (cr_workers s)" by (cases "cr_workers s") auto
  with inv assms(1) show ?thesis by (auto simp: unshared_inv_def crit_joined_def list_all_iff)
qed

text \<open>
  The parent and the child of the counters of \<open>shm\<close> print the numbers from 0 on, in order and
  each once, whoever prints them; both end, with the counter at twice the number of loops.
\<close>

lemma shm_incr_prints:
  assumes "step = shm_incr nloop \<or> step = shm_incr3 nloop \<or> step = incr_dev_zero nloop \<or> step = incr_map_anon nloop"
    and "path_steps step shm_incr_start ts" and "s = last (shm_incr_start # ts)"
  shows "map snd (cr_log s) = map int [0..<length (cr_log s)] \<and>
    (crit_joined s \<longrightarrow> length (cr_log s) = 2 * nat nloop \<and> cr_data s = int (2 * nat nloop)) \<and>
    (crit_joined s \<or> (\<exists>t. step s t)) \<and>
    int (length ts) \<le> 2 * (5 * max 0 nloop + 1) + 1"
proof -
  have "sem_own (\<lambda>v. v) (\<lambda>_. True) (if False then Some 2 else None) 1" by (simp add: sem_own_def)
  moreover have "step = crit_step (\<lambda>_. px_wait) (\<lambda>_. px_post) id counter_next nloop"
    using assms(1) by (auto simp: shm_incr_def shm_incr3_def incr_dev_zero_def incr_map_anon_def)
  ultimately show ?thesis using px_bin.lk.crit_run [of False 2 1 id counter_next nloop 0 0 ts s] assms(2,3)
    by (simp add: shm_incr_start_def upd_counter)
qed

end
