(* ===== verification/Seqno.thy ===== *)
theory Seqno
  imports Incr C_Text
begin

text \<open>
  The sequence number of \<open>src/lock\<close>: processes read a number from a file, print it, and write the next
  number back (\<open>lockmain.c\<close>, \<open>loopmain.c\<close>), under one of the locks of \<open>lockfcntl.c\<close>, \<open>lockopen.c\<close>,
  \<open>lockopen2.c\<close>, \<open>locklink.c\<close> and \<open>lockpxsem.c\<close>, or under \<open>locknone.c\<close>.
\<close>

section \<open>The file\<close>

abbreviation (input) minus_sign :: byte where "minus_sign \<equiv> 45"

text \<open>A number printed with \<open>%ld\<close> and read with \<open>sscanf\<close>; \<open>None\<close> when there is no number to read.\<close>

definition dec_int :: "int \<Rightarrow> byte list" where
  "dec_int n = (if n < 0 then minus_sign # dec (nat (- n)) else dec (nat n))"

definition sscanf_ld :: "byte list \<Rightarrow> int option" where
  "sscanf_ld line =
    (let bs = dropWhile is_space (cstr line);
         ds = (case bs of [] \<Rightarrow> [] | c # cs \<Rightarrow> if unat c = 45 \<or> unat c = 43 then cs else bs)
     in case ds of [] \<Rightarrow> None | c # cs \<Rightarrow> if is_digit c then Some (atol bs) else None)"

text \<open>
  \<open>Lseek\<close>, \<open>Read\<close> and \<open>sscanf\<close>; and \<open>Lseek\<close> and \<open>Write\<close> of the next number, which leaves the rest of the
  file. When there is no number to read, \<open>sscanf\<close> leaves \<open>seqno\<close> as it was and the program, which does not
  test the result, writes a number made from an old or an indeterminate value; this case is outside
  the model, which leaves the file alone, and every statement below is about files with a number.
\<close>

definition seq_read :: "byte list \<Rightarrow> int option" where
  "seq_read contents = sscanf_ld (take MAXLINE contents)"

definition seq_write :: "int option \<Rightarrow> byte list \<Rightarrow> byte list" where
  "seq_write v contents =
    (case v of
      None \<Rightarrow> contents
    | Some n \<Rightarrow> let line = dec_int (n + 1) @ [newline] in line @ drop (length line) contents)"

section \<open>The locks\<close>

text \<open>
  Lock files. \<open>lockopen.c\<close> creates \<open>LOCKFILE\<close> with \<open>O_EXCL\<close> and tries again as long as the error is \<open>EEXIST\<close>. The
  state is whether the file exists; a call that has to be repeated, or fails, is \<open>None\<close>.
\<close>

definition open_excl :: "bool \<Rightarrow> bool result" where
  "open_excl lockfile = (if lockfile then Inl EEXIST else Inr True)"

definition open_lock :: "nat \<Rightarrow> bool \<Rightarrow> bool option" where
  "open_lock j lockfile = (case open_excl lockfile of Inr l \<Rightarrow> Some l | Inl e \<Rightarrow> None)"

text \<open>
  In \<open>lockopen2.c\<close> the file has no permissions and the error is \<open>EACCES\<close>; the superuser can open the file
  nevertheless.
\<close>

definition open_noperm :: "bool \<Rightarrow> bool \<Rightarrow> bool result" where
  "open_noperm superuser lockfile = (if lockfile \<and> \<not> superuser then Inl EACCES else Inr True)"

definition open2_lock :: "bool \<Rightarrow> nat \<Rightarrow> bool \<Rightarrow> bool option" where
  "open2_lock superuser j lockfile = (case open_noperm superuser lockfile of Inr l \<Rightarrow> Some l | Inl e \<Rightarrow> None)"

definition unlink_lockfile :: "nat \<Rightarrow> bool \<Rightarrow> bool option" where
  "unlink_lockfile j lockfile = (if lockfile then Some False else None)"

text \<open>
  \<open>locklink.c\<close>: process \<open>j\<close> makes a temporary file of its own, whose name \<open>tempnam\<close> gives to no other process,
  and links it to \<open>LOCKFILE\<close>; \<open>link\<close> needs the first file and fails with \<open>EEXIST\<close> when the second is there,
  and then it is tried again with the same temporary file. With the lock the temporary file is removed.
\<close>

record link_dir =
  ld_lock :: bool
  ld_temps :: "nat set"

definition make_temp :: "nat \<Rightarrow> link_dir \<Rightarrow> link_dir" where
  "make_temp j d = d\<lparr>ld_temps := insert j (ld_temps d)\<rparr>"

definition link_temp :: "nat \<Rightarrow> link_dir \<Rightarrow> link_dir result" where
  "link_temp j d =
    (if j \<notin> ld_temps d then Inl ENOENT else if ld_lock d then Inl EEXIST else Inr (d\<lparr>ld_lock := True\<rparr>))"

definition link_lock :: "nat \<Rightarrow> link_dir \<Rightarrow> link_dir option" where
  "link_lock j d =
    (case link_temp j (make_temp j d) of
      Inr d' \<Rightarrow> Some (d'\<lparr>ld_temps := ld_temps d' - {j}\<rparr>)
    | Inl e \<Rightarrow> None)"

definition link_unlock :: "nat \<Rightarrow> link_dir \<Rightarrow> link_dir option" where
  "link_unlock j d = (if ld_lock d then Some (d\<lparr>ld_lock := False\<rparr>) else None)"

text \<open>\<open>lockpxsem.c\<close> makes the semaphore with the value 1 if it does not exist.\<close>

definition pxsem_lock :: "nat \<Rightarrow> nat option \<Rightarrow> nat option option" where
  "pxsem_lock j sem = map_option Some (px_wait (case sem of None \<Rightarrow> 1 | Some v \<Rightarrow> v))"

definition pxsem_unlock :: "nat \<Rightarrow> nat option \<Rightarrow> nat option option" where
  "pxsem_unlock j sem = (case sem of None \<Rightarrow> None | Some v \<Rightarrow> map_option Some (px_post v))"

definition none_lock :: "nat \<Rightarrow> unit \<Rightarrow> unit option" where
  "none_lock j l = Some ()"

interpretation lockfile_excl: exclusion open_lock unlink_lockfile "\<lambda>ow l. l \<longleftrightarrow> ow \<noteq> None"
  by unfold_locales (auto simp: open_lock_def open_excl_def unlink_lockfile_def)

interpretation link_excl: exclusion link_lock link_unlock "\<lambda>ow d. (ld_lock d \<longleftrightarrow> ow \<noteq> None) \<and> ld_temps d = {}"
  by unfold_locales (auto simp: link_lock_def link_temp_def make_temp_def link_unlock_def)

interpretation open2_excl: exclusion "open2_lock False" unlink_lockfile "\<lambda>ow l. l \<longleftrightarrow> ow \<noteq> None"
  by unfold_locales (auto simp: open2_lock_def open_noperm_def unlink_lockfile_def)

interpretation pxsem_excl: exclusion pxsem_lock pxsem_unlock
  "\<lambda>ow sem. case ow of None \<Rightarrow> sem = None \<or> sem = Some 1 | Some _ \<Rightarrow> sem = Some 0"
  by unfold_locales (auto simp: pxsem_lock_def pxsem_unlock_def px_wait_def px_post_def)

section \<open>The programs\<close>

text \<open>\<open>loopmain.c\<close> takes the number of loops as an argument, \<open>lockmain.c\<close> loops 100000 times.\<close>

definition loopmain ::
  "(nat \<Rightarrow> 'l \<Rightarrow> 'l option) \<Rightarrow> (nat \<Rightarrow> 'l \<Rightarrow> 'l option) \<Rightarrow> int \<Rightarrow>
    ('l, byte list, int option) crit \<Rightarrow> ('l, byte list, int option) crit \<Rightarrow> bool" where
  "loopmain my_lock my_unlock nloop = crit_step my_lock my_unlock seq_read seq_write nloop"

definition lockmain ::
  "(nat \<Rightarrow> 'l \<Rightarrow> 'l option) \<Rightarrow> (nat \<Rightarrow> 'l \<Rightarrow> 'l option) \<Rightarrow>
    ('l, byte list, int option) crit \<Rightarrow> ('l, byte list, int option) crit \<Rightarrow> bool" where
  "lockmain my_lock my_unlock = crit_step my_lock my_unlock seq_read seq_write 100000"

definition seq_start :: "nat \<Rightarrow> 'l \<Rightarrow> byte list \<Rightarrow> ('l, byte list, int option) crit" where
  "seq_start n l contents = crit_start n l contents None False"

section \<open>The file keeps the number\<close>

definition has_number :: "int \<Rightarrow> byte list \<Rightarrow> bool" where
  "has_number n contents \<longleftrightarrow> (\<exists>junk. contents = dec_int n @ newline # junk)"

lemma digits_val_line: "digits_val 0 (dec n @ newline # rest) = n"
proof -
  have "digits_val 0 (dec n @ newline # rest) = digits_val (digits_val 0 (dec n)) (newline # rest)"
    using dec_digits by (intro digits_val_append)
  then show ?thesis by (simp add: digits_val_dec is_digit_def)
qed

lemma sscanf_line: "sscanf_ld (dec_int n @ newline # rest) = Some n"
proof -
  obtain c cs where d: "dec (nat \<bar>n\<bar>) = c # cs" using dec_not_Nil [of "nat \<bar>n\<bar>"] by (cases "dec (nat \<bar>n\<bar>)") auto
  have dg: "is_digit c" using dec_digits [of c "nat \<bar>n\<bar>"] d by simp
  have nz: "x \<noteq> 0" if "x \<in> set (dec m)" for x m using is_digit_unat [OF dec_digits [OF that]] by auto
  have str: "cstr (dec m @ newline # rest) = dec m @ newline # cstr rest" for m
    using nz [of _ m] by (simp add: cstr_def takeWhile_append2)
  have minus: "unat minus_sign = 45" "\<not> is_space minus_sign" by (simp_all add: is_space_def)
  show ?thesis
  proof (cases "n < 0")
    case True
    then have "cstr (dec_int n @ newline # rest) = minus_sign # dec (nat \<bar>n\<bar>) @ newline # cstr rest"
      using str by (simp add: dec_int_def cstr_def)
    then show ?thesis using True d dg minus digits_val_line [of "nat \<bar>n\<bar>" "cstr rest"]
      by (simp add: sscanf_ld_def atol_def)
  next
    case False
    then have "cstr (dec_int n @ newline # rest) = dec (nat \<bar>n\<bar>) @ newline # cstr rest"
      using str by (simp add: dec_int_def)
    then show ?thesis using False d dg is_digit_unat [OF dg] digits_val_line [of "nat \<bar>n\<bar>" "cstr rest"]
      by (simp add: sscanf_ld_def atol_def)
  qed
qed

lemma dec_int_length:
  assumes "- (2 ^ 63) \<le> n" and "n < 2 ^ 63"
  shows "length (dec_int n) \<le> 20"
proof -
  have "nat \<bar>n\<bar> < 10 ^ 19" using assms by auto
  then have "length (dec (nat \<bar>n\<bar>)) \<le> 19" by (rule length_dec) simp
  then show ?thesis by (cases "n < 0") (auto simp: dec_int_def)
qed

lemma seq_read_number:
  assumes "has_number n contents" and "- (2 ^ 63) \<le> n" and "n < 2 ^ 63"
  shows "seq_read contents = Some n"
proof -
  obtain junk where c: "contents = dec_int n @ newline # junk" using assms(1) by (auto simp: has_number_def)
  have "length (dec_int n) \<le> 20" using dec_int_length assms(2,3) by simp
  then have "take MAXLINE contents = dec_int n @ newline # take (MAXLINE - length (dec_int n) - 1) junk"
    using c by (simp add: take_Cons' del: diff_diff_left)
  then show ?thesis by (simp add: seq_read_def sscanf_line)
qed

lemma upd_next: "seq_read d = Some m \<Longrightarrow> has_number (m + 1) (upd seq_read seq_write d)"
  by (auto simp: upd_def seq_write_def has_number_def Let_def)

lemma upd_number:
  assumes "has_number n contents" and "- (2 ^ 63) \<le> n" and "n + int k < 2 ^ 63"
  shows "has_number (n + int k) ((upd seq_read seq_write ^^ k) contents)"
  using assms(3)
proof (induction k)
  case (Suc k)
  then have "seq_read ((upd seq_read seq_write ^^ k) contents) = Some (n + int k)"
    using assms(2) by (intro seq_read_number) auto
  from upd_next [OF this] show ?case by (simp add: add.commute add.left_commute)
qed (use assms(1) in simp)

text \<open>What processes that number right do: the numbers they read follow one another.\<close>

definition numbers_right ::
  "(('l, byte list, int option) crit \<Rightarrow> ('l, byte list, int option) crit \<Rightarrow> bool) \<Rightarrow> 'l \<Rightarrow> byte list \<Rightarrow> int \<Rightarrow> nat \<Rightarrow> int \<Rightarrow> bool" where
  "numbers_right step l contents seqno n nloop \<longleftrightarrow>
    (\<forall>ts s. path_steps step (seq_start n l contents) ts \<longrightarrow> s = last (seq_start n l contents # ts) \<longrightarrow>
      map snd (cr_log s) = map (\<lambda>k. Some (seqno + int k)) [0..<length (cr_log s)] \<and>
      (crit_joined s \<longrightarrow> length (cr_log s) = n * nat nloop \<and> has_number (seqno + int (n * nat nloop)) (cr_data s)) \<and>
      (crit_joined s \<or> (\<exists>t. step s t)) \<and>
      int (length ts) \<le> int n * (5 * max 0 nloop + 1) + 1)"

context exclusion
begin

lemma exclusion_numbers_right:
  assumes "has_number seqno contents" and "- (2 ^ 63) \<le> seqno" and "seqno + int (n * nat nloop) < 2 ^ 63" and "own None l"
  shows "numbers_right (crit_step acquire release seq_read seq_write nloop) l contents seqno n nloop"
  unfolding numbers_right_def
proof (intro allI impI)
  fix ts s
  assume path: "path_steps (crit_step acquire release seq_read seq_write nloop) (seq_start n l contents) ts"
    "s = last (seq_start n l contents # ts)"
  have "own (if False then Some n else None) l" using assms(4) by simp
  from crit_run [OF this path [unfolded seq_start_def]]
  have run: "map snd (cr_log s) = map (\<lambda>k. seq_read ((upd seq_read seq_write ^^ k) contents)) [0..<length (cr_log s)]"
    "length (cr_log s) \<le> n * nat nloop"
    "crit_joined s \<longrightarrow> length (cr_log s) = n * nat nloop \<and> cr_data s = (upd seq_read seq_write ^^ (n * nat nloop)) contents"
    "crit_joined s \<or> (\<exists>t. crit_step acquire release seq_read seq_write nloop s t)"
    "int (length ts) \<le> int n * (5 * max 0 nloop + 1) + 1" by auto
  have num: "has_number (seqno + int k) ((upd seq_read seq_write ^^ k) contents)" "seqno + int k < 2 ^ 63"
    if "k \<le> n * nat nloop" for k
  proof -
    have "int k \<le> int (n * nat nloop)" using that by (simp only: of_nat_le_iff)
    then show "seqno + int k < 2 ^ 63" using assms(3) by linarith
    then show "has_number (seqno + int k) ((upd seq_read seq_write ^^ k) contents)"
      by (rule upd_number [OF assms(1,2)])
  qed
  have "seq_read ((upd seq_read seq_write ^^ k) contents) = Some (seqno + int k)" if "k < length (cr_log s)" for k
    using num [of k] that run(2) assms(2) by (intro seq_read_number) auto
  then have "map snd (cr_log s) = map (\<lambda>k. Some (seqno + int k)) [0..<length (cr_log s)]"
    unfolding run(1) by simp
  then show "map snd (cr_log s) = map (\<lambda>k. Some (seqno + int k)) [0..<length (cr_log s)] \<and>
      (crit_joined s \<longrightarrow> length (cr_log s) = n * nat nloop \<and> has_number (seqno + int (n * nat nloop)) (cr_data s)) \<and>
      (crit_joined s \<or> (\<exists>t. crit_step acquire release seq_read seq_write nloop s t)) \<and>
      int (length ts) \<le> int n * (5 * max 0 nloop + 1) + 1"
    using run(3-5) num(1) [of "n * nat nloop"] by auto
qed

end

section \<open>Properties\<close>

text \<open>
  C35. Processes that number the file under the locks of \<open>lockfcntl.c\<close>, \<open>lockopen.c\<close>, \<open>locklink.c\<close> and \<open>lockpxsem.c\<close>, and
  under that of \<open>lockopen2.c\<close> when no process is the superuser (\<open>locksvsem.c\<close> is not part of this statement). Where
  the file begins with a number and a newline and all numbers fit a \<open>long\<close>: the numbers that all
  processes together read follow one another without a gap or a repetition, the file has the next
  number at the end, some process can run until all are done, and every run is finite, not counting
  attempts that find the lock taken.
\<close>

theorem seqno_follows:
  assumes "has_number seqno contents" and "- (2 ^ 63) \<le> seqno" and "seqno + int (n * nat nloop) < 2 ^ 63"
  shows "numbers_right (loopmain (fcntl_wrlock id) (fcntl_unlock id) nloop) None contents seqno n nloop \<and>
    numbers_right (loopmain open_lock unlink_lockfile nloop) False contents seqno n nloop \<and>
    numbers_right (loopmain link_lock link_unlock nloop) \<lparr>ld_lock = False, ld_temps = {}\<rparr> contents seqno n nloop \<and>
    numbers_right (loopmain (open2_lock False) unlink_lockfile nloop) False contents seqno n nloop \<and>
    numbers_right (loopmain pxsem_lock pxsem_unlock nloop) None contents seqno n nloop \<and>
    (nloop = 100000 \<longrightarrow> numbers_right (lockmain (fcntl_wrlock id) (fcntl_unlock id)) None contents seqno n nloop)"
  unfolding loopmain_def lockmain_def
  using fcntl_procs.exclusion_numbers_right [OF assms] lockfile_excl.exclusion_numbers_right [OF assms]
    link_excl.exclusion_numbers_right [OF assms] open2_excl.exclusion_numbers_right [OF assms]
    pxsem_excl.exclusion_numbers_right [OF assms] by auto

theorem seqno_follows_witness:
  "numbers_right (loopmain open_lock unlink_lockfile 20) False [49, 50, 10] 12 3 20"
proof -
  have "has_number 12 [49, 50, 10]" by (simp add: has_number_def dec_int_def dec.simps [of 12] dec.simps [of "Suc 0"])
  from seqno_follows [OF this, of 3 20] show ?thesis by simp
qed

text \<open>
  Without a lock (\<open>locknone.c\<close>), and with the lock file of \<open>lockopen2.c\<close> when the processes run as the
  superuser, two processes can read the same number, and the file then has the number after it
  although two numbers were taken.
\<close>

lemma seqno_repeats:
  "(\<exists>ts s. path_steps (loopmain none_lock none_lock 1) (seq_start 2 () [49, 10]) ts \<and>
      s = last (seq_start 2 () [49, 10] # ts) \<and> crit_joined s \<and> cr_log s = [(0, Some 1), (1, Some 1)] \<and> cr_data s = [50, 10]) \<and>
   (\<exists>ts s. path_steps (loopmain (open2_lock True) unlink_lockfile 1) (seq_start 2 False [49, 10]) ts \<and>
      s = last (seq_start 2 False [49, 10] # ts) \<and> cr_log s = [(0, Some 1), (1, Some 1)] \<and> cr_data s = [50, 10])"
proof -
  have rd: "seq_read [49, 10] = Some 1" by (rule seq_read_number) (auto simp: has_number_def dec_int_def dec.simps [of "Suc 0"])
  have wr: "seq_write (Some 1) [49, 10] = [50, 10]" "seq_write (Some 1) [50, 10] = [50, 10]"
    by (simp_all add: seq_write_def dec_int_def dec.simps [of 2])
  let ?f = "crit_thread none_lock none_lock seq_read seq_write 1" and ?s = "seq_start 2 () [49, 10]"
  let ?g = "crit_thread (open2_lock True) unlink_lockfile seq_read seq_write 1" and ?t = "seq_start 2 False [49, 10]"
  have "\<exists>s. sched_run ?f [0, 0, 1, 1, 0, 1, 0, 1, 0, 1, 0, 1] ?s = Some s \<and> crit_joined s \<and>
      cr_log s = [(0, Some 1), (1, Some 1)] \<and> cr_data s = [50, 10]"
    by (simp add: crit_thread_def seq_start_def crit_start_def worker_defs none_lock_def rd wr eval_nat_numeral crit_joined_def)
  moreover have "\<exists>s. sched_run ?g [0, 0, 1, 1, 0, 1, 0, 1, 0] ?t = Some s \<and>
      cr_log s = [(0, Some 1), (1, Some 1)] \<and> cr_data s = [50, 10]"
    by (simp add: crit_thread_def seq_start_def crit_start_def worker_defs open2_lock_def open_noperm_def unlink_lockfile_def rd wr
        eval_nat_numeral)
  ultimately show ?thesis unfolding loopmain_def by (metis crit_sched)
qed

end
