(* ===== verification/Mq_Notify.thy ===== *)
theory Mq_Notify
  imports Mqueue_Correct
begin

text \<open>
  The programs of \<open>src/pxmsg\<close> that are told of new messages: \<open>mqnotifysig1.c\<close> and \<open>mqnotifysig2.c\<close>, which
  read one message for each signal; \<open>mqnotifysig3.c\<close>, \<open>mqnotifysig4.c\<close>, \<open>mqnotifysig5.c\<close> and \<open>mqnotifythread1.c\<close>, which read
  until the queue is empty. The queue is the one of the specification: messages by priority, and a
  notification when a message arrives at an empty queue on which nobody waits.
\<close>

section \<open>The queue\<close>

text \<open>
  \<open>nq_pending\<close>: the signal was sent to the reader and not delivered yet; a second one is not queued.
  \<open>nq_flag\<close> is \<open>mqflag\<close>; \<open>nq_pipe\<close> is the number of bytes in the pipe of \<open>mqnotifysig5.c\<close>; \<open>nq_threads\<close> are the threads started by notifications; \<open>nq_pc\<close> is where the reader
  is. \<open>nq_sent\<close> and \<open>nq_read\<close> are all messages sent and read.
\<close>

datatype nq_pc =
    N_block | N_test | N_suspend | N_reset | N_notify | N_recv | N_unblock
  | N_failed

record nq =
  nq_queue :: "(uint \<times> byte list) list"
  nq_registered :: bool
  nq_pending :: bool
  nq_flag :: bool
  nq_pipe :: nat
  nq_pc :: nq_pc
  nq_threads :: "nq_pc list"
  nq_sent :: "(uint \<times> byte list) list"
  nq_read :: "(uint \<times> byte list) list"

text \<open>
  What the system does with a message: it arrives when there is room for it, and the registered process is told and no longer
  registered if the queue was empty and nobody waits in \<open>mq_receive\<close>.
\<close>

definition nq_tells :: "bool \<Rightarrow> nq \<Rightarrow> bool" where
  "nq_tells waiting s \<longleftrightarrow> nq_queue s = [] \<and> nq_registered s \<and> \<not> waiting"

definition nq_put :: "uint \<Rightarrow> byte list \<Rightarrow> nq \<Rightarrow> nq" where
  "nq_put prio data s = s\<lparr>nq_queue := mq_insert prio data (nq_queue s), nq_sent := nq_sent s @ [(prio, data)]\<rparr>"

definition nq_signal :: "bool \<Rightarrow> uint \<Rightarrow> byte list \<Rightarrow> nq \<Rightarrow> nq" where
  "nq_signal waiting prio data s =
    (if nq_tells waiting s then (nq_put prio data s)\<lparr>nq_registered := False, nq_pending := True\<rparr> else nq_put prio data s)"

text \<open>\<open>Mq_notify\<close> fails when a process is registered already, and \<open>mq_receive\<close> takes the first message.\<close>

definition nq_register :: "nq_pc \<Rightarrow> nq \<Rightarrow> nq" where
  "nq_register next s =
    (if nq_registered s then s\<lparr>nq_pc := N_failed\<rparr> else s\<lparr>nq_registered := True, nq_pc := next\<rparr>)"

definition nq_take :: "nq \<Rightarrow> nq" where
  "nq_take s = s\<lparr>nq_queue := tl (nq_queue s), nq_read := nq_read s @ [hd (nq_queue s)]\<rparr>"

section \<open>The readers\<close>

text \<open>
  \<open>mqnotifysig1.c\<close>: the handler, in which the signal is blocked, registers again and reads one message.
  The reader is at \<open>N_suspend\<close> while it pauses.
\<close>

inductive sig1_step :: "nat \<Rightarrow> nq \<Rightarrow> nq \<Rightarrow> bool" for maxmsg :: nat where
  sig1_send: "length (nq_queue s) < maxmsg \<Longrightarrow> sig1_step maxmsg s (nq_signal (nq_pc s = N_recv) prio data s)"
| sig1_deliver: "nq_pc s = N_suspend \<Longrightarrow> nq_pending s \<Longrightarrow> sig1_step maxmsg s (s\<lparr>nq_pending := False, nq_pc := N_notify\<rparr>)"
| sig1_notify: "nq_pc s = N_notify \<Longrightarrow> sig1_step maxmsg s (nq_register N_recv s)"
| sig1_receive: "nq_pc s = N_recv \<Longrightarrow> nq_queue s \<noteq> [] \<Longrightarrow> sig1_step maxmsg s ((nq_take s)\<lparr>nq_pc := N_suspend\<rparr>)"

text \<open>
  The loop of \<open>mqnotifysig2.c\<close> and \<open>mqnotifysig3.c\<close>. The handler sets \<open>mqflag\<close>; the signal is delivered
  where it is not blocked, between the unblock and the block, and in \<open>sigsuspend\<close>.
\<close>

inductive flag_step :: "nq \<Rightarrow> nq \<Rightarrow> bool" where
  flag_deliver: "nq_pc s = N_block \<Longrightarrow> nq_pending s \<Longrightarrow> flag_step s (s\<lparr>nq_pending := False, nq_flag := True\<rparr>)"
| flag_suspend: "nq_pc s = N_suspend \<Longrightarrow> nq_pending s \<Longrightarrow>
    flag_step s (s\<lparr>nq_pending := False, nq_flag := True, nq_pc := N_test\<rparr>)"
| flag_block: "nq_pc s = N_block \<Longrightarrow> flag_step s (s\<lparr>nq_pc := N_test\<rparr>)"
| flag_test: "nq_pc s = N_test \<Longrightarrow> flag_step s (s\<lparr>nq_pc := (if nq_flag s then N_reset else N_suspend)\<rparr>)"
| flag_reset: "nq_pc s = N_reset \<Longrightarrow> flag_step s (s\<lparr>nq_flag := False, nq_pc := N_notify\<rparr>)"
| flag_notify: "nq_pc s = N_notify \<Longrightarrow> flag_step s (nq_register N_recv s)"
| flag_unblock: "nq_pc s = N_unblock \<Longrightarrow> flag_step s (s\<lparr>nq_pc := N_block\<rparr>)"

inductive sig2_step :: "nat \<Rightarrow> nq \<Rightarrow> nq \<Rightarrow> bool" for maxmsg :: nat where
  sig2_send: "length (nq_queue s) < maxmsg \<Longrightarrow> sig2_step maxmsg s (nq_signal (nq_pc s = N_recv) prio data s)"
| sig2_flag: "flag_step s t \<Longrightarrow> sig2_step maxmsg s t"
| sig2_receive: "nq_pc s = N_recv \<Longrightarrow> nq_queue s \<noteq> [] \<Longrightarrow> sig2_step maxmsg s ((nq_take s)\<lparr>nq_pc := N_unblock\<rparr>)"

text \<open>\<open>mqnotifysig3.c\<close> reads without waiting until \<open>EAGAIN\<close>.\<close>

inductive sig3_read :: "nq \<Rightarrow> nq \<Rightarrow> bool" where
  sig3_flag: "flag_step s t \<Longrightarrow> sig3_read s t"
| sig3_receive: "nq_pc s = N_recv \<Longrightarrow> nq_queue s \<noteq> [] \<Longrightarrow> sig3_read s (nq_take s)"
| sig3_again: "nq_pc s = N_recv \<Longrightarrow> nq_queue s = [] \<Longrightarrow> sig3_read s (s\<lparr>nq_pc := N_unblock\<rparr>)"

inductive sig3_step :: "nat \<Rightarrow> nq \<Rightarrow> nq \<Rightarrow> bool" for maxmsg :: nat where
  sig3_send: "length (nq_queue s) < maxmsg \<Longrightarrow> sig3_step maxmsg s (nq_signal False prio data s)"
| sig3_reader: "sig3_read s t \<Longrightarrow> sig3_step maxmsg s t"

text \<open>\<open>mqnotifysig4.c\<close> has the signal blocked and takes it with \<open>sigwait\<close>, at \<open>N_suspend\<close>.\<close>

inductive sig4_read :: "nq \<Rightarrow> nq \<Rightarrow> bool" where
  sig4_wait: "nq_pc s = N_suspend \<Longrightarrow> nq_pending s \<Longrightarrow> sig4_read s (s\<lparr>nq_pending := False, nq_pc := N_notify\<rparr>)"
| sig4_notify: "nq_pc s = N_notify \<Longrightarrow> sig4_read s (nq_register N_recv s)"
| sig4_receive: "nq_pc s = N_recv \<Longrightarrow> nq_queue s \<noteq> [] \<Longrightarrow> sig4_read s (nq_take s)"
| sig4_again: "nq_pc s = N_recv \<Longrightarrow> nq_queue s = [] \<Longrightarrow> sig4_read s (s\<lparr>nq_pc := N_suspend\<rparr>)"

inductive sig4_step :: "nat \<Rightarrow> nq \<Rightarrow> nq \<Rightarrow> bool" for maxmsg :: nat where
  sig4_send: "length (nq_queue s) < maxmsg \<Longrightarrow> sig4_step maxmsg s (nq_signal False prio data s)"
| sig4_reader: "sig4_read s t \<Longrightarrow> sig4_step maxmsg s t"

text \<open>
  \<open>mqnotifysig5.c\<close>: the handler, which runs at any time, writes a byte to a pipe; \<open>Select\<close> and \<open>Read\<close> wait for
  it at \<open>N_suspend\<close>.
\<close>

inductive sig5_read :: "nq \<Rightarrow> nq \<Rightarrow> bool" where
  sig5_handler: "nq_pending s \<Longrightarrow> sig5_read s (s\<lparr>nq_pending := False, nq_pipe := nq_pipe s + 1\<rparr>)"
| sig5_select: "nq_pc s = N_suspend \<Longrightarrow> 0 < nq_pipe s \<Longrightarrow> sig5_read s (s\<lparr>nq_pipe := nq_pipe s - 1, nq_pc := N_notify\<rparr>)"
| sig5_notify: "nq_pc s = N_notify \<Longrightarrow> sig5_read s (nq_register N_recv s)"
| sig5_receive: "nq_pc s = N_recv \<Longrightarrow> nq_queue s \<noteq> [] \<Longrightarrow> sig5_read s (nq_take s)"
| sig5_again: "nq_pc s = N_recv \<Longrightarrow> nq_queue s = [] \<Longrightarrow> sig5_read s (s\<lparr>nq_pc := N_suspend\<rparr>)"

inductive sig5_step :: "nat \<Rightarrow> nq \<Rightarrow> nq \<Rightarrow> bool" for maxmsg :: nat where
  sig5_send: "length (nq_queue s) < maxmsg \<Longrightarrow> sig5_step maxmsg s (nq_signal False prio data s)"
| sig5_reader: "sig5_read s t \<Longrightarrow> sig5_step maxmsg s t"

text \<open>
  \<open>mqnotifythread1.c\<close>: a notification starts a thread, which registers again, reads until \<open>EAGAIN\<close> and
  ends. Several threads can be at work.
\<close>

definition nq_start_thread :: "uint \<Rightarrow> byte list \<Rightarrow> nq \<Rightarrow> nq" where
  "nq_start_thread prio data s =
    (if nq_tells False s then (nq_put prio data s)\<lparr>nq_registered := False, nq_threads := nq_threads s @ [N_notify]\<rparr>
     else nq_put prio data s)"

inductive thread_read :: "nq \<Rightarrow> nq \<Rightarrow> bool" where
  thread_notify: "j < length (nq_threads s) \<Longrightarrow> nq_threads s ! j = N_notify \<Longrightarrow>
    thread_read s (s\<lparr>nq_registered := True,
      nq_threads := (nq_threads s)[j := (if nq_registered s then N_failed else N_recv)]\<rparr>)"
| thread_receive: "j < length (nq_threads s) \<Longrightarrow> nq_threads s ! j = N_recv \<Longrightarrow> nq_queue s \<noteq> [] \<Longrightarrow>
    thread_read s (nq_take s)"
| thread_again: "j < length (nq_threads s) \<Longrightarrow> nq_threads s ! j = N_recv \<Longrightarrow> nq_queue s = [] \<Longrightarrow>
    thread_read s (s\<lparr>nq_threads := (nq_threads s)[j := N_unblock]\<rparr>)"

inductive thread_step :: "nat \<Rightarrow> nq \<Rightarrow> nq \<Rightarrow> bool" for maxmsg :: nat where
  thread_send: "length (nq_queue s) < maxmsg \<Longrightarrow> thread_step maxmsg s (nq_start_thread prio data s)"
| thread_reader: "thread_read s t \<Longrightarrow> thread_step maxmsg s t"

text \<open>Each program registers, and then waits on an empty queue.\<close>

definition nq_start :: "nq_pc \<Rightarrow> nq" where
  "nq_start pc =
    \<lparr>nq_queue = [], nq_registered = True, nq_pending = False, nq_flag = False, nq_pipe = 0, nq_pc = pc, nq_threads = [],
     nq_sent = [], nq_read = []\<rparr>"

lemmas nq_defs = nq_signal_def nq_tells_def nq_put_def nq_register_def nq_take_def nq_start_thread_def

lemma mset_mq_insert [simp]: "mset (mq_insert prio data q) = add_mset (prio, data) (mset q)"
  by (simp add: mq_insert_def) (metis mset_append takeWhile_dropWhile_id union_mset_add_mset_left union_mset_add_mset_right)

lemma mq_insert_not_Nil [simp]: "mq_insert prio data q \<noteq> []"
  by (simp add: mq_insert_def)

lemma mset_take: "q \<noteq> [] \<Longrightarrow> add_mset (hd q) (mset (tl q)) = mset q"
  by (cases q) auto

section \<open>Readers that drain the queue\<close>

text \<open>
  A program is safe when after any run of it and of senders its reader, left alone, stops within
  \<open>bound\<close> steps, and has then read every message ever sent, each once.
\<close>

definition reads_all :: "nq \<Rightarrow> (nq \<Rightarrow> nq \<Rightarrow> bool) \<Rightarrow> (nq \<Rightarrow> nq \<Rightarrow> bool) \<Rightarrow> (nq \<Rightarrow> nat) \<Rightarrow> bool" where
  "reads_all start step reads bound \<longleftrightarrow>
    (\<forall>ts s us t. path_steps step start ts \<longrightarrow> s = last (start # ts) \<longrightarrow> path_steps reads s us \<longrightarrow> t = last (s # us) \<longrightarrow>
      length us \<le> bound s \<and> ((\<forall>u. \<not> reads t u) \<longrightarrow> nq_queue t = [] \<and> mset (nq_read t) = mset (nq_sent s)))"

text \<open>
  What makes a reader safe: nothing is lost, its own steps come to an end, and it has nothing to do only
  when the queue is empty.
\<close>

locale draining =
  fixes start :: nq
    and step :: "nq \<Rightarrow> nq \<Rightarrow> bool"
    and reads :: "nq \<Rightarrow> nq \<Rightarrow> bool"
    and I :: "nq \<Rightarrow> bool"
    and left :: "nq \<Rightarrow> nat"
  assumes I_start: "I start"
    and I_step: "I s \<Longrightarrow> step s t \<Longrightarrow> I t"
    and reads_step: "reads s t \<Longrightarrow> step s t"
    and reads_sent: "reads s t \<Longrightarrow> nq_sent t = nq_sent s"
    and reads_less: "I s \<Longrightarrow> reads s t \<Longrightarrow> left t < left s"
    and account: "I s \<Longrightarrow> mset (nq_sent s) = mset (nq_read s) + mset (nq_queue s)"
    and quiet: "I s \<Longrightarrow> \<forall>t. \<not> reads s t \<Longrightarrow> nq_queue s = []"
begin

lemma I_path: "I s \<Longrightarrow> path_steps step s ts \<Longrightarrow> I (last (s # ts))"
proof (induction ts arbitrary: s)
  case (Cons t ts)
  then have "I t" and "path_steps step t ts" by (auto intro: I_step)
  then show ?case using Cons.IH [of t] by simp
qed simp

lemma drains:
  assumes "path_steps step start ts" and "s = last (start # ts)" and "path_steps reads s us" and "t = last (s # us)"
  shows "length us + left t \<le> left s \<and> mset (nq_sent t) = mset (nq_read t) + mset (nq_queue t) \<and> nq_sent t = nq_sent s \<and>
    ((\<forall>u. \<not> reads t u) \<longrightarrow> nq_queue t = [] \<and> mset (nq_read t) = mset (nq_sent s))"
proof -
  have "I s" using I_path [OF I_start assms(1)] assms(2) by simp
  have "length us + left (last (s # us)) \<le> left s \<and> I (last (s # us)) \<and> nq_sent (last (s # us)) = nq_sent s"
    if "I s" "path_steps reads s us" for s
    using that
  proof (induction us arbitrary: s)
    case (Cons u us)
    have u: "I u" "left u < left s" "nq_sent u = nq_sent s"
      using Cons.prems I_step reads_step reads_less reads_sent by auto
    from Cons.IH [OF u(1)] Cons.prems(2) u(2,3) show ?case by auto
  qed simp
  from this [OF \<open>I s\<close> assms(3)] have t: "length us + left t \<le> left s" "I t" "nq_sent t = nq_sent s" using assms(4) by auto
  with account [OF t(2)] quiet [OF t(2)] show ?thesis by auto
qed

lemma drains_all:
  assumes "\<And>s. I s \<Longrightarrow> left s \<le> bound s"
  shows "reads_all start step reads bound"
  unfolding reads_all_def
proof (intro allI impI)
  fix ts s us t
  assume run: "path_steps step start ts" "s = last (start # ts)" "path_steps reads s us" "t = last (s # us)"
  have "left s \<le> bound s" using assms I_path [OF I_start run(1)] run(2) by simp
  with drains [OF run] show "length us \<le> bound s \<and> ((\<forall>u. \<not> reads t u) \<longrightarrow> nq_queue t = [] \<and> mset (nq_read t) = mset (nq_sent s))"
    by auto
qed

end

section \<open>mqnotifysig3\<close>

text \<open>
  The reader is registered, or exactly one token of a notification is under way: the pending signal,
  the flag, or the place before it registers again. A message on the queue has a token, or the reader
  is reading.
\<close>

definition sig3_inv :: "nq \<Rightarrow> bool" where
  "sig3_inv s \<longleftrightarrow>
    mset (nq_sent s) = mset (nq_read s) + mset (nq_queue s) \<and> nq_pc s \<noteq> N_failed \<and>
    (nq_registered s \<longrightarrow> \<not> nq_pending s \<and> \<not> nq_flag s \<and> nq_pc s \<noteq> N_notify) \<and>
    (nq_pending s \<longrightarrow> \<not> nq_flag s \<and> nq_pc s \<noteq> N_notify) \<and>
    (nq_flag s \<longrightarrow> nq_pc s = N_block \<or> nq_pc s = N_test \<or> nq_pc s = N_reset) \<and>
    (nq_pc s = N_reset \<longrightarrow> nq_flag s) \<and>
    (nq_registered s \<or> nq_pending s \<or> nq_flag s \<or> nq_pc s = N_notify) \<and>
    (nq_queue s \<noteq> [] \<longrightarrow> nq_pending s \<or> nq_flag s \<or> nq_pc s = N_notify \<or> nq_pc s = N_recv)"

fun flag_rank :: "nq_pc \<Rightarrow> nat" where
  "flag_rank N_reset = 6" | "flag_rank N_notify = 5" | "flag_rank N_recv = 4" | "flag_rank N_unblock = 3"
| "flag_rank N_block = 2" | "flag_rank N_test = 1" | "flag_rank _ = 0"

definition sig3_left :: "nq \<Rightarrow> nat" where
  "sig3_left s = length (nq_queue s) + flag_rank (nq_pc s) + (if nq_pending s then 8 else 0) +
    (if nq_flag s \<and> nq_pc s \<noteq> N_reset then 6 else 0)"

lemma sig3_read_keeps: "sig3_inv s \<Longrightarrow> sig3_read s t \<Longrightarrow> sig3_inv t \<and> sig3_left t < sig3_left s"
  by (elim sig3_read.cases flag_step.cases)
    (auto simp: sig3_inv_def sig3_left_def nq_defs mset_take neq_Nil_conv split: if_splits)

lemma sig3_quiet:
  assumes inv: "sig3_inv s" and "\<forall>t. \<not> sig3_read s t"
  shows "nq_queue s = []"
proof (rule ccontr)
  assume q: "nq_queue s \<noteq> []"
  have "\<exists>t. sig3_read s t"
    using inv q
    by (cases "nq_pc s") (auto simp: sig3_inv_def intro: sig3_read.intros flag_step.intros)
  with assms(2) show False by blast
qed

interpretation sig3: draining "nq_start N_block" "sig3_step maxmsg" sig3_read sig3_inv sig3_left for maxmsg
proof (unfold_locales, goal_cases)
  case (2 s t)
  from 2(2) show ?case
  proof cases
    case (sig3_send prio data)
    then show ?thesis using 2(1) by (auto simp: sig3_inv_def nq_defs)
  qed (use 2(1) sig3_read_keeps in blast)
next
  case (4 s t)
  then show ?case by (elim sig3_read.cases flag_step.cases) (auto simp: nq_defs)
next
  case (7 s)
  then show ?case by (rule sig3_quiet)
qed (auto simp: sig3_inv_def nq_start_def sig3_reader sig3_read_keeps)

section \<open>mqnotifysig4\<close>

definition sig4_inv :: "nq \<Rightarrow> bool" where
  "sig4_inv s \<longleftrightarrow>
    mset (nq_sent s) = mset (nq_read s) + mset (nq_queue s) \<and>
    (nq_pc s = N_suspend \<or> nq_pc s = N_notify \<or> nq_pc s = N_recv) \<and>
    (nq_registered s \<longrightarrow> \<not> nq_pending s \<and> nq_pc s \<noteq> N_notify) \<and> (nq_pending s \<longrightarrow> nq_pc s \<noteq> N_notify) \<and>
    (nq_registered s \<or> nq_pending s \<or> nq_pc s = N_notify) \<and>
    (nq_queue s \<noteq> [] \<longrightarrow> nq_pending s \<or> nq_pc s = N_notify \<or> nq_pc s = N_recv)"

definition sig4_left :: "nq \<Rightarrow> nat" where
  "sig4_left s = length (nq_queue s) + (if nq_pending s then 3 else 0) +
    (if nq_pc s = N_notify then 2 else if nq_pc s = N_recv then 1 else 0)"

lemma sig4_read_keeps: "sig4_inv s \<Longrightarrow> sig4_read s t \<Longrightarrow> sig4_inv t \<and> sig4_left t < sig4_left s"
  by (elim sig4_read.cases) (auto simp: sig4_inv_def sig4_left_def nq_defs mset_take neq_Nil_conv split: if_splits)

lemma sig4_quiet: "sig4_inv s \<Longrightarrow> \<forall>t. \<not> sig4_read s t \<Longrightarrow> nq_queue s = []"
proof (rule ccontr)
  assume "sig4_inv s" and "nq_queue s \<noteq> []" and none: "\<forall>t. \<not> sig4_read s t"
  then have "\<exists>t. sig4_read s t"
    by (cases "nq_pc s") (auto simp: sig4_inv_def intro: sig4_read.intros)
  with none show False by blast
qed

interpretation sig4: draining "nq_start N_suspend" "sig4_step maxmsg" sig4_read sig4_inv sig4_left for maxmsg
proof (unfold_locales, goal_cases)
  case (2 s t)
  from 2(2) show ?case
  proof cases
    case (sig4_send prio data)
    then show ?thesis using 2(1) by (auto simp: sig4_inv_def nq_defs)
  qed (use 2(1) sig4_read_keeps in blast)
next
  case (4 s t)
  then show ?case by (elim sig4_read.cases) (auto simp: nq_defs)
next
  case (7 s)
  then show ?case by (rule sig4_quiet)
qed (auto simp: sig4_inv_def nq_start_def sig4_reader sig4_read_keeps)

section \<open>mqnotifysig5\<close>

text \<open>The registration, the pending signal, a byte in the pipe and the place before \<open>Mq_notify\<close>: there is one of them.\<close>

definition sig5_inv :: "nq \<Rightarrow> bool" where
  "sig5_inv s \<longleftrightarrow>
    mset (nq_sent s) = mset (nq_read s) + mset (nq_queue s) \<and>
    (nq_pc s = N_suspend \<or> nq_pc s = N_notify \<or> nq_pc s = N_recv) \<and>
    of_bool (nq_registered s) + of_bool (nq_pending s) + nq_pipe s + of_bool (nq_pc s = N_notify) = 1 \<and>
    (nq_queue s \<noteq> [] \<longrightarrow> nq_pending s \<or> 0 < nq_pipe s \<or> nq_pc s = N_notify \<or> nq_pc s = N_recv)"

definition sig5_left :: "nq \<Rightarrow> nat" where
  "sig5_left s = length (nq_queue s) + (if nq_pending s then 4 else 0) + 3 * nq_pipe s +
    (if nq_pc s = N_notify then 2 else if nq_pc s = N_recv then 1 else 0)"

lemma sig5_read_keeps: "sig5_inv s \<Longrightarrow> sig5_read s t \<Longrightarrow> sig5_inv t \<and> sig5_left t < sig5_left s"
  by (elim sig5_read.cases) (auto simp: sig5_inv_def sig5_left_def nq_defs mset_take neq_Nil_conv split: if_splits)

lemma sig5_quiet: "sig5_inv s \<Longrightarrow> \<forall>t. \<not> sig5_read s t \<Longrightarrow> nq_queue s = []"
proof (rule ccontr)
  assume "sig5_inv s" and "nq_queue s \<noteq> []" and none: "\<forall>t. \<not> sig5_read s t"
  then have "\<exists>t. sig5_read s t"
    by (cases "nq_pc s") (auto simp: sig5_inv_def intro: sig5_read.intros)
  with none show False by blast
qed

interpretation sig5: draining "nq_start N_suspend" "sig5_step maxmsg" sig5_read sig5_inv sig5_left for maxmsg
proof (unfold_locales, goal_cases)
  case (2 s t)
  from 2(2) show ?case
  proof cases
    case (sig5_send prio data)
    then show ?thesis using 2(1) by (auto simp: sig5_inv_def nq_defs)
  qed (use 2(1) sig5_read_keeps in blast)
next
  case (4 s t)
  then show ?case by (elim sig5_read.cases) (auto simp: nq_defs)
next
  case (7 s)
  then show ?case by (rule sig5_quiet)
qed (auto simp: sig5_inv_def nq_start_def sig5_reader sig5_read_keeps)

section \<open>mqnotifythread1\<close>

definition thread_inv :: "nq \<Rightarrow> bool" where
  "thread_inv s \<longleftrightarrow>
    mset (nq_sent s) = mset (nq_read s) + mset (nq_queue s) \<and>
    cnt N_notify (nq_threads s) + (if nq_registered s then 1 else 0) = 1 \<and>
    set (nq_threads s) \<subseteq> {N_notify, N_recv, N_unblock} \<and>
    (nq_queue s \<noteq> [] \<longrightarrow> N_notify \<in> set (nq_threads s) \<or> N_recv \<in> set (nq_threads s))"

fun thread_rank :: "nq_pc \<Rightarrow> int" where
  "thread_rank N_notify = 2" | "thread_rank N_recv = 1" | "thread_rank _ = 0"

definition thread_left :: "nq \<Rightarrow> nat" where
  "thread_left s = length (nq_queue s) + nat (total_of thread_rank (nq_threads s))"

lemma thread_rank_range: "0 \<le> thread_rank p" "thread_rank p \<le> 2"
  by (cases p; simp)+

lemma thread_rank_total: "total_of thread_rank ps \<le> 2 * int (length ps)"
  by (induction ps) (use thread_rank_range(2) in \<open>auto simp: total_of_def intro: add_mono [of "thread_rank _" 2]\<close>)

lemma thread_read_keeps:
  assumes inv: "thread_inv s" and step: "thread_read s t"
  shows "thread_inv t \<and> thread_left t < thread_left s"
  using step
proof cases
  case (thread_notify j)
  have "1 \<le> cnt N_notify (nq_threads s)" using thread_notify by (intro cnt_pos_nth)
  then have reg: "\<not> nq_registered s" using inv by (auto simp: thread_inv_def split: if_splits)
  have "N_recv \<in> set ((nq_threads s)[j := N_recv])" using thread_notify(2) by (simp add: set_update_memI)
  moreover have "2 \<le> total_of thread_rank (nq_threads s)"
    using total_nth [of thread_rank j "nq_threads s"] thread_rank_range(1) thread_notify by fastforce
  ultimately show ?thesis using inv reg thread_notify set_update_subset_insert [of "nq_threads s" j N_recv]
    by (auto simp: thread_inv_def thread_left_def cnt_update total_update)
next
  case (thread_receive j)
  then show ?thesis using inv by (auto simp: thread_inv_def thread_left_def nq_take_def mset_take neq_Nil_conv)
next
  case (thread_again j)
  have "1 \<le> total_of thread_rank (nq_threads s)"
    using total_nth [of thread_rank j "nq_threads s"] thread_rank_range(1) thread_again by fastforce
  then show ?thesis using inv thread_again set_update_subset_insert [of "nq_threads s" j N_unblock]
    by (auto simp: thread_inv_def thread_left_def cnt_update total_update)
qed

interpretation thread1: draining "nq_start N_suspend" "thread_step maxmsg" thread_read thread_inv thread_left for maxmsg
proof (unfold_locales, goal_cases)
  case (2 s t)
  from 2(2) show ?case
  proof cases
    case (thread_send prio data)
    then show ?thesis using 2(1) by (auto simp: thread_inv_def nq_defs cnt_def split: if_splits)
  qed (use 2(1) thread_read_keeps in blast)
next
  case (4 s t)
  then show ?case by (elim thread_read.cases) (auto simp: nq_defs)
next
  case (7 s)
  show ?case
  proof (rule ccontr)
    assume q: "nq_queue s \<noteq> []"
    then obtain j where "j < length (nq_threads s)" "nq_threads s ! j = N_notify \<or> nq_threads s ! j = N_recv"
      using 7(1) by (auto simp: thread_inv_def in_set_conv_nth)
    then show False using q 7(2) thread_read.intros by blast
  qed
qed (auto simp: thread_inv_def nq_start_def thread_reader thread_read_keeps cnt_def)

section \<open>Stranded messages\<close>

text \<open>A reader that waits while the queue is not empty is never told again, whatever arrives.\<close>

definition stranded :: "nq \<Rightarrow> bool" where
  "stranded s \<longleftrightarrow> nq_queue s \<noteq> [] \<and> \<not> nq_pending s \<and> \<not> nq_flag s \<and> (nq_pc s = N_block \<or> nq_pc s = N_test \<or> nq_pc s = N_suspend)"

lemma stranded_sig1: "stranded s \<Longrightarrow> nq_pc s = N_suspend \<Longrightarrow> sig1_step maxmsg s t \<Longrightarrow> stranded t \<and> nq_pc t = N_suspend \<and> nq_read t = nq_read s"
  by (elim sig1_step.cases) (auto simp: stranded_def nq_defs)

lemma stranded_sig2: "stranded s \<Longrightarrow> sig2_step maxmsg s t \<Longrightarrow> stranded t \<and> nq_read t = nq_read s"
  by (elim sig2_step.cases flag_step.cases) (auto simp: stranded_def nq_defs)

lemma stranded_sig3: "stranded s \<Longrightarrow> sig3_step maxmsg s t \<Longrightarrow> stranded t \<and> nq_read t = nq_read s"
  by (elim sig3_step.cases sig3_read.cases flag_step.cases) (auto simp: stranded_def nq_defs)

lemma stays:
  assumes "\<And>s t. P s \<Longrightarrow> step s t \<Longrightarrow> P t \<and> nq_read t = nq_read s" and "P s" and "path_steps step s ts"
  shows "P (last (s # ts)) \<and> nq_read (last (s # ts)) = nq_read s"
  using assms(2,3)
proof (induction ts arbitrary: s)
  case (Cons t ts)
  then have "P t" "nq_read t = nq_read s" "path_steps step t ts" using assms(1) by auto
  then show ?case using Cons.IH [of t] by simp
qed simp

text \<open>Two messages arrive before the signal is handled; the reader takes one and waits again.\<close>

lemma sig1_strands:
  assumes "2 \<le> maxmsg"
  shows "\<exists>ts. path_steps (sig1_step maxmsg) (nq_start N_suspend) ts \<and>
    stranded (last (nq_start N_suspend # ts)) \<and> nq_pc (last (nq_start N_suspend # ts)) = N_suspend"
proof -
  let ?s1 = "nq_signal False 0 [] (nq_start N_suspend)"
  let ?s2 = "nq_signal False 0 [] ?s1"
  let ?s3 = "?s2\<lparr>nq_pending := False, nq_pc := N_notify\<rparr>"
  let ?s4 = "nq_register N_recv ?s3"
  let ?s5 = "(nq_take ?s4)\<lparr>nq_pc := N_suspend\<rparr>"
  note vals = nq_defs nq_start_def mq_insert_def
  have "sig1_step maxmsg (nq_start N_suspend) ?s1" "sig1_step maxmsg ?s1 ?s2"
    using sig1_send [of "nq_start N_suspend" maxmsg 0 "[]"] sig1_send [of ?s1 maxmsg 0 "[]"] assms by (simp_all add: vals)
  moreover have "sig1_step maxmsg ?s2 ?s3" by (rule sig1_deliver) (simp_all add: vals)
  moreover have "sig1_step maxmsg ?s3 ?s4" by (rule sig1_notify) (simp add: vals)
  moreover have "sig1_step maxmsg ?s4 ?s5" by (rule sig1_receive) (simp_all add: vals)
  moreover have "stranded ?s5" by (simp add: stranded_def vals)
  ultimately show ?thesis by (intro exI [of _ "[?s1, ?s2, ?s3, ?s4, ?s5]"]) simp
qed

lemma sig2_strands:
  assumes "2 \<le> maxmsg"
  shows "\<exists>ts. path_steps (sig2_step maxmsg) (nq_start N_block) ts \<and> stranded (last (nq_start N_block # ts))"
proof -
  let ?s1 = "nq_signal False 0 [] (nq_start N_block)"
  let ?s2 = "nq_signal False 0 [] ?s1"
  let ?s3 = "?s2\<lparr>nq_pending := False, nq_flag := True\<rparr>"
  let ?s4 = "?s3\<lparr>nq_pc := N_test\<rparr>"
  let ?s5 = "?s4\<lparr>nq_pc := (if nq_flag ?s4 then N_reset else N_suspend)\<rparr>"
  let ?s6 = "?s5\<lparr>nq_flag := False, nq_pc := N_notify\<rparr>"
  let ?s7 = "nq_register N_recv ?s6"
  let ?s8 = "(nq_take ?s7)\<lparr>nq_pc := N_unblock\<rparr>"
  let ?s9 = "?s8\<lparr>nq_pc := N_block\<rparr>"
  note vals = nq_defs nq_start_def mq_insert_def
  have "sig2_step maxmsg (nq_start N_block) ?s1" "sig2_step maxmsg ?s1 ?s2"
    using sig2_send [of "nq_start N_block" maxmsg 0 "[]"] sig2_send [of ?s1 maxmsg 0 "[]"] assms by (simp_all add: vals)
  moreover have "sig2_step maxmsg ?s2 ?s3" by (rule sig2_flag, rule flag_deliver) (simp_all add: vals)
  moreover have "sig2_step maxmsg ?s3 ?s4" by (rule sig2_flag, rule flag_block) (simp add: vals)
  moreover have "sig2_step maxmsg ?s4 ?s5" by (rule sig2_flag, rule flag_test) (simp add: vals)
  moreover have "sig2_step maxmsg ?s5 ?s6" by (rule sig2_flag, rule flag_reset) (simp add: vals)
  moreover have "sig2_step maxmsg ?s6 ?s7" by (rule sig2_flag, rule flag_notify) (simp add: vals)
  moreover have "sig2_step maxmsg ?s7 ?s8" by (rule sig2_receive) (simp_all add: vals)
  moreover have "sig2_step maxmsg ?s8 ?s9" by (rule sig2_flag, rule flag_unblock) (simp add: vals)
  moreover have "stranded ?s9" by (simp add: stranded_def vals)
  ultimately show ?thesis by (intro exI [of _ "[?s1, ?s2, ?s3, ?s4, ?s5, ?s6, ?s7, ?s8, ?s9]"]) simp
qed

lemma strandedD: "stranded s \<Longrightarrow> nq_queue s \<noteq> []"
  by (simp add: stranded_def)

section \<open>Properties\<close>

text \<open>
  C36. The readers that read until the queue is empty (\<open>mqnotifysig3\<close>, \<open>mqnotifysig4\<close>, \<open>mqnotifysig5\<close>,
  \<open>mqnotifythread1\<close>), started on an empty queue: after any run of senders and reader, the reader on its own stops after a
  bounded number of steps, and then the queue is empty and all messages ever sent have been read,
  each once.
\<close>

theorem notify_drains:
  "reads_all (nq_start N_block) (sig3_step maxmsg) sig3_read (\<lambda>s. length (nq_queue s) + 16) \<and>
   reads_all (nq_start N_suspend) (sig4_step maxmsg) sig4_read (\<lambda>s. length (nq_queue s) + 5) \<and>
   reads_all (nq_start N_suspend) (sig5_step maxmsg) sig5_read (\<lambda>s. length (nq_queue s) + 5) \<and>
   reads_all (nq_start N_suspend) (thread_step maxmsg) thread_read (\<lambda>s. length (nq_queue s) + 2 * length (nq_threads s))"
proof -
  have b3: "sig3_left s \<le> length (nq_queue s) + 16" if "sig3_inv s" for s
    using that by (cases "nq_pc s") (auto simp: sig3_left_def sig3_inv_def)
  have b4: "sig4_left s \<le> length (nq_queue s) + 5" for s by (simp add: sig4_left_def)
  have b5: "sig5_left s \<le> length (nq_queue s) + 5" if "sig5_inv s" for s
    using that by (auto simp: sig5_left_def sig5_inv_def of_bool_def split: if_splits)
  have bt: "thread_left s \<le> length (nq_queue s) + 2 * length (nq_threads s)" for s
    using thread_rank_total [of "nq_threads s"] by (simp add: thread_left_def nat_le_iff)
  show ?thesis
    using sig3.drains_all [OF b3] sig4.drains_all [OF b4] sig5.drains_all [OF b5] thread1.drains_all [OF bt] by blast
qed

text \<open>
  The readers that read one message for each signal (\<open>mqnotifysig1\<close>, \<open>mqnotifysig2\<close>) strand messages:
  when two messages arrive before the reader runs, it reads one and waits, and then no later run reads
  another, whatever is sent. So does \<open>mqnotifysig3\<close> when it is started on a queue that is not empty.
\<close>

lemma notify_strands:
  assumes "2 \<le> maxmsg"
  shows "(\<exists>ts s. path_steps (sig1_step maxmsg) (nq_start N_suspend) ts \<and> s = last (nq_start N_suspend # ts) \<and>
      (\<forall>us. path_steps (sig1_step maxmsg) s us \<longrightarrow> nq_queue (last (s # us)) \<noteq> [] \<and> nq_read (last (s # us)) = nq_read s)) \<and>
    (\<exists>ts s. path_steps (sig2_step maxmsg) (nq_start N_block) ts \<and> s = last (nq_start N_block # ts) \<and>
      (\<forall>us. path_steps (sig2_step maxmsg) s us \<longrightarrow> nq_queue (last (s # us)) \<noteq> [] \<and> nq_read (last (s # us)) = nq_read s)) \<and>
    (\<forall>q us. q \<noteq> [] \<longrightarrow> path_steps (sig3_step maxmsg) ((nq_start N_block)\<lparr>nq_queue := q\<rparr>) us \<longrightarrow>
      nq_read (last ((nq_start N_block)\<lparr>nq_queue := q\<rparr> # us)) = [])"
proof (intro conjI)
  have one: "stranded (last (s # us)) \<and> nq_read (last (s # us)) = nq_read s"
    if "stranded s" "nq_pc s = N_suspend" "path_steps (sig1_step maxmsg) s us" for s us
    using stays [of "\<lambda>s. stranded s \<and> nq_pc s = N_suspend" "sig1_step maxmsg" s us] stranded_sig1 that by blast
  show "\<exists>ts s. path_steps (sig1_step maxmsg) (nq_start N_suspend) ts \<and> s = last (nq_start N_suspend # ts) \<and>
      (\<forall>us. path_steps (sig1_step maxmsg) s us \<longrightarrow> nq_queue (last (s # us)) \<noteq> [] \<and> nq_read (last (s # us)) = nq_read s)"
    using sig1_strands [OF assms] one strandedD by metis
  show "\<exists>ts s. path_steps (sig2_step maxmsg) (nq_start N_block) ts \<and> s = last (nq_start N_block # ts) \<and>
      (\<forall>us. path_steps (sig2_step maxmsg) s us \<longrightarrow> nq_queue (last (s # us)) \<noteq> [] \<and> nq_read (last (s # us)) = nq_read s)"
    using sig2_strands [OF assms] stays [of stranded "sig2_step maxmsg"] stranded_sig2 strandedD by metis
  show "\<forall>q us. q \<noteq> [] \<longrightarrow> path_steps (sig3_step maxmsg) ((nq_start N_block)\<lparr>nq_queue := q\<rparr>) us \<longrightarrow>
      nq_read (last ((nq_start N_block)\<lparr>nq_queue := q\<rparr> # us)) = []"
  proof (intro allI impI)
    fix q :: "(uint \<times> byte list) list" and us
    assume "q \<noteq> []" and path: "path_steps (sig3_step maxmsg) ((nq_start N_block)\<lparr>nq_queue := q\<rparr>) us"
    then have "stranded ((nq_start N_block)\<lparr>nq_queue := q\<rparr>)" by (simp add: stranded_def nq_start_def)
    from stays [of stranded "sig3_step maxmsg", OF stranded_sig3 this path] show
      "nq_read (last ((nq_start N_block)\<lparr>nq_queue := q\<rparr> # us)) = []" by (simp add: nq_start_def)
  qed
qed

end
