(* ===== verification/Fifo_Serv.thy ===== *)
theory Fifo_Serv
  imports Svmsg_Serv
begin

text \<open>
  The file server of \<open>src/fifocliserv\<close>: the clients write their requests, one line each, to one FIFO, and
  the server reads them with the library's \<open>Readline\<close>, whose buffer keeps what the next clients wrote
  already, and answers on a FIFO of each client. A write outside \<open>buff\<close> is the result \<open>None\<close>.
\<close>

section \<open>The client\<close>

text \<open>The request with its newline, when the line that was read has one.\<close>

definition fifo_client_request :: "nat \<Rightarrow> byte list \<Rightarrow> byte list" where
  "fifo_client_request pid stdin =
    (let pre = dec pid @ [blank] in pre @ cstr (line_of (MAXLINE - length pre - 1) stdin))"

section \<open>The server\<close>

text \<open>
  What the server makes of the bytes and the number that \<open>Readline\<close> gave: the number without the newline
  and the bytes before the null byte it stores. With 0 it reads before \<open>buff\<close>.
\<close>

definition fifo_request :: "byte list \<Rightarrow> nat \<Rightarrow> (nat \<times> byte list) option" where
  "fifo_request bs r =
    (if r = 0 then None
     else
       let n = (if (bs @ [0]) ! (r - 1) = newline then r - 1 else r) in
       if MAXLINE \<le> n then None else Some (n, take n bs))"

text \<open>The error text goes behind the request, unless a null byte comes before it.\<close>

definition fifo_error_line :: "nat \<Rightarrow> byte list \<Rightarrow> byte list \<Rightarrow> byte list \<Rightarrow> byte list" where
  "fifo_error_line n data path errtext =
    (if length data < n \<or> 0 \<in> set data then path
     else path @ cstr (take (MAXLINE - n - 1) (cant_open @ errtext @ [newline])))"

text \<open>The file is copied in blocks of \<open>MAXLINE\<close> bytes.\<close>

function file_blocks :: "byte list \<Rightarrow> byte list list" where
  "file_blocks content = (if content = [] then [] else take MAXLINE content # file_blocks (drop MAXLINE content))"
  by pat_completeness auto

termination file_blocks
  by (relation "measure length") auto

declare file_blocks.simps [simp del]

datatype fifo_answer = Bogus "byte list" | Cannot_open int | Answer int "byte list list"

text \<open>\<open>has_fifo\<close> says whether the client's FIFO can be opened.\<close>

definition fifo_serve ::
  "(byte list \<Rightarrow> byte list + byte list) \<Rightarrow> (int \<Rightarrow> bool) \<Rightarrow> nat \<Rightarrow> byte list \<Rightarrow> fifo_answer" where
  "fifo_serve opened has_fifo n data =
    (case server_parse data of
      None \<Rightarrow> Bogus (cstr data)
    | Some (pid, path) \<Rightarrow>
        if \<not> has_fifo pid then Cannot_open pid
        else Answer pid
          (case opened path of
            Inl errtext \<Rightarrow> [fifo_error_line n data path errtext]
          | Inr content \<Rightarrow> file_blocks content))"

text \<open>A number of rounds of the loop.\<close>

fun fifo_server ::
  "(byte list \<Rightarrow> byte list + byte list) \<Rightarrow> (int \<Rightarrow> bool) \<Rightarrow> nat \<Rightarrow> rl_state \<Rightarrow> (fifo_answer list \<times> rl_state) option" where
  "fifo_server opened has_fifo 0 st = Some ([], st)"
| "fifo_server opened has_fifo (Suc k) st =
    (case Readline MAXLINE st of
      Some (Done (bs, r), st') \<Rightarrow>
        (case fifo_request bs r of
          None \<Rightarrow> None
        | Some (n, data) \<Rightarrow> map_option (map_prod (Cons (fifo_serve opened has_fifo n data)) id) (fifo_server opened has_fifo k st'))
    | _ \<Rightarrow> None)"

section \<open>Lemmas\<close>

lemma file_blocks_concat: "concat (file_blocks content) = content"
proof (induction content rule: file_blocks.induct)
  case (1 content)
  then show ?case by (cases "content = []") (simp_all add: file_blocks.simps [of content] file_blocks.simps [of "[]"])
qed

lemma line_of_line: "newline \<notin> set xs \<Longrightarrow> length xs < k \<Longrightarrow> line_of k (xs @ newline # rest) = xs @ [newline]"
proof (induction xs arbitrary: k)
  case Nil
  then show ?case by (cases k) auto
next
  case (Cons x xs)
  then show ?case by (cases k) auto
qed

text \<open>A call of \<open>readline\<close> uses at most as many reads as it can store bytes.\<close>

lemma readline_loop_uses:
  "fault_free (rl_sched s) \<Longrightarrow> k \<le> calls_in (rl_sched s) \<Longrightarrow>
    \<exists>bs r s'. readline_loop k n got s = Some (Inr (bs, r), s') \<and> fault_free (rl_sched s') \<and>
      calls_in (rl_sched s) \<le> k + calls_in (rl_sched s')"
proof (induction k arbitrary: n got s)
  case (Suc k)
  from my_read_ends [of s] Suc.prems obtain x s1 where read: "my_read s = Some (Inr x, s1)" "fault_free (rl_sched s1)"
    "calls_in (rl_sched s) \<le> Suc (calls_in (rl_sched s1))" by auto
  show ?case
  proof (cases x)
    case (Some c)
    have "k \<le> calls_in (rl_sched s1)" using Suc.prems(2) read(3) by linarith
    from Suc.IH [OF read(2) this, of "n + 1" "got @ [c]"] Some read show ?thesis by (cases "c = newline") auto
  qed (use read Suc.prems in auto)
qed auto

lemma readline_uses:
  assumes "fault_free (rl_sched s)" and "MAXLINE \<le> calls_in (rl_sched s)"
  obtains bs r s' where "Readline MAXLINE s = Some (Done (bs, r), s')" "readline MAXLINE s = Some (Inr (bs, r), s')"
    "fault_free (rl_sched s')" "calls_in (rl_sched s) \<le> MAXLINE + calls_in (rl_sched s')"
  using readline_loop_uses [of s "MAXLINE - 1" 1 "[]"] assms
  by (auto simp: Readline_def readline_def wrap1_def)

text \<open>A request as a client writes it, and what the server does with it.\<close>

definition fifo_ok :: "nat \<times> byte list \<Rightarrow> bool" where
  "fifo_ok rq \<longleftrightarrow> 0 \<notin> set (snd rq) \<and> newline \<notin> set (snd rq) \<and> length (dec (fst rq)) + length (snd rq) + 2 < MAXLINE"

definition fifo_line :: "nat \<times> byte list \<Rightarrow> byte list" where
  "fifo_line rq = dec (fst rq) @ [blank] @ snd rq"

definition fifo_expected :: "(byte list \<Rightarrow> byte list + byte list) \<Rightarrow> (int \<Rightarrow> bool) \<Rightarrow> nat \<times> byte list \<Rightarrow> fifo_answer" where
  "fifo_expected opened has_fifo rq =
    (if has_fifo (int (fst rq)) then Answer (int (fst rq))
      (case opened (snd rq) of
        Inl errtext \<Rightarrow> [snd rq @ cstr (take (MAXLINE - length (fifo_line rq) - 1) (cant_open @ errtext @ [newline]))]
      | Inr content \<Rightarrow> file_blocks content)
     else Cannot_open (int (fst rq)))"

lemma dec_plain: "c \<in> set (dec n) \<Longrightarrow> c \<noteq> blank \<and> c \<noteq> 0 \<and> c \<noteq> newline"
  using is_digit_unat [OF dec_digits] by fastforce

lemma fifo_client_line:
  assumes "fifo_ok (pid, path)"
  shows "fifo_client_request pid (path @ newline # rest) = fifo_line (pid, path) @ [newline]"
proof -
  have "line_of (MAXLINE - length (dec pid @ [blank]) - 1) (path @ newline # rest) = path @ [newline]"
    using assms by (intro line_of_line) (auto simp: fifo_ok_def)
  moreover have "cstr (path @ [newline]) = path @ [newline]" using assms by (intro cstr_id) (auto simp: fifo_ok_def)
  ultimately show ?thesis by (simp add: fifo_client_request_def fifo_line_def Let_def)
qed

lemma server_parse_line:
  assumes "fifo_ok rq"
  shows "server_parse (fifo_line rq) = Some (int (fst rq), snd rq)"
proof -
  have "cstr (fifo_line rq) = fifo_line rq" using assms dec_plain by (intro cstr_id) (auto simp: fifo_line_def fifo_ok_def)
  moreover have "takeWhile (\<lambda>c. c \<noteq> blank) (fifo_line rq) = dec (fst rq)"
    "dropWhile (\<lambda>c. c \<noteq> blank) (fifo_line rq) = blank # snd rq"
    using dec_plain by (simp_all add: fifo_line_def takeWhile_append2 dropWhile_append2)
  ultimately show ?thesis by (simp add: server_parse_def Let_def atol_dec) (simp add: fifo_line_def)
qed

lemma fifo_serve_line:
  assumes "fifo_ok rq"
  shows "fifo_serve opened has_fifo (length (fifo_line rq)) (fifo_line rq) = fifo_expected opened has_fifo rq"
proof -
  have "0 \<notin> set (fifo_line rq)" using assms dec_plain by (auto simp: fifo_line_def fifo_ok_def)
  then show ?thesis
    by (simp add: fifo_serve_def server_parse_line [OF assms] fifo_expected_def fifo_error_line_def split: sum.splits)
qed

lemma fifo_round:
  assumes ok: "fifo_ok rq" and pend: "rl_pending st = fifo_line rq @ newline # unread"
    and sched: "fault_free (rl_sched st)" "MAXLINE \<le> calls_in (rl_sched st)"
  obtains st' bs r where "Readline MAXLINE st = Some (Done (bs, r), st')"
    "fifo_request bs r = Some (length (fifo_line rq), fifo_line rq)" "rl_pending st' = unread"
    "fault_free (rl_sched st')" "calls_in (rl_sched st) \<le> MAXLINE + calls_in (rl_sched st')"
proof -
  obtain bs r st' where run: "Readline MAXLINE st = Some (Done (bs, r), st')" "readline MAXLINE st = Some (Inr (bs, r), st')"
    "fault_free (rl_sched st')" "calls_in (rl_sched st) \<le> MAXLINE + calls_in (rl_sched st')"
    by (rule readline_uses [OF sched])
  have "newline \<notin> set (fifo_line rq)" "length (fifo_line rq) < MAXLINE - 1"
    using ok dec_plain by (auto simp: fifo_line_def fifo_ok_def)
  then have line: "line_of (MAXLINE - 1) (rl_pending st) = fifo_line rq @ [newline]"
    unfolding pend by (rule line_of_line)
  have bs: "bs = fifo_line rq @ [newline]" "rl_pending st' = drop (length bs) (rl_pending st)" "r = length bs"
    using readline_correct [OF run(2)] line by (auto simp: pend ends_line_def split: if_splits)
  have "fifo_request bs r = Some (length (fifo_line rq), fifo_line rq)"
    using bs \<open>length (fifo_line rq) < MAXLINE - 1\<close> by (simp add: fifo_request_def nth_append)
  with run bs pend that show thesis by auto
qed

text \<open>The line that was read, by whether a newline is among the bytes that fit.\<close>

lemma line_of_ends: "ends_line (line_of k bs) \<longleftrightarrow> newline \<in> set (take k bs)"
proof (induction k bs rule: line_of.induct)
  case (3 k c cs)
  then show ?case by (auto simp: ends_line_def)
qed (auto simp: ends_line_def)

lemma line_of_no_newline: "newline \<notin> set (take k bs) \<Longrightarrow> line_of k bs = take k bs"
  by (induction k bs rule: line_of.induct) auto

section \<open>Properties\<close>

text \<open>
  C38. The server of \<open>fifocliserv\<close> answers a sequence of clients: when each client writes its process id and
  a path of one line that fits, then however the requests are cut into reads, and whatever
  interruptions come between, the server answers each client with its file or the error line, in
  order, and leaves the rest of the FIFO unread.
\<close>

theorem fifo_server_answers:
  assumes "list_all fifo_ok rqs"
    and "rl_pending st = concat (map (\<lambda>(pid, path). fifo_client_request pid (path @ [newline])) rqs) @ unread"
    and "fault_free (rl_sched st)" and "length rqs * MAXLINE \<le> calls_in (rl_sched st)"
  shows "\<exists>st'. fifo_server opened has_fifo (length rqs) st = Some (map (fifo_expected opened has_fifo) rqs, st') \<and>
    rl_pending st' = unread"
  using assms
proof (induction rqs arbitrary: st)
  case (Cons rq rqs)
  let ?later = "concat (map (\<lambda>(pid, path). fifo_client_request pid (path @ [newline])) rqs) @ unread"
  have ok: "fifo_ok rq" "list_all fifo_ok rqs" using Cons.prems(1) by auto
  have "fifo_client_request (fst rq) (snd rq @ [newline]) = fifo_line rq @ [newline]"
    using fifo_client_line [of "fst rq" "snd rq" "[]"] ok(1) by simp
  then have pend: "rl_pending st = fifo_line rq @ newline # ?later" using Cons.prems(2) by (cases rq) simp
  have "MAXLINE \<le> calls_in (rl_sched st)" using Cons.prems(4) by simp
  from fifo_round [OF ok(1) pend Cons.prems(3) this] obtain st' bs r where round:
    "Readline MAXLINE st = Some (Done (bs, r), st')"
    "fifo_request bs r = Some (length (fifo_line rq), fifo_line rq)" "rl_pending st' = ?later"
    "fault_free (rl_sched st')" "calls_in (rl_sched st) \<le> MAXLINE + calls_in (rl_sched st')" .
  have "length rqs * MAXLINE \<le> calls_in (rl_sched st')" using Cons.prems(4) round(5) by simp
  from Cons.IH [OF ok(2) round(3,4) this] round(1,2) fifo_serve_line [OF ok(1)] show ?case by auto
qed simp

theorem fifo_server_answers_witness:
  "\<exists>st'. fifo_server (\<lambda>path. Inr [104, 105]) (\<lambda>pid. True) 1
    \<lparr>rl_buf = [], rl_src = [55, 32, 97, 10], rl_sched = replicate 4096 (Moves 1)\<rparr> =
    Some ([Answer 7 [[104, 105]]], st')"
proof -
  let ?st = "\<lparr>rl_buf = [], rl_src = [55, 32, 97, 10], rl_sched = replicate 4096 (Moves 1)\<rparr> :: rl_state"
  have ok: "fifo_ok (7, [97])" by (simp add: fifo_ok_def dec.simps [of 7])
  have line: "fifo_client_request 7 ([97] @ [newline]) = [55, 32, 97, 10]"
    using fifo_client_line [OF ok, of "[]"] by (simp add: fifo_line_def dec.simps [of 7])
  have "fault_free (rl_sched ?st)" "calls_in (rl_sched ?st) = 4096" by (auto simp: fault_free_def calls_in_def)
  with fifo_server_answers [of "[(7, [97])]" ?st "[]" "\<lambda>path. Inr [104, 105]" "\<lambda>pid. True"] ok line
  have "\<exists>st'. fifo_server (\<lambda>path. Inr [104, 105]) (\<lambda>pid. True) 1 ?st =
      Some ([fifo_expected (\<lambda>path. Inr [104, 105]) (\<lambda>pid. True) (7, [97])], st')"
    by (auto simp: rl_pending_def)
  then show ?thesis
    by (simp add: fifo_expected_def file_blocks.simps [of "[104, 105]"] file_blocks.simps [of "[]"])
qed

text \<open>
  A round of the server stays inside its buffer exactly when there is a byte to read and a newline
  among the first \<open>MAXLINE - 1\<close> bytes, or the FIFO ends before that many bytes: a longer request without
  a newline makes \<open>Readline\<close> return \<open>MAXLINE\<close>, and the server then stores a null byte behind \<open>buff\<close>.
\<close>

lemma fifo_request_bounds:
  assumes "readline MAXLINE st = Some (Inr (bs, r), st')"
  shows "fifo_request bs r = None \<longleftrightarrow>
    rl_pending st = [] \<or> MAXLINE - 1 \<le> length (rl_pending st) \<and> newline \<notin> set (take (MAXLINE - 1) (rl_pending st))"
proof -
  note line = readline_correct [OF assms, simplified]
  have bs: "bs = line_of (MAXLINE - 1) (rl_pending st)" using line by simp
  have len: "length bs \<le> MAXLINE - 1" using line_of_take [of "MAXLINE - 1" "rl_pending st"] bs by auto
  consider (eof) "rl_pending st = []" | (line) "rl_pending st \<noteq> []" "newline \<in> set (take (MAXLINE - 1) (rl_pending st))"
    | (cut) "rl_pending st \<noteq> []" "newline \<notin> set (take (MAXLINE - 1) (rl_pending st))" by blast
  then show ?thesis
  proof cases
    case eof
    then show ?thesis using line by (simp add: fifo_request_def)
  next
    case line
    then have "ends_line bs" using line_of_ends bs by simp
    moreover from this have "r = length bs" using readline_correct [OF assms] line(1) by simp
    ultimately have "(bs @ [0]) ! (r - 1) = newline" "r \<noteq> 0" by (auto simp: ends_line_def nth_append last_conv_nth)
    then show ?thesis using line len \<open>r = length bs\<close> by (auto simp: fifo_request_def Let_def)
  next
    case cut
    from cut(2) have nl: "\<not> ends_line bs" unfolding bs line_of_ends .
    from cut(2) have b: "bs = take (MAXLINE - 1) (rl_pending st)" unfolding bs by (rule line_of_no_newline)
    have r: "r = length bs + 1" using readline_correct [OF assms] cut(1) nl by simp
    then have "(bs @ [0]) ! (r - 1) \<noteq> newline" by (simp add: nth_append)
    then have "fifo_request bs r = None \<longleftrightarrow> MAXLINE \<le> length bs + 1" using r by (simp add: fifo_request_def)
    also have "\<dots> \<longleftrightarrow> MAXLINE - 1 \<le> length (rl_pending st)" using b by auto
    finally show ?thesis using cut by simp
  qed
qed

end
