(* ===== verification/Pipe_Serv.thy ===== *)
theory Pipe_Serv
  imports Fifo_Serv "HOL-Library.Sublist"
begin

text \<open>
  A client and a server with one request: \<open>client.c\<close> and \<open>server.c\<close> of \<open>src/pipe\<close> over two pipes
  (\<open>mainpipe.c\<close>), and those of \<open>src/svmsgcliserv\<close> over two System V message queues. The client sends a
  pathname and prints what the server sends back.
\<close>

datatype cl_pc = K_write | K_read | K_done | K_removed
datatype sv_pc = Q_read | Q_write | Q_exit | Q_quit

section \<open>Pipes\<close>

text \<open>
  The request is the line without its newline. For a line that starts with a null byte the client looks
  at the byte before its buffer: that is the result \<open>None\<close>.
\<close>

definition pipe_request :: "byte list \<Rightarrow> byte list option" where
  "pipe_request stdin =
    (let str = cstr (line_of (MAXLINE - 1) stdin) in
     if str = [] then None else Some (if last str = newline then butlast str else str))"

text \<open>The error text goes behind the request, unless a null byte comes before it.\<close>

definition pipe_error_line :: "byte list \<Rightarrow> byte list \<Rightarrow> byte list" where
  "pipe_error_line data errtext =
    (if 0 \<in> set data then cstr data else data @ cstr (take (MAXLINE - length data) (cant_open @ errtext @ [newline])))"

definition pipe_answer :: "(byte list \<Rightarrow> byte list + byte list) \<Rightarrow> byte list \<Rightarrow> byte list list" where
  "pipe_answer opened data =
    (case opened (cstr data) of Inl errtext \<Rightarrow> [pipe_error_line data errtext] | Inr content \<Rightarrow> file_blocks content)"

text \<open>The pipes with what was written and not read; what the server has still to write; the output.\<close>

record pserv =
  pv_client :: cl_pc
  pv_out :: "byte list"
  pv_pipe1 :: "byte list"
  pv_pipe2 :: "byte list"
  pv_server :: sv_pc
  pv_todo :: "byte list list"

text \<open>
  A pipe has room for \<open>cap\<close> bytes. The request is written at once; a read takes \<open>k\<close> of the bytes that are
  there, at most \<open>MAXLINE\<close>, and gives an end of file when the writer has closed the pipe; a long write puts
  \<open>k\<close> bytes at a time, as room permits.
\<close>

definition pipe_client :: "nat \<Rightarrow> byte list \<Rightarrow> nat \<Rightarrow> pserv \<Rightarrow> pserv option" where
  "pipe_client cap req k s =
    (case pv_client s of
      K_write \<Rightarrow>
        if length (pv_pipe1 s) + length req \<le> cap then Some (s\<lparr>pv_pipe1 := pv_pipe1 s @ req, pv_client := K_read\<rparr>) else None
    | K_read \<Rightarrow>
        if pv_pipe2 s = [] then (if pv_server s = Q_exit \<or> pv_server s = Q_quit then Some (s\<lparr>pv_client := K_done\<rparr>) else None)
        else if 0 < k \<and> k \<le> MAXLINE \<and> k \<le> length (pv_pipe2 s)
        then Some (s\<lparr>pv_out := pv_out s @ take k (pv_pipe2 s), pv_pipe2 := drop k (pv_pipe2 s)\<rparr>) else None
    | _ \<Rightarrow> None)"

definition pipe_server :: "nat \<Rightarrow> (byte list \<Rightarrow> byte list + byte list) \<Rightarrow> nat \<Rightarrow> pserv \<Rightarrow> pserv option" where
  "pipe_server cap opened k s =
    (case pv_server s of
      Q_read \<Rightarrow>
        if pv_pipe1 s = [] then (if pv_client s = K_done then Some (s\<lparr>pv_server := Q_quit\<rparr>) else None)
        else Some (s\<lparr>pv_pipe1 := drop MAXLINE (pv_pipe1 s), pv_todo := pipe_answer opened (take MAXLINE (pv_pipe1 s)),
          pv_server := Q_write\<rparr>)
    | Q_write \<Rightarrow>
        (case pv_todo s of
          [] \<Rightarrow> Some (s\<lparr>pv_server := Q_exit\<rparr>)
        | b # bs \<Rightarrow>
            if b = [] then Some (s\<lparr>pv_todo := bs\<rparr>)
            else if 0 < k \<and> k \<le> length b \<and> length (pv_pipe2 s) + k \<le> cap
            then Some (s\<lparr>pv_pipe2 := pv_pipe2 s @ take k b, pv_todo := drop k b # bs\<rparr>) else None)
    | _ \<Rightarrow> None)"

definition pipe_step :: "nat \<Rightarrow> (byte list \<Rightarrow> byte list + byte list) \<Rightarrow> byte list \<Rightarrow> pserv \<Rightarrow> pserv \<Rightarrow> bool" where
  "pipe_step cap opened req s t \<longleftrightarrow> (\<exists>k. pipe_client cap req k s = Some t \<or> pipe_server cap opened k s = Some t)"

definition pipe_start :: pserv where
  "pipe_start = \<lparr>pv_client = K_write, pv_out = [], pv_pipe1 = [], pv_pipe2 = [], pv_server = Q_read, pv_todo = []\<rparr>"

section \<open>Message queues\<close>

definition q_request :: "byte list \<Rightarrow> byte list option" where
  "q_request stdin =
    (let str = cstr (line_of (MAXMESGDATA - 1) stdin) in
     if str = [] then None else Some (if last str = newline then butlast str else str))"

record qserv =
  qv_client :: cl_pc
  qv_out :: "byte list"
  qv_queue1 :: "svmsg list"
  qv_queue2 :: "svmsg list"
  qv_server :: sv_pc
  qv_todo :: "byte list list"

text \<open>The client removes the queues when it has read the empty message (\<open>client_main.c\<close>).\<close>

definition q_client :: "nat \<Rightarrow> byte list \<Rightarrow> qserv \<Rightarrow> qserv option" where
  "q_client qbytes req s =
    (case qv_client s of
      K_write \<Rightarrow> map_option (\<lambda>q. s\<lparr>qv_queue1 := q, qv_client := K_read\<rparr>) (msgsnd qbytes 1 req (qv_queue1 s))
    | K_read \<Rightarrow>
        map_option (\<lambda>(d, q). if d = [] then s\<lparr>qv_queue2 := q, qv_client := K_done\<rparr> else s\<lparr>qv_queue2 := q, qv_out := qv_out s @ d\<rparr>)
          (msgrcv 1 (qv_queue2 s))
    | K_done \<Rightarrow> Some (s\<lparr>qv_client := K_removed\<rparr>)
    | K_removed \<Rightarrow> None)"

text \<open>A request without a pathname ends the server, as does a queue that was removed.\<close>

definition q_server :: "nat \<Rightarrow> (byte list \<Rightarrow> byte list + byte list) \<Rightarrow> qserv \<Rightarrow> qserv option" where
  "q_server qbytes opened s =
    (case qv_server s of
      Q_read \<Rightarrow>
        if qv_client s = K_removed then Some (s\<lparr>qv_server := Q_quit\<rparr>)
        else map_option (\<lambda>(d, q). if d = [] then s\<lparr>qv_queue1 := q, qv_server := Q_quit\<rparr>
            else s\<lparr>qv_queue1 := q, qv_todo := server_reply opened d (cstr d), qv_server := Q_write\<rparr>)
          (msgrcv 1 (qv_queue1 s))
    | Q_write \<Rightarrow>
        (case qv_todo s of
          [] \<Rightarrow> Some (s\<lparr>qv_server := Q_exit\<rparr>)
        | m # ms \<Rightarrow>
            if qv_client s = K_removed then Some (s\<lparr>qv_server := Q_quit\<rparr>)
            else map_option (\<lambda>q. s\<lparr>qv_queue2 := q, qv_todo := ms\<rparr>) (msgsnd qbytes 1 m (qv_queue2 s)))
    | _ \<Rightarrow> None)"

definition q_step :: "nat \<Rightarrow> (byte list \<Rightarrow> byte list + byte list) \<Rightarrow> byte list \<Rightarrow> qserv \<Rightarrow> qserv \<Rightarrow> bool" where
  "q_step qbytes opened req s t \<longleftrightarrow> q_client qbytes req s = Some t \<or> q_server qbytes opened s = Some t"

definition q_start :: qserv where
  "q_start = \<lparr>qv_client = K_write, qv_out = [], qv_queue1 = [], qv_queue2 = [], qv_server = Q_read, qv_todo = []\<rparr>"

section \<open>Requests\<close>

lemma request_line:
  assumes "newline \<notin> set xs" and "0 \<notin> set xs" and "length xs < MAXMESGDATA - 1"
  shows "pipe_request (xs @ newline # rest) = Some xs" and "q_request (xs @ newline # rest) = Some xs"
proof -
  have "cstr (xs @ [newline]) = xs @ [newline]" using assms(2) by (intro cstr_id) auto
  moreover have "line_of k (xs @ newline # rest) = xs @ [newline]" if "MAXMESGDATA - 1 \<le> k" for k
    using assms that by (intro line_of_line) auto
  ultimately show "pipe_request (xs @ newline # rest) = Some xs" "q_request (xs @ newline # rest) = Some xs"
    by (simp_all add: pipe_request_def q_request_def)
qed

section \<open>Pipes: the invariant\<close>

text \<open>What was printed, what is in the pipe and what the server has still to write is the answer.\<close>

definition pipe_inv :: "(byte list \<Rightarrow> byte list + byte list) \<Rightarrow> byte list \<Rightarrow> pserv \<Rightarrow> bool" where
  "pipe_inv opened req s \<longleftrightarrow>
    (case pv_client s of
      K_write \<Rightarrow> pv_server s = Q_read \<and> pv_pipe1 s = [] \<and> pv_pipe2 s = [] \<and> pv_out s = []
    | K_read \<Rightarrow>
        (case pv_server s of
          Q_read \<Rightarrow> pv_pipe1 s = req \<and> pv_pipe2 s = [] \<and> pv_out s = []
        | Q_write \<Rightarrow> pv_pipe1 s = [] \<and> pv_out s @ pv_pipe2 s @ concat (pv_todo s) = concat (pipe_answer opened req)
        | Q_exit \<Rightarrow> pv_pipe1 s = [] \<and> pv_out s @ pv_pipe2 s = concat (pipe_answer opened req)
        | Q_quit \<Rightarrow> False)
    | K_done \<Rightarrow> pv_server s = Q_exit \<and> pv_pipe2 s = [] \<and> pv_out s = concat (pipe_answer opened req)
    | K_removed \<Rightarrow> False)"

definition blocks_left :: "byte list list \<Rightarrow> nat" where
  "blocks_left bs = 2 * length (concat bs) + length bs"

definition pipe_left :: "(byte list \<Rightarrow> byte list + byte list) \<Rightarrow> byte list \<Rightarrow> pserv \<Rightarrow> int" where
  "pipe_left opened req s =
    (case pv_client s of K_write \<Rightarrow> 2 | K_read \<Rightarrow> 1 | _ \<Rightarrow> 0) +
    (case pv_server s of
      Q_read \<Rightarrow> int (blocks_left (pipe_answer opened req)) + 2
    | Q_write \<Rightarrow> int (blocks_left (pv_todo s)) + 1
    | _ \<Rightarrow> 0) + int (length (pv_pipe2 s))"

lemma take_drop_append [simp]: "take k b @ drop k b @ w = b @ w"
  by (metis append.assoc append_take_drop_id)

lemma pipe_client_step:
  assumes "pipe_inv opened req s" and "pipe_client cap req k s = Some t"
  shows "pipe_inv opened req t \<and> pipe_left opened req t < pipe_left opened req s"
  using assms by (cases "pv_client s"; cases "pv_server s")
    (auto simp: pipe_inv_def pipe_client_def pipe_left_def split: if_splits)

lemma pipe_server_step:
  assumes "pipe_inv opened req s" and "pipe_server cap opened k s = Some t" and "length req \<le> MAXLINE" and "req \<noteq> []"
  shows "pipe_inv opened req t \<and> pipe_left opened req t < pipe_left opened req s"
proof (cases "pv_server s")
  case Q_read
  with assms show ?thesis by (cases "pv_client s") (auto simp: pipe_inv_def pipe_server_def pipe_left_def)
next
  case Q_write
  show ?thesis
  proof (cases "pv_todo s")
    case Nil
    with Q_write assms show ?thesis by (cases "pv_client s") (auto simp: pipe_inv_def pipe_server_def pipe_left_def blocks_left_def)
  next
    case (Cons b bs)
    with Q_write assms show ?thesis
      by (cases "pv_client s") (auto simp: pipe_inv_def pipe_server_def pipe_left_def blocks_left_def split: if_splits)
  qed
qed (use assms in \<open>auto simp: pipe_server_def\<close>)

lemma pipe_enabled:
  assumes "pipe_inv opened req s" and "pv_client s \<noteq> K_done" and "req \<noteq> []" and "length req \<le> cap"
  shows "\<exists>t. pipe_step cap opened req s t"
proof -
  have read: "\<exists>t. pipe_client cap req 1 s = Some t" if "pv_client s = K_read" "pv_pipe2 s \<noteq> []"
    using that by (cases "pv_pipe2 s") (auto simp: pipe_client_def)
  have "\<exists>t. pipe_client cap req 1 s = Some t \<or> pipe_server cap opened 1 s = Some t"
  proof (cases "pv_client s = K_read \<and> pv_pipe2 s \<noteq> []")
    case True
    with read show ?thesis by blast
  next
    case False
    have "0 < cap" using assms(3,4) by (cases req) auto
    with False assms show ?thesis
      by (cases "pv_client s"; cases "pv_server s")
        (auto simp: pipe_inv_def pipe_client_def pipe_server_def Suc_le_eq split: list.splits)
  qed
  then show ?thesis by (auto simp: pipe_step_def)
qed

text \<open>A request that is not empty, and pipes that hold it.\<close>

definition pipe_ok :: "nat \<Rightarrow> byte list \<Rightarrow> bool" where
  "pipe_ok cap req \<longleftrightarrow> req \<noteq> [] \<and> length req \<le> MAXLINE \<and> MAXLINE \<le> cap"

lemma pipe_start_inv: "pipe_inv opened req pipe_start"
  by (simp add: pipe_inv_def pipe_start_def)

interpretation pipe: ending_runs "\<lambda>s. s = pipe_start \<and> pipe_ok cap req" "pipe_step cap opened req"
  "\<lambda>s. pipe_ok cap req \<and> pipe_inv opened req s" "pipe_left opened req" "\<lambda>s. pv_client s = K_done" for cap opened req
proof
  show "\<exists>t. pipe_step cap opened req s t" if "pipe_ok cap req \<and> pipe_inv opened req s" "pv_client s \<noteq> K_done" for s
    using that pipe_enabled [of opened req s cap] by (auto simp: pipe_ok_def)
  show "0 \<le> pipe_left opened req s" for s by (auto simp: pipe_left_def split: cl_pc.splits sv_pc.splits)
qed (auto simp: pipe_step_def pipe_ok_def pipe_start_inv dest: pipe_client_step pipe_server_step)

section \<open>Message queues: the invariant\<close>

text \<open>
  The answer is what was read, what is in the queue and what the server has still to send; what was read
  has no empty message, but for the one that ended the reading.
\<close>

abbreviation (input) q_reply :: "(byte list \<Rightarrow> byte list + byte list) \<Rightarrow> byte list \<Rightarrow> byte list list" where
  "q_reply opened req \<equiv> server_reply opened req (cstr req)"

definition q_rest :: "qserv \<Rightarrow> byte list list" where
  "q_rest s = map snd (qv_queue2 s) @ qv_todo s"

definition q_reading :: "byte list list \<Rightarrow> qserv \<Rightarrow> bool" where
  "q_reading reply s \<longleftrightarrow>
    (\<exists>got. reply = got @ q_rest s \<and> [] \<notin> set got \<and> qv_out s = concat got) \<and> list_all (\<lambda>m. fst m = 1) (qv_queue2 s)"

definition q_inv :: "(byte list \<Rightarrow> byte list + byte list) \<Rightarrow> byte list \<Rightarrow> qserv \<Rightarrow> bool" where
  "q_inv opened req s \<longleftrightarrow>
    (case qv_client s of
      K_write \<Rightarrow> qv_server s = Q_read \<and> qv_queue1 s = [] \<and> qv_queue2 s = [] \<and> qv_out s = [] \<and> qv_todo s = []
    | K_read \<Rightarrow>
        (case qv_server s of
          Q_read \<Rightarrow> qv_queue1 s = [(1, req)] \<and> qv_queue2 s = [] \<and> qv_out s = [] \<and> qv_todo s = []
        | Q_write \<Rightarrow> q_reading (q_reply opened req) s
        | Q_exit \<Rightarrow> qv_todo s = [] \<and> q_reading (q_reply opened req) s
        | Q_quit \<Rightarrow> False)
    | _ \<Rightarrow> qv_server s \<noteq> Q_read \<and> qv_out s = concat (takeWhile (\<lambda>m. m \<noteq> []) (q_reply opened req)))"

definition q_left :: "(byte list \<Rightarrow> byte list + byte list) \<Rightarrow> byte list \<Rightarrow> qserv \<Rightarrow> int" where
  "q_left opened req s =
    (case qv_client s of K_write \<Rightarrow> 3 | K_read \<Rightarrow> 2 | K_done \<Rightarrow> 1 | K_removed \<Rightarrow> 0) +
    (case qv_server s of
      Q_read \<Rightarrow> 2 * int (length (q_reply opened req)) + 2
    | Q_write \<Rightarrow> 2 * int (length (qv_todo s)) + 1
    | _ \<Rightarrow> 0) + int (length (qv_queue2 s))"

definition q_finished :: "qserv \<Rightarrow> bool" where
  "q_finished s \<longleftrightarrow> qv_client s = K_removed \<and> (qv_server s = Q_exit \<or> qv_server s = Q_quit)"

lemma takeWhile_nonempty: "[] \<notin> set got \<Longrightarrow> takeWhile (\<lambda>m. m \<noteq> []) (got @ [] # ms) = got"
  by (induction got) auto

lemma msgrcv_first: "list_all (\<lambda>m. fst m = t) q \<Longrightarrow> msgrcv t q = (case q of [] \<Rightarrow> None | m # ms \<Rightarrow> Some (snd m, ms))"
  by (cases q) auto

lemma q_client_step:
  assumes "q_inv opened req s" and "q_client qbytes req s = Some t"
  shows "q_inv opened req t \<and> q_left opened req t < q_left opened req s"
proof (cases "qv_client s")
  case K_write
  with assms show ?thesis by (auto simp: q_inv_def q_client_def q_left_def msgsnd_def split: if_splits)
next
  case K_read
  then have r: "q_reading (q_reply opened req) s" and sv: "qv_server s = Q_write \<or> qv_server s = Q_exit \<and> qv_todo s = []"
    using assms by (auto simp: q_inv_def q_client_def split: sv_pc.splits)
  then obtain got where got: "q_reply opened req = got @ q_rest s" "[] \<notin> set got" "qv_out s = concat got"
    and one: "list_all (\<lambda>m. fst m = 1) (qv_queue2 s)" by (auto simp: q_reading_def)
  from K_read assms(2) msgrcv_first [OF one] obtain m ms where q: "qv_queue2 s = m # ms"
    and t: "t = (if snd m = [] then s\<lparr>qv_queue2 := ms, qv_client := K_done\<rparr> else s\<lparr>qv_queue2 := ms, qv_out := qv_out s @ snd m\<rparr>)"
    by (auto simp: q_client_def split: list.splits)
  show ?thesis
  proof (cases "snd m = []")
    case True
    then have "takeWhile (\<lambda>m. m \<noteq> []) (q_reply opened req) = got" using got q by (simp add: q_rest_def takeWhile_nonempty)
    with True t sv K_read got q show ?thesis by (auto simp: q_inv_def q_left_def)
  next
    case False
    then have "q_reading (q_reply opened req) t" using got one q t
      by (auto simp: q_reading_def q_rest_def intro!: exI [of _ "got @ [snd m]"])
    with False t sv K_read q show ?thesis by (auto simp: q_inv_def q_left_def)
  qed
next
  case K_done
  with assms show ?thesis by (auto simp: q_inv_def q_client_def q_left_def split: sv_pc.splits)
qed (use assms in \<open>auto simp: q_client_def\<close>)

lemma q_server_step:
  assumes "q_inv opened req s" and "q_server qbytes opened s = Some t" and "req \<noteq> []"
  shows "q_inv opened req t \<and> q_left opened req t < q_left opened req s"
proof (cases "qv_server s")
  case Q_read
  with assms show ?thesis
    by (cases "qv_client s") (auto simp: q_inv_def q_server_def q_left_def q_reading_def q_rest_def)
next
  case Q_write
  with assms show ?thesis
    by (cases "qv_client s")
      (auto simp: q_inv_def q_server_def q_left_def q_reading_def q_rest_def msgsnd_def split: list.splits if_splits)
qed (use assms in \<open>auto simp: q_server_def\<close>)

lemma reply_length: "m \<in> set (q_reply opened req) \<Longrightarrow> length req < MAXMESGDATA \<Longrightarrow> length m \<le> MAXMESGDATA"
proof -
  assume m: "m \<in> set (q_reply opened req)" and req: "length req < MAXMESGDATA"
  have le: "length (cstr bs) \<le> length bs" for bs by (simp add: cstr_def length_takeWhile_le)
  have "length (error_line req (cstr req) e) \<le> MAXMESGDATA" for e
  proof -
    have "length (cstr (take k bs)) \<le> k" for k bs using le [of "take k bs"] by simp
    from this [of "MAXMESGDATA - length req - 1" "cant_open @ e @ [newline]"] le [of req] req show ?thesis
      unfolding error_line_def by (auto simp del: take_append)
  qed
  then show ?thesis using m by (auto simp: server_reply_def file_msgs_length split: sum.splits)
qed

lemma q_reading_more:
  assumes "q_reading (q_reply opened req) s"
  shows "q_rest s \<noteq> []"
proof
  assume "q_rest s = []"
  with assms have "[] \<notin> set (q_reply opened req)" by (auto simp: q_reading_def)
  then show False by (simp add: server_reply_def)
qed

lemma q_enabled:
  assumes "q_inv opened req s" and "\<not> q_finished s" and "length req < MAXMESGDATA" and "MAXMESGDATA \<le> qbytes"
  shows "\<exists>t. q_step qbytes opened req s t"
proof (cases "qv_client s")
  case K_read
  show ?thesis
  proof (cases "qv_queue2 s")
    case Nil
    then have "q_reading (q_reply opened req) s \<Longrightarrow> qv_todo s \<noteq> []" using q_reading_more [of opened req s] by (simp add: q_rest_def)
    with K_read assms(1) have "qv_server s = Q_read \<or> qv_server s = Q_write \<and> qv_todo s \<noteq> [] \<and> q_reading (q_reply opened req) s"
      by (auto simp: q_inv_def split: sv_pc.splits)
    then show ?thesis
    proof
      assume "qv_server s = Q_read"
      with K_read assms(1) show ?thesis by (auto simp: q_inv_def q_step_def q_server_def)
    next
      assume w: "qv_server s = Q_write \<and> qv_todo s \<noteq> [] \<and> q_reading (q_reply opened req) s"
      then obtain m ms where m: "qv_todo s = m # ms" by (cases "qv_todo s") auto
      with w have "m \<in> set (q_reply opened req)" by (auto simp: q_reading_def q_rest_def)
      then have "length m \<le> qbytes" using reply_length [OF _ assms(3)] assms(4) by fastforce
      then show ?thesis using w m K_read Nil assms(4) by (auto simp: q_step_def q_server_def msgsnd_def)
    qed
  next
    case (Cons m ms)
    then have "q_reading (q_reply opened req) s" using K_read assms(1) by (auto simp: q_inv_def split: sv_pc.splits)
    then have "msgrcv 1 (qv_queue2 s) = Some (snd m, ms)" using msgrcv_first [of 1 "qv_queue2 s"] Cons by (simp add: q_reading_def)
    then show ?thesis using K_read by (auto simp: q_step_def q_client_def)
  qed
qed (use assms in \<open>auto simp: q_inv_def q_step_def q_client_def q_server_def q_finished_def msgsnd_def split: sv_pc.splits list.splits\<close>)

definition q_ok :: "nat \<Rightarrow> byte list \<Rightarrow> bool" where
  "q_ok qbytes req \<longleftrightarrow> req \<noteq> [] \<and> length req < MAXMESGDATA \<and> MAXMESGDATA \<le> qbytes"

lemma q_start_inv: "q_inv opened req q_start"
  by (simp add: q_inv_def q_start_def)

interpretation queues: ending_runs "\<lambda>s. s = q_start \<and> q_ok qbytes req" "q_step qbytes opened req"
  "\<lambda>s. q_ok qbytes req \<and> q_inv opened req s" "q_left opened req" q_finished for qbytes opened req
proof
  show "\<exists>t. q_step qbytes opened req s t" if "q_ok qbytes req \<and> q_inv opened req s" "\<not> q_finished s" for s
    using that q_enabled [of opened req s qbytes] by (auto simp: q_ok_def)
  show "0 \<le> q_left opened req s" for s by (auto simp: q_left_def split: cl_pc.splits sv_pc.splits)
qed (auto simp: q_step_def q_ok_def q_start_inv dest: q_client_step q_server_step)

section \<open>Properties\<close>

lemma pipe_request_ok:
  assumes "pipe_request stdin = Some req" and "req \<noteq> []" and "MAXLINE \<le> cap"
  shows "pipe_ok cap req"
proof -
  have "length (line_of (MAXLINE - 1) stdin) \<le> MAXLINE - 1" using line_of_take [of "MAXLINE - 1" stdin] by auto
  then have "length (cstr (line_of (MAXLINE - 1) stdin)) \<le> MAXLINE"
    using length_takeWhile_le [of "\<lambda>c. c \<noteq> 0" "line_of (MAXLINE - 1) stdin"] by (simp add: cstr_def)
  then show ?thesis using assms by (auto simp: pipe_ok_def pipe_request_def Let_def split: if_splits)
qed

lemma pipe_inv_out:
  assumes "pipe_inv opened req s"
  shows "prefix (pv_out s) (concat (pipe_answer opened req))"
    and "pv_client s = K_done \<Longrightarrow> pv_out s = concat (pipe_answer opened req) \<and> pv_server s = Q_exit"
proof -
  show "prefix (pv_out s) (concat (pipe_answer opened req))"
    using assms by (auto simp: pipe_inv_def prefix_def split: cl_pc.splits sv_pc.splits) metis+
qed (use assms in \<open>auto simp: pipe_inv_def\<close>)

text \<open>
  C26. The client and the server of \<open>src/pipe\<close> over two pipes that hold at least \<open>MAXLINE\<close> bytes, for a
  request that is not empty and for reads and writes of any sizes: the client prints a beginning of the
  answer and, when it is done, all of it; one of the two can run until then, and every run is finite.
\<close>

theorem pipe_copies:
  assumes "pipe_request stdin = Some req" and "req \<noteq> []" and "MAXLINE \<le> cap"
    and "path_steps (pipe_step cap opened req) pipe_start ts" and "s = last (pipe_start # ts)"
  shows "prefix (pv_out s) (concat (pipe_answer opened req)) \<and>
    (pv_client s = K_done \<longrightarrow> pv_out s = concat (pipe_answer opened req) \<and> pv_server s = Q_exit) \<and>
    (pv_client s = K_done \<or> (\<exists>t. pipe_step cap opened req s t)) \<and>
    length ts \<le> blocks_left (pipe_answer opened req) + 4"
proof -
  have ok: "pipe_ok cap req" by (rule pipe_request_ok [OF assms(1-3)])
  note run = pipe.ends [OF conjI [OF ok pipe_start_inv] assms(4), folded assms(5)]
  have "pipe_left opened req pipe_start = int (blocks_left (pipe_answer opened req) + 4)"
    by (simp add: pipe_left_def pipe_start_def)
  then have "length ts \<le> blocks_left (pipe_answer opened req) + 4" using run by linarith
  then show ?thesis using run pipe_inv_out by blast
qed

theorem pipe_copies_witness:
  "\<exists>ts. path_steps (pipe_step MAXLINE (\<lambda>_. Inr [5, 6]) [120]) pipe_start ts \<and>
    prefix (pv_out (last (pipe_start # ts))) [5, 6] \<and> length ts \<le> 9"
proof -
  let ?s = "pipe_start\<lparr>pv_pipe1 := [120], pv_client := K_read\<rparr>"
  let ?f = "\<lambda>_ :: byte list. Inr [5, 6] :: byte list + byte list"
  have req: "pipe_request [120, newline] = Some [120]" using request_line(1) [of "[120]" "[]"] by simp
  have "pipe_client MAXLINE [120] 0 pipe_start = Some ?s" by (simp add: pipe_client_def pipe_start_def)
  then have run: "path_steps (pipe_step MAXLINE ?f [120]) pipe_start [?s]" by (auto simp: pipe_step_def)
  have "pipe_answer ?f [120] = [[5, 6]]" by (simp add: pipe_answer_def file_blocks.simps)
  with pipe_copies [OF req _ _ run refl] have "prefix (pv_out (last (pipe_start # [?s]))) [5, 6]" by simp
  with run show ?thesis by (intro exI [of _ "[?s]"]) simp
qed

text \<open>
  The client and the server of \<open>src/svmsgcliserv\<close>: for a request that is not empty every run is finite,
  one of the two can run until both have ended, and the client prints the messages of the answer up to
  the first empty one: all of them for an error line and for a file without null bytes.
\<close>

lemma svmsg_copies:
  assumes "q_request stdin = Some req" and "req \<noteq> []" and "MAXMESGDATA \<le> qbytes"
    and "path_steps (q_step qbytes opened req) q_start ts" and "s = last (q_start # ts)"
  shows "(q_finished s \<longrightarrow> qv_out s = concat (takeWhile (\<lambda>m. m \<noteq> []) (server_reply opened req (cstr req)))) \<and>
    (\<forall>content. opened (cstr req) = Inr content \<longrightarrow> 0 \<notin> set content \<longrightarrow> q_finished s \<longrightarrow> qv_out s = content) \<and>
    (q_finished s \<or> (\<exists>t. q_step qbytes opened req s t)) \<and>
    length ts \<le> 2 * length (server_reply opened req (cstr req)) + 5"
proof -
  have "length (line_of (MAXMESGDATA - 1) stdin) \<le> MAXMESGDATA - 1" using line_of_take [of "MAXMESGDATA - 1" stdin] by auto
  then have "length (cstr (line_of (MAXMESGDATA - 1) stdin)) < MAXMESGDATA"
    using length_takeWhile_le [of "\<lambda>c. c \<noteq> 0" "line_of (MAXMESGDATA - 1) stdin"] by (simp add: cstr_def)
  then have ok: "q_ok qbytes req" using assms(1-3) by (auto simp: q_ok_def q_request_def Let_def split: if_splits)
  note run = queues.ends [OF conjI [OF ok q_start_inv] assms(4), folded assms(5)]
  have out: "q_finished s \<longrightarrow> qv_out s = concat (takeWhile (\<lambda>m. m \<noteq> []) (q_reply opened req))"
    using run by (auto simp: q_inv_def q_finished_def)
  have "concat (takeWhile (\<lambda>m. m \<noteq> []) (q_reply opened req)) = content"
    if "opened (cstr req) = Inr content" "0 \<notin> set content" for content
    using file_msgs_content [OF that(2)] that(1) takeWhile_nonempty [of "file_msgs content" "[]"] by (simp add: server_reply_def)
  moreover have "q_left opened req q_start = int (2 * length (q_reply opened req) + 5)" by (simp add: q_left_def q_start_def)
  then have "length ts \<le> 2 * length (q_reply opened req) + 5" using run by linarith
  ultimately show ?thesis using run out by blast
qed

text \<open>
  An empty line leaves both pairs of programs hanging: over pipes the client writes nothing and both
  sides wait to read; over message queues the server ends and the client waits for its answer.
\<close>

lemma empty_line_hangs:
  assumes "0 < qbytes"
  shows "pipe_request (newline # rest) = Some [] \<and> q_request (newline # rest) = Some [] \<and>
    (\<exists>s. reach (\<lambda>s. s = pipe_start) (pipe_step cap opened []) s \<and> pv_client s = K_read \<and> pv_server s = Q_read \<and>
      (\<forall>t. \<not> pipe_step cap opened [] s t)) \<and>
    (\<exists>s. reach (\<lambda>s. s = q_start) (q_step qbytes opened []) s \<and> qv_client s = K_read \<and> qv_server s = Q_quit \<and>
      (\<forall>t. \<not> q_step qbytes opened [] s t))"
proof (intro conjI)
  show "pipe_request (newline # rest) = Some []" "q_request (newline # rest) = Some []"
    using request_line [of "[]" rest] by simp_all
  let ?s = "pipe_start\<lparr>pv_client := K_read\<rparr>"
  have "pipe_step cap opened [] pipe_start ?s" by (auto simp: pipe_step_def pipe_client_def pipe_start_def)
  then have "reach (\<lambda>s. s = pipe_start) (pipe_step cap opened []) ?s" by (blast intro: reach_start reach_step)
  moreover have "\<not> pipe_step cap opened [] ?s t" for t
    by (auto simp: pipe_step_def pipe_client_def pipe_server_def pipe_start_def)
  ultimately show "\<exists>s. reach (\<lambda>s. s = pipe_start) (pipe_step cap opened []) s \<and> pv_client s = K_read \<and> pv_server s = Q_read \<and>
      (\<forall>t. \<not> pipe_step cap opened [] s t)" by (intro exI [of _ ?s]) (simp add: pipe_start_def)
  let ?q1 = "q_start\<lparr>qv_queue1 := [(1, [])], qv_client := K_read\<rparr>"
  let ?q2 = "q_start\<lparr>qv_client := K_read, qv_server := Q_quit\<rparr>"
  have "q_step qbytes opened [] q_start ?q1" "q_step qbytes opened [] ?q1 ?q2"
    using assms by (simp_all add: q_step_def q_client_def q_server_def q_start_def msgsnd_def)
  then have "reach (\<lambda>s. s = q_start) (q_step qbytes opened []) ?q2" by (blast intro: reach_start reach_step)
  moreover have "\<not> q_step qbytes opened [] ?q2 t" for t by (auto simp: q_step_def q_client_def q_server_def q_start_def)
  ultimately show "\<exists>s. reach (\<lambda>s. s = q_start) (q_step qbytes opened []) s \<and> qv_client s = K_read \<and> qv_server s = Q_quit \<and>
      (\<forall>t. \<not> q_step qbytes opened [] s t)" by (intro exI [of _ ?q2]) (simp add: q_start_def)
qed

end
