(* ===== verification/Fifo_Open.thy ===== *)
theory Fifo_Open
  imports Pipe_Serv
begin

text \<open>
  \<open>mainfifo.c\<close> of \<open>src/pipe\<close>: the client and the server of \<open>Pipe_Serv\<close> over two FIFOs. An \<open>open\<close> of a FIFO waits
  until another process has it open, or is opening it, for the other direction, so that the order of the
  calls matters.
\<close>

section \<open>Opening FIFOs\<close>

datatype fifo_name = FIFO1 | FIFO2
datatype fifo_end = F_read | F_write

fun other_end :: "fifo_end \<Rightarrow> fifo_end" where
  "other_end F_read = F_write"
| "other_end F_write = F_read"

type_synonym fifo_open = "fifo_name \<times> fifo_end"

text \<open>
  \<open>F_read\<close> stands for \<open>O_RDONLY\<close> and \<open>F_write\<close> for \<open>O_WRONLY\<close>. A process with the calls of \<open>Open\<close> that it has still to complete: it enters the first of them, which others
  see (\<open>here\<close>), and completes it when the other end is there.
\<close>

definition fifo_open_step :: "fifo_open list \<Rightarrow> fifo_open list \<Rightarrow> (fifo_open list \<times> fifo_open list) option" where
  "fifo_open_step here calls =
    (case calls of
      [] \<Rightarrow> None
    | (f, e) # rest \<Rightarrow>
        if (f, e) \<notin> set here then Some ((f, e) # here, calls)
        else if (f, other_end e) \<in> set here then Some (here, rest)
        else None)"

section \<open>The program\<close>

record fifomain =
  fm_here :: "fifo_open list"
  fm_parent :: "fifo_open list"
  fm_child :: "fifo_open list"
  fm_serv :: pserv

text \<open>The parent is the client, the child the server; each starts its work when it has opened both FIFOs.\<close>

definition fifomain_step :: "nat \<Rightarrow> (byte list \<Rightarrow> byte list + byte list) \<Rightarrow> byte list \<Rightarrow> fifomain \<Rightarrow> fifomain \<Rightarrow> bool" where
  "fifomain_step cap opened req s t \<longleftrightarrow>
    (\<exists>h c. fifo_open_step (fm_here s) (fm_parent s) = Some (h, c) \<and> t = s\<lparr>fm_here := h, fm_parent := c\<rparr>) \<or>
    (\<exists>h c. fifo_open_step (fm_here s) (fm_child s) = Some (h, c) \<and> t = s\<lparr>fm_here := h, fm_child := c\<rparr>) \<or>
    (\<exists>k p. fm_parent s = [] \<and> pipe_client cap req k (fm_serv s) = Some p \<and> t = s\<lparr>fm_serv := p\<rparr>) \<or>
    (\<exists>k p. fm_child s = [] \<and> pipe_server cap opened k (fm_serv s) = Some p \<and> t = s\<lparr>fm_serv := p\<rparr>)"

definition fifomain_from :: "fifo_open list \<Rightarrow> fifo_open list \<Rightarrow> fifomain" where
  "fifomain_from parent child = \<lparr>fm_here = [], fm_parent = parent, fm_child = child, fm_serv = pipe_start\<rparr>"

definition fifomain_start :: fifomain where
  "fifomain_start = fifomain_from [(FIFO1, F_write), (FIFO2, F_read)] [(FIFO1, F_read), (FIFO2, F_write)]"

text \<open>A comment in \<open>main\<close> says that the program does not work when the two calls of the parent are swapped.\<close>

definition fifomain_swapped :: fifomain where
  "fifomain_swapped = fifomain_from [(FIFO2, F_read), (FIFO1, F_write)] [(FIFO1, F_read), (FIFO2, F_write)]"

section \<open>The invariant\<close>

text \<open>Each side is at one of its calls, and the calls before it are done.\<close>

definition fopening :: "fifo_open \<Rightarrow> fifo_open \<Rightarrow> fifo_open list \<Rightarrow> fifo_open list \<Rightarrow> bool" where
  "fopening a b here calls \<longleftrightarrow>
    calls = [a, b] \<or> calls = [b] \<and> a \<in> set here \<or> calls = [] \<and> a \<in> set here \<and> b \<in> set here"

definition fifomain_inv :: "(byte list \<Rightarrow> byte list + byte list) \<Rightarrow> byte list \<Rightarrow> fifomain \<Rightarrow> bool" where
  "fifomain_inv opened req s \<longleftrightarrow>
    fopening (FIFO1, F_write) (FIFO2, F_read) (fm_here s) (fm_parent s) \<and>
    fopening (FIFO1, F_read) (FIFO2, F_write) (fm_here s) (fm_child s) \<and>
    distinct (fm_here s) \<and> pipe_inv opened req (fm_serv s)"

definition fifomain_left :: "(byte list \<Rightarrow> byte list + byte list) \<Rightarrow> byte list \<Rightarrow> fifomain \<Rightarrow> int" where
  "fifomain_left opened req s =
    int (length (fm_parent s) + length (fm_child s)) + (4 - int (length (fm_here s))) + pipe_left opened req (fm_serv s)"

lemma fopening_step:
  assumes "fopening a b here calls" and "fifo_open_step here calls = Some (here', calls')"
  shows "fopening a b here' calls'" and "set here \<subseteq> set here'" and "distinct here \<Longrightarrow> distinct here'"
    and "int (length calls') - int (length here') < int (length calls) - int (length here)"
  using assms by (auto simp: fopening_def fifo_open_step_def split: if_splits list.splits)

lemma fopening_mono: "fopening a b here calls \<Longrightarrow> set here \<subseteq> set here' \<Longrightarrow> fopening a b here' calls"
  by (auto simp: fopening_def)

lemma fifo_ends: "distinct (here :: fifo_open list) \<Longrightarrow> length here \<le> 4"
proof -
  assume d: "distinct (here :: fifo_open list)"
  have "(f, e) \<in> set [(FIFO1, F_read), (FIFO1, F_write), (FIFO2, F_read), (FIFO2, F_write)]" for f e
    by (cases f; cases e) simp_all
  then have "set here \<subseteq> set [(FIFO1, F_read), (FIFO1, F_write), (FIFO2, F_read), (FIFO2, F_write)]" by auto
  from card_mono [OF finite_set this] show ?thesis using distinct_card [OF d] by simp
qed

lemma fifomain_keeps:
  assumes inv: "fifomain_inv opened req s" and step: "fifomain_step cap opened req s t" and ok: "pipe_ok cap req"
  shows "fifomain_inv opened req t \<and> fifomain_left opened req t < fifomain_left opened req s"
proof -
  note inv' = inv [unfolded fifomain_inv_def]
  from step consider (parent) h c where "fifo_open_step (fm_here s) (fm_parent s) = Some (h, c)" "t = s\<lparr>fm_here := h, fm_parent := c\<rparr>"
    | (child) h c where "fifo_open_step (fm_here s) (fm_child s) = Some (h, c)" "t = s\<lparr>fm_here := h, fm_child := c\<rparr>"
    | (serv) p where "pipe_step cap opened req (fm_serv s) p" "t = s\<lparr>fm_serv := p\<rparr>"
    unfolding fifomain_step_def pipe_step_def by blast
  then show ?thesis
  proof cases
    case parent
    note o = fopening_step [OF conjunct1 [OF inv'] parent(1)]
    show ?thesis using o inv' parent(2) fopening_mono [OF _ o(2)] by (auto simp: fifomain_inv_def fifomain_left_def)
  next
    case child
    note o = fopening_step [OF conjunct1 [OF conjunct2 [OF inv']] child(1)]
    show ?thesis using o inv' child(2) fopening_mono [OF _ o(2)] by (auto simp: fifomain_inv_def fifomain_left_def)
  next
    case serv
    have "pipe_inv opened req p \<and> pipe_left opened req p < pipe_left opened req (fm_serv s)"
      using pipe.inv_step [of cap req opened "fm_serv s" p] pipe.left_step [of cap req opened "fm_serv s" p] serv(1) ok inv' by blast
    then show ?thesis using inv' serv(2) by (simp add: fifomain_inv_def fifomain_left_def)
  qed
qed

definition fifo_blocked :: "fifo_open list \<Rightarrow> fifo_open list \<Rightarrow> bool" where
  "fifo_blocked here calls \<longleftrightarrow> (case calls of [] \<Rightarrow> True | (f, e) # rest \<Rightarrow> (f, e) \<in> set here \<and> (f, other_end e) \<notin> set here)"

lemma fifo_open_None: "fifo_open_step here calls = None \<longleftrightarrow> fifo_blocked here calls"
  by (simp add: fifo_open_step_def fifo_blocked_def split: list.splits)

lemma fifo_opens:
  assumes "fifomain_inv opened req s" and "fm_parent s \<noteq> [] \<or> fm_child s \<noteq> []"
  shows "\<not> fifo_blocked (fm_here s) (fm_parent s) \<or> \<not> fifo_blocked (fm_here s) (fm_child s)"
  using assms by (auto simp: fifomain_inv_def fopening_def fifo_blocked_def)

definition fifomain_done :: "fifomain \<Rightarrow> bool" where
  "fifomain_done s \<longleftrightarrow> pv_client (fm_serv s) = K_done"

lemma fifomain_enabled:
  assumes inv: "fifomain_inv opened req s" and ok: "pipe_ok cap req" and "\<not> fifomain_done s"
  shows "\<exists>t. fifomain_step cap opened req s t"
proof (cases "fm_parent s = [] \<and> fm_child s = []")
  case True
  have "\<exists>p. pipe_step cap opened req (fm_serv s) p"
    using pipe.goes_on [of cap req opened "fm_serv s"] inv ok assms(3) by (simp add: fifomain_inv_def fifomain_done_def)
  with True show ?thesis unfolding fifomain_step_def pipe_step_def by blast
next
  case False
  then obtain h c where "fifo_open_step (fm_here s) (fm_parent s) = Some (h, c) \<or> fifo_open_step (fm_here s) (fm_child s) = Some (h, c)"
    using fifo_opens [OF inv] unfolding fifo_open_None [symmetric] by force
  then show ?thesis unfolding fifomain_step_def by blast
qed

interpretation fifomain: ending_runs "\<lambda>s. s = fifomain_start \<and> pipe_ok cap req" "fifomain_step cap opened req"
  "\<lambda>s. pipe_ok cap req \<and> fifomain_inv opened req s" "fifomain_left opened req" fifomain_done for cap opened req
proof
  show "pipe_ok cap req \<and> fifomain_inv opened req s" if "s = fifomain_start \<and> pipe_ok cap req" for s
    using that pipe_start_inv by (simp add: fifomain_start_def fifomain_from_def fifomain_inv_def fopening_def)
  show "0 \<le> fifomain_left opened req s" if "pipe_ok cap req \<and> fifomain_inv opened req s" for s
    using that fifo_ends [of "fm_here s"] pipe.left_nonneg [of cap req opened "fm_serv s"]
    by (simp add: fifomain_inv_def fifomain_left_def)
qed (auto dest: fifomain_keeps fifomain_enabled)

section \<open>Properties\<close>

text \<open>With the calls swapped each side enters its first call, and stays there.\<close>

definition swapped_inv :: "fifomain \<Rightarrow> bool" where
  "swapped_inv s \<longleftrightarrow>
    fm_parent s = [(FIFO2, F_read), (FIFO1, F_write)] \<and> fm_child s = [(FIFO1, F_read), (FIFO2, F_write)] \<and>
    fm_serv s = pipe_start \<and> distinct (fm_here s) \<and> set (fm_here s) \<subseteq> {(FIFO2, F_read), (FIFO1, F_read)}"

lemma swapped_step:
  assumes inv: "swapped_inv s" and step: "fifomain_step cap opened req s t"
  shows "swapped_inv t \<and> length (fm_here t) = Suc (length (fm_here s))"
proof -
  have no: "(FIFO2, F_write) \<notin> set (fm_here s)" "(FIFO1, F_write) \<notin> set (fm_here s)" using inv by (auto simp: swapped_inv_def)
  with inv step show ?thesis by (auto simp: swapped_inv_def fifomain_step_def fifo_open_step_def split: if_splits)
qed

lemma swapped_short:
  assumes "swapped_inv s"
  shows "length (fm_here s) \<le> 2" "pv_out (fm_serv s) = []"
proof -
  have "card (set (fm_here s)) \<le> card {(FIFO2, F_read), (FIFO1, F_read)}" using assms by (intro card_mono) (auto simp: swapped_inv_def)
  then show "length (fm_here s) \<le> 2" using assms by (simp add: swapped_inv_def distinct_card)
  show "pv_out (fm_serv s) = []" using assms by (simp add: swapped_inv_def pipe_start_def)
qed

lemma swapped_stuck:
  assumes "path_steps (fifomain_step cap opened req) fifomain_swapped us"
  shows "length us \<le> 2 \<and> pv_out (fm_serv (last (fifomain_swapped # us))) = []"
proof -
  have "swapped_inv s \<Longrightarrow> path_steps (fifomain_step cap opened req) s us \<Longrightarrow>
      swapped_inv (last (s # us)) \<and> length us + length (fm_here s) \<le> length (fm_here (last (s # us)))" for s
  proof (induction us arbitrary: s)
    case (Cons u us)
    from swapped_step [OF Cons.prems(1)] Cons.prems(2)
    have "swapped_inv u" "length (fm_here u) = Suc (length (fm_here s))" by auto
    with Cons.IH [of u] Cons.prems(2) show ?case by auto
  qed simp
  moreover have "swapped_inv fifomain_swapped" by (simp add: swapped_inv_def fifomain_swapped_def fifomain_from_def)
  ultimately have "swapped_inv (last (fifomain_swapped # us))" "length us \<le> length (fm_here (last (fifomain_swapped # us)))"
    using assms by fastforce+
  with swapped_short show ?thesis by (meson le_trans)
qed

text \<open>
  C39. \<open>mainfifo.c\<close>, for a request line that is not empty and FIFOs that hold at least \<open>MAXLINE\<close> bytes: under every
  interleaving of the calls of \<open>Open\<close> and of the client and the server, and any sizes of the reads and writes, the
  client prints a beginning of the answer and, when it is done, all of it; some process can run until then, and
  every run is finite. With the two calls of the parent swapped, as a comment says, the program does not
  work: each run is stuck after at most two steps, and nothing is printed.
\<close>

theorem fifomain_copies:
  assumes "pipe_request stdin = Some req" and "req \<noteq> []" and "MAXLINE \<le> cap"
    and "path_steps (fifomain_step cap opened req) fifomain_start ts" and "s = last (fifomain_start # ts)"
  shows "prefix (pv_out (fm_serv s)) (concat (pipe_answer opened req)) \<and>
    (fifomain_done s \<longrightarrow> pv_out (fm_serv s) = concat (pipe_answer opened req)) \<and>
    (fifomain_done s \<or> (\<exists>t. fifomain_step cap opened req s t)) \<and>
    length ts \<le> blocks_left (pipe_answer opened req) + 12 \<and>
    (\<forall>us. path_steps (fifomain_step cap opened req) fifomain_swapped us \<longrightarrow>
      length us \<le> 2 \<and> pv_out (fm_serv (last (fifomain_swapped # us))) = [])"
proof -
  have ok: "pipe_ok cap req" by (rule pipe_request_ok [OF assms(1-3)])
  have "fifomain_inv opened req fifomain_start" using fifomain.inv_start [of fifomain_start cap req opened] ok by simp
  from fifomain.ends [OF conjI [OF ok this] assms(4), folded assms(5)]
  have run: "fifomain_inv opened req s" "int (length ts) \<le> fifomain_left opened req fifomain_start"
    "fifomain_done s \<or> (\<exists>t. fifomain_step cap opened req s t)" by auto
  have inv: "pipe_inv opened req (fm_serv s)" using run(1) by (simp add: fifomain_inv_def)
  have "fifomain_left opened req fifomain_start = int (blocks_left (pipe_answer opened req) + 12)"
    by (simp add: fifomain_left_def fifomain_start_def fifomain_from_def pipe_left_def pipe_start_def)
  then have "length ts \<le> blocks_left (pipe_answer opened req) + 12" using run(2) by linarith
  moreover have "length us \<le> 2 \<and> pv_out (fm_serv (last (fifomain_swapped # us))) = []"
    if "path_steps (fifomain_step cap opened req) fifomain_swapped us" for us
    by (rule swapped_stuck [OF that])
  ultimately show ?thesis using pipe_inv_out [OF inv] run(3) by (auto simp: fifomain_done_def)
qed

theorem fifomain_copies_witness:
  "\<exists>t. fifomain_step MAXLINE (\<lambda>_. Inr [5, 6]) [120] fifomain_start t"
proof -
  have req: "pipe_request [120, newline] = Some [120]" using request_line(1) [of "[120]" "[]"] by simp
  have "\<not> fifomain_done fifomain_start" by (simp add: fifomain_done_def fifomain_start_def fifomain_from_def pipe_start_def)
  with fifomain_copies [OF req, of MAXLINE "\<lambda>_. Inr [5, 6]" "[]"] show ?thesis by auto
qed

end
