(* ===== verification/Svmsg_Nq.thy ===== *)
theory Svmsg_Nq
  imports Svmsg_Serv "HOL-Library.Sublist"
begin

text \<open>
  The file server of \<open>src/svmsgmpxnq\<close> and its clients: a well-known queue carries the requests, and each
  client has a private queue for its answer. The server makes a process for each request, which sends the
  answer, so that it never waits for a client itself.
\<close>

section \<open>The system\<close>

text \<open>
  \<open>rq_pid\<close> of a client is the identifier of its private queue; \<open>None\<close> is a queue that was removed. A process
  of the server has an identifier and the messages it has still to send, and \<open>None\<close> when it has ended.
\<close>

record mpnsys =
  mpn_main :: "svmsg list"
  mpn_kids :: "(int \<times> byte list list option) list"
  mpn_clients :: "rqclient list"
  mpn_queues :: "svmsg list option list"

text \<open>\<open>client.c\<close>, and the removal of the queue in \<open>client_main.c\<close>.\<close>

definition mpn_client :: "nat \<Rightarrow> nat \<Rightarrow> mpnsys \<Rightarrow> mpnsys option" where
  "mpn_client qbytes j s =
    (let c = mpn_clients s ! j in
     case rq_pc c of
      Rq_send \<Rightarrow>
        map_option (\<lambda>q. s\<lparr>mpn_main := q, mpn_clients := (mpn_clients s)[j := c\<lparr>rq_pc := Rq_recv\<rparr>]\<rparr>)
          (msgsnd qbytes 1 (mpx_request (rq_pid c) (rq_stdin c)) (mpn_main s))
    | Rq_recv \<Rightarrow>
        (case Option.bind (mpn_queues s ! j) (msgrcv 1) of
          None \<Rightarrow> None
        | Some (d, q) \<Rightarrow>
            Some (s\<lparr>mpn_queues := (mpn_queues s)[j := Some q],
                    mpn_clients := (mpn_clients s)[j := (if d = [] then c\<lparr>rq_pc := Rq_done\<rparr>
                      else c\<lparr>rq_out := rq_out c @ d\<rparr>)]\<rparr>))
    | Rq_done \<Rightarrow>
        if mpn_queues s ! j = None then None else Some (s\<lparr>mpn_queues := (mpn_queues s)[j := None]\<rparr>))"

text \<open>The identifier is read with \<open>atoi\<close>.\<close>

definition mpn_serve :: "(byte list \<Rightarrow> byte list + byte list) \<Rightarrow> byte list \<Rightarrow> (int \<times> byte list list) option" where
  "mpn_serve opened data =
    map_option (\<lambda>(num, path). (signed_take_bit 31 num, server_reply opened data path)) (server_parse data)"

definition mpn_server :: "(byte list \<Rightarrow> byte list + byte list) \<Rightarrow> mpnsys \<Rightarrow> mpnsys option" where
  "mpn_server opened s =
    (case msgrcv 1 (mpn_main s) of
      None \<Rightarrow> None
    | Some (d, q) \<Rightarrow>
        Some (s\<lparr>mpn_main := q,
          mpn_kids := mpn_kids s @ (case mpn_serve opened d of None \<Rightarrow> [] | Some (num, ms) \<Rightarrow> [(num, Some ms)])\<rparr>))"

text \<open>A process of the server; it ends after its last message, or when \<open>msgsnd\<close> fails for lack of a queue.\<close>

definition mpn_find :: "int \<Rightarrow> mpnsys \<Rightarrow> nat option" where
  "mpn_find num s =
    find (\<lambda>j. int (rq_pid (mpn_clients s ! j)) = num \<and> mpn_queues s ! j \<noteq> None) [0..<length (mpn_clients s)]"

definition mpn_kid :: "nat \<Rightarrow> nat \<Rightarrow> mpnsys \<Rightarrow> mpnsys option" where
  "mpn_kid qbytes k s =
    (case mpn_kids s ! k of
      (num, None) \<Rightarrow> None
    | (num, Some []) \<Rightarrow> Some (s\<lparr>mpn_kids := (mpn_kids s)[k := (num, None)]\<rparr>)
    | (num, Some (m # ms)) \<Rightarrow>
        (case mpn_find num s of
          None \<Rightarrow> Some (s\<lparr>mpn_kids := (mpn_kids s)[k := (num, None)]\<rparr>)
        | Some j \<Rightarrow>
            map_option (\<lambda>q. s\<lparr>mpn_queues := (mpn_queues s)[j := Some q], mpn_kids := (mpn_kids s)[k := (num, Some ms)]\<rparr>)
              (msgsnd qbytes 1 m (the (mpn_queues s ! j)))))"

definition mpn_step :: "nat \<Rightarrow> (byte list \<Rightarrow> byte list + byte list) \<Rightarrow> mpnsys \<Rightarrow> mpnsys \<Rightarrow> bool" where
  "mpn_step qbytes opened s t \<longleftrightarrow>
    (\<exists>j < length (mpn_clients s). mpn_client qbytes j s = Some t) \<or> mpn_server opened s = Some t \<or>
    (\<exists>k < length (mpn_kids s). mpn_kid qbytes k s = Some t)"

definition mpn_start :: "(nat \<times> byte list) list \<Rightarrow> mpnsys" where
  "mpn_start cls =
    \<lparr>mpn_main = [], mpn_kids = [],
     mpn_clients = map (\<lambda>(num, stdin). \<lparr>rq_pid = num, rq_stdin = stdin, rq_pc = Rq_send, rq_out = []\<rparr>) cls,
     mpn_queues = replicate (length cls) (Some [])\<rparr>"

text \<open>All clients have removed their queues, and all processes of the server have ended.\<close>

definition mpn_finished :: "mpnsys \<Rightarrow> bool" where
  "mpn_finished s \<longleftrightarrow> list_all (\<lambda>q. q = None) (mpn_queues s) \<and> list_all (\<lambda>k. snd k = None) (mpn_kids s)"

section \<open>The invariant\<close>

definition todo :: "byte list list option \<Rightarrow> byte list list" where
  "todo k = (case k of None \<Rightarrow> [] | Some ms \<Rightarrow> ms)"

text \<open>
  A client, by whether its request waits (\<open>asked\<close>), the process that answers it and its queue: what it has
  printed, what is in its queue and what is still to be sent make up the answer.
\<close>

definition mpn_ok :: "(byte list \<Rightarrow> byte list + byte list) \<Rightarrow> rqclient \<Rightarrow> bool \<Rightarrow> byte list list option option \<Rightarrow> svmsg list option \<Rightarrow> bool" where
  "mpn_ok opened c asked kid queue \<longleftrightarrow>
    (case rq_pc c of
      Rq_send \<Rightarrow> \<not> asked \<and> kid = None \<and> queue = Some [] \<and> rq_out c = []
    | Rq_recv \<Rightarrow>
        asked \<and> kid = None \<and> queue = Some [] \<and> rq_out c = [] \<or>
        \<not> asked \<and> (\<exists>td q n. kid = Some td \<and> queue = Some q \<and> list_all (\<lambda>m. fst m = 1) q \<and> n < length (rq_reply opened c) \<and>
          rq_out c = concat (take n (rq_reply opened c)) \<and> map snd q @ todo td = drop n (rq_reply opened c))
    | Rq_done \<Rightarrow>
        \<not> asked \<and> (\<exists>td. kid = Some td \<and> todo td = []) \<and> (queue = Some [] \<or> queue = None) \<and> rq_out c = concat (rq_reply opened c))"

definition mpn_setup :: "(byte list \<Rightarrow> byte list + byte list) \<Rightarrow> (nat \<times> byte list) list \<Rightarrow> bool" where
  "mpn_setup opened cls \<longleftrightarrow>
    distinct (map fst cls) \<and> (\<forall>cl \<in> set cls. fst cl < 2 ^ 31 \<and> 0 \<notin> set (snd cl)) \<and>
    (\<forall>path content. opened path = Inr content \<longrightarrow> 0 \<notin> set content)"

definition mpn_client_ok :: "(byte list \<Rightarrow> byte list + byte list) \<Rightarrow> mpnsys \<Rightarrow> nat \<Rightarrow> bool" where
  "mpn_client_ok opened s i \<longleftrightarrow>
    (let c = mpn_clients s ! i in
     mpn_ok opened c ((1, rq_request c) \<in> set (mpn_main s)) (map_of (mpn_kids s) (int (rq_pid c))) (mpn_queues s ! i))"

definition mpn_inv :: "(byte list \<Rightarrow> byte list + byte list) \<Rightarrow> (nat \<times> byte list) list \<Rightarrow> mpnsys \<Rightarrow> bool" where
  "mpn_inv opened cls s \<longleftrightarrow>
    map (\<lambda>c. (rq_pid c, rq_stdin c)) (mpn_clients s) = cls \<and> length (mpn_queues s) = length (mpn_clients s) \<and>
    distinct (mpn_main s) \<and> set (mpn_main s) \<subseteq> (\<lambda>c. (1, rq_request c)) ` set (mpn_clients s) \<and>
    distinct (map fst (mpn_kids s)) \<and> fst ` set (mpn_kids s) \<subseteq> (int \<circ> rq_pid) ` set (mpn_clients s) \<and>
    (\<forall>i < length (mpn_clients s). mpn_client_ok opened s i)"

lemma map_of_update:
  "distinct (map fst ks) \<Longrightarrow> k < length ks \<Longrightarrow> fst (ks ! k) = p \<Longrightarrow> map_of (ks[k := (p, x)]) = (map_of ks)(p \<mapsto> x)"
proof (induction ks arbitrary: k)
  case (Cons a ks)
  show ?case
  proof (cases k)
    case (Suc n)
    then have "fst a \<noteq> p" using Cons.prems by (auto simp: in_set_conv_nth) (metis nth_mem fst_conv image_eqI)
    with Cons Suc show ?thesis by (auto simp: fun_upd_twist)
  qed (use Cons in \<open>cases a; auto\<close>)
qed simp

lemma map_fst_update: "k < length ks \<Longrightarrow> fst (ks ! k) = p \<Longrightarrow> map fst (ks[k := (p, x)]) = map fst ks"
  by (metis fst_conv list_update_id map_update nth_map)

lemma map_of_snoc: "p \<notin> fst ` set ks \<Longrightarrow> map_of (ks @ [(p, x)]) = (map_of ks)(p \<mapsto> x)"
  by (induction ks) (auto simp: fun_upd_twist)

section \<open>The clients of a run\<close>

lemma mpn_client_facts:
  assumes "mpn_setup opened cls" and "mpn_inv opened cls s" and "i < length (mpn_clients s)"
  shows "rq_pid (mpn_clients s ! i) < 2 ^ 31" "0 \<notin> set (rq_stdin (mpn_clients s ! i))"
    "cls ! i = (rq_pid (mpn_clients s ! i), rq_stdin (mpn_clients s ! i))"
proof -
  show cl: "cls ! i = (rq_pid (mpn_clients s ! i), rq_stdin (mpn_clients s ! i))" using assms(2,3) by (auto simp: mpn_inv_def)
  have "cls ! i \<in> set cls" using assms(2,3) by (auto simp: mpn_inv_def)
  with assms(1) cl show "rq_pid (mpn_clients s ! i) < 2 ^ 31" "0 \<notin> set (rq_stdin (mpn_clients s ! i))"
    by (force simp: mpn_setup_def)+
qed

lemma mpn_distinct:
  assumes stp: "mpn_setup opened cls" and inv: "mpn_inv opened cls s"
    and "i < length (mpn_clients s)" and "j < length (mpn_clients s)"
  shows "rq_pid (mpn_clients s ! i) = rq_pid (mpn_clients s ! j) \<longleftrightarrow> i = j"
    and "rq_request (mpn_clients s ! i) = rq_request (mpn_clients s ! j) \<longleftrightarrow> i = j"
proof -
  have "map rq_pid (mpn_clients s) = map fst cls" using inv by (auto simp: mpn_inv_def)
  then have "distinct (map rq_pid (mpn_clients s))" using stp by (simp add: mpn_setup_def)
  then show pid: "rq_pid (mpn_clients s ! i) = rq_pid (mpn_clients s ! j) \<longleftrightarrow> i = j"
    using assms(3,4) by (auto simp: distinct_conv_nth)
  have "rq_request (mpn_clients s ! i) = rq_request (mpn_clients s ! j) \<Longrightarrow> rq_pid (mpn_clients s ! i) = rq_pid (mpn_clients s ! j)"
    using server_parse_request [OF mpn_client_facts(2) [OF stp inv assms(3)]]
      server_parse_request [OF mpn_client_facts(2) [OF stp inv assms(4)]] unfolding rq_request_def
    by (metis Pair_inject of_nat_eq_iff option.inject)
  then show "rq_request (mpn_clients s ! i) = rq_request (mpn_clients s ! j) \<longleftrightarrow> i = j" using pid by auto
qed

lemma mpn_serve_request:
  assumes "0 \<notin> set (rq_stdin c)" and "rq_pid c < 2 ^ 31"
  shows "mpn_serve opened (rq_request c) = Some (int (rq_pid c), rq_reply opened c)"
proof -
  have "signed_take_bit 31 (int (rq_pid c)) = int (rq_pid c)" using assms(2) by (intro signed_take_bit_int_eq_self) auto
  then show ?thesis
    using server_parse_request [OF assms(1), of "rq_pid c"] by (simp add: mpn_serve_def rq_request_def rq_reply_def)
qed

lemma mpn_find_Some:
  assumes stp: "mpn_setup opened cls" and inv: "mpn_inv opened cls s" and j: "j < length (mpn_clients s)" and "mpn_queues s ! j \<noteq> None"
  shows "mpn_find (int (rq_pid (mpn_clients s ! j))) s = Some j"
proof -
  let ?P = "\<lambda>i. int (rq_pid (mpn_clients s ! i)) = int (rq_pid (mpn_clients s ! j)) \<and> mpn_queues s ! i \<noteq> None"
  have "find ?P [0..<length (mpn_clients s)] \<noteq> None" using assms(4) j by (auto simp: find_None_iff)
  then obtain i where i: "find ?P [0..<length (mpn_clients s)] = Some i" by blast
  then have "i < length (mpn_clients s) \<and> ?P i" by (auto simp: find_Some_iff)
  then have "i = j" using mpn_distinct(1) [OF stp inv, of i j] j by simp
  with i show ?thesis by (simp add: mpn_find_def)
qed

text \<open>A step that changes one client and what belongs to it.\<close>

lemma mpn_inv_move:
  assumes stp: "mpn_setup opened cls" and inv: "mpn_inv opened cls s" and i: "i < length (mpn_clients s)"
    and clients: "mpn_clients t = (mpn_clients s)[i := c]" "rq_pid c = rq_pid (mpn_clients s ! i)" "rq_stdin c = rq_stdin (mpn_clients s ! i)"
    and queues: "length (mpn_queues t) = length (mpn_queues s)" "mpn_queues t ! i = q" "\<And>k. k \<noteq> i \<Longrightarrow> mpn_queues t ! k = mpn_queues s ! k"
    and main: "distinct (mpn_main t)" "\<And>m. m \<noteq> (1, rq_request (mpn_clients s ! i)) \<Longrightarrow> m \<in> set (mpn_main t) \<longleftrightarrow> m \<in> set (mpn_main s)"
    and kids: "distinct (map fst (mpn_kids t))" "fst ` set (mpn_kids t) \<subseteq> insert (int (rq_pid c)) (fst ` set (mpn_kids s))"
      "\<And>p. p \<noteq> int (rq_pid c) \<Longrightarrow> map_of (mpn_kids t) p = map_of (mpn_kids s) p"
    and ok: "mpn_ok opened c ((1, rq_request c) \<in> set (mpn_main t)) (map_of (mpn_kids t) (int (rq_pid c))) q"
  shows "mpn_inv opened cls t"
proof -
  have req: "rq_request c = rq_request (mpn_clients s ! i)" using clients by (simp add: rq_request_def)
  have same: "map f (mpn_clients t) = map f (mpn_clients s)" if "f c = f (mpn_clients s ! i)" for f :: "rqclient \<Rightarrow> 'a"
    using that i clients(1) by (simp add: map_update) (metis list_update_id nth_map)
  have imgs: "rq_request ` set (mpn_clients t) = rq_request ` set (mpn_clients s)" "rq_pid ` set (mpn_clients t) = rq_pid ` set (mpn_clients s)"
    using same [of rq_request] same [of rq_pid] req clients(2) by (metis list.set_map)+
  have "mpn_client_ok opened t k" if "k < length (mpn_clients t)" for k
  proof (cases "k = i")
    case True
    with ok i clients(1) queues inv show ?thesis by (simp add: mpn_client_ok_def mpn_inv_def)
  next
    case False
    then have k: "k < length (mpn_clients s)" "mpn_clients t ! k = mpn_clients s ! k" "mpn_queues t ! k = mpn_queues s ! k"
      using that clients(1) queues by auto
    have "rq_pid (mpn_clients s ! k) \<noteq> rq_pid c" "rq_request (mpn_clients s ! k) \<noteq> rq_request (mpn_clients s ! i)"
      using mpn_distinct [OF stp inv k(1) i] False clients(2) by auto
    with inv k main(2) kids(3) show ?thesis by (simp add: mpn_client_ok_def mpn_inv_def)
  qed
  moreover have "set (mpn_main t) \<subseteq> (\<lambda>c. (1, rq_request c)) ` set (mpn_clients t)"
  proof
    fix m assume m: "m \<in> set (mpn_main t)"
    have "m \<in> insert (1, rq_request (mpn_clients s ! i)) (set (mpn_main s))" using m main(2) by blast
    then have "m \<in> Pair 1 ` rq_request ` set (mpn_clients s)" using inv i by (auto simp: mpn_inv_def)
    then have "m \<in> Pair 1 ` rq_request ` set (mpn_clients t)" unfolding imgs(1) .
    then show "m \<in> (\<lambda>c. (1, rq_request c)) ` set (mpn_clients t)" by (simp add: image_image)
  qed
  moreover have "fst ` set (mpn_kids t) \<subseteq> (int \<circ> rq_pid) ` set (mpn_clients t)"
  proof -
    have "int (rq_pid c) \<in> int ` rq_pid ` set (mpn_clients s)" using i clients(2) by auto
    moreover have "fst ` set (mpn_kids s) \<subseteq> int ` rq_pid ` set (mpn_clients s)" using inv by (simp add: mpn_inv_def image_comp)
    ultimately have "fst ` set (mpn_kids t) \<subseteq> int ` rq_pid ` set (mpn_clients t)"
      unfolding imgs(2) by (intro subset_trans [OF kids(2)] insert_subsetI)
    then show ?thesis by (simp add: image_comp)
  qed
  moreover have "map (\<lambda>c. (rq_pid c, rq_stdin c)) (mpn_clients t) = cls"
    using same [of "\<lambda>c. (rq_pid c, rq_stdin c)"] clients(2,3) inv by (simp add: mpn_inv_def)
  ultimately show ?thesis using inv main(1) kids(1) clients(1) queues by (simp add: mpn_inv_def)
qed

section \<open>Every step keeps the invariant\<close>

lemma mpn_own:
  assumes "mpn_inv opened cls s" and "i < length (mpn_clients s)"
  shows "mpn_client_ok opened s i" "length (mpn_queues s) = length (mpn_clients s)" "distinct (mpn_main s)" "distinct (map fst (mpn_kids s))"
  using assms by (simp_all add: mpn_inv_def)

lemma mpn_client_keeps:
  assumes stp: "mpn_setup opened cls" and inv: "mpn_inv opened cls s" and i: "i < length (mpn_clients s)"
    and run: "mpn_client qbytes i s = Some t"
  shows "mpn_inv opened cls t"
proof -
  let ?c = "mpn_clients s ! i"
  note own = mpn_own [OF inv i]
  have ok: "mpn_ok opened ?c ((1, rq_request ?c) \<in> set (mpn_main s)) (map_of (mpn_kids s) (int (rq_pid ?c))) (mpn_queues s ! i)"
    using own(1) by (simp add: mpn_client_ok_def Let_def)
  show ?thesis
  proof (cases "rq_pc ?c")
    case Rq_send
    then have t: "t = s\<lparr>mpn_main := mpn_main s @ [(1, rq_request ?c)], mpn_clients := (mpn_clients s)[i := ?c\<lparr>rq_pc := Rq_recv\<rparr>]\<rparr>"
      using run by (auto simp: mpn_client_def Let_def rq_request_def dest!: msgsnd_Some)
    show ?thesis
      by (rule mpn_inv_move [OF stp inv i, where c = "?c\<lparr>rq_pc := Rq_recv\<rparr>" and q = "mpn_queues s ! i"])
        (use t ok own Rq_send in \<open>auto simp: mpn_ok_def rq_request_def\<close>)
  next
    case Rq_recv
    then obtain q where q: "mpn_queues s ! i = Some q" using run by (cases "mpn_queues s ! i") (auto simp: mpn_client_def Let_def)
    then obtain d q' where rcv: "msgrcv 1 q = Some (d, q')" using Rq_recv run by (auto simp: mpn_client_def Let_def split: option.splits)
    define c where "c = (if d = [] then ?c\<lparr>rq_pc := Rq_done\<rparr> else ?c\<lparr>rq_out := rq_out ?c @ d\<rparr>)"
    have t: "t = s\<lparr>mpn_queues := (mpn_queues s)[i := Some q'], mpn_clients := (mpn_clients s)[i := c]\<rparr>"
      using run Rq_recv q rcv by (auto simp: mpn_client_def Let_def c_def)
    have "q \<noteq> []" using rcv by auto
    then obtain td n where kid: "(1, rq_request ?c) \<notin> set (mpn_main s)" "map_of (mpn_kids s) (int (rq_pid ?c)) = Some td"
      "list_all (\<lambda>m. fst m = 1) q" "n < length (rq_reply opened ?c)" "rq_out ?c = concat (take n (rq_reply opened ?c))"
      "map snd q @ todo td = drop n (rq_reply opened ?c)" using ok Rq_recv q by (auto simp: mpn_ok_def)
    have q': "q = (1, d) # q'" using rcv kid(3) by (cases q) (auto split: if_splits)
    then have nth: "rq_reply opened ?c ! n = d" "drop (Suc n) (rq_reply opened ?c) = map snd q' @ todo td"
      using kid(4,6) by (simp_all add: Cons_nth_drop_Suc [symmetric])
    obtain ms where ms: "rq_reply opened ?c = ms @ [[]]" "[] \<notin> set ms"
      using rq_reply_shape [of ?c opened] mpn_client_facts(1,2) [OF stp inv i] stp by (auto simp: mpn_setup_def)
    have same: "rq_reply opened c = rq_reply opened ?c" "rq_request c = rq_request ?c" "rq_pid c = rq_pid ?c" "rq_stdin c = rq_stdin ?c"
      by (simp_all add: c_def rq_reply_def rq_request_def)
    have out: "concat (take (Suc n) (rq_reply opened ?c)) = rq_out ?c @ d" using kid(4,5) nth(1) by (simp add: take_Suc_conv_app_nth)
    have "d = [] \<longleftrightarrow> Suc n = length (rq_reply opened ?c)"
      using ms kid(4) nth(1) by (cases "n = length ms") (auto simp: nth_append, metis less_SucE nth_mem)
    then have "mpn_ok opened c False (Some td) (Some q')"
    proof (cases "d = []")
      case True
      with \<open>d = [] \<longleftrightarrow> _\<close> nth(2) out same show ?thesis by (auto simp: mpn_ok_def c_def)
    next
      case False
      then have "Suc n < length (rq_reply opened ?c)" using \<open>d = [] \<longleftrightarrow> _\<close> kid(4) by auto
      with False nth(2) out same kid(3) q' Rq_recv show ?thesis by (auto simp: mpn_ok_def c_def intro!: exI [of _ "Suc n"])
    qed
    then show ?thesis using kid same t own i
      by (intro mpn_inv_move [OF stp inv i, where c = c and q = "Some q'"]) auto
  next
    case Rq_done
    then have t: "t = s\<lparr>mpn_queues := (mpn_queues s)[i := None]\<rparr>" using run by (auto simp: mpn_client_def Let_def split: if_splits)
    show ?thesis
      by (rule mpn_inv_move [OF stp inv i, where c = ?c and q = None]) (use t ok own Rq_done i in \<open>auto simp: mpn_ok_def\<close>)
  qed
qed

lemma mpn_server_keeps:
  assumes stp: "mpn_setup opened cls" and inv: "mpn_inv opened cls s" and run: "mpn_server opened s = Some t"
  shows "mpn_inv opened cls t"
proof -
  obtain d q where rcv: "msgrcv 1 (mpn_main s) = Some (d, q)" using run by (auto simp: mpn_server_def split: option.splits)
  have ones: "\<forall>m \<in> set (mpn_main s). fst m = 1" using inv by (auto simp: mpn_inv_def)
  then have main: "mpn_main s = (1, d) # q" using rcv by (cases "mpn_main s") (auto split: if_splits)
  then obtain i where i: "i < length (mpn_clients s)" "d = rq_request (mpn_clients s ! i)"
    using inv by (fastforce simp: mpn_inv_def in_set_conv_nth)
  let ?c = "mpn_clients s ! i"
  note own = mpn_own [OF inv i(1)]
  have ok: "mpn_ok opened ?c True (map_of (mpn_kids s) (int (rq_pid ?c))) (mpn_queues s ! i)"
    using own(1) main i(2) by (simp add: mpn_client_ok_def Let_def)
  have t: "t = s\<lparr>mpn_main := q, mpn_kids := mpn_kids s @ [(int (rq_pid ?c), Some (rq_reply opened ?c))]\<rparr>"
    using run rcv i(2) mpn_serve_request [OF mpn_client_facts(2,1) [OF stp inv i(1)]] by (auto simp: mpn_server_def)
  have new: "int (rq_pid ?c) \<notin> fst ` set (mpn_kids s)" and pc: "rq_pc ?c = Rq_recv" and "mpn_queues s ! i = Some []" "rq_out ?c = []"
    using ok by (auto simp: mpn_ok_def map_of_eq_None_iff split: rq_pc.splits)
  then have "mpn_ok opened ?c False (Some (Some (rq_reply opened ?c))) (mpn_queues s ! i)"
    by (auto simp: mpn_ok_def todo_def rq_reply_def server_reply_def)
  then show ?thesis using t main i own new
    by (intro mpn_inv_move [OF stp inv i(1), where c = ?c and q = "mpn_queues s ! i"]) (auto simp: map_of_snoc simp del: map_of_append)
qed

text \<open>The client that a process of the server answers.\<close>

lemma mpn_kid_client:
  assumes inv: "mpn_inv opened cls s" and k: "k < length (mpn_kids s)" "mpn_kids s ! k = (num, kid)"
  obtains i where "i < length (mpn_clients s)" and "num = int (rq_pid (mpn_clients s ! i))"
    and "map_of (mpn_kids s) num = Some kid" and "mpn_ok opened (mpn_clients s ! i) ((1, rq_request (mpn_clients s ! i)) \<in> set (mpn_main s)) (Some kid) (mpn_queues s ! i)"
proof -
  have mem: "(num, kid) \<in> set (mpn_kids s)" using k by (metis nth_mem)
  have "fst ` set (mpn_kids s) \<subseteq> (int \<circ> rq_pid) ` set (mpn_clients s)" using inv by (simp add: mpn_inv_def)
  then have "num \<in> (int \<circ> rq_pid) ` set (mpn_clients s)" using mem by (metis fst_conv image_eqI subsetD)
  then obtain i where i: "i < length (mpn_clients s)" "num = int (rq_pid (mpn_clients s ! i))" by (auto simp: in_set_conv_nth)
  moreover have m: "map_of (mpn_kids s) num = Some kid" using mem mpn_own(4) [OF inv i(1)] by (simp add: map_of_is_SomeI)
  ultimately show ?thesis using that mpn_own(1) [OF inv i(1)] by (simp add: mpn_client_ok_def Let_def)
qed

lemma mpn_kid_keeps:
  assumes stp: "mpn_setup opened cls" and inv: "mpn_inv opened cls s" and k: "k < length (mpn_kids s)"
    and run: "mpn_kid qbytes k s = Some t"
  shows "mpn_inv opened cls t"
proof -
  obtain num kid where kid: "mpn_kids s ! k = (num, kid)" by (cases "mpn_kids s ! k")
  obtain i where i: "i < length (mpn_clients s)" and num: "num = int (rq_pid (mpn_clients s ! i))"
    and mo: "map_of (mpn_kids s) num = Some kid"
    and ok: "mpn_ok opened (mpn_clients s ! i) ((1, rq_request (mpn_clients s ! i)) \<in> set (mpn_main s)) (Some kid) (mpn_queues s ! i)"
    by (rule mpn_kid_client [OF inv k kid])
  let ?c = "mpn_clients s ! i"
  note own = mpn_own [OF inv i]
  have fsts: "map fst ((mpn_kids s)[k := (num, kid')]) = map fst (mpn_kids s)" for kid' using k kid by (intro map_fst_update) auto
  then have keys: "fst ` set ((mpn_kids s)[k := (num, kid')]) = fst ` set (mpn_kids s)" for kid' by (metis list.set_map)
  have upd: "mpn_inv opened cls t'" if "t' = s\<lparr>mpn_queues := (mpn_queues s)[i := q], mpn_kids := (mpn_kids s)[k := (num, kid')]\<rparr>"
    and "mpn_ok opened ?c ((1, rq_request ?c) \<in> set (mpn_main s)) (Some kid') q" for t' q kid'
    by (rule mpn_inv_move [OF stp inv i, where c = ?c and q = q])
      (use that num own k kid i fsts keys in \<open>auto simp: map_of_update simp del: set_map\<close>)
  show ?thesis
  proof (cases kid)
    case None
    with run kid show ?thesis by (simp add: mpn_kid_def)
  next
    case (Some ms)
    show ?thesis
    proof (cases ms)
      case Nil
      with run kid Some have t: "t = s\<lparr>mpn_kids := (mpn_kids s)[k := (num, None)]\<rparr>" by (simp add: mpn_kid_def)
      show ?thesis using ok Some Nil t by (intro upd [where q = "mpn_queues s ! i" and kid' = None]) (auto simp: mpn_ok_def todo_def split: rq_pc.splits)
    next
      case (Cons m ms')
      then have pc: "rq_pc ?c = Rq_recv" using ok Some by (cases "rq_pc ?c") (auto simp: mpn_ok_def todo_def)
      then obtain q n where q: "mpn_queues s ! i = Some q" "(1, rq_request ?c) \<notin> set (mpn_main s)" "list_all (\<lambda>m. fst m = 1) q"
        "n < length (rq_reply opened ?c)" "rq_out ?c = concat (take n (rq_reply opened ?c))" "map snd q @ m # ms' = drop n (rq_reply opened ?c)"
        using ok Some Cons by (auto simp: mpn_ok_def todo_def)
      have "mpn_find num s = Some i" unfolding num using mpn_find_Some [OF stp inv i] q(1) by simp
      with run kid Some Cons q(1)
      have t: "t = s\<lparr>mpn_queues := (mpn_queues s)[i := Some (q @ [(1, m)])], mpn_kids := (mpn_kids s)[k := (num, Some ms')]\<rparr>"
        by (auto simp: mpn_kid_def dest!: msgsnd_Some)
      show ?thesis using q pc t by (intro upd [where q = "Some (q @ [(1, m)])" and kid' = "Some ms'"]) (auto simp: mpn_ok_def todo_def)
    qed
  qed
qed

section \<open>Some process can run, and not for ever\<close>

lemma msgsnd_empty: "length d \<le> qbytes \<Longrightarrow> 0 < qbytes \<Longrightarrow> msgsnd qbytes 1 d [] = Some [(1, d)]"
  by (simp add: msgsnd_def)

lemma mpn_recv_runs:
  assumes "rq_pc (mpn_clients s ! i) = Rq_recv" and "mpn_queues s ! i = Some q" and "q \<noteq> []" and "list_all (\<lambda>m. fst m = 1) q"
  shows "mpn_client qbytes i s \<noteq> None"
  using assms by (cases q) (auto simp: mpn_client_def Let_def)

lemma mpn_kid_runs:
  assumes stp: "mpn_setup opened cls" and inv: "mpn_inv opened cls s" and k: "k < length (mpn_kids s)" "snd (mpn_kids s ! k) \<noteq> None"
    and room: "MAXMESGDATA \<le> qbytes"
  shows "\<exists>t. mpn_step qbytes opened s t"
proof -
  obtain num ms where kid: "mpn_kids s ! k = (num, Some ms)" using k(2) by (cases "mpn_kids s ! k") auto
  obtain i where i: "i < length (mpn_clients s)" and num: "num = int (rq_pid (mpn_clients s ! i))"
    and ok: "mpn_ok opened (mpn_clients s ! i) ((1, rq_request (mpn_clients s ! i)) \<in> set (mpn_main s)) (Some (Some ms)) (mpn_queues s ! i)"
    by (rule mpn_kid_client [OF inv k(1) kid])
  let ?c = "mpn_clients s ! i"
  have "mpn_kid qbytes k s \<noteq> None \<or> mpn_client qbytes i s \<noteq> None"
  proof (cases ms)
    case Nil
    with kid show ?thesis by (simp add: mpn_kid_def)
  next
    case (Cons m ms')
    then have pc: "rq_pc ?c = Rq_recv" using ok by (cases "rq_pc ?c") (auto simp: mpn_ok_def todo_def)
    then obtain q n where q: "mpn_queues s ! i = Some q" "list_all (\<lambda>m. fst m = 1) q" "map snd q @ m # ms' = drop n (rq_reply opened ?c)"
      using ok Cons by (auto simp: mpn_ok_def todo_def)
    show ?thesis
    proof (cases "q = []")
      case True
      have "m \<in> set (rq_reply opened ?c)" using q(3) by (metis in_set_conv_decomp in_set_dropD)
      then have "length m \<le> MAXMESGDATA" using rq_reply_length mpn_client_facts(1,2) [OF stp inv i] by fastforce
      moreover have "mpn_find num s = Some i" unfolding num using mpn_find_Some [OF stp inv i] q(1) by simp
      ultimately show ?thesis using kid Cons q(1) True room by (simp add: mpn_kid_def msgsnd_empty)
    qed (use mpn_recv_runs [OF pc q(1) _ q(2)] in auto)
  qed
  then show ?thesis using i k(1) by (auto simp: mpn_step_def)
qed

lemma mpn_enabled:
  assumes stp: "mpn_setup opened cls" and inv: "mpn_inv opened cls s" and "\<not> mpn_finished s" and room: "MAXMESGDATA \<le> qbytes"
  shows "\<exists>t. mpn_step qbytes opened s t"
proof -
  consider (kid) k where "k < length (mpn_kids s)" "snd (mpn_kids s ! k) \<noteq> None"
    | (main) "mpn_main s \<noteq> []"
    | (client) i where "mpn_main s = []" "list_all (\<lambda>k. snd k = None) (mpn_kids s)" "i < length (mpn_clients s)" "mpn_queues s ! i \<noteq> None"
    using assms(3) inv by (fastforce simp: mpn_finished_def list_all_length mpn_inv_def)
  then show ?thesis
  proof cases
    case kid
    then show ?thesis using mpn_kid_runs [OF stp inv _ _ room] by blast
  next
    case main
    then have "msgrcv 1 (mpn_main s) \<noteq> None" using inv by (cases "mpn_main s") (auto simp: mpn_inv_def)
    then show ?thesis by (auto simp: mpn_step_def mpn_server_def)
  next
    case (client i)
    let ?c = "mpn_clients s ! i"
    have ok: "mpn_ok opened ?c False (map_of (mpn_kids s) (int (rq_pid ?c))) (mpn_queues s ! i)"
      using mpn_own(1) [OF inv client(3)] client(1) by (simp add: mpn_client_ok_def Let_def)
    have dead: "todo td = []" if "map_of (mpn_kids s) p = Some td" for p td
      using that client(2) by (force simp: list_all_iff todo_def dest: map_of_SomeD)
    have "mpn_client qbytes i s \<noteq> None"
    proof (cases "rq_pc ?c")
      case Rq_send
      have "length (rq_request ?c) < MAXMESGDATA" using rq_request_length mpn_client_facts(1,2) [OF stp inv client(3)] by fastforce
      then show ?thesis using Rq_send client(1) room by (simp add: mpn_client_def Let_def rq_request_def msgsnd_empty)
    next
      case Rq_recv
      then obtain q n where "mpn_queues s ! i = Some q" "list_all (\<lambda>m. fst m = 1) q" "n < length (rq_reply opened ?c)"
        "map snd q = drop n (rq_reply opened ?c)" using ok dead by (auto simp: mpn_ok_def)
      then show ?thesis using mpn_recv_runs [OF Rq_recv] by (metis drop_eq_Nil2 list.simps(8) not_less)
    qed (use client(4) in \<open>simp add: mpn_client_def\<close>)
    then show ?thesis using client(3) by (auto simp: mpn_step_def)
  qed
qed

text \<open>The steps that are left at most: a request is worth its whole answer, a message to be sent two steps.\<close>

definition kid_weight :: "int \<times> byte list list option \<Rightarrow> int" where
  "kid_weight k = (case snd k of None \<Rightarrow> 0 | Some ms \<Rightarrow> 2 * int (length ms) + 1)"

definition ask_weight :: "(byte list \<Rightarrow> byte list + byte list) \<Rightarrow> svmsg \<Rightarrow> int" where
  "ask_weight opened m = 2 + (case mpn_serve opened (snd m) of None \<Rightarrow> 0 | Some (num, ms) \<Rightarrow> 2 * int (length ms))"

definition mpnc_weight :: "(byte list \<Rightarrow> byte list + byte list) \<Rightarrow> rqclient \<Rightarrow> int" where
  "mpnc_weight opened c = (if rq_pc c = Rq_send then 1 + ask_weight opened (1, rq_request c) else 0)"

definition queue_weight :: "svmsg list option \<Rightarrow> int" where
  "queue_weight q = (case q of None \<Rightarrow> 0 | Some ms \<Rightarrow> int (length ms) + 1)"

definition mpn_left :: "(byte list \<Rightarrow> byte list + byte list) \<Rightarrow> mpnsys \<Rightarrow> int" where
  "mpn_left opened s =
    total_of (ask_weight opened) (mpn_main s) + total_of kid_weight (mpn_kids s) +
    total_of (mpnc_weight opened) (mpn_clients s) + total_of queue_weight (mpn_queues s)"

lemma mpn_left_nonneg: "0 \<le> mpn_left opened s"
proof -
  have "0 \<le> ask_weight opened m" "0 \<le> kid_weight k" "0 \<le> mpnc_weight opened c" "0 \<le> queue_weight q" for m k c q
    by (auto simp: ask_weight_def kid_weight_def mpnc_weight_def queue_weight_def split: option.splits)
  then show ?thesis by (simp add: mpn_left_def total_nonneg)
qed

lemma total_Nil: "total_of f [] = 0"
  by (simp add: total_of_def)

lemma total_append: "total_of f (xs @ ys) = total_of f xs + total_of f ys"
  by (simp add: total_of_def)

lemma total_Cons: "total_of f (x # xs) = f x + total_of f xs"
  by (simp add: total_of_def)

lemmas mpn_weights = mpn_left_def total_update total_append total_Cons total_Nil ask_weight_def kid_weight_def mpnc_weight_def queue_weight_def

lemma msgrcv_total: "msgrcv t q = Some (d, q') \<Longrightarrow> total_of f q = f (t, d) + total_of f q' \<and> length q = Suc (length q')"
  by (induction q arbitrary: q') (auto simp: total_Cons split: if_splits)

lemma mpn_step_left:
  assumes inv: "mpn_inv opened cls s" and step: "mpn_step qbytes opened s t"
  shows "mpn_left opened t < mpn_left opened s"
proof -
  have len: "length (mpn_queues s) = length (mpn_clients s)" using inv by (simp add: mpn_inv_def)
  consider (client) i where "i < length (mpn_clients s)" "mpn_client qbytes i s = Some t" | (server) "mpn_server opened s = Some t"
    | (kid) k where "k < length (mpn_kids s)" "mpn_kid qbytes k s = Some t" using step by (auto simp: mpn_step_def)
  then show ?thesis
  proof cases
    case (client i)
    show ?thesis
    proof (cases "rq_pc (mpn_clients s ! i)")
      case Rq_send
      with client show ?thesis by (auto simp: mpn_client_def Let_def mpn_weights rq_request_def dest!: msgsnd_Some)
    next
      case Rq_recv
      then obtain q d q' where q: "mpn_queues s ! i = Some q" "msgrcv 1 q = Some (d, q')"
        using client by (auto simp: mpn_client_def Let_def bind_eq_Some_conv split: option.splits)
      with Rq_recv client len msgrcv_total [OF q(2), of "\<lambda>_. 0"] show ?thesis by (auto simp: mpn_client_def Let_def mpn_weights)
    next
      case Rq_done
      with client len show ?thesis by (auto simp: mpn_client_def Let_def mpn_weights split: if_splits option.splits)
    qed
  next
    case server
    then obtain d q where rcv: "msgrcv 1 (mpn_main s) = Some (d, q)" by (auto simp: mpn_server_def split: option.splits)
    with server msgrcv_total [OF rcv, of "ask_weight opened"] show ?thesis
      by (auto simp: mpn_server_def mpn_weights split: option.splits prod.splits)
  next
    case (kid k)
    obtain num td where td: "mpn_kids s ! k = (num, td)" by (cases "mpn_kids s ! k")
    show ?thesis
    proof (cases "mpn_find num s")
      case None
      with kid td show ?thesis by (cases td; cases "the td") (auto simp: mpn_kid_def mpn_weights)
    next
      case (Some j)
      then have "j < length (mpn_clients s)" "mpn_queues s ! j \<noteq> None" by (auto simp: mpn_find_def find_Some_iff)
      with Some kid td len show ?thesis
        by (cases td; cases "the td") (auto simp: mpn_kid_def mpn_weights dest!: msgsnd_Some)
    qed
  qed
qed

lemma mpn_start_inv: "mpn_setup opened cls \<Longrightarrow> mpn_inv opened cls (mpn_start cls)"
  by (auto simp: mpn_inv_def mpn_start_def mpn_client_ok_def mpn_ok_def nth_map o_def intro!: map_idI split: prod.splits)

interpretation mpn: ending_runs "\<lambda>s. s = mpn_start cls \<and> mpn_setup opened cls \<and> MAXMESGDATA \<le> qbytes" "mpn_step qbytes opened"
  "\<lambda>s. mpn_setup opened cls \<and> MAXMESGDATA \<le> qbytes \<and> mpn_inv opened cls s" "mpn_left opened" mpn_finished for cls opened qbytes
proof
  show "mpn_setup opened cls \<and> MAXMESGDATA \<le> qbytes \<and> mpn_inv opened cls t"
    if "mpn_setup opened cls \<and> MAXMESGDATA \<le> qbytes \<and> mpn_inv opened cls s" "mpn_step qbytes opened s t" for s t
    using that mpn_client_keeps mpn_server_keeps mpn_kid_keeps unfolding mpn_step_def by blast
qed (auto simp: mpn_start_inv mpn_step_left mpn_left_nonneg mpn_enabled)

section \<open>Properties\<close>

text \<open>
  C20. The server of \<open>svmsgmpxnq\<close>, for clients with different queues and files without null bytes, under every
  interleaving of the clients, the server and its processes: each client prints a beginning of the answer
  to its own request, the file or the error line, and the whole answer when it removes its queue; when a
  queue has room for one message, some process can run until all clients and all processes of the server
  have ended; and every run is finite.
\<close>

theorem mpn_delivers:
  assumes "mpn_setup opened cls" and "MAXMESGDATA \<le> qbytes"
    and "path_steps (mpn_step qbytes opened) (mpn_start cls) ts" and "s = last (mpn_start cls # ts)" and "j < length cls"
  shows "prefix (rq_out (mpn_clients s ! j)) (mpx_answer opened (fst (cls ! j)) (snd (cls ! j))) \<and>
    (mpn_queues s ! j = None \<longrightarrow> rq_out (mpn_clients s ! j) = mpx_answer opened (fst (cls ! j)) (snd (cls ! j))) \<and>
    (mpn_finished s \<or> (\<exists>t. mpn_step qbytes opened s t)) \<and>
    int (length ts) \<le> mpn_left opened (mpn_start cls)"
proof -
  note run = mpn.ends [of opened cls qbytes, OF conjI [OF assms(1) conjI [OF assms(2) mpn_start_inv [OF assms(1)]]] assms(3), folded assms(4)]
  then have inv: "mpn_inv opened cls s" by blast
  then have j: "j < length (mpn_clients s)" using assms(5) by (auto simp: mpn_inv_def)
  let ?c = "mpn_clients s ! j"
  note facts = mpn_client_facts [OF assms(1) inv j]
  have ans: "concat (rq_reply opened ?c) = mpx_answer opened (fst (cls ! j)) (snd (cls ! j))"
    using rq_reply_answer [OF facts(2)] assms(1) facts(3) by (simp add: mpn_setup_def)
  have ok: "mpn_ok opened ?c ((1, rq_request ?c) \<in> set (mpn_main s)) (map_of (mpn_kids s) (int (rq_pid ?c))) (mpn_queues s ! j)"
    using mpn_own(1) [OF inv j] by (simp add: mpn_client_ok_def Let_def)
  have "prefix (concat (take n xs)) (concat xs)" for n and xs :: "byte list list"
    by (metis append_take_drop_id concat_append prefixI)
  then have "prefix (rq_out ?c) (concat (rq_reply opened ?c))" using ok by (cases "rq_pc ?c") (auto simp: mpn_ok_def)
  moreover have "mpn_queues s ! j = None \<longrightarrow> rq_out ?c = concat (rq_reply opened ?c)" using ok by (cases "rq_pc ?c") (auto simp: mpn_ok_def)
  ultimately show ?thesis using run unfolding ans by blast
qed

theorem mpn_delivers_witness:
  "\<exists>t. mpn_step MAXMESGDATA (\<lambda>path. Inr [104, 105, 10]) (mpn_start [(0, [97, 10]), (7, [98])]) t"
proof -
  have "mpn_setup (\<lambda>path. Inr [104, 105, 10]) [(0, [97, 10]), (7, [98])]" by (simp add: mpn_setup_def)
  from mpn_delivers [OF this, of MAXMESGDATA "[]" _ 0] show ?thesis by (simp add: mpn_finished_def mpn_start_def)
qed

end
