(* ===== verification/Px_Many.thy ===== *)
theory Px_Many
  imports Px_Multi
begin

text \<open>
  \<open>src/pxsem/prodcons3.c\<close>: several producers and one consumer share a circular buffer under three
  semaphores. A producer that finds all items put gives back its slot before it ends, so that the others
  come to the end too. The producers have the places of those of \<open>prodcons4.c\<close> in \<open>Px_Multi\<close>.
\<close>

section \<open>The program\<close>

datatype ycons_pc = YC_test | YC_nstored | YC_mutex | YC_body | YC_unlock | YC_nempty | YC_done

record many =
  y_buff :: "int list"
  y_nput :: int
  y_nputval :: int
  y_mutex :: nat
  y_nempty :: nat
  y_nstored :: nat
  y_prods :: "mprod_pc list"
  y_count :: "int list"
  y_cons :: ycons_pc
  y_i :: int
  y_printed :: "(int \<times> int) list"

definition y_at :: "nat \<Rightarrow> mprod_pc \<Rightarrow> many \<Rightarrow> many" where
  "y_at j p s = s\<lparr>y_prods := (y_prods s)[j := p]\<rparr>"

definition many_put :: "int \<Rightarrow> nat \<Rightarrow> many \<Rightarrow> many" where
  "many_put nitems j s =
    (if nitems \<le> y_nput s then y_at j MP_x_nempty s
     else y_at j MP_unlock
       (s\<lparr>y_buff := (y_buff s)[nat (y_nput s mod int NBUFF) := y_nputval s],
          y_nput := y_nput s + 1, y_nputval := y_nputval s + 1\<rparr>))"

definition many_produce :: "int \<Rightarrow> nat \<Rightarrow> many \<Rightarrow> many option" where
  "many_produce nitems j s =
    (case y_prods s ! j of
      MP_nempty \<Rightarrow> map_option (\<lambda>q. y_at j MP_mutex (s\<lparr>y_nempty := q\<rparr>)) (px_wait (y_nempty s))
    | MP_mutex \<Rightarrow> map_option (\<lambda>q. y_at j MP_body (s\<lparr>y_mutex := q\<rparr>)) (px_wait (y_mutex s))
    | MP_body \<Rightarrow> Some (many_put nitems j s)
    | MP_unlock \<Rightarrow> map_option (\<lambda>q. y_at j MP_nstored (s\<lparr>y_mutex := q\<rparr>)) (px_post (y_mutex s))
    | MP_nstored \<Rightarrow> map_option (\<lambda>q. y_at j MP_count (s\<lparr>y_nstored := q\<rparr>)) (px_post (y_nstored s))
    | MP_count \<Rightarrow> Some (y_at j MP_nempty (s\<lparr>y_count := (y_count s)[j := y_count s ! j + 1]\<rparr>))
    | MP_x_nempty \<Rightarrow> map_option (\<lambda>q. y_at j MP_x_mutex (s\<lparr>y_nempty := q\<rparr>)) (px_post (y_nempty s))
    | MP_x_mutex \<Rightarrow> map_option (\<lambda>q. y_at j MP_done (s\<lparr>y_mutex := q\<rparr>)) (px_post (y_mutex s))
    | _ \<Rightarrow> None)"

definition many_consume :: "int \<Rightarrow> many \<Rightarrow> many option" where
  "many_consume nitems s =
    (let i = y_i s; v = y_buff s ! nat (i mod int NBUFF) in
     case y_cons s of
      YC_test \<Rightarrow> Some (s\<lparr>y_cons := (if i < nitems then YC_nstored else YC_done)\<rparr>)
    | YC_nstored \<Rightarrow> map_option (\<lambda>q. s\<lparr>y_nstored := q, y_cons := YC_mutex\<rparr>) (px_wait (y_nstored s))
    | YC_mutex \<Rightarrow> map_option (\<lambda>q. s\<lparr>y_mutex := q, y_cons := YC_body\<rparr>) (px_wait (y_mutex s))
    | YC_body \<Rightarrow> Some (s\<lparr>y_printed := (if v \<noteq> i then y_printed s @ [(i, v)] else y_printed s), y_cons := YC_unlock\<rparr>)
    | YC_unlock \<Rightarrow> map_option (\<lambda>q. s\<lparr>y_mutex := q, y_cons := YC_nempty\<rparr>) (px_post (y_mutex s))
    | YC_nempty \<Rightarrow> map_option (\<lambda>q. s\<lparr>y_nempty := q, y_i := i + 1, y_cons := YC_test\<rparr>) (px_post (y_nempty s))
    | YC_done \<Rightarrow> None)"

definition many_step :: "int \<Rightarrow> many \<Rightarrow> many \<Rightarrow> bool" where
  "many_step nitems s t \<longleftrightarrow>
    (\<exists>j < length (y_prods s). many_produce nitems j s = Some t) \<or> many_consume nitems s = Some t"

definition many_start :: "int \<Rightarrow> many" where
  "many_start nproducers =
    (let p = nat (min nproducers MAX_N_THREADS) in
     \<lparr>y_buff = replicate NBUFF 0, y_nput = 0, y_nputval = 0, y_mutex = 1, y_nempty = NBUFF, y_nstored = 0,
      y_prods = replicate p MP_nempty, y_count = replicate p 0, y_cons = YC_test, y_i = 0, y_printed = []\<rparr>)"

definition many_joined :: "many \<Rightarrow> bool" where
  "many_joined s \<longleftrightarrow> list_all (\<lambda>p. p = MP_done) (y_prods s) \<and> y_cons s = YC_done"

section \<open>The invariant\<close>

definition yc_lock :: "ycons_pc \<Rightarrow> int" where
  "yc_lock c = (if c = YC_body \<or> c = YC_unlock then 1 else 0)"

definition yc_item :: "ycons_pc \<Rightarrow> int" where
  "yc_item c = (if c \<in> {YC_mutex, YC_body, YC_unlock, YC_nempty} then 1 else 0)"

definition many_sems :: "many \<Rightarrow> bool" where
  "many_sems s \<longleftrightarrow>
    int (y_mutex s) = 1 - total_of mp_lock (y_prods s) - yc_lock (y_cons s) \<and>
    int (y_nempty s) = 10 - (y_nput s - y_i s) - total_of mp_slot (y_prods s) \<and>
    int (y_nstored s) = y_nput s - y_i s - total_of mp_stored (y_prods s) - yc_item (y_cons s) \<and>
    list_all (\<lambda>p. p \<noteq> MP_x_nstored) (y_prods s)"

definition many_ring :: "int \<Rightarrow> many \<Rightarrow> bool" where
  "many_ring nitems s \<longleftrightarrow>
    0 \<le> y_i s \<and> y_i s \<le> y_nput s \<and> y_nput s \<le> max 0 nitems \<and> y_nputval s = y_nput s \<and>
    buff_holds (y_buff s) (y_i s) (y_nput s) \<and> y_printed s = [] \<and> (y_cons s = YC_done \<longrightarrow> nitems \<le> y_i s) \<and>
    (y_cons s = YC_nstored \<longrightarrow> y_i s < nitems) \<and>
    list_all (\<lambda>p. mp_leaving p \<longrightarrow> nitems \<le> y_nput s) (y_prods s)"

definition many_counts :: "many \<Rightarrow> bool" where
  "many_counts s \<longleftrightarrow>
    length (y_count s) = length (y_prods s) \<and> sum_list (y_count s) = y_nput s - total_of mp_uncounted (y_prods s)"

definition many_inv :: "int \<Rightarrow> many \<Rightarrow> bool" where
  [inv_defs]: "many_inv nitems s \<longleftrightarrow> many_sems s \<and> many_ring nitems s \<and> many_counts s \<and> y_prods s \<noteq> []"

fun yc_rank :: "ycons_pc \<Rightarrow> int" where
  "yc_rank YC_test = 6" | "yc_rank YC_nstored = 5" | "yc_rank YC_mutex = 4" | "yc_rank YC_body = 3"
| "yc_rank YC_unlock = 2" | "yc_rank YC_nempty = 1" | "yc_rank YC_done = 0"

definition many_left :: "int \<Rightarrow> many \<Rightarrow> int" where
  "many_left nitems s =
    6 * (max 0 nitems - y_nput s) + total_of mp_rank (y_prods s) + 6 * (max 0 nitems - y_i s) + yc_rank (y_cons s)"

lemma list_all_update: "list_all P xs \<Longrightarrow> P x \<Longrightarrow> list_all P (xs[j := x])"
  by (auto simp: list_all_iff dest: in_set_updateD)

lemmas many_simps = y_at_def total_update sum_list_update_int px_sem_simps of_nat_diff

lemma many_put_keeps:
  assumes inv: "many_inv nitems s" and j: "j < length (y_prods s)" and pc: "y_prods s ! j = MP_body"
  shows "many_inv nitems (many_put nitems j s)"
proof (cases "nitems \<le> y_nput s")
  case True
  then show ?thesis using inv j pc
    by (simp add: many_put_def many_inv_def many_sems_def many_ring_def many_counts_def many_simps list_all_update)
next
  case False
  have "y_nput s < y_i s + 10" using inv mp_totals_nth(1) [OF j] pc by (auto simp: many_inv_def many_sems_def)
  moreover have "buff_holds (y_buff s) (y_i s) (y_nput s)" "0 \<le> y_i s" "y_i s \<le> y_nput s" "y_nputval s = y_nput s"
    using inv by (auto simp: many_inv_def many_ring_def)
  ultimately have "buff_holds ((y_buff s)[nat (y_nput s mod 10) := y_nputval s]) (y_i s) (y_nput s + 1)"
    by (simp add: buff_holds_store)
  moreover have "list_all (\<lambda>p. mp_leaving p \<longrightarrow> nitems \<le> y_nput s + 1) (y_prods s)"
    using inv by (auto simp: many_inv_def many_ring_def list_all_iff)
  ultimately show ?thesis using False inv j pc
    by (simp add: many_put_def many_inv_def many_sems_def many_ring_def many_counts_def many_simps list_all_update)
qed

lemma many_produce_keeps:
  assumes inv: "many_inv nitems s" and j: "j < length (y_prods s)" and run: "many_produce nitems j s = Some t"
  shows "many_inv nitems t"
proof (cases "y_prods s ! j = MP_body")
  case True
  with run many_put_keeps [OF inv j] show ?thesis by (simp add: many_produce_def)
next
  case False
  have leave: "mp_leaving (y_prods s ! j) \<Longrightarrow> nitems \<le> y_nput s" "y_prods s ! j \<noteq> MP_x_nstored"
    using inv j by (auto simp: many_inv_def many_ring_def many_sems_def list_all_length)
  have parts: "many_sems s" "many_ring nitems s" "many_counts s" "y_prods s \<noteq> []" using inv by (simp_all add: many_inv_def)
  have "many_sems t" using run False parts(1) j leave(2)
    by (cases "y_prods s ! j")
      (auto simp: many_produce_def many_sems_def many_simps intro!: list_all_update split: if_splits)
  moreover have "many_ring nitems t" using run False parts(2) leave
    by (cases "y_prods s ! j") (auto simp: many_produce_def many_ring_def y_at_def intro!: list_all_update)
  moreover have "many_counts t \<and> y_prods t \<noteq> []" using run False parts(3,4) j
    by (cases "y_prods s ! j") (auto simp: many_produce_def many_counts_def y_at_def total_update sum_list_update_int)
  ultimately show ?thesis by (simp add: many_inv_def)
qed

lemma many_consume_keeps:
  assumes inv: "many_inv nitems s" and run: "many_consume nitems s = Some t"
  shows "many_inv nitems t"
proof (cases "y_cons s = YC_body")
  case True
  have "y_i s < y_nput s" using inv True mp_totals(3) [of "y_prods s"] by (auto simp: many_inv_def many_sems_def yc_item_def)
  then have "y_buff s ! nat (y_i s mod 10) = y_i s"
    using inv by (intro buff_holds_read) (auto simp: many_inv_def many_ring_def)
  with run True inv show ?thesis
    by (auto simp: many_consume_def Let_def many_inv_def many_sems_def many_ring_def many_counts_def yc_lock_def yc_item_def)
next
  case False
  have item: "y_i s + yc_item (y_cons s) \<le> y_nput s"
    using inv mp_totals(3) [of "y_prods s"] by (auto simp: many_inv_def many_sems_def)
  have buff: "buff_holds (y_buff s) (y_i s + 1) (y_nput s)"
    using inv by (auto simp: many_inv_def many_ring_def intro: buff_holds_mono)
  have parts: "many_sems s" "many_ring nitems s" "many_counts s" "y_prods s \<noteq> []" using inv by (simp_all add: many_inv_def)
  have "many_sems t" using run False parts(1)
    by (cases "y_cons s")
      (auto simp: many_consume_def Let_def many_sems_def yc_lock_def yc_item_def px_sem_simps of_nat_diff split: if_splits)
  moreover have "many_ring nitems t" using run False parts(2) item buff
    by (cases "y_cons s") (auto simp: many_consume_def Let_def many_ring_def yc_item_def split: if_splits)
  moreover have "many_counts t \<and> y_prods t \<noteq> []" using run False parts(3,4)
    by (cases "y_cons s") (auto simp: many_consume_def Let_def many_counts_def)
  ultimately show ?thesis by (simp add: many_inv_def)
qed

lemma many_step_left:
  assumes inv: "many_inv nitems s" and step: "many_step nitems s t"
  shows "many_left nitems t < many_left nitems s"
proof -
  from step consider (prod) j where "j < length (y_prods s)" "many_produce nitems j s = Some t"
    | (cons) "many_consume nitems s = Some t" by (auto simp: many_step_def)
  then show ?thesis
  proof cases
    case (prod j)
    then show ?thesis
      by (cases "y_prods s ! j") (auto simp: many_produce_def many_put_def many_left_def y_at_def total_update)
  next
    case cons
    then show ?thesis by (cases "y_cons s") (auto simp: many_consume_def Let_def many_left_def)
  qed
qed

section \<open>Progress\<close>

lemma many_bounds:
  assumes "many_inv nitems s"
  shows "y_mutex s \<le> 1" "y_nempty s \<le> 10" "y_nstored s \<le> 10"
  using assms mp_totals [of "y_prods s"]
  by (auto simp: many_inv_def many_sems_def many_ring_def yc_lock_def yc_item_def split: if_splits)

lemma many_enabled:
  assumes inv: "many_inv nitems s" and "\<not> many_joined s"
  shows "\<exists>t. many_step nitems s t"
proof (rule ccontr)
  assume stuck: "\<not> ?thesis"
  have pnone: "many_produce nitems j s = None" if "j < length (y_prods s)" for j
    using stuck that unfolding many_step_def by (metis option.exhaust)
  have cnone: "many_consume nitems s = None" using stuck unfolding many_step_def by (metis option.exhaust)
  have xn: "y_prods s ! j \<noteq> MP_x_nstored" if "j < length (y_prods s)" for j
    using inv that by (simp add: many_inv_def many_sems_def list_all_length)
  have p: "y_prods s ! j \<in> {MP_nempty, MP_mutex, MP_done}" if "j < length (y_prods s)" for j
    using pnone [OF that] xn [OF that] many_bounds [OF inv] by (cases "y_prods s ! j") (auto simp: many_produce_def px_post_def)
  have c: "y_cons s \<in> {YC_nstored, YC_mutex, YC_done}"
    using cnone many_bounds [OF inv] by (cases "y_cons s") (auto simp: many_consume_def Let_def px_post_def)
  have "p \<in> {MP_nempty, MP_mutex, MP_done}" if "p \<in> set (y_prods s)" for p using p that by (auto simp: in_set_conv_nth)
  then have "total_of mp_lock (y_prods s) = 0" "total_of mp_stored (y_prods s) = 0" by (force intro: total_eq_0)+
  with inv c have mutex: "y_mutex s = 1" and stored: "int (y_nstored s) = y_nput s - y_i s - yc_item (y_cons s)"
    by (auto simp: many_inv_def many_sems_def yc_lock_def)
  have p': "y_prods s ! j \<noteq> MP_mutex" if "j < length (y_prods s)" for j
    using pnone [OF that] mutex by (auto simp: many_produce_def px_wait_def)
  have c': "y_cons s \<in> {YC_nstored, YC_done}" using c cnone mutex by (auto simp: many_consume_def Let_def px_wait_def)
  then have item: "int (y_nstored s) = y_nput s - y_i s" using stored by (auto simp: yc_item_def)
  have done_cons: "y_cons s = YC_done" if "0 < y_nstored s" using that cnone c' by (auto simp: many_consume_def Let_def px_wait_def)
  have ring: "y_cons s = YC_done \<longrightarrow> nitems \<le> y_i s" "y_cons s = YC_nstored \<longrightarrow> y_i s < nitems" "y_nput s \<le> max 0 nitems" "0 \<le> y_i s"
    using inv by (auto simp: many_inv_def many_ring_def)
  show False
  proof (cases "MP_nempty \<in> set (y_prods s)")
    case True
    then obtain j where "j < length (y_prods s)" "y_prods s ! j = MP_nempty" by (auto simp: in_set_conv_nth)
    then have "y_nempty s = 0" using pnone by (fastforce simp: many_produce_def px_wait_def split: if_splits)
    moreover have "total_of mp_slot (y_prods s) = 0" using p p' by (intro total_eq_0) (force simp: in_set_conv_nth)
    ultimately have "y_nput s - y_i s = 10" using inv by (simp add: many_inv_def many_sems_def)
    then show False using item done_cons ring by auto
  next
    case False
    then have d: "y_prods s ! j = MP_done" if "j < length (y_prods s)" for j using p [OF that] p' [OF that] that by (metis insert_iff nth_mem empty_iff)
    then have "nitems \<le> y_nput s" using inv by (cases "y_prods s") (fastforce simp: many_inv_def many_ring_def)+
    with item done_cons ring c' have "y_cons s = YC_done" by auto
    with d assms(2) show False by (auto simp: many_joined_def list_all_length)
  qed
qed

lemma many_left_nonneg: "many_inv nitems s \<Longrightarrow> 0 \<le> many_left nitems s"
proof -
  assume "many_inv nitems s"
  moreover have "0 \<le> mp_rank p" for p by (cases p) simp_all
  then have "0 \<le> total_of mp_rank (y_prods s)" by (rule total_nonneg)
  moreover have "0 \<le> yc_rank (y_cons s)" by (cases "y_cons s") simp_all
  ultimately show ?thesis by (auto simp: many_inv_def many_ring_def many_left_def)
qed

lemma many_start_inv: "1 \<le> p \<Longrightarrow> many_inv nitems (many_start p)"
  by (auto simp: many_inv_def many_sems_def many_ring_def many_counts_def many_start_def Let_def buff_holds_def
      yc_lock_def yc_item_def sum_list_replicate list_all_iff)

interpretation many: ending_runs "\<lambda>s. \<exists>p \<ge> 1. s = many_start p" "many_step nitems" "many_inv nitems" "many_left nitems" many_joined
  for nitems
proof
  show "many_inv nitems t" if "many_inv nitems s" "many_step nitems s t" for s t
    using that many_produce_keeps many_consume_keeps unfolding many_step_def by blast
qed (auto simp: many_start_inv many_step_left many_left_nonneg many_enabled)

section \<open>Properties\<close>

text \<open>
  \<open>prodcons3.c\<close> with at least one producer: under every interleaving no mismatch is printed, some thread
  can run until all have returned, every run is finite, and at the end the counters of the producers add
  up to the number of items, all of which the consumer has checked.
\<close>

lemma px_prodcons3_correct:
  assumes "path_steps (many_step nitems) (many_start p) ts" and "s = last (many_start p # ts)" and "1 \<le> p"
  shows "y_printed s = [] \<and> (many_joined s \<or> (\<exists>t. many_step nitems s t)) \<and>
    length ts \<le> 12 * nat nitems + 706 \<and>
    (many_joined s \<longrightarrow> sum_list (y_count s) = max 0 nitems \<and> y_i s = max 0 nitems)"
proof -
  note run = many.ends [OF many_start_inv [OF assms(3)] assms(1), folded assms(2)]
  then have inv: "many_inv nitems s" by blast
  have "many_left nitems (many_start p) \<le> 12 * max 0 nitems + 706" using assms(3) by (auto simp: many_left_def many_start_def Let_def)
  then have "length ts \<le> 12 * nat nitems + 706" using run by linarith
  moreover have "sum_list (y_count s) = max 0 nitems \<and> y_i s = max 0 nitems" if "many_joined s"
  proof -
    have d: "\<forall>p \<in> set (y_prods s). p = MP_done" and c: "y_cons s = YC_done" using that by (auto simp: many_joined_def list_all_iff)
    then have "total_of mp_uncounted (y_prods s) = 0" by (auto intro!: total_eq_0)
    moreover have "nitems \<le> y_nput s"
      using d inv by (cases "y_prods s") (auto simp: many_inv_def many_ring_def)
    ultimately show ?thesis using c inv by (auto simp: many_inv_def many_ring_def many_counts_def)
  qed
  ultimately show ?thesis using run inv by (auto simp: many_inv_def many_ring_def)
qed

end
