(* ===== verification/Bench_Lat.thy ===== *)
theory Bench_Lat
  imports Svmsg_Serv
begin

text \<open>
  \<open>src/bench/lat_pipe.c\<close>, \<open>lat_pxmsg.c\<close> and \<open>lat_svmsg.c\<close>: a parent sends a message to its child and waits for the
  answer, again and again. The times are not modelled. The three programs differ in the channel between parent
  and child; what they rely on is the locale \<open>ping_pong\<close>, and its interpretations are the two pipes, the two POSIX
  queues and the one System V queue with a type for each direction.
\<close>

section \<open>Parent and child\<close>

text \<open>\<open>Lp_quit\<close> and \<open>Lc_quit\<close>: \<open>err_quit\<close> was called, as a message did not have the size it should have.\<close>

datatype lat_parent_pc = Lp_send | Lp_recv | Lp_exit | Lp_quit
datatype lat_child_pc = Lc_recv | Lc_send | Lc_quit

record 'c lat =
  lt_chan :: 'c
  lt_parent :: lat_parent_pc
  lt_i :: int
  lt_answers :: "byte list list"
  lt_child :: lat_child_pc
  lt_buf :: "byte list"

text \<open>
  The channel has four operations: the parent sends and the child receives, the child sends and the parent receives;
  \<open>None\<close> is a call that waits. \<open>doit\<close> sends a buffer that it has not written to: \<open>c k\<close> is what call \<open>k\<close> of it finds
  there. It is called once before the loop, when \<open>i\<close> is taken as \<open>- 1\<close>.
\<close>

definition lat_doit ::
  "(byte list \<Rightarrow> 'c \<Rightarrow> 'c option) \<Rightarrow> ('c \<Rightarrow> (byte list \<times> 'c) option) \<Rightarrow> nat \<Rightarrow> (nat \<Rightarrow> byte list) \<Rightarrow> int
    \<Rightarrow> 'c lat \<Rightarrow> 'c lat option" where
  "lat_doit send recv len c nloop s =
    (case lt_parent s of
      Lp_send \<Rightarrow> map_option (\<lambda>ch. s\<lparr>lt_chan := ch, lt_parent := Lp_recv\<rparr>) (send (c (nat (lt_i s + 1))) (lt_chan s))
    | Lp_recv \<Rightarrow> map_option (\<lambda>(d, ch).
        if length d \<noteq> len then s\<lparr>lt_chan := ch, lt_parent := Lp_quit\<rparr>
        else s\<lparr>lt_chan := ch, lt_answers := lt_answers s @ [d], lt_i := lt_i s + 1,
               lt_parent := (if lt_i s + 1 < nloop then Lp_send else Lp_exit)\<rparr>) (recv (lt_chan s))
    | _ \<Rightarrow> None)"

definition lat_echo ::
  "('c \<Rightarrow> (byte list \<times> 'c) option) \<Rightarrow> (byte list \<Rightarrow> 'c \<Rightarrow> 'c option) \<Rightarrow> nat \<Rightarrow> 'c lat \<Rightarrow> 'c lat option" where
  "lat_echo recv send len s =
    (case lt_child s of
      Lc_recv \<Rightarrow> map_option (\<lambda>(d, ch).
        if length d \<noteq> len then s\<lparr>lt_chan := ch, lt_child := Lc_quit\<rparr>
        else s\<lparr>lt_chan := ch, lt_buf := d, lt_child := Lc_send\<rparr>) (recv (lt_chan s))
    | Lc_send \<Rightarrow> map_option (\<lambda>ch. s\<lparr>lt_chan := ch, lt_child := Lc_recv\<rparr>) (send (lt_buf s) (lt_chan s))
    | Lc_quit \<Rightarrow> None)"

definition lat_steps ::
  "(byte list \<Rightarrow> 'c \<Rightarrow> 'c option) \<Rightarrow> ('c \<Rightarrow> (byte list \<times> 'c) option) \<Rightarrow> ('c \<Rightarrow> (byte list \<times> 'c) option)
    \<Rightarrow> (byte list \<Rightarrow> 'c \<Rightarrow> 'c option) \<Rightarrow> nat \<Rightarrow> (nat \<Rightarrow> byte list) \<Rightarrow> int \<Rightarrow> 'c lat \<Rightarrow> 'c lat \<Rightarrow> bool" where
  "lat_steps send1 recv2 recv1 send2 len c nloop s t \<longleftrightarrow>
    lat_doit send1 recv2 len c nloop s = Some t \<or> lat_echo recv1 send2 len s = Some t"

text \<open>The channel is empty at the start: \<open>lat_pxmsg.c\<close> relies on queues of these names not having been left behind.\<close>

definition lat_start :: "'c \<Rightarrow> 'c lat" where
  "lat_start ch = \<lparr>lt_chan = ch, lt_parent = Lp_send, lt_i = - 1, lt_answers = [], lt_child = Lc_recv, lt_buf = []\<rparr>"

section \<open>The three channels\<close>

text \<open>Two pipes with room for \<open>cap\<close> bytes: the parent writes to the first and reads from the second.\<close>

definition on_first :: "('p \<Rightarrow> 'p option) \<Rightarrow> 'p \<times> 'p \<Rightarrow> ('p \<times> 'p) option" where
  "on_first f ch = map_option (\<lambda>p. (p, snd ch)) (f (fst ch))"

definition on_second :: "('p \<Rightarrow> 'p option) \<Rightarrow> 'p \<times> 'p \<Rightarrow> ('p \<times> 'p) option" where
  "on_second f ch = map_option (\<lambda>q. (fst ch, q)) (f (snd ch))"

definition from_first :: "('p \<Rightarrow> ('d \<times> 'p) option) \<Rightarrow> 'p \<times> 'p \<Rightarrow> ('d \<times> 'p \<times> 'p) option" where
  "from_first f ch = map_option (\<lambda>(d, p). (d, p, snd ch)) (f (fst ch))"

definition from_second :: "('p \<Rightarrow> ('d \<times> 'p) option) \<Rightarrow> 'p \<times> 'p \<Rightarrow> ('d \<times> 'p \<times> 'p) option" where
  "from_second f ch = map_option (\<lambda>(d, q). (d, fst ch, q)) (f (snd ch))"

lemmas pair_ops = on_first_def on_second_def from_first_def from_second_def

type_synonym lat_pipes = "byte list \<times> byte list"

definition lat_pipe_put :: "nat \<Rightarrow> byte list \<Rightarrow> byte list \<Rightarrow> byte list option" where
  "lat_pipe_put cap d p = (if length p + length d \<le> cap then Some (p @ d) else None)"

definition lat_pipe_get :: "byte list \<Rightarrow> (byte list \<times> byte list) option" where
  "lat_pipe_get p = (if p = [] then None else Some (take 1 p, drop 1 p))"

definition lat_pipe :: "nat \<Rightarrow> (nat \<Rightarrow> byte list) \<Rightarrow> int \<Rightarrow> lat_pipes lat \<Rightarrow> lat_pipes lat \<Rightarrow> bool" where
  "lat_pipe cap = lat_steps (\<lambda>d. on_first (lat_pipe_put cap d)) (from_second lat_pipe_get)
    (from_first lat_pipe_get) (\<lambda>d. on_second (lat_pipe_put cap d)) 1"

text \<open>Two POSIX queues with room for four messages, all of priority 0.\<close>

type_synonym lat_queues = "byte list list \<times> byte list list"

abbreviation (input) LAT_MAXMSG :: nat where "LAT_MAXMSG \<equiv> 4"

definition lat_mq_put :: "byte list \<Rightarrow> byte list list \<Rightarrow> byte list list option" where
  "lat_mq_put d q = (if length q < LAT_MAXMSG then Some (q @ [d]) else None)"

definition lat_mq_get :: "byte list list \<Rightarrow> (byte list \<times> byte list list) option" where
  "lat_mq_get q = (case q of [] \<Rightarrow> None | d # q' \<Rightarrow> Some (d, q'))"

definition lat_pxmsg :: "(nat \<Rightarrow> byte list) \<Rightarrow> int \<Rightarrow> lat_queues lat \<Rightarrow> lat_queues lat \<Rightarrow> bool" where
  "lat_pxmsg = lat_steps (\<lambda>d. on_first (lat_mq_put d)) (from_second lat_mq_get)
    (from_first lat_mq_get) (\<lambda>d. on_second (lat_mq_put d)) 1"

text \<open>One System V queue: \<open>p2child\<close> has type 1, \<open>child2p\<close> has type 2, and both are without data.\<close>

definition lat_svmsg :: "nat \<Rightarrow> int \<Rightarrow> svmsg list lat \<Rightarrow> svmsg list lat \<Rightarrow> bool" where
  "lat_svmsg qbytes = lat_steps (\<lambda>d. msgsnd qbytes 1 []) (msgrcv 2) (msgrcv 1) (\<lambda>d. msgsnd qbytes 2 []) 0 (\<lambda>k. [])"

section \<open>The contract of the channel\<close>

text \<open>
  What the channel holds: nothing, or one message for the child or for the parent. A message can be sent when nothing
  is there, and then it is there for the other side and for nobody else.
\<close>

datatype mail = Idle | To_child "byte list" | To_parent "byte list" | Jammed

locale ping_pong =
  fixes send1 :: "byte list \<Rightarrow> 'c \<Rightarrow> 'c option"
    and recv2 :: "'c \<Rightarrow> (byte list \<times> 'c) option"
    and recv1 :: "'c \<Rightarrow> (byte list \<times> 'c) option"
    and send2 :: "byte list \<Rightarrow> 'c \<Rightarrow> 'c option"
    and len :: nat
    and view :: "'c \<Rightarrow> mail"
  assumes send1_idle: "view ch = Idle \<Longrightarrow> length d = len \<Longrightarrow> \<exists>ch'. send1 d ch = Some ch' \<and> view ch' = To_child d"
    and send2_idle: "view ch = Idle \<Longrightarrow> length d = len \<Longrightarrow> \<exists>ch'. send2 d ch = Some ch' \<and> view ch' = To_parent d"
    and recv_idle: "view ch = Idle \<Longrightarrow> recv1 ch = None \<and> recv2 ch = None"
    and recv_child: "view ch = To_child d \<Longrightarrow> recv2 ch = None \<and> (\<exists>ch'. recv1 ch = Some (d, ch') \<and> view ch' = Idle)"
    and recv_parent: "view ch = To_parent d \<Longrightarrow> recv1 ch = None \<and> (\<exists>ch'. recv2 ch = Some (d, ch') \<and> view ch' = Idle)"
begin

text \<open>How far a round is: \<open>0\<close> before it, then asked, received, answered.\<close>

definition lat_round :: "(nat \<Rightarrow> byte list) \<Rightarrow> 'c lat \<Rightarrow> int option" where
  "lat_round c s =
    (let d = c (nat (lt_i s + 1)) in
     case (lt_parent s, lt_child s, view (lt_chan s)) of
       (Lp_send, Lc_recv, Idle) \<Rightarrow> Some 0
     | (Lp_exit, Lc_recv, Idle) \<Rightarrow> Some 0
     | (Lp_recv, Lc_recv, To_child e) \<Rightarrow> if e = d then Some 1 else None
     | (Lp_recv, Lc_send, Idle) \<Rightarrow> if lt_buf s = d then Some 2 else None
     | (Lp_recv, Lc_recv, To_parent e) \<Rightarrow> if e = d then Some 3 else None
     | _ \<Rightarrow> None)"

definition lat_inv :: "(nat \<Rightarrow> byte list) \<Rightarrow> int \<Rightarrow> 'c lat \<Rightarrow> bool" where
  "lat_inv c nloop s \<longleftrightarrow>
    lat_round c s \<noteq> None \<and> - 1 \<le> lt_i s \<and> lt_i s \<le> max 0 nloop \<and>
    (lt_parent s = Lp_exit \<longleftrightarrow> lt_i s = max 0 nloop) \<and> lt_answers s = map c [0..<nat (lt_i s + 1)]"

definition lat_left :: "(nat \<Rightarrow> byte list) \<Rightarrow> int \<Rightarrow> 'c lat \<Rightarrow> int" where
  "lat_left c nloop s = 4 * (max 0 nloop - lt_i s) - the (lat_round c s)"

lemma round_cases:
  assumes "lat_inv c nloop s"
  obtains (before) "lt_parent s \<noteq> Lp_recv" "lt_parent s \<noteq> Lp_quit" "lt_child s = Lc_recv" "view (lt_chan s) = Idle" "lat_round c s = Some 0"
  | (asked) "lt_parent s = Lp_recv" "lt_child s = Lc_recv" "view (lt_chan s) = To_child (c (nat (lt_i s + 1)))" "lat_round c s = Some 1"
  | (received) "lt_parent s = Lp_recv" "lt_child s = Lc_send" "view (lt_chan s) = Idle" "lt_buf s = c (nat (lt_i s + 1))" "lat_round c s = Some 2"
  | (answered) "lt_parent s = Lp_recv" "lt_child s = Lc_recv" "view (lt_chan s) = To_parent (c (nat (lt_i s + 1)))" "lat_round c s = Some 3"
  using assms unfolding lat_inv_def lat_round_def Let_def
  by (cases "lt_parent s"; cases "lt_child s"; cases "view (lt_chan s)") (simp_all split: if_splits)

lemma lat_step_ok:
  assumes inv: "lat_inv c nloop s" and sized: "\<forall>k. length (c k) = len" and step: "lat_steps send1 recv2 recv1 send2 len c nloop s t"
  shows "lat_inv c nloop t \<and> lat_left c nloop t < lat_left c nloop s"
  using inv
proof (cases rule: round_cases)
  case before
  then have idle: "recv1 (lt_chan s) = None" and "lat_echo recv1 send2 len s = None"
    using recv_idle by (auto simp: lat_echo_def)
  with step have doit: "lat_doit send1 recv2 len c nloop s = Some t" by (simp add: lat_steps_def)
  obtain ch where ch: "send1 (c (nat (lt_i s + 1))) (lt_chan s) = Some ch" "view ch = To_child (c (nat (lt_i s + 1)))"
    using send1_idle before(4) sized by blast
  with doit before have "lt_parent s = Lp_send" and "t = s\<lparr>lt_chan := ch, lt_parent := Lp_recv\<rparr>"
    by (cases "lt_parent s"; simp add: lat_doit_def)+
  with before ch inv show ?thesis by (auto simp: lat_inv_def lat_left_def lat_round_def)
next
  case asked
  then obtain ch where ch: "recv2 (lt_chan s) = None" "recv1 (lt_chan s) = Some (c (nat (lt_i s + 1)), ch)" "view ch = Idle"
    using recv_child by blast
  with step asked sized have "t = s\<lparr>lt_chan := ch, lt_buf := c (nat (lt_i s + 1)), lt_child := Lc_send\<rparr>"
    by (simp add: lat_steps_def lat_doit_def lat_echo_def)
  with asked ch inv show ?thesis by (auto simp: lat_inv_def lat_left_def lat_round_def)
next
  case received
  then obtain ch where ch: "send2 (lt_buf s) (lt_chan s) = Some ch" "view ch = To_parent (c (nat (lt_i s + 1)))"
    using send2_idle sized by metis
  with step received recv_idle [OF received(3)] have "t = s\<lparr>lt_chan := ch, lt_child := Lc_recv\<rparr>"
    by (simp add: lat_steps_def lat_doit_def lat_echo_def)
  with received ch inv show ?thesis by (auto simp: lat_inv_def lat_left_def lat_round_def)
next
  case answered
  then obtain ch where ch: "recv1 (lt_chan s) = None" "recv2 (lt_chan s) = Some (c (nat (lt_i s + 1)), ch)" "view ch = Idle"
    using recv_parent by blast
  with step answered sized have t: "t = s\<lparr>lt_chan := ch, lt_answers := lt_answers s @ [c (nat (lt_i s + 1))], lt_i := lt_i s + 1,
      lt_parent := (if lt_i s + 1 < nloop then Lp_send else Lp_exit)\<rparr>"
    by (simp add: lat_steps_def lat_doit_def lat_echo_def)
  have "nat (lt_i s + 1 + 1) = Suc (nat (lt_i s + 1))" using inv unfolding lat_inv_def by linarith
  with answered ch inv t show ?thesis by (auto simp: lat_inv_def lat_left_def lat_round_def)
qed

lemma lat_goes_on:
  assumes inv: "lat_inv c nloop s" and sized: "\<forall>k. length (c k) = len" and "lt_parent s \<noteq> Lp_exit"
  shows "\<exists>t. lat_steps send1 recv2 recv1 send2 len c nloop s t"
  using inv
proof (cases rule: round_cases)
  case before
  then have "lt_parent s = Lp_send" using assms(3) by (cases "lt_parent s") auto
  with send1_idle [OF before(4)] sized show ?thesis unfolding lat_steps_def lat_doit_def by fastforce
next
  case asked
  with recv_child [OF asked(3)] sized show ?thesis by (auto simp: lat_steps_def lat_echo_def)
next
  case received
  with send2_idle [OF received(3)] sized show ?thesis unfolding lat_steps_def lat_echo_def by fastforce
next
  case answered
  with recv_parent [OF answered(3)] sized show ?thesis by (auto simp: lat_steps_def lat_doit_def)
qed

lemma lat_left_nonneg: "lat_inv c nloop s \<Longrightarrow> 0 \<le> lat_left c nloop s"
  by (cases rule: round_cases) (auto simp: lat_left_def lat_inv_def)

end

sublocale ping_pong \<subseteq> rounds: ending_runs "\<lambda>s. \<exists>ch. s = lat_start ch \<and> view ch = Idle \<and> (\<forall>k. length (c k) = len)"
  "lat_steps send1 recv2 recv1 send2 len c nloop" "\<lambda>s. lat_inv c nloop s \<and> (\<forall>k. length (c k) = len)" "lat_left c nloop" "\<lambda>s. lt_parent s = Lp_exit"
  for c nloop
proof
  show "lat_inv c nloop s \<and> (\<forall>k. length (c k) = len)"
    if "\<exists>ch. s = lat_start ch \<and> view ch = Idle \<and> (\<forall>k. length (c k) = len)" for s
    using that by (auto simp: lat_start_def lat_inv_def lat_round_def)
qed (auto simp: lat_left_nonneg lat_goes_on dest: lat_step_ok)

section \<open>The channels keep the contract\<close>

definition pair_view :: "('m list \<Rightarrow> byte list option) \<Rightarrow> 'm list \<times> 'm list \<Rightarrow> mail" where
  "pair_view one ch =
    (case ch of
      ([], []) \<Rightarrow> Idle
    | (p, []) \<Rightarrow> (case one p of Some d \<Rightarrow> To_child d | None \<Rightarrow> Jammed)
    | ([], q) \<Rightarrow> (case one q of Some d \<Rightarrow> To_parent d | None \<Rightarrow> Jammed)
    | _ \<Rightarrow> Jammed)"

definition svmsg_view :: "svmsg list \<Rightarrow> mail" where
  "svmsg_view q = (case q of [] \<Rightarrow> Idle | [(ty, d)] \<Rightarrow> if d \<noteq> [] then Jammed else if ty = 1 then To_child [] else if ty = 2 then To_parent [] else Jammed | _ \<Rightarrow> Jammed)"

lemma svmsg_view_eqs:
  "svmsg_view q = Idle \<longleftrightarrow> q = []" "svmsg_view q = To_child d \<longleftrightarrow> d = [] \<and> q = [(1, [])]"
  "svmsg_view q = To_parent d \<longleftrightarrow> d = [] \<and> q = [(2, [])]"
  by (auto simp: svmsg_view_def split: list.splits if_splits)

lemma pair_view_eqs:
  "pair_view one ch = Idle \<longleftrightarrow> ch = ([], [])"
  "pair_view one ch = To_child d \<longleftrightarrow> (\<exists>p. ch = (p, []) \<and> p \<noteq> [] \<and> one p = Some d)"
  "pair_view one ch = To_parent d \<longleftrightarrow> (\<exists>q. ch = ([], q) \<and> q \<noteq> [] \<and> one q = Some d)"
  by (cases ch; cases "fst ch"; cases "snd ch"; auto simp: pair_view_def split: option.splits)+

definition one_byte :: "byte list \<Rightarrow> byte list option" where
  "one_byte p = (if length p = 1 then Some p else None)"

definition one_message :: "byte list list \<Rightarrow> byte list option" where
  "one_message q = (case q of [d] \<Rightarrow> Some d | _ \<Rightarrow> None)"

lemma one_message_eq: "one_message q = Some d \<longleftrightarrow> q = [d]"
  by (auto simp: one_message_def split: list.splits)

interpretation pipes: ping_pong "\<lambda>d. on_first (lat_pipe_put (Suc n) d)" "from_second lat_pipe_get"
  "from_first lat_pipe_get" "\<lambda>d. on_second (lat_pipe_put (Suc n) d)" 1 "pair_view one_byte" for n
  by unfold_locales
    (auto simp: pair_ops pair_view_eqs one_byte_def lat_pipe_put_def lat_pipe_get_def length_Suc_conv split: if_splits)

interpretation mqs: ping_pong "\<lambda>d. on_first (lat_mq_put d)" "from_second lat_mq_get"
  "from_first lat_mq_get" "\<lambda>d. on_second (lat_mq_put d)" 1 "pair_view one_message"
  by unfold_locales (auto simp: pair_ops pair_view_eqs one_message_eq lat_mq_put_def lat_mq_get_def)

interpretation svq: ping_pong "\<lambda>d. msgsnd (Suc n) 1 []" "msgrcv 2" "msgrcv 1" "\<lambda>d. msgsnd (Suc n) 2 []" 0 svmsg_view for n
  by unfold_locales (auto simp: svmsg_view_eqs msgsnd_def)

section \<open>Properties\<close>

definition lat_good :: "(nat \<Rightarrow> byte list) \<Rightarrow> int \<Rightarrow> 'c lat \<Rightarrow> bool" where
  "lat_good c nloop s \<longleftrightarrow>
    lt_parent s \<noteq> Lp_quit \<and> lt_child s \<noteq> Lc_quit \<and> lt_answers s = map c [0..<nat (lt_i s + 1)] \<and>
    (lt_parent s = Lp_exit \<longleftrightarrow> lt_i s = max 0 nloop)"

context ping_pong
begin

lemma lat_good_inv: "lat_inv c nloop s \<Longrightarrow> lat_good c nloop s"
  by (cases rule: round_cases) (auto simp: lat_inv_def lat_good_def)

lemma lat_runs:
  assumes "view ch = Idle" and sized: "\<forall>k. length (c k) = len" and "path_steps (lat_steps send1 recv2 recv1 send2 len c nloop) (lat_start ch) ts"
  shows "lat_good c nloop (last (lat_start ch # ts)) \<and> int (length ts) \<le> 4 * (max 0 nloop + 1) \<and>
    (lt_parent (last (lat_start ch # ts)) = Lp_exit \<or> (\<exists>t. lat_steps send1 recv2 recv1 send2 len c nloop (last (lat_start ch # ts)) t))"
proof -
  have inv: "lat_inv c nloop (lat_start ch)" and "lat_left c nloop (lat_start ch) = 4 * (max 0 nloop + 1)"
    using assms(1) by (auto simp: lat_start_def lat_inv_def lat_round_def lat_left_def)
  with rounds.ends [of c nloop "lat_start ch" ts] sized assms(3) show ?thesis using lat_good_inv by auto
qed

end

text \<open>
  The latency programs, for every interleaving of parent and child: no message has a wrong size, call \<open>k\<close> of \<open>doit\<close>
  gets back what it sent, the parent leaves the loop after exactly \<open>nloop\<close> rounds and the one before the loop, within
  four steps for each, and before that one of the two processes can always go on.
\<close>

lemma lat_pipe_correct:
  assumes "1 \<le> cap" and "\<forall>k. length (c k) = 1" and "path_steps (lat_pipe cap c nloop) (lat_start ([], [])) ts"
  shows "lat_good c nloop (last (lat_start ([], []) # ts)) \<and> int (length ts) \<le> 4 * (max 0 nloop + 1) \<and>
    (lt_parent (last (lat_start ([], []) # ts)) = Lp_exit \<or> (\<exists>t. lat_pipe cap c nloop (last (lat_start ([], []) # ts)) t))"
proof -
  obtain n where "cap = Suc n" using assms(1) by (cases cap) auto
  with pipes.lat_runs [of "([], [])" c n nloop ts] assms(2,3) show ?thesis by (simp add: lat_pipe_def pair_view_eqs)
qed

lemma lat_pxmsg_correct:
  assumes "\<forall>k. length (c k) = 1" and "path_steps (lat_pxmsg c nloop) (lat_start ([], [])) ts"
  shows "lat_good c nloop (last (lat_start ([], []) # ts)) \<and> int (length ts) \<le> 4 * (max 0 nloop + 1) \<and>
    (lt_parent (last (lat_start ([], []) # ts)) = Lp_exit \<or> (\<exists>t. lat_pxmsg c nloop (last (lat_start ([], []) # ts)) t))"
  using mqs.lat_runs [of "([], [])" c nloop ts] assms by (simp add: lat_pxmsg_def pair_view_eqs)

lemma lat_svmsg_correct:
  assumes "1 \<le> qbytes" and "path_steps (lat_svmsg qbytes nloop) (lat_start []) ts"
  shows "lat_good (\<lambda>k. []) nloop (last (lat_start [] # ts)) \<and> int (length ts) \<le> 4 * (max 0 nloop + 1) \<and>
    (lt_parent (last (lat_start [] # ts)) = Lp_exit \<or> (\<exists>t. lat_svmsg qbytes nloop (last (lat_start [] # ts)) t))"
proof -
  obtain n where "qbytes = Suc n" using assms(1) by (cases qbytes) auto
  with svq.lat_runs [of "[]" "\<lambda>k. []" n nloop ts] assms(2) show ?thesis by (simp add: lat_svmsg_def svmsg_view_eqs)
qed

end
