(* ===== verification/Bench_Bw.thy ===== *)
theory Bench_Bw
  imports Svmsg_Serv
begin

text \<open>
  \<open>src/bench/bw_pxmsg.c\<close> and \<open>bw_svmsg.c\<close>: a parent asks its child over a pipe for a number of bytes and reads them from
  a message queue, \<open>nloop\<close> times. The times are not modelled. The shared part is the reader and the writer over a
  queue that keeps the locale \<open>message_channel\<close>; its interpretations are the two kinds of queue.
\<close>

section \<open>Reader and writer\<close>

datatype bw_writer_pc = Bw_wait | Bw_write int
datatype bw_reader_pc = Br_ask | Br_read int | Br_exit

record 'q bw =
  bw_cont :: "int list"
  bw_chan :: 'q
  bw_writer :: bw_writer_pc
  bw_reader :: bw_reader_pc
  bw_i :: int

text \<open>\<open>main\<close> leaves its loop, or calls \<open>reader\<close>, which writes its request first.\<close>

definition bw_loop :: "int \<Rightarrow> int \<Rightarrow> bw_reader_pc" where
  "bw_loop nloop i = (if i < nloop then Br_ask else Br_exit)"

text \<open>
  One step of the parent. The pipe \<open>contpipe\<close> has room for \<open>cap\<close> requests; \<open>recv\<close> gives the size of the message, and
  \<open>extra\<close> is what the reader counts for a message beside its data.
\<close>

definition bw_reads :: "nat \<Rightarrow> ('q \<Rightarrow> (int \<times> 'q) option) \<Rightarrow> int \<Rightarrow> int \<Rightarrow> int \<Rightarrow> 'q bw \<Rightarrow> 'q bw option" where
  "bw_reads cap recv extra totalnbytes nloop s =
    (case bw_reader s of
      Br_ask \<Rightarrow>
        if length (bw_cont s) < cap then Some (s\<lparr>bw_cont := bw_cont s @ [totalnbytes], bw_reader := Br_read totalnbytes\<rparr>) else None
    | Br_read nbytes \<Rightarrow>
        if 0 < nbytes
        then map_option (\<lambda>(n, q).
          if 0 < n then s\<lparr>bw_chan := q, bw_reader := Br_read (nbytes - (n + extra))\<rparr>
          else s\<lparr>bw_chan := q, bw_i := bw_i s + 1, bw_reader := bw_loop nloop (bw_i s + 1)\<rparr>) (recv (bw_chan s))
        else Some (s\<lparr>bw_i := bw_i s + 1, bw_reader := bw_loop nloop (bw_i s + 1)\<rparr>)
    | Br_exit \<Rightarrow> None)"

definition bw_writes :: "('q \<Rightarrow> 'q option) \<Rightarrow> int \<Rightarrow> 'q bw \<Rightarrow> 'q bw option" where
  "bw_writes send xfersize s =
    (case bw_writer s of
      Bw_wait \<Rightarrow> (case bw_cont s of [] \<Rightarrow> None | r # rs \<Rightarrow> Some (s\<lparr>bw_cont := rs, bw_writer := Bw_write r\<rparr>))
    | Bw_write ntowrite \<Rightarrow>
        if 0 < ntowrite
        then map_option (\<lambda>q. s\<lparr>bw_chan := q, bw_writer := Bw_write (ntowrite - xfersize)\<rparr>) (send (bw_chan s))
        else Some (s\<lparr>bw_writer := Bw_wait\<rparr>))"

definition bw_steps ::
  "nat \<Rightarrow> ('q \<Rightarrow> 'q option) \<Rightarrow> ('q \<Rightarrow> (int \<times> 'q) option) \<Rightarrow> int \<Rightarrow> int \<Rightarrow> int \<Rightarrow> int \<Rightarrow> 'q bw \<Rightarrow> 'q bw \<Rightarrow> bool" where
  "bw_steps cap send recv extra xfersize totalnbytes nloop s t \<longleftrightarrow>
    bw_reads cap recv extra totalnbytes nloop s = Some t \<or> bw_writes send xfersize s = Some t"

definition bw_start :: "'q \<Rightarrow> int \<Rightarrow> 'q bw" where
  "bw_start q nloop = \<lparr>bw_cont = [], bw_chan = q, bw_writer = Bw_wait, bw_reader = bw_loop nloop 0, bw_i = 0\<rparr>"

section \<open>The two queues\<close>

text \<open>The POSIX queue has room for four messages; the buffer is \<open>buf\<close>, with \<open>xfersize\<close> bytes.\<close>

definition bw_mq_send :: "byte list \<Rightarrow> byte list list \<Rightarrow> byte list list option" where
  "bw_mq_send buf q = (if length q < 4 then Some (q @ [buf]) else None)"

definition bw_mq_receive :: "byte list list \<Rightarrow> (int \<times> byte list list) option" where
  "bw_mq_receive q = (case q of [] \<Rightarrow> None | d # q' \<Rightarrow> Some (int (length d), q'))"

definition bw_pxmsg :: "nat \<Rightarrow> byte list \<Rightarrow> int \<Rightarrow> int \<Rightarrow> byte list list bw \<Rightarrow> byte list list bw \<Rightarrow> bool" where
  "bw_pxmsg cap buf = bw_steps cap (bw_mq_send buf) bw_mq_receive 0 (int (length buf))"

text \<open>
  The System V queue: \<open>buf\<close> is the data of the message, without its type, which has the eight bytes of a \<open>long\<close>.
  The reader asks for type 0: the first message.
\<close>

abbreviation (input) SIZEOF_LONG :: int where "SIZEOF_LONG \<equiv> 8"

definition bw_msgrcv :: "svmsg list \<Rightarrow> (int \<times> svmsg list) option" where
  "bw_msgrcv q = (case q of [] \<Rightarrow> None | (ty, d) # q' \<Rightarrow> Some (int (length d), q'))"

definition bw_svmsg :: "nat \<Rightarrow> nat \<Rightarrow> byte list \<Rightarrow> int \<Rightarrow> int \<Rightarrow> svmsg list bw \<Rightarrow> svmsg list bw \<Rightarrow> bool" where
  "bw_svmsg cap qbytes buf = bw_steps cap (msgsnd qbytes 1 buf) bw_msgrcv SIZEOF_LONG (int (length buf) + SIZEOF_LONG)"

section \<open>Messages and requests\<close>

text \<open>How many messages make up \<open>k\<close> bytes.\<close>

definition messages :: "int \<Rightarrow> int \<Rightarrow> int" where
  "messages x k = (if k \<le> 0 then 0 else (k + x - 1) div x)"

lemma messages_nonneg: "0 < x \<Longrightarrow> 0 \<le> messages x k"
  by (simp add: messages_def pos_imp_zdiv_nonneg_iff)

lemma messages_next:
  assumes "0 < x" and "0 < k"
  shows "messages x k = messages x (k - x) + 1"
proof -
  have "(k + x - 1) div x = (k - x + x - 1) div x + 1"
    using div_add_self2 [of x "k - 1"] assms(1) by (simp add: algebra_simps)
  moreover have "(k - 1) div x = 0" if "k \<le> x" using that assms by (simp add: div_pos_pos_trivial)
  ultimately show ?thesis using assms by (auto simp: messages_def)
qed

lemma messages_zero: "k \<le> 0 \<Longrightarrow> messages x k = 0"
  by (simp add: messages_def)

locale message_channel =
  fixes send :: "'q \<Rightarrow> 'q option"
    and recv :: "'q \<Rightarrow> (int \<times> 'q) option"
    and n :: int
    and extra :: int
    and holds :: "'q \<Rightarrow> nat option"
  assumes sizes: "0 < n" "0 \<le> extra"
    and send_more: "holds q = Some k \<Longrightarrow> send q = Some q' \<Longrightarrow> holds q' = Some (k + 1)"
    and send_empty: "holds q = Some 0 \<Longrightarrow> \<exists>q'. send q = Some q'"
    and recv_less: "holds q = Some (Suc k) \<Longrightarrow> \<exists>q'. recv q = Some (n, q') \<and> holds q' = Some k"
    and recv_empty: "holds q = Some 0 \<Longrightarrow> recv q = None"
begin

definition owed :: "'q bw \<Rightarrow> int" where
  "owed s = (case bw_reader s of Br_read k \<Rightarrow> messages (n + extra) k | _ \<Rightarrow> 0)"

definition pending :: "'q bw \<Rightarrow> int" where
  "pending s = (case bw_writer s of Bw_write k \<Rightarrow> messages (n + extra) k | _ \<Rightarrow> 0)"

definition asked :: "'q bw \<Rightarrow> int" where
  "asked s = sum_list (map (messages (n + extra)) (bw_cont s))"

text \<open>What the reader still waits for is on the queue, in the hands of the writer, or asked for.\<close>

definition bw_inv :: "int \<Rightarrow> 'q bw \<Rightarrow> bool" where
  "bw_inv nloop s \<longleftrightarrow>
    (\<exists>k. holds (bw_chan s) = Some k \<and> int k + pending s + asked s = owed s) \<and>
    0 \<le> bw_i s \<and> bw_i s \<le> max 0 nloop \<and> (bw_reader s = Br_exit \<longleftrightarrow> bw_i s = max 0 nloop)"

definition bw_left :: "int \<Rightarrow> int \<Rightarrow> 'q bw \<Rightarrow> int" where
  "bw_left totalnbytes nloop s =
    (max 0 nloop - bw_i s) * (2 * messages (n + extra) totalnbytes + 4) -
    (case bw_reader s of Br_read k \<Rightarrow> 2 * messages (n + extra) totalnbytes + 3 | _ \<Rightarrow> 0) + owed s +
    (case bw_writer s of Bw_write k \<Rightarrow> 1 | _ \<Rightarrow> 0) + pending s + asked s + 2 * int (length (bw_cont s))"

lemma positive: "0 < n + extra"
  using sizes by simp

lemmas bw_m = messages_nonneg [OF positive] messages_zero messages_next [OF positive]

lemma asked_nonneg: "0 \<le> asked s"
  unfolding asked_def by (induction "bw_cont s" arbitrary: s) (auto intro!: sum_list_nonneg simp: bw_m)

lemma pending_nonneg: "0 \<le> pending s" and owed_nonneg: "0 \<le> owed s"
  by (auto simp: pending_def owed_def bw_m split: bw_writer_pc.splits bw_reader_pc.splits)

lemmas bw_defs = owed_def pending_def asked_def bw_loop_def

lemma bw_reads_ok:
  assumes inv: "bw_inv nloop s" and step: "bw_reads cap recv extra totalnbytes nloop s = Some t"
  shows "bw_inv nloop t \<and> bw_left totalnbytes nloop t < bw_left totalnbytes nloop s"
proof (cases "bw_reader s")
  case Br_ask
  with step have "t = s\<lparr>bw_cont := bw_cont s @ [totalnbytes], bw_reader := Br_read totalnbytes\<rparr>"
    by (simp add: bw_reads_def split: if_splits)
  with Br_ask inv show ?thesis by (auto simp: bw_inv_def bw_left_def bw_defs)
next
  case (Br_read nb)
  obtain k where k: "holds (bw_chan s) = Some k" "int k + pending s + asked s = owed s" using inv by (auto simp: bw_inv_def)
  show ?thesis
  proof (cases "0 < nb")
    case True
    with step Br_read k(1) have "k \<noteq> 0" by (cases k) (auto simp: bw_reads_def recv_empty)
    then obtain j q where "k = Suc j" "recv (bw_chan s) = Some (n, q)" "holds q = Some j"
      using recv_less k(1) by (metis not0_implies_Suc)
    with step Br_read True k inv sizes bw_m(3) [of nb] show ?thesis
      by (auto simp: bw_reads_def bw_inv_def bw_left_def bw_defs)
  next
    case False
    with step Br_read have "t = s\<lparr>bw_i := bw_i s + 1, bw_reader := bw_loop nloop (bw_i s + 1)\<rparr>"
      by (simp add: bw_reads_def)
    with False Br_read k inv show ?thesis
      by (auto simp: bw_inv_def bw_left_def bw_defs bw_m algebra_simps)
  qed
qed (use step in \<open>simp add: bw_reads_def\<close>)

lemma bw_writes_ok:
  assumes inv: "bw_inv nloop s" and step: "bw_writes send (n + extra) s = Some t"
  shows "bw_inv nloop t \<and> bw_left totalnbytes nloop t < bw_left totalnbytes nloop s"
proof (cases "bw_writer s")
  case Bw_wait
  with step inv show ?thesis by (auto simp: bw_writes_def bw_inv_def bw_left_def bw_defs split: list.splits)
next
  case (Bw_write nb)
  show ?thesis
  proof (cases "0 < nb")
    case True
    then obtain q where "send (bw_chan s) = Some q" "t = s\<lparr>bw_chan := q, bw_writer := Bw_write (nb - (n + extra))\<rparr>"
      using step Bw_write by (auto simp: bw_writes_def)
    with Bw_write True inv send_more bw_m(3) [of nb] show ?thesis
      by (fastforce simp: bw_inv_def bw_left_def bw_defs)
  next
    case False
    with step Bw_write inv show ?thesis by (auto simp: bw_writes_def bw_inv_def bw_left_def bw_defs bw_m)
  qed
qed

lemma bw_goes_on:
  assumes inv: "bw_inv nloop s" and "bw_reader s \<noteq> Br_exit" and "1 \<le> cap"
  shows "\<exists>t. bw_steps cap send recv extra (n + extra) totalnbytes nloop s t"
proof (cases "bw_reads cap recv extra totalnbytes nloop s")
  case None
  obtain k where k: "holds (bw_chan s) = Some k" "int k + pending s + asked s = owed s" using inv by (auto simp: bw_inv_def)
  have waits: "k = 0 \<and> (pending s = 0 \<longrightarrow> bw_cont s \<noteq> [])"
  proof (cases "bw_reader s")
    case Br_ask
    with k(2) None assms(3) show ?thesis using pending_nonneg [of s] asked_nonneg [of s]
      by (auto simp: bw_reads_def owed_def split: if_splits)
  next
    case (Br_read nb)
    with None have "0 < nb" "recv (bw_chan s) = None" by (auto simp: bw_reads_def split: if_splits)
    moreover from this have "k = 0" using recv_less k(1) by (cases k) fastforce+
    ultimately show ?thesis using Br_read k(2) bw_m(1,3) [of "nb - (n + extra)"] bw_m(3) [of nb]
      by (auto simp: owed_def asked_def)
  qed (use assms(2) in simp)
  then have "\<exists>t. bw_writes send (n + extra) s = Some t"
    using send_empty [of "bw_chan s"] k(1)
    by (cases "bw_writer s"; cases "bw_cont s") (auto simp: bw_writes_def pending_def)
  then show ?thesis by (auto simp: bw_steps_def)
qed (auto simp: bw_steps_def)

lemma bw_left_nonneg:
  assumes "bw_inv nloop s"
  shows "0 \<le> bw_left totalnbytes nloop s"
proof -
  let ?c = "2 * messages (n + extra) totalnbytes + 4"
  have "0 \<le> ?c" using bw_m(1) [of totalnbytes] by simp
  moreover have "?c \<le> (max 0 nloop - bw_i s) * ?c" if "bw_reader s = Br_read k" for k
    using that assms mult_right_mono [of 1 "max 0 nloop - bw_i s" ?c] \<open>0 \<le> ?c\<close> by (auto simp: bw_inv_def)
  moreover have "0 \<le> (max 0 nloop - bw_i s) * ?c" using assms \<open>0 \<le> ?c\<close> by (simp add: bw_inv_def)
  ultimately show ?thesis using asked_nonneg [of s] pending_nonneg [of s] owed_nonneg [of s]
    by (auto simp: bw_left_def split: bw_reader_pc.splits bw_writer_pc.splits)
qed

end

sublocale message_channel \<subseteq> transfer: ending_runs "\<lambda>s. \<exists>q. s = bw_start q nloop \<and> holds q = Some 0 \<and> 1 \<le> cap"
  "bw_steps cap send recv extra (n + extra) totalnbytes nloop" "\<lambda>s. bw_inv nloop s \<and> 1 \<le> cap"
  "bw_left totalnbytes nloop" "\<lambda>s. bw_reader s = Br_exit" for cap totalnbytes nloop
proof
  show "bw_inv nloop s \<and> 1 \<le> cap" if "\<exists>q. s = bw_start q nloop \<and> holds q = Some 0 \<and> 1 \<le> cap" for s
    using that by (auto simp: bw_start_def bw_inv_def bw_defs split: if_splits)
qed (auto simp: bw_steps_def bw_left_nonneg dest: bw_reads_ok bw_writes_ok intro: bw_goes_on [unfolded bw_steps_def])

context message_channel
begin

lemma bw_runs:
  assumes "holds q = Some 0" and "1 \<le> cap"
    and "path_steps (bw_steps cap send recv extra (n + extra) totalnbytes nloop) (bw_start q nloop) ts"
  shows "int (length ts) \<le> max 0 nloop * (2 * messages (n + extra) totalnbytes + 4) \<and>
    (bw_reader (last (bw_start q nloop # ts)) = Br_exit
       \<and> bw_i (last (bw_start q nloop # ts)) = max 0 nloop \<and> holds (bw_chan (last (bw_start q nloop # ts))) = Some 0 \<or>
     (\<exists>t. bw_steps cap send recv extra (n + extra) totalnbytes nloop (last (bw_start q nloop # ts)) t))"
proof -
  have start: "bw_inv nloop (bw_start q nloop)"
    "bw_left totalnbytes nloop (bw_start q nloop) = max 0 nloop * (2 * messages (n + extra) totalnbytes + 4)"
    using assms(1) by (auto simp: bw_start_def bw_inv_def bw_left_def bw_defs split: if_splits)
  have "holds (bw_chan s) = Some 0 \<and> bw_i s = max 0 nloop" if "bw_inv nloop s" "bw_reader s = Br_exit" for s
    using that pending_nonneg [of s] asked_nonneg [of s] by (auto simp: bw_inv_def owed_def)
  with transfer.ends [of nloop "bw_start q nloop" cap totalnbytes ts] start assms(2,3) show ?thesis by auto
qed

end

section \<open>The queues keep the contract\<close>

definition bw_mq_holds :: "byte list \<Rightarrow> byte list list \<Rightarrow> nat option" where
  "bw_mq_holds buf q = (if list_all (\<lambda>d. d = buf) q then Some (length q) else None)"

definition bw_sv_holds :: "byte list \<Rightarrow> svmsg list \<Rightarrow> nat option" where
  "bw_sv_holds buf q = (if list_all (\<lambda>m. m = (1, buf)) q then Some (length q) else None)"

interpretation pxq: message_channel "bw_mq_send (b # bs)" bw_mq_receive "int (length (b # bs))" 0 "bw_mq_holds (b # bs)" for b bs
  by unfold_locales
    (auto simp: bw_mq_send_def bw_mq_receive_def bw_mq_holds_def split: if_splits list.splits)

interpretation svmq: message_channel "msgsnd (length (b # bs) + k) 1 (b # bs)" bw_msgrcv "int (length (b # bs))" SIZEOF_LONG
  "bw_sv_holds (b # bs)" for b bs k
  by unfold_locales
    (auto simp: msgsnd_def bw_msgrcv_def bw_sv_holds_def split: if_splits list.splits)

section \<open>Properties\<close>

text \<open>
  \<open>bw_pxmsg\<close>: for a buffer of at least one byte, under every interleaving, the parent reads \<open>nloop\<close> times all it asked for,
  the queue is empty when it leaves its loop, and until then one of the two processes can go on; a round takes as
  many steps of each side as it has messages, and four more.
\<close>

lemma bw_pxmsg_ends:
  assumes "buf \<noteq> []" and "1 \<le> cap" and "path_steps (bw_pxmsg cap buf totalnbytes nloop) (bw_start [] nloop) ts"
  shows "int (length ts) \<le> max 0 nloop * (2 * messages (int (length buf)) totalnbytes + 4) \<and>
    (bw_reader (last (bw_start [] nloop # ts)) = Br_exit
       \<and> bw_i (last (bw_start [] nloop # ts)) = max 0 nloop \<and> bw_chan (last (bw_start [] nloop # ts)) = [] \<or>
     (\<exists>t. bw_pxmsg cap buf totalnbytes nloop (last (bw_start [] nloop # ts)) t))"
proof -
  obtain b bs where buf: "buf = b # bs" using assms(1) by (cases buf) auto
  have "bw_mq_holds (b # bs) q = Some 0 \<longleftrightarrow> q = []" for q by (auto simp: bw_mq_holds_def)
  with pxq.bw_runs [of b bs "[]" cap totalnbytes nloop ts] assms(2,3) show ?thesis
    unfolding buf bw_pxmsg_def by (simp only: add_0_right)
qed

text \<open>\<open>bw_svmsg\<close>: the same, for a message with at least one byte of data that the queue has room for.\<close>

lemma bw_svmsg_ends:
  assumes "buf \<noteq> []" and "length buf \<le> qbytes" and "1 \<le> cap"
    and "path_steps (bw_svmsg cap qbytes buf totalnbytes nloop) (bw_start [] nloop) ts"
  shows "int (length ts) \<le> max 0 nloop * (2 * messages (int (length buf) + SIZEOF_LONG) totalnbytes + 4) \<and>
    (bw_reader (last (bw_start [] nloop # ts)) = Br_exit
       \<and> bw_i (last (bw_start [] nloop # ts)) = max 0 nloop \<and> bw_chan (last (bw_start [] nloop # ts)) = [] \<or>
     (\<exists>t. bw_svmsg cap qbytes buf totalnbytes nloop (last (bw_start [] nloop # ts)) t))"
proof -
  obtain b bs where buf: "buf = b # bs" using assms(1) by (cases buf) auto
  obtain k where q: "qbytes = length (b # bs) + k" using assms(2) buf by (metis le_Suc_ex)
  have "bw_sv_holds (b # bs) q = Some 0 \<longleftrightarrow> q = []" for q by (auto simp: bw_sv_holds_def)
  with svmq.bw_runs [of b bs "[]" cap k totalnbytes nloop ts] assms(3,4) show ?thesis
    unfolding buf q bw_svmsg_def by simp
qed

end
