(* ===== verification/Bench_Messages.thy ===== *)
theory Bench_Messages
  imports Bench_Lat Bench_Bw
begin

text \<open>The programs of \<open>src/bench\<close> that pass messages, together.\<close>

text \<open>
  Every run is bounded, each of its states is good, and where it stops the program has finished.
\<close>

definition comes_to_end :: "('s \<Rightarrow> 's \<Rightarrow> bool) \<Rightarrow> 's \<Rightarrow> ('s \<Rightarrow> bool) \<Rightarrow> int \<Rightarrow> ('s \<Rightarrow> bool) \<Rightarrow> bool" where
  "comes_to_end step s good bound finished \<longleftrightarrow>
    (\<forall>ts. path_steps step s ts \<longrightarrow>
      good (last (s # ts)) \<and> int (length ts) \<le> bound \<and> (finished (last (s # ts)) \<or> (\<exists>t. step (last (s # ts)) t)))"

text \<open>
  C18. The programs of \<open>src/bench\<close> that measure latency and bandwidth over pipes and queues, under every interleaving of
  parent and child. In \<open>lat_pipe\<close>, \<open>lat_pxmsg\<close> and \<open>lat_svmsg\<close> no message has a wrong size, call \<open>k\<close> of \<open>doit\<close> gets back what
  it sent, and the parent leaves its loop after exactly \<open>nloop\<close> rounds and the one before, within four steps for each.
  In \<open>bw_pxmsg\<close> and \<open>bw_svmsg\<close> the parent reads \<open>nloop\<close> times all the messages it asked for, leaves an empty queue, and a round
  takes as many steps of each side as it has messages, and four more. No program gets stuck before that. The buffers are
  not empty, and the System V queue has room for a message; for an empty buffer \<open>bw_svmsg\<close> would not read anything.
\<close>

theorem bench_messages_end:
  assumes "1 \<le> cap" and "\<forall>k. length (c k) = 1" and "buf \<noteq> []" and "length buf \<le> qbytes"
  shows "comes_to_end (lat_pipe cap c nloop) (lat_start ([], [])) (lat_good c nloop) (4 * (max 0 nloop + 1))
      (\<lambda>s. lt_parent s = Lp_exit) \<and>
    comes_to_end (lat_pxmsg c nloop) (lat_start ([], [])) (lat_good c nloop) (4 * (max 0 nloop + 1))
      (\<lambda>s. lt_parent s = Lp_exit) \<and>
    comes_to_end (lat_svmsg qbytes nloop) (lat_start []) (lat_good (\<lambda>k. []) nloop) (4 * (max 0 nloop + 1))
      (\<lambda>s. lt_parent s = Lp_exit) \<and>
    comes_to_end (bw_pxmsg cap buf totalnbytes nloop) (bw_start [] nloop) (\<lambda>s. True)
      (max 0 nloop * (2 * messages (int (length buf)) totalnbytes + 4))
      (\<lambda>s. bw_reader s = Br_exit \<and> bw_i s = max 0 nloop \<and> bw_chan s = []) \<and>
    comes_to_end (bw_svmsg cap qbytes buf totalnbytes nloop) (bw_start [] nloop) (\<lambda>s. True)
      (max 0 nloop * (2 * messages (int (length buf) + SIZEOF_LONG) totalnbytes + 4))
      (\<lambda>s. bw_reader s = Br_exit \<and> bw_i s = max 0 nloop \<and> bw_chan s = [])"
proof -
  have "1 \<le> qbytes" using assms(3,4) by (cases buf) auto
  with assms lat_pipe_correct [of cap c nloop] lat_pxmsg_correct [of c nloop] lat_svmsg_correct [of qbytes nloop]
    bw_pxmsg_ends [of buf cap totalnbytes nloop] bw_svmsg_ends [of buf qbytes cap totalnbytes nloop]
  show ?thesis unfolding comes_to_end_def by auto
qed

theorem bench_messages_end_witness:
  "comes_to_end (lat_pipe 4096 (\<lambda>k. [7]) 3) (lat_start ([], [])) (lat_good (\<lambda>k. [7]) 3) 16 (\<lambda>s. lt_parent s = Lp_exit) \<and>
   comes_to_end (bw_pxmsg 4096 [1, 2] 5 3) (bw_start [] 3) (\<lambda>s. True) 30
     (\<lambda>s. bw_reader s = Br_exit \<and> bw_i s = 3 \<and> bw_chan s = [])"
  using bench_messages_end [of 4096 "\<lambda>k. [7]" "[1, 2]" 2048 3 5] by (simp add: messages_def)

end
