(* ===== verification/Sysv_Tools.thy ===== *)
theory Sysv_Tools
  imports Svmsg_Serv
begin

unbundle bit_operations_syntax

text \<open>
  The programs of \<open>src/svsem\<close>, \<open>src/svmsg\<close>, \<open>src/svshm\<close> and \<open>src/pxshm\<close> that make one object of the system, work on
  it and remove it. A program is a function of its arguments and of the objects there are, by key or by name. The
  options that \<open>Getopt\<close> reads are truth values; \<open>args\<close> are the arguments behind them. \<open>Ftok\<close> is a parameter: the
  key of a path, or none.
\<close>

section \<open>How a program ends\<close>

text \<open>\<open>Usage\<close>: \<open>err_quit\<close> with a message about the arguments. \<open>Fails\<close>: \<open>err_sys\<close> after a call that failed. \<open>Overrun\<close>: it writes behind the end of a block it has allocated. \<open>Blocked\<close>: it waits in its last call.\<close>

datatype 'o tool_end = Usage | Fails errno | Blocked | Overrun | Exits 'o

type_synonym key = nat
type_synonym path = "byte list"

definition atoi :: "byte list \<Rightarrow> int" where
  "atoi bs = signed_take_bit 31 (atol bs)"

abbreviation (input) E2BIG :: errno where "E2BIG \<equiv> 7"
abbreviation (input) EFBIG :: errno where "EFBIG \<equiv> 27"
abbreviation (input) ENOMSG :: errno where "ENOMSG \<equiv> 42"

section \<open>Semaphore sets\<close>

text \<open>The set of a key: the values of its members.\<close>

type_synonym semsets = "key \<rightharpoonup> nat list"

abbreviation (input) SEMMSL :: int where "SEMMSL \<equiv> 32000"
abbreviation (input) SEMOPM :: nat where "SEMOPM \<equiv> 500"
abbreviation (input) SEMVMAX :: int where "SEMVMAX \<equiv> 32767"

text \<open>\<open>semget\<close>; a new set has the values \<open>fresh\<close>, which the documentation leaves open.\<close>

definition semget :: "(nat \<Rightarrow> nat list) \<Rightarrow> key \<Rightarrow> int \<Rightarrow> bool \<Rightarrow> bool \<Rightarrow> semsets \<Rightarrow> errno + semsets" where
  "semget fresh key nsems creat excl sets =
    (if nsems < 0 \<or> SEMMSL < nsems then Inl EINVAL
     else case sets key of
       Some vals \<Rightarrow> if creat \<and> excl then Inl EEXIST else if int (length vals) < nsems then Inl EINVAL else Inr sets
     | None \<Rightarrow> if \<not> creat then Inl ENOENT else if nsems = 0 then Inl EINVAL else Inr (sets(key \<mapsto> fresh (nat nsems))))"

definition semcreate :: "(nat \<Rightarrow> nat list) \<Rightarrow> (path \<Rightarrow> errno + key) \<Rightarrow> bool \<Rightarrow> path list \<Rightarrow> semsets \<Rightarrow> unit tool_end \<times> semsets" where
  "semcreate fresh ftok e args sets =
    (if length args \<noteq> 2 then (Usage, sets)
     else case ftok (args ! 0) of
       Inl err \<Rightarrow> (Fails err, sets)
     | Inr key \<Rightarrow> (case semget fresh key (atoi (args ! 1)) True e sets of
         Inl err \<Rightarrow> (Fails err, sets) | Inr sets' \<Rightarrow> (Exits (), sets')))"

text \<open>The other programs look for a set that is there: \<open>Semget\<close> of the key of a path, for 0 members and without flags.\<close>

definition sem_lookup :: "(path \<Rightarrow> errno + key) \<Rightarrow> path \<Rightarrow> semsets \<Rightarrow> errno + key \<times> nat list" where
  "sem_lookup ftok p sets =
    (case ftok p of Inl err \<Rightarrow> Inl err
     | Inr key \<Rightarrow> (case sets key of None \<Rightarrow> Inl ENOENT | Some vals \<Rightarrow> Inr (key, vals)))"

text \<open>The values are stored in an array of \<open>unsigned short\<close>; \<open>SETALL\<close> checks them before it stores any.\<close>

definition setall :: "16 word list \<Rightarrow> errno + nat list" where
  "setall ptr = (if list_all (\<lambda>v. uint v \<le> SEMVMAX) ptr then Inr (map unat ptr) else Inl ERANGE)"

definition semsetvalues :: "(path \<Rightarrow> errno + key) \<Rightarrow> path list \<Rightarrow> semsets \<Rightarrow> unit tool_end \<times> semsets" where
  "semsetvalues ftok args sets =
    (if args = [] then (Usage, sets)
     else case sem_lookup ftok (args ! 0) sets of
       Inl err \<Rightarrow> (Fails err, sets)
     | Inr (key, vals) \<Rightarrow>
         if length args \<noteq> length vals + 1 then (Usage, sets)
         else case setall (map (\<lambda>a. word_of_int (atoi a)) (tl args)) of
           Inl err \<Rightarrow> (Fails err, sets)
         | Inr vals' \<Rightarrow> (Exits (), sets(key \<mapsto> vals')))"

definition semgetvalues :: "(path \<Rightarrow> errno + key) \<Rightarrow> path list \<Rightarrow> semsets \<Rightarrow> (nat \<times> int) list tool_end \<times> semsets" where
  "semgetvalues ftok args sets =
    (if length args \<noteq> 1 then (Usage, sets)
     else case sem_lookup ftok (args ! 0) sets of
       Inl err \<Rightarrow> (Fails err, sets)
     | Inr (key, vals) \<Rightarrow> (Exits (map (\<lambda>i. (i, uint (word_of_nat (vals ! i) :: 16 word))) [0..<length vals]), sets))"

definition semrmid :: "(path \<Rightarrow> errno + key) \<Rightarrow> path list \<Rightarrow> semsets \<Rightarrow> unit tool_end \<times> semsets" where
  "semrmid ftok args sets =
    (if length args \<noteq> 1 then (Usage, sets)
     else case sem_lookup ftok (args ! 0) sets of
       Inl err \<Rightarrow> (Fails err, sets)
     | Inr (key, vals) \<Rightarrow> (Exits (), sets(key := None)))"

text \<open>
  The system call \<open>semop\<close> with an array of operations, each on the member it names: too many operations or a
  member that is not there are found first; then the operations are tried in the order of the array, and the first that
  cannot be done decides. When the process ends, what its operations with \<open>SEM_UNDO\<close> did is taken back: the sum of
  them for each member (\<open>semadj\<close>), within the limits of a value.
\<close>

record sembuf =
  sem_num :: "16 word"
  sem_op :: "16 word"
  sem_flg :: "16 word"

abbreviation (input) IPC_NOWAIT :: "16 word" where "IPC_NOWAIT \<equiv> 2048"
abbreviation (input) SEM_UNDO :: "16 word" where "SEM_UNDO \<equiv> 4096"

fun semop_seq :: "sembuf list \<Rightarrow> nat list \<Rightarrow> nat list tool_end" where
  "semop_seq [] vals = Exits vals"
| "semop_seq (b # bs) vals =
    (let i = unat (sem_num b); v = vals ! i; op = sint (sem_op b) in
     if op = 0 \<and> v \<noteq> 0 \<or> int v + op < 0 then (if sem_flg b AND IPC_NOWAIT \<noteq> 0 then Fails EAGAIN else Blocked)
     else if SEMVMAX < int v + op then Fails ERANGE
     else semop_seq bs (vals[i := nat (int v + op)]))"

definition semop_set :: "sembuf list \<Rightarrow> nat list \<Rightarrow> nat list tool_end" where
  "semop_set bs vals =
    (if SEMOPM < length bs then Fails E2BIG
     else if list_ex (\<lambda>b. length vals \<le> unat (sem_num b)) bs then Fails EFBIG
     else semop_seq bs vals)"

definition semadj :: "sembuf list \<Rightarrow> nat \<Rightarrow> int" where
  "semadj bs i = (\<Sum>b\<leftarrow>bs. if unat (sem_num b) = i \<and> sem_flg b AND SEM_UNDO \<noteq> 0 then - sint (sem_op b) else 0)"

definition undo_at_exit :: "sembuf list \<Rightarrow> nat list \<Rightarrow> nat list" where
  "undo_at_exit bs vals = map (\<lambda>i. nat (max 0 (min SEMVMAX (int (vals ! i) + semadj bs i)))) [0..<length vals]"

text \<open>
  The array that \<open>semops\<close> allocates with \<open>Calloc\<close> and fills in a loop; the fields are \<open>short\<close>, and the flags of the
  options go to every operation.
\<close>

definition semops_flag :: "bool \<Rightarrow> bool \<Rightarrow> 16 word" where
  "semops_flag n u = (if n then IPC_NOWAIT else 0) OR (if u then SEM_UNDO else 0)"

fun semops_fill :: "16 word \<Rightarrow> path list \<Rightarrow> nat \<Rightarrow> sembuf list \<Rightarrow> sembuf list" where
  "semops_fill flag [] i ptr = ptr"
| "semops_fill flag (arg # args) i ptr =
    semops_fill flag args (Suc i)
      (ptr[i := \<lparr>sem_num = word_of_nat i, sem_op = word_of_int (atoi arg), sem_flg = flag\<rparr>])"

definition semops_array :: "bool \<Rightarrow> bool \<Rightarrow> path list \<Rightarrow> sembuf list" where
  "semops_array n u args =
    semops_fill (semops_flag n u) args 0 (replicate (length args) \<lparr>sem_num = 0, sem_op = 0, sem_flg = 0\<rparr>)"

text \<open>The program ends right after \<open>Semop\<close>, so that the undoing is part of it.\<close>

definition semops_on :: "bool \<Rightarrow> bool \<Rightarrow> key \<Rightarrow> path list \<Rightarrow> nat list \<Rightarrow> semsets \<Rightarrow> unit tool_end \<times> semsets" where
  "semops_on n u key args vals sets =
    (let ptr = semops_array n u args in
     case semop_set ptr vals of
       Exits vals' \<Rightarrow> (Exits (), sets(key \<mapsto> undo_at_exit ptr vals'))
     | Fails err \<Rightarrow> (Fails err, sets)
     | _ \<Rightarrow> (Blocked, sets))"

definition semops :: "(path \<Rightarrow> errno + key) \<Rightarrow> bool \<Rightarrow> bool \<Rightarrow> path list \<Rightarrow> semsets \<Rightarrow> unit tool_end \<times> semsets" where
  "semops ftok n u args sets =
    (if length args < 2 then (Usage, sets)
     else case sem_lookup ftok (args ! 0) sets of
       Inl err \<Rightarrow> (Fails err, sets)
     | Inr (key, vals) \<Rightarrow> semops_on n u key (tl args) vals sets)"

text \<open>\<open>semopsid\<close> has the identifier as an argument; \<open>ids\<close> is the key of a set by its identifier.\<close>

definition semopsid :: "(int \<Rightarrow> key option) \<Rightarrow> bool \<Rightarrow> bool \<Rightarrow> path list \<Rightarrow> semsets \<Rightarrow> unit tool_end \<times> semsets" where
  "semopsid ids n u args sets =
    (if length args < 2 then (Usage, sets)
     else case ids (signed_take_bit 31 (atol (args ! 0))) of
       None \<Rightarrow> (Fails EINVAL, sets)
     | Some key \<Rightarrow> (case sets key of
         None \<Rightarrow> (Fails EINVAL, sets) | Some vals \<Rightarrow> semops_on n u key (tl args) vals sets))"

section \<open>Lemmas on semaphore sets\<close>

definition sem_values_ok :: "nat list \<Rightarrow> bool" where
  "sem_values_ok vals \<longleftrightarrow> list_all (\<lambda>v. int v \<le> SEMVMAX) vals"

definition semsets_ok :: "semsets \<Rightarrow> bool" where
  "semsets_ok sets \<longleftrightarrow> (\<forall>vals \<in> ran sets. sem_values_ok vals)"

text \<open>
  One operation for each member from the first on, as a recursion over the two lists: what the array of \<open>semops\<close>
  comes to.
\<close>

fun ops_each :: "bool \<Rightarrow> int list \<Rightarrow> nat list \<Rightarrow> nat list tool_end" where
  "ops_each nowait [] vals = Exits vals"
| "ops_each nowait (op # ops) [] = Fails EFBIG"
| "ops_each nowait (op # ops) (v # vals) =
    (if op = 0 \<and> v \<noteq> 0 \<or> int v + op < 0 then (if nowait then Fails EAGAIN else Blocked)
     else if SEMVMAX < int v + op then Fails ERANGE
     else case ops_each nowait ops vals of
       Exits vals' \<Rightarrow> Exits (nat (int v + op) # vals') | failed \<Rightarrow> failed)"

definition short_of :: "path \<Rightarrow> int" where
  "short_of arg = signed_take_bit 15 (atoi arg)"

definition bufs_from :: "16 word \<Rightarrow> nat \<Rightarrow> path list \<Rightarrow> sembuf list" where
  "bufs_from flag i args =
    map2 (\<lambda>j arg. \<lparr>sem_num = word_of_nat j, sem_op = word_of_int (atoi arg), sem_flg = flag\<rparr>) [i..<i + length args] args"

lemma bufs_from_Cons:
  "bufs_from flag i (arg # args) =
    \<lparr>sem_num = word_of_nat i, sem_op = word_of_int (atoi arg), sem_flg = flag\<rparr> # bufs_from flag (Suc i) args"
  by (simp add: bufs_from_def upt_conv_Cons del: upt_Suc)

lemma bufs_from_Nil [simp]: "bufs_from flag i [] = []"
  by (simp add: bufs_from_def)

lemma length_bufs_from [simp]: "length (bufs_from flag i args) = length args"
  by (simp add: bufs_from_def)

text \<open>The loop fills the array with one operation for each argument, on the member with its number.\<close>

lemma semops_fill_correct:
  "length ptr = i + length args \<Longrightarrow> semops_fill flag args i ptr = take i ptr @ bufs_from flag i args"
proof (induction args arbitrary: i ptr)
  case (Cons arg args)
  let ?b = "\<lparr>sem_num = word_of_nat i, sem_op = word_of_int (atoi arg), sem_flg = flag\<rparr>"
  have "take (Suc i) (ptr[i := ?b]) = take i ptr @ [?b]" using Cons.prems by (simp add: take_Suc_conv_app_nth)
  with Cons.IH [of "ptr[i := ?b]" "Suc i"] Cons.prems show ?case by (simp add: bufs_from_Cons)
qed simp

lemma semops_array_correct: "semops_array n u args = bufs_from (semops_flag n u) 0 args"
  by (simp add: semops_array_def semops_fill_correct)

lemma semops_flag_bits:
  "semops_flag n u AND IPC_NOWAIT \<noteq> 0 \<longleftrightarrow> n" "semops_flag n u AND SEM_UNDO \<noteq> 0 \<longleftrightarrow> u"
  by (auto simp: semops_flag_def)

lemma sint_short: "sint (word_of_int (atoi arg) :: 16 word) = short_of arg"
  by (simp add: short_of_def sint_sbintrunc')

lemma semop_seq_each:
  assumes "length pre = i" and "length args \<le> length vals" and "i + length args \<le> SEMOPM"
  shows "semop_seq (bufs_from flag i args) (pre @ vals) =
    (case ops_each (flag AND IPC_NOWAIT \<noteq> 0) (map short_of args) vals of
      Exits vals' \<Rightarrow> Exits (pre @ vals') | failed \<Rightarrow> failed)"
  using assms
proof (induction args arbitrary: i pre vals)
  case (Cons arg args)
  then obtain v vs where vals: "vals = v # vs" by (cases vals) auto
  have i: "unat (word_of_nat i :: 16 word) = i" using Cons.prems(3) by (simp add: unat_of_nat)
  have IH: "semop_seq (bufs_from flag (Suc i) args) ((pre @ [w]) @ vs) =
    (case ops_each (flag AND IPC_NOWAIT \<noteq> 0) (map short_of args) vs of
      Exits vals' \<Rightarrow> Exits ((pre @ [w]) @ vals') | failed \<Rightarrow> failed)" for w
    using Cons.IH [of "pre @ [w]" "Suc i" vs] Cons.prems vals by simp
  have nth: "(pre @ v # vs) ! i = v" "(pre @ v # vs)[i := w] = pre @ w # vs" for w
    using Cons.prems(1) by (auto simp: nth_append list_update_append)
  show ?case using IH
    by (auto simp: vals bufs_from_Cons i nth sint_short Let_def split: tool_end.splits)
qed simp

lemma ops_each_exits:
  "ops_each nowait ops vals = Exits vals' \<Longrightarrow>
    length ops \<le> length vals \<and> vals' = map2 (\<lambda>op v. nat (int v + op)) ops vals @ drop (length ops) vals \<and>
    list_all2 (\<lambda>op v. 0 \<le> int v + op \<and> int v + op \<le> SEMVMAX \<and> (op = 0 \<longrightarrow> v = 0)) ops (take (length ops) vals)"
  by (induction nowait ops vals arbitrary: vals' rule: ops_each.induct) (auto split: if_splits tool_end.splits)

lemma ops_each_ends:
  "ops_each nowait ops vals \<noteq> Usage \<and> ops_each nowait ops vals \<noteq> Overrun \<and>
    (ops_each nowait ops vals = Blocked \<longrightarrow> \<not> nowait) \<and> (ops_each nowait ops vals = Fails EAGAIN \<longrightarrow> nowait)"
proof (induction ops arbitrary: vals)
  case (Cons op ops)
  show ?case
  proof (cases vals)
    case (Cons v vs)
    with Cons.IH [of vs] show ?thesis by (cases nowait; cases "ops_each nowait ops vs") simp_all
  qed simp
qed simp

lemma semadj_from:
  assumes "i0 + length args \<le> SEMOPM"
  shows "semadj (bufs_from flag i0 args) i =
    (if flag AND SEM_UNDO \<noteq> 0 \<and> i0 \<le> i \<and> i < i0 + length args then - short_of (args ! (i - i0)) else 0)"
  using assms
proof (induction args arbitrary: i0)
  case (Cons arg args)
  have "unat (word_of_nat i0 :: 16 word) = i0" using Cons.prems by (simp add: unat_of_nat)
  with Cons.IH [of "Suc i0"] Cons.prems show ?case
    by (auto simp: bufs_from_Cons semadj_def sint_short nth_Cons' Suc_le_eq)
qed (simp add: semadj_def)

section \<open>Shared memory\<close>

text \<open>The segment of a name or of a key: its bytes. No size is over \<open>INT_MAX\<close>, as it comes from \<open>atoi\<close>.\<close>

type_synonym 'k segs = "'k \<rightharpoonup> byte list"

text \<open>\<open>shmcreate\<close> of \<open>src/pxshm\<close>: \<open>Ftruncate\<close> cuts or extends with zeros; \<open>Mmap\<close> refuses the length 0.\<close>

definition ftruncate_seg :: "nat \<Rightarrow> byte list \<Rightarrow> byte list" where
  "ftruncate_seg n bs = take n bs @ replicate (n - length bs) 0"

definition shmcreate :: "bool \<Rightarrow> path list \<Rightarrow> path segs \<Rightarrow> unit tool_end \<times> path segs" where
  "shmcreate e args segs =
    (if length args \<noteq> 2 then (Usage, segs)
     else let name = args ! 0; length = atoi (args ! 1) in
       if e \<and> segs name \<noteq> None then (Fails EEXIST, segs)
       else let old = (case segs name of None \<Rightarrow> [] | Some bs \<Rightarrow> bs) in
         if length < 0 then (Fails EINVAL, segs(name \<mapsto> old))
         else let segs' = segs(name \<mapsto> ftruncate_seg (nat length) old) in
           if length = 0 then (Fails EINVAL, segs') else (Exits (), segs'))"

text \<open>The loops of \<open>shmwrite\<close> and \<open>shmread\<close>, from \<open>i\<close> on.\<close>

primrec shm_fill :: "int \<Rightarrow> byte list \<Rightarrow> byte list" where
  "shm_fill i [] = []"
| "shm_fill i (b # bs) = word_of_int (i mod 256) # shm_fill (i + 1) bs"

primrec shm_check :: "int \<Rightarrow> byte list \<Rightarrow> (int \<times> byte) list" where
  "shm_check i [] = []"
| "shm_check i (c # bs) = (if uint c \<noteq> i mod 256 then [(i, c)] else []) @ shm_check (i + 1) bs"

text \<open>An object of size 0 cannot be mapped.\<close>

definition shmwrite :: "path list \<Rightarrow> path segs \<Rightarrow> unit tool_end \<times> path segs" where
  "shmwrite args segs =
    (if length args \<noteq> 1 then (Usage, segs)
     else case segs (args ! 0) of
       None \<Rightarrow> (Fails ENOENT, segs)
     | Some bs \<Rightarrow> if bs = [] then (Fails EINVAL, segs) else (Exits (), segs(args ! 0 \<mapsto> shm_fill 0 bs)))"

definition shmread :: "path list \<Rightarrow> path segs \<Rightarrow> (int \<times> byte) list tool_end \<times> path segs" where
  "shmread args segs =
    (if length args \<noteq> 1 then (Usage, segs)
     else case segs (args ! 0) of
       None \<Rightarrow> (Fails ENOENT, segs)
     | Some bs \<Rightarrow> if bs = [] then (Fails EINVAL, segs) else (Exits (shm_check 0 bs), segs))"

definition shmunlink :: "path list \<Rightarrow> path segs \<Rightarrow> unit tool_end \<times> path segs" where
  "shmunlink args segs =
    (if length args \<noteq> 1 then (Usage, segs)
     else case segs (args ! 0) of None \<Rightarrow> (Fails ENOENT, segs) | Some bs \<Rightarrow> (Exits (), segs(args ! 0 := None)))"

text \<open>The programs of \<open>src/svshm\<close>: \<open>Shmget\<close> makes a segment of zeros, or finds one that is long enough.\<close>

definition shmget :: "key \<Rightarrow> nat \<Rightarrow> bool \<Rightarrow> bool \<Rightarrow> key segs \<Rightarrow> errno + byte list \<times> key segs" where
  "shmget key n creat excl segs =
    (case segs key of
      Some bs \<Rightarrow> if creat \<and> excl then Inl EEXIST else if length bs < n then Inl EINVAL else Inr (bs, segs)
    | None \<Rightarrow> if \<not> creat then Inl ENOENT else if n = 0 then Inl EINVAL else Inr (replicate n 0, segs(key \<mapsto> replicate n 0)))"

text \<open>\<open>length\<close> is a \<open>size_t\<close>; \<open>most\<close> is the size the system allows, \<open>SHMMAX\<close>, which a negative argument is far over.\<close>

definition sv_shmget :: "nat \<Rightarrow> (path \<Rightarrow> errno + key) \<Rightarrow> bool \<Rightarrow> path list \<Rightarrow> key segs \<Rightarrow> unit tool_end \<times> key segs" where
  "sv_shmget most ftok e args segs =
    (if length args \<noteq> 2 then (Usage, segs)
     else case ftok (args ! 0) of
       Inl err \<Rightarrow> (Fails err, segs)
     | Inr key \<Rightarrow>
         let n = unat (word_of_int (atoi (args ! 1)) :: 64 word) in
         if most < n \<and> segs key = None then (Fails EINVAL, segs)
         else case shmget key n True e segs of
           Inl err \<Rightarrow> (Fails err, segs) | Inr (bs, segs') \<Rightarrow> (Exits (), segs'))"

definition sv_shm_find :: "(path \<Rightarrow> errno + key) \<Rightarrow> path list \<Rightarrow> key segs \<Rightarrow> 'o tool_end + key \<times> byte list" where
  "sv_shm_find ftok args segs =
    (if length args \<noteq> 1 then Inl Usage
     else case ftok (args ! 0) of
       Inl err \<Rightarrow> Inl (Fails err)
     | Inr key \<Rightarrow> (case shmget key 0 False False segs of Inl err \<Rightarrow> Inl (Fails err) | Inr (bs, _) \<Rightarrow> Inr (key, bs)))"

definition sv_shmwrite :: "(path \<Rightarrow> errno + key) \<Rightarrow> path list \<Rightarrow> key segs \<Rightarrow> unit tool_end \<times> key segs" where
  "sv_shmwrite ftok args segs =
    (case sv_shm_find ftok args segs of
      Inl stop \<Rightarrow> (stop, segs) | Inr (key, bs) \<Rightarrow> (Exits (), segs(key \<mapsto> shm_fill 0 bs)))"

definition sv_shmread :: "(path \<Rightarrow> errno + key) \<Rightarrow> path list \<Rightarrow> key segs \<Rightarrow> (int \<times> byte) list tool_end \<times> key segs" where
  "sv_shmread ftok args segs =
    (case sv_shm_find ftok args segs of
      Inl stop \<Rightarrow> (stop, segs) | Inr (key, bs) \<Rightarrow> (Exits (shm_check 0 bs), segs))"

definition sv_shmreadid :: "(int \<Rightarrow> key option) \<Rightarrow> path list \<Rightarrow> key segs \<Rightarrow> (int \<times> byte) list tool_end \<times> key segs" where
  "sv_shmreadid ids args segs =
    (if length args \<noteq> 1 then (Usage, segs)
     else case ids (signed_take_bit 31 (atol (args ! 0))) of
       None \<Rightarrow> (Fails EINVAL, segs)
     | Some key \<Rightarrow> (case segs key of None \<Rightarrow> (Fails EINVAL, segs) | Some bs \<Rightarrow> (Exits (shm_check 0 bs), segs)))"

definition sv_shmrmid :: "(path \<Rightarrow> errno + key) \<Rightarrow> path list \<Rightarrow> key segs \<Rightarrow> unit tool_end \<times> key segs" where
  "sv_shmrmid ftok args segs =
    (case sv_shm_find ftok args segs of
      Inl stop \<Rightarrow> (stop, segs) | Inr (key, bs) \<Rightarrow> (Exits (), segs(key := None)))"

section \<open>Lemmas on shared memory\<close>

lemma shm_fill_length [simp]: "length (shm_fill i bs) = length bs"
  by (induction bs arbitrary: i) auto

lemma shm_fill_Nil [simp]: "shm_fill i bs = [] \<longleftrightarrow> bs = []"
  by (cases bs) auto

lemma uint_byte_mod: "uint (word_of_int (i mod 256) :: byte) = i mod 256"
  by (simp add: unsigned_of_int take_bit_eq_mod)

lemma shm_check_append: "shm_check i (xs @ ys) = shm_check i xs @ shm_check (i + int (length xs)) ys"
  by (induction xs arbitrary: i) (auto simp: algebra_simps)

lemma shm_check_fill: "shm_check i (shm_fill i bs) = []"
  by (induction bs arbitrary: i) (auto simp: uint_byte_mod)

text \<open>\<open>shmread\<close> tells exactly the places that do not have their number.\<close>

lemma shm_check_nth: "(k, c) \<in> set (shm_check i bs) \<longleftrightarrow>
    i \<le> k \<and> k < i + int (length bs) \<and> c = bs ! nat (k - i) \<and> uint c \<noteq> k mod 256"
proof (induction bs arbitrary: i)
  case (Cons b bs)
  have "nat (k - i) = Suc (nat (k - (i + 1)))" if "i < k" using that by simp
  then show ?case using Cons.IH [of "i + 1"] by (cases "k = i") auto
qed simp

section \<open>Message queues\<close>

type_synonym queues = "key \<rightharpoonup> svmsg list"

definition msgcreate :: "(path \<Rightarrow> errno + key) \<Rightarrow> bool \<Rightarrow> path list \<Rightarrow> queues \<Rightarrow> unit tool_end \<times> queues" where
  "msgcreate ftok e args qs =
    (if length args \<noteq> 1 then (Usage, qs)
     else case ftok (args ! 0) of
       Inl err \<Rightarrow> (Fails err, qs)
     | Inr key \<Rightarrow> (case qs key of
         Some q \<Rightarrow> (if e then Fails EEXIST else Exits (), qs) | None \<Rightarrow> (Exits (), qs(key \<mapsto> []))))"

definition msg_lookup :: "(path \<Rightarrow> errno + key) \<Rightarrow> path \<Rightarrow> queues \<Rightarrow> errno + key \<times> svmsg list" where
  "msg_lookup ftok p qs =
    (case ftok p of Inl err \<Rightarrow> Inl err
     | Inr key \<Rightarrow> (case qs key of None \<Rightarrow> Inl ENOENT | Some q \<Rightarrow> Inr (key, q)))"

text \<open>
  \<open>msgsnd\<close>: the block has room for the type and \<open>len\<close> bytes, which \<open>Calloc\<close> sets to 0. For a negative number the
  sum wraps: the block is shorter than a type, or too long to be had. \<open>msgmax\<close> and \<open>qbytes\<close> are limits of the system.
\<close>

definition msgsnd_tool :: "nat \<Rightarrow> nat \<Rightarrow> (path \<Rightarrow> errno + key) \<Rightarrow> path list \<Rightarrow> queues \<Rightarrow> unit tool_end \<times> queues" where
  "msgsnd_tool msgmax qbytes ftok args qs =
    (if length args \<noteq> 3 then (Usage, qs)
     else let len = atoi (args ! 1); type = atoi (args ! 2) in
       case msg_lookup ftok (args ! 0) qs of
         Inl err \<Rightarrow> (Fails err, qs)
       | Inr (key, q) \<Rightarrow>
           if len < - 8 then (Fails ENOMEM, qs)
           else if len < 0 then (Overrun, qs)
           else if int msgmax < len \<or> type < 1 then (Fails EINVAL, qs)
           else case msgsnd qbytes type (replicate (nat len) 0) q of
             None \<Rightarrow> (Blocked, qs) | Some q' \<Rightarrow> (Exits (), qs(key \<mapsto> q')))"

text \<open>
  The message that \<open>msgrcv\<close> takes: the first, the first of the type, or the first of the lowest type that is at
  most the absolute value of a negative argument.
\<close>

definition msg_type_wanted :: "int \<Rightarrow> svmsg list \<Rightarrow> int option" where
  "msg_type_wanted type q =
    (if q = [] then None
     else if type = 0 then Some (fst (hd q))
     else if 0 < type then Some type
     else let low = filter (\<lambda>t. t \<le> - type) (map fst q) in if low = [] then None else Some (Min (set low)))"

definition msg_take :: "int \<Rightarrow> svmsg list \<Rightarrow> (int \<times> byte list \<times> svmsg list) option" where
  "msg_take type q =
    (case msg_type_wanted type q of None \<Rightarrow> None | Some t \<Rightarrow> map_option (Pair t) (msgrcv t q))"

text \<open>
  \<open>msgrcv.c\<close> and \<open>msgrcvid.c\<close>: the block has \<open>MAXMSG\<close> bytes, for the type and the data, and the call is allowed
  \<open>MAXMSG\<close> bytes of data.
\<close>

abbreviation (input) MAXMSG :: nat where "MAXMSG \<equiv> 8192 + 8"

definition msgrcv_on :: "bool \<Rightarrow> int \<Rightarrow> key \<Rightarrow> svmsg list \<Rightarrow> queues \<Rightarrow> (nat \<times> int) tool_end \<times> queues" where
  "msgrcv_on nowait type key q qs =
    (case msg_take type q of
      None \<Rightarrow> (if nowait then Fails ENOMSG else Blocked, qs)
    | Some (t, d, q') \<Rightarrow>
        if MAXMSG < length d then (Fails E2BIG, qs)
        else (if MAXMSG < 8 + length d then Overrun else Exits (length d, t), qs(key \<mapsto> q')))"

definition msgrcv_tool :: "(path \<Rightarrow> errno + key) \<Rightarrow> bool \<Rightarrow> int \<Rightarrow> path list \<Rightarrow> queues \<Rightarrow> (nat \<times> int) tool_end \<times> queues" where
  "msgrcv_tool ftok n type args qs =
    (if length args \<noteq> 1 then (Usage, qs)
     else case msg_lookup ftok (args ! 0) qs of
       Inl err \<Rightarrow> (Fails err, qs) | Inr (key, q) \<Rightarrow> msgrcv_on n type key q qs)"

definition msgrcvid :: "(int \<Rightarrow> key option) \<Rightarrow> path list \<Rightarrow> queues \<Rightarrow> (nat \<times> int) tool_end \<times> queues" where
  "msgrcvid ids args qs =
    (if length args \<noteq> 1 then (Usage, qs)
     else case ids (atoi (args ! 0)) of
       None \<Rightarrow> (Fails EINVAL, qs)
     | Some key \<Rightarrow> (case qs key of None \<Rightarrow> (Fails EINVAL, qs) | Some q \<Rightarrow> msgrcv_on False 0 key q qs))"

definition msgrmid :: "(path \<Rightarrow> errno + key) \<Rightarrow> path list \<Rightarrow> queues \<Rightarrow> unit tool_end \<times> queues" where
  "msgrmid ftok args qs =
    (if length args \<noteq> 1 then (Usage, qs)
     else case msg_lookup ftok (args ! 0) qs of
       Inl err \<Rightarrow> (Fails err, qs) | Inr (key, q) \<Rightarrow> (Exits (), qs(key := None)))"

section \<open>Lemmas on message queues\<close>

text \<open>What is taken is on the queue, has the type that is told, and only it is taken.\<close>

lemma msgrcv_split: "msgrcv t q = Some (d, q') \<Longrightarrow>
    \<exists>us vs. q = us @ (t, d) # vs \<and> q' = us @ vs \<and> (\<forall>m \<in> set us. fst m \<noteq> t)"
proof (induction q arbitrary: q')
  case (Cons m q)
  show ?case
  proof (cases "fst m = t")
    case True
    with Cons.prems show ?thesis by (intro exI [of _ "[]"] exI [of _ q]) (cases m, auto)
  next
    case False
    then obtain q1 where q1: "msgrcv t q = Some (d, q1)" "q' = m # q1" using Cons.prems by (cases m) auto
    with Cons.IH obtain us vs where "q = us @ (t, d) # vs \<and> q1 = us @ vs \<and> (\<forall>m \<in> set us. fst m \<noteq> t)" by blast
    with q1 False show ?thesis by (intro exI [of _ "m # us"] exI [of _ vs]) auto
  qed
qed simp

lemma msg_take_first: "msg_take 0 ((t, d) # q) = Some (t, d, q)"
  by (simp add: msg_take_def msg_type_wanted_def)

lemma msgrcv_none: "msgrcv t q = None \<longleftrightarrow> (\<forall>m \<in> set q. fst m \<noteq> t)"
  by (induction q) (auto split: if_splits)

lemma msg_take_waits: "msg_take type q = None \<longleftrightarrow>
    (\<forall>m \<in> set q. type \<noteq> 0 \<and> (0 < type \<longrightarrow> fst m \<noteq> type) \<and> (type < 0 \<longrightarrow> - type < fst m))"
proof (cases "type < 0 \<and> q \<noteq> []")
  case True
  define low where "low = filter (\<lambda>t. t \<le> - type) (map fst q)"
  have "msgrcv (Min (set low)) q \<noteq> None" if "low \<noteq> []"
  proof -
    have "Min (set low) \<in> set low" using that by (intro Min_in) auto
    moreover have "set low \<subseteq> fst ` set q" by (auto simp: low_def)
    ultimately show ?thesis unfolding msgrcv_none by (metis imageE subsetD)
  qed
  then have "msg_take type q = None \<longleftrightarrow> low = []"
    using True by (simp add: msg_take_def msg_type_wanted_def low_def [symmetric] Let_def)
  moreover have "low = [] \<longleftrightarrow> (\<forall>m \<in> set q. - type < fst m)" by (auto simp: low_def filter_empty_conv not_le)
  ultimately show ?thesis using True by auto
next
  case False
  then consider "q = []" | "type = 0" "q \<noteq> []" | "0 < type" "q \<noteq> []" by linarith
  then show ?thesis
  proof cases
    case 2
    then show ?thesis by (cases q) (auto simp: msg_take_def msg_type_wanted_def)
  qed (auto simp: msg_take_def msg_type_wanted_def msgrcv_none)
qed

text \<open>
  A message that \<open>msgsnd\<close> has put on an empty queue is what \<open>msgrcv\<close> then tells of, if it has at most 8192 bytes; with 8193
  to 8200 bytes \<open>msgrcv\<close> writes behind its block, since the room for the type is counted twice.
\<close>

lemma msg_tools_roundtrip:
  assumes "qs key = Some []" and "ftok p = Inr key"
    and "0 \<le> atoi len" and "atoi len \<le> int msgmax" and "1 \<le> atoi type" and "1 \<le> qbytes" and "atoi len \<le> int qbytes"
  shows "\<exists>qs'. msgsnd_tool msgmax qbytes ftok [p, len, type] qs = (Exits (), qs') \<and>
    msgrcv_tool ftok n 0 [p] qs' =
      (if atoi len \<le> 8192 then (Exits (nat (atoi len), atoi type), qs(key \<mapsto> []))
       else if atoi len \<le> 8200 then (Overrun, qs(key \<mapsto> []))
       else (Fails E2BIG, qs'))"
  using assms
  by (auto simp: msgsnd_tool_def msgrcv_tool_def msg_lookup_def msgsnd_def msgrcv_on_def msg_take_first Let_def)

section \<open>Properties\<close>

definition sem_op_possible :: "int \<Rightarrow> nat \<Rightarrow> bool" where
  "sem_op_possible op v \<longleftrightarrow> 0 \<le> int v + op \<and> int v + op \<le> SEMVMAX \<and> (op = 0 \<longrightarrow> v = 0)"

lemma ops_each_iff:
  "(\<exists>vals'. ops_each nowait ops vals = Exits vals') \<longleftrightarrow>
    length ops \<le> length vals \<and> list_all2 sem_op_possible ops (take (length ops) vals)"
proof (induction ops arbitrary: vals)
  case (Cons op ops)
  show ?case
  proof (cases vals)
    case (Cons v vs)
    with Cons.IH [of vs] show ?thesis by (auto simp: sem_op_possible_def split: tool_end.splits)
  qed simp
qed simp

text \<open>What \<open>semop\<close> makes of the array: its limits, and otherwise one operation for each member.\<close>

lemma semop_set_each:
  "semop_set (semops_array n u args) vals =
    (if SEMOPM < length args then Fails E2BIG else if length vals < length args then Fails EFBIG
     else ops_each n (map short_of args) vals)"
proof (cases "SEMOPM < length args")
  case False
  have "list_ex (\<lambda>b. length vals \<le> unat (sem_num b)) (semops_array n u args) \<longleftrightarrow>
      (\<exists>i < length args. length vals \<le> unat (word_of_nat i :: 16 word))"
    by (auto simp: semops_array_correct bufs_from_def list_ex_length)
  also have "\<dots> \<longleftrightarrow> (\<exists>i < length args. length vals \<le> i)" using False by (auto simp: unat_of_nat)
  also have "\<dots> \<longleftrightarrow> length vals < length args" by auto
  finally show ?thesis
    using False semop_seq_each [of "[]" 0 args vals "semops_flag n u"]
    by (auto simp: semop_set_def semops_array_correct semops_flag_bits split: tool_end.splits)
qed (simp add: semop_set_def semops_array_correct)

lemma undo_each:
  assumes "ops_each nowait (map short_of args) vals = Exits vals'" and "sem_values_ok vals" and "length args \<le> SEMOPM"
  shows "undo_at_exit (semops_array n u args) vals' = (if u then vals else vals')"
proof (rule nth_equalityI)
  from ops_each_exits [OF assms(1)] have le: "length args \<le> length vals"
    and v': "vals' = map2 (\<lambda>op v. nat (int v + op)) (map short_of args) vals @ drop (length args) vals"
    and ok: "list_all2 (\<lambda>op v. 0 \<le> int v + op \<and> int v + op \<le> SEMVMAX \<and> (op = 0 \<longrightarrow> v = 0))
      (map short_of args) (take (length args) vals)" by auto
  have len: "length vals' = length vals" using le v' by simp
  then show "length (undo_at_exit (semops_array n u args) vals') = length (if u then vals else vals')"
    by (simp add: undo_at_exit_def)
  fix i assume "i < length (undo_at_exit (semops_array n u args) vals')"
  then have i: "i < length vals" using len by (simp add: undo_at_exit_def)
  have "int (vals ! i) \<le> SEMVMAX" using assms(2) i by (simp add: sem_values_ok_def list_all_length)
  moreover have "vals' ! i = (if i < length args then nat (int (vals ! i) + short_of (args ! i)) else vals ! i)"
    using le i unfolding v' by (auto simp: nth_append)
  moreover have "0 \<le> int (vals ! i) + short_of (args ! i) \<and> int (vals ! i) + short_of (args ! i) \<le> SEMVMAX"
    if "i < length args" using ok that by (simp add: list_all2_conv_all_nth)
  ultimately show "undo_at_exit (semops_array n u args) vals' ! i = (if u then vals else vals') ! i"
    using i len semadj_from [of 0 args "semops_flag n u" i] assms(3)
    by (auto simp: undo_at_exit_def semops_array_correct semops_flag_bits)
qed

lemma semops_runs:
  assumes "sem_lookup ftok p sets = Inr (key, vals)" and "args \<noteq> []"
  shows "semops ftok n u (p # args) sets = semops_on n u key args vals sets"
  using assms by (cases args) (auto simp: semops_def)

lemma sem_lookup_ok:
  assumes "sem_lookup ftok p sets = Inr (key, vals)" and "semsets_ok sets"
  shows "sets key = Some vals \<and> sem_values_ok vals"
  using assms by (auto simp: sem_lookup_def semsets_ok_def ranI split: sum.splits option.splits)

text \<open>
  C37. \<open>semops\<close> on a set that is there, where the system call does what is described for it: the operation of the \<open>k\<close>-th
  argument, cut to a \<open>short\<close>, is for member \<open>k\<close>. The program exits exactly when there are at most \<open>SEMOPM\<close> operations and a
  member for each, and every one can be done at once on its member; then each member has the value its operation gives
  it, the members behind them are as before, and with \<open>-u\<close> the whole set is as before, since the process ends. With \<open>-n\<close> it
  never waits, and it fails with \<open>EAGAIN\<close> only with \<open>-n\<close>.
\<close>

theorem semops_each_member:
  assumes "semsets_ok sets" and "sem_lookup ftok p sets = Inr (key, vals)" and "args \<noteq> []"
  shows "(fst (semops ftok n u (p # args) sets) = Exits () \<longleftrightarrow>
      length args \<le> SEMOPM \<and> length args \<le> length vals \<and>
      (\<forall>k < length args. sem_op_possible (short_of (args ! k)) (vals ! k))) \<and>
    (fst (semops ftok n u (p # args) sets) = Exits () \<longrightarrow>
      snd (semops ftok n u (p # args) sets) = (if u then sets else sets(key \<mapsto>
        map (\<lambda>k. if k < length args then nat (int (vals ! k) + short_of (args ! k)) else vals ! k) [0..<length vals]))) \<and>
    (fst (semops ftok n u (p # args) sets) = Blocked \<longrightarrow> \<not> n) \<and>
    (fst (semops ftok n u (p # args) sets) = Fails EAGAIN \<longrightarrow> n)"
proof -
  have ok: "sem_values_ok vals" "sets key = Some vals" using sem_lookup_ok assms by blast+
  let ?e = "ops_each n (map short_of args) vals"
  have run: "semops ftok n u (p # args) sets =
    (if SEMOPM < length args then (Fails E2BIG, sets) else if length vals < length args then (Fails EFBIG, sets)
     else case ?e of Exits vals' \<Rightarrow> (Exits (), if u then sets else sets(key \<mapsto> vals')) | Fails err \<Rightarrow> (Fails err, sets) | _ \<Rightarrow> (Blocked, sets))"
    using semops_runs [OF assms(2,3), of n u] undo_each [OF _ ok(1), of n args] ok(2)
    by (auto simp: semops_on_def semop_set_each Let_def fun_upd_idem split: tool_end.splits)
  have vals': "vals' = map (\<lambda>k. if k < length args then nat (int (vals ! k) + short_of (args ! k)) else vals ! k) [0..<length vals]"
    if "?e = Exits vals'" for vals'
    using ops_each_exits [OF that] by (intro nth_equalityI) (auto simp: nth_append)
  have "(\<exists>vals'. ?e = Exits vals') \<longleftrightarrow> length args \<le> length vals \<and> (\<forall>k < length args. sem_op_possible (short_of (args ! k)) (vals ! k))"
    using ops_each_iff [of n "map short_of args" vals] by (auto simp: list_all2_conv_all_nth)
  then have exits: "fst (semops ftok n u (p # args) sets) = Exits () \<longleftrightarrow>
      length args \<le> SEMOPM \<and> length args \<le> length vals \<and> (\<forall>k < length args. sem_op_possible (short_of (args ! k)) (vals ! k))"
    unfolding run by (auto split: tool_end.splits)
  have "fst (semops ftok n u (p # args) sets) = Exits () \<longrightarrow>
      snd (semops ftok n u (p # args) sets) = (if u then sets else sets(key \<mapsto>
        map (\<lambda>k. if k < length args then nat (int (vals ! k) + short_of (args ! k)) else vals ! k) [0..<length vals]))"
    unfolding run using vals' by (auto split: tool_end.splits)
  moreover have "(fst (semops ftok n u (p # args) sets) = Blocked \<longrightarrow> \<not> n) \<and> (fst (semops ftok n u (p # args) sets) = Fails EAGAIN \<longrightarrow> n)"
    unfolding run using ops_each_ends [of n "map short_of args" vals] by (auto split: tool_end.splits if_splits)
  ultimately show ?thesis using exits by blast
qed

theorem semops_each_member_witness:
  "semops (\<lambda>p. Inr 1) False False [[47], [45, 49], [50]] [1 \<mapsto> [3, 0, 7]] = (Exits (), [1 \<mapsto> [2, 2, 7]])"
proof -
  have v: "short_of [45, 49] = - 1" "short_of [50] = 2"
    by (simp_all add: short_of_def atoi_def atol_def is_space_def is_digit_def)
  have "semsets_ok [1 \<mapsto> [3, 0, 7]]" by (simp add: semsets_ok_def sem_values_ok_def ran_def)
  from semops_each_member [OF this, of "\<lambda>p. Inr 1" "[47]" 1 "[3, 0, 7]" "[[45, 49], [50]]" False False] show ?thesis
    by (simp add: sem_lookup_def v sem_op_possible_def less_Suc_eq all_conj_distrib prod_eq_iff)
qed

lemma semget_after_set:
  assumes "semsetvalues ftok (p # as) sets = (Exits (), sets')"
  shows "fst (semgetvalues ftok [p] sets') = Exits (map (\<lambda>i. (i, atoi (as ! i) mod 2 ^ 16)) [0..<length as])"
  using assms
  by (auto simp: semsetvalues_def semgetvalues_def sem_lookup_def setall_def unsigned_of_int take_bit_eq_mod
      split: sum.splits option.splits if_splits)

lemma shmread_after_write:
  assumes "shmwrite [name] segs = (Exits (), segs')"
  shows "shmread [name] segs' = (Exits [], segs')"
  using assms by (auto simp: shmwrite_def shmread_def shm_check_fill split: option.splits if_splits)

lemma sv_shmread_after_write:
  assumes "sv_shmwrite ftok [p] segs = (Exits (), segs')"
  shows "sv_shmread ftok [p] segs' = (Exits [], segs')"
  using assms
  by (auto simp: sv_shmwrite_def sv_shmread_def sv_shm_find_def shmget_def shm_check_fill split: option.splits sum.splits if_splits)

text \<open>After the object has been made longer, \<open>shmread\<close> tells of the new places that should not have the number 0.\<close>

lemma shmread_after_growth:
  assumes "segs name = Some (shm_fill 0 bs)" and "int (length bs) \<le> atoi len" and "0 < atoi len"
  shows "\<exists>out. fst (shmread [name] (snd (shmcreate False [name, len] segs))) = Exits out \<and>
    set out = {(k, 0) |k. int (length bs) \<le> k \<and> k < atoi len \<and> k mod 256 \<noteq> 0}"
proof -
  have new: "ftruncate_seg (nat (atoi len)) (shm_fill 0 bs) = shm_fill 0 bs @ replicate (nat (atoi len) - length bs) 0"
    using assms(2) by (simp add: ftruncate_seg_def)
  then have read: "fst (shmread [name] (snd (shmcreate False [name, len] segs))) =
      Exits (shm_check (int (length bs)) (replicate (nat (atoi len) - length bs) 0))"
    using assms by (auto simp: shmcreate_def shmread_def Let_def shm_check_append shm_check_fill)
  have "set (shm_check (int (length bs)) (replicate (nat (atoi len) - length bs) 0)) =
      {(k, 0) |k. int (length bs) \<le> k \<and> k < atoi len \<and> k mod 256 \<noteq> 0}"
    using assms(2) by (auto simp: shm_check_nth)
  with read show ?thesis by blast
qed

text \<open>
  C40. What one program stores the next one finds. After \<open>semsetvalues\<close> has exited, \<open>semgetvalues\<close> prints the values of
  the command line modulo \<open>2 ^ 16\<close>, in order. After \<open>shmwrite\<close>, of \<open>src/pxshm\<close> or of \<open>src/svshm\<close>, \<open>shmread\<close> tells of no
  difference; after \<open>shmcreate\<close> has then made the object longer it tells of the new places that are not multiples of 256.
\<close>

theorem tools_read_back:
  assumes "semsetvalues ftok (p # as) sets = (Exits (), sets')"
    and "sv_shmwrite ftok [p] svsegs = (Exits (), svsegs')"
    and "shmwrite [name] segs = (Exits (), segs')"
    and "segs name = Some bs" and "int (length bs) \<le> atoi len"
  shows "fst (semgetvalues ftok [p] sets') = Exits (map (\<lambda>i. (i, atoi (as ! i) mod 2 ^ 16)) [0..<length as]) \<and>
    sv_shmread ftok [p] svsegs' = (Exits [], svsegs') \<and>
    shmread [name] segs' = (Exits [], segs') \<and>
    (\<exists>out. fst (shmread [name] (snd (shmcreate False [name, len] segs'))) = Exits out \<and>
      set out = {(k, 0) |k. int (length bs) \<le> k \<and> k < atoi len \<and> k mod 256 \<noteq> 0})"
proof -
  have "segs' name = Some (shm_fill 0 bs)" "bs \<noteq> []"
    using assms(3,4) by (auto simp: shmwrite_def split: if_splits)
  moreover from this have "0 < atoi len" using assms(5) by (cases bs) auto
  ultimately show ?thesis
    using semget_after_set [OF assms(1)] sv_shmread_after_write [OF assms(2)] shmread_after_write [OF assms(3)]
      shmread_after_growth [of segs' name bs len] assms(5) by blast
qed

theorem tools_read_back_witness:
  "fst (semgetvalues (\<lambda>p. Inr 1) [[47]] [1 \<mapsto> [5, 6]]) = Exits [(0, 5), (1, 6)]"
  using tools_read_back [of "\<lambda>p. Inr 1" "[47]" "[[53], [54]]" "[1 \<mapsto> [0, 0]]" "[1 \<mapsto> [5, 6]]" "[1 \<mapsto> [9, 9]]" "[1 \<mapsto> [0, 1]]"
    "[47]" "[[47] \<mapsto> [9]]" "[[47] \<mapsto> [0]]" "[9]" "[50]"]
  by (simp add: semsetvalues_def sem_lookup_def setall_def sv_shmwrite_def sv_shm_find_def shmget_def shmwrite_def
      atoi_def atol_def is_space_def is_digit_def)

end
