(* ===== verification/Os_Sync.thy ===== *)
theory Os_Sync
  imports Ipc_Prelude "HOL-Library.Sublist"
begin

text \<open>
  The programs \<open>os_cv_while.c\<close>, \<open>os_cv_if.c\<close>, \<open>os_prodcons8.c\<close> and \<open>os_fish.c\<close> of \<open>src/mutex\<close>, over the
  threads of \<open>thread.h\<close> and the mutexes and condition variables of \<open>thread-sync.h\<close>: threads that print
  parentheses or pieces of fish for ever. A section under the mutex is one step of its thread.
\<close>

section \<open>Threads\<close>

text \<open>
  Where a thread is: at \<open>mutex_lock\<close>, in \<open>cond_wait\<close>, woken there, and in \<open>os_fish.c\<close> also between
  \<open>fish_before\<close> and \<open>putchar\<close>, and between \<open>putchar\<close> and \<open>fish_after\<close>.
\<close>

datatype cv_pc = V_lock | V_parked | V_woken | V_print | V_after

text \<open>\<open>create\<close> has room for \<open>NTHREAD\<close> threads; its assertion ends the program otherwise.\<close>

abbreviation (input) NTHREAD :: nat where "NTHREAD \<equiv> 64"

definition create_all :: "'r list \<Rightarrow> cv_pc list option" where
  "create_all entries = (if length entries \<le> NTHREAD then Some (replicate (length entries) V_lock) else None)"

definition cv_broadcast :: "cv_pc list \<Rightarrow> cv_pc list" where
  "cv_broadcast = cond_broadcast (\<lambda>p. p = V_parked) (\<lambda>_. V_woken)"

section \<open>Parentheses\<close>

datatype cv_entry = Tproduce | Tconsume

record cv =
  cv_count :: int
  cv_pcs :: "cv_pc list"
  cv_out :: string

fun cv_can :: "int \<Rightarrow> cv_entry \<Rightarrow> cv \<Rightarrow> bool" where
  "cv_can n Tproduce s = (cv_count s < n)"
| "cv_can n Tconsume s = (0 < cv_count s)"

fun cv_act :: "cv_entry \<Rightarrow> cv \<Rightarrow> cv" where
  "cv_act Tproduce s = s\<lparr>cv_count := cv_count s + 1, cv_out := cv_out s @ ''(''\<rparr>"
| "cv_act Tconsume s = s\<lparr>cv_count := cv_count s - 1, cv_out := cv_out s @ '')''\<rparr>"

text \<open>\<open>os_cv_while.c\<close>: a thread tests again when it was woken, and wakes all others.\<close>

definition cv_while_thread :: "int \<Rightarrow> cv_entry \<Rightarrow> nat \<Rightarrow> cv \<Rightarrow> cv option" where
  "cv_while_thread n r j s =
    (if cv_pcs s ! j = V_parked then None
     else if cv_can n r s then Some ((cv_act r s)\<lparr>cv_pcs := cv_broadcast ((cv_pcs s)[j := V_lock])\<rparr>)
     else Some (s\<lparr>cv_pcs := (cv_pcs s)[j := V_parked]\<rparr>))"

definition cv_while_step :: "int \<Rightarrow> cv_entry list \<Rightarrow> cv \<Rightarrow> cv \<Rightarrow> bool" where
  "cv_while_step n roles s t \<longleftrightarrow> (\<exists>j < length roles. cv_while_thread n (roles ! j) j s = Some t)"

text \<open>\<open>cond_wait\<close> may return without a signal.\<close>

definition cv_spurious :: "cv \<Rightarrow> cv \<Rightarrow> bool" where
  "cv_spurious s t \<longleftrightarrow>
    (\<exists>j < length (cv_pcs s). cv_pcs s ! j = V_parked \<and> t = s\<lparr>cv_pcs := (cv_pcs s)[j := V_woken]\<rparr>)"

text \<open>\<open>os_cv_if.c\<close>: a thread that was woken goes on without a test, and wakes one other.\<close>

inductive cv_if_step :: "int \<Rightarrow> cv_entry list \<Rightarrow> cv \<Rightarrow> cv \<Rightarrow> bool" for n :: int and roles :: "cv_entry list" where
  if_wait: "j < length roles \<Longrightarrow> cv_pcs s ! j = V_lock \<Longrightarrow> \<not> cv_can n (roles ! j) s \<Longrightarrow>
    cv_if_step n roles s (s\<lparr>cv_pcs := (cv_pcs s)[j := V_parked]\<rparr>)"
| if_go: "j < length roles \<Longrightarrow> cv_pcs s ! j = V_woken \<or> cv_pcs s ! j = V_lock \<and> cv_can n (roles ! j) s \<Longrightarrow>
    cond_signal (\<lambda>p. p = V_parked) (\<lambda>_. V_woken) ((cv_pcs s)[j := V_lock]) pcs' \<Longrightarrow>
    cv_if_step n roles s ((cv_act (roles ! j) s)\<lparr>cv_pcs := pcs'\<rparr>)"

text \<open>\<open>os_prodcons8.c\<close>: a thread that cannot go on unlocks the mutex and tries again.\<close>

definition cv_spin_thread :: "int \<Rightarrow> cv_entry \<Rightarrow> cv \<Rightarrow> cv" where
  "cv_spin_thread n r s = (if cv_can n r s then cv_act r s else s)"

definition cv_spin_step :: "int \<Rightarrow> cv_entry list \<Rightarrow> cv \<Rightarrow> cv \<Rightarrow> bool" where
  "cv_spin_step n roles s t \<longleftrightarrow> (\<exists>j < length roles. t = cv_spin_thread n (roles ! j) s)"

text \<open>\<open>main\<close> creates a producer and a consumer a number of times, 8 times in \<open>os_prodcons8.c\<close>.\<close>

definition cv_roles :: "nat \<Rightarrow> cv_entry list" where
  "cv_roles T = concat (replicate T [Tproduce, Tconsume])"

definition cv_start :: "nat \<Rightarrow> cv option" where
  "cv_start T = map_option (\<lambda>pcs. \<lparr>cv_count = 0, cv_pcs = pcs, cv_out = []\<rparr>) (create_all (cv_roles T))"

section \<open>Fish\<close>

text \<open>The states \<open>A\<close> to \<open>F\<close> are 1 to 6; \<open>next\<close> gives 0 when there is no rule.\<close>

definition rules :: "(nat \<times> char \<times> nat) list" where
  "rules =
    [(1, CHR ''<'', 2), (2, CHR ''>'', 3), (3, CHR ''<'', 4),
     (1, CHR ''>'', 5), (5, CHR ''<'', 6), (6, CHR ''>'', 4), (4, CHR ''_'', 1)]"

definition fish_next :: "nat \<Rightarrow> char \<Rightarrow> nat" where
  "fish_next current ch =
    (case find (\<lambda>(from, c, dest). from = current \<and> c = ch) rules of None \<Rightarrow> 0 | Some (from, c, dest) \<Rightarrow> dest)"

record fish =
  f_current :: nat
  f_quota :: int
  f_pcs :: "cv_pc list"
  f_out :: string
  f_failed :: bool

definition can_print :: "char \<Rightarrow> fish \<Rightarrow> bool" where
  "can_print ch s \<longleftrightarrow> fish_next (f_current s) ch \<noteq> 0 \<and> 0 < f_quota s"

text \<open>\<open>f_failed\<close> says that the assertion of \<open>fish_after\<close> failed.\<close>

definition fish_before :: "char \<Rightarrow> nat \<Rightarrow> fish \<Rightarrow> fish" where
  "fish_before ch j s =
    (if can_print ch s then s\<lparr>f_quota := f_quota s - 1, f_pcs := (f_pcs s)[j := V_print]\<rparr>
     else s\<lparr>f_pcs := (f_pcs s)[j := V_parked]\<rparr>)"

definition fish_after :: "char \<Rightarrow> nat \<Rightarrow> fish \<Rightarrow> fish" where
  "fish_after ch j s =
    (let nx = fish_next (f_current s) ch; s' = s\<lparr>f_quota := f_quota s + 1, f_current := nx\<rparr> in
     if nx = 0 then s'\<lparr>f_failed := True\<rparr> else s'\<lparr>f_pcs := cv_broadcast ((f_pcs s)[j := V_lock])\<rparr>)"

definition fish_thread :: "char \<Rightarrow> nat \<Rightarrow> fish \<Rightarrow> fish option" where
  "fish_thread ch j s =
    (if f_failed s then None
     else case f_pcs s ! j of
      V_lock \<Rightarrow> Some (fish_before ch j s)
    | V_woken \<Rightarrow> Some (fish_before ch j s)
    | V_parked \<Rightarrow> None
    | V_print \<Rightarrow> Some (s\<lparr>f_out := f_out s @ [ch], f_pcs := (f_pcs s)[j := V_after]\<rparr>)
    | V_after \<Rightarrow> Some (fish_after ch j s))"

text \<open>
  The threads have the numbers 1 to \<open>strlen(roles)\<close>, so that the last one reads the null byte behind
  the string.
\<close>

definition fish_roles :: string where
  "fish_roles = tl (''.<<<<<>>>>___'' @ [CHR 0x00])"

definition fish_step :: "fish \<Rightarrow> fish \<Rightarrow> bool" where
  "fish_step s t \<longleftrightarrow> (\<exists>j < length fish_roles. fish_thread (fish_roles ! j) j s = Some t)"

definition fish_spurious :: "fish \<Rightarrow> fish \<Rightarrow> bool" where
  "fish_spurious s t \<longleftrightarrow>
    (\<exists>j < length (f_pcs s). f_pcs s ! j = V_parked \<and> t = s\<lparr>f_pcs := (f_pcs s)[j := V_woken]\<rparr>)"

definition fish_start :: "fish option" where
  "fish_start =
    map_option (\<lambda>pcs. \<lparr>f_current = 1, f_quota = 1, f_pcs = pcs, f_out = [], f_failed = False\<rparr>) (create_all fish_roles)"

section \<open>Programs that go on printing\<close>

text \<open>
  What the condition variables are for: some thread can always run, and there are at most \<open>bound\<close> steps
  between two characters. Spurious wakeups keep the invariant, and are not counted as progress.
\<close>

locale keeps_printing =
  fixes start :: 's
    and step :: "'s \<Rightarrow> 's \<Rightarrow> bool"
    and spurious :: "'s \<Rightarrow> 's \<Rightarrow> bool"
    and I :: "'s \<Rightarrow> bool"
    and out :: "'s \<Rightarrow> string"
    and left :: "'s \<Rightarrow> nat"
    and bound :: nat
  assumes I_start: "I start"
    and I_step: "I s \<Longrightarrow> step s t \<Longrightarrow> I t"
    and I_spurious: "I s \<Longrightarrow> spurious s t \<Longrightarrow> I t"
    and enabled: "I s \<Longrightarrow> \<exists>t. step s t"
    and progress: "I s \<Longrightarrow> step s t \<Longrightarrow>
      out t = out s \<and> left t < left s \<or> (\<exists>c. out t = out s @ [c]) \<and> left t \<le> bound"
    and left_bound: "I s \<Longrightarrow> left s \<le> bound"
begin

lemma I_reach: "reach (\<lambda>s. s = start) (\<lambda>s t. step s t \<or> spurious s t) s \<Longrightarrow> I s"
  by (induction rule: reach.induct) (auto intro: I_start I_step I_spurious)

lemma prints:
  "I s \<Longrightarrow> path_steps step s ts \<Longrightarrow>
    I (last (s # ts)) \<and> length (out s) \<le> length (out (last (s # ts))) \<and>
    length ts + left (last (s # ts)) \<le> left s + Suc bound * (length (out (last (s # ts))) - length (out s))"
proof (induction ts arbitrary: s)
  case (Cons t ts)
  then have "I t" using I_step by auto
  define z where "z = last (t # ts)"
  have z: "last (s # t # ts) = z" by (simp add: z_def)
  from Cons.IH [OF \<open>I t\<close>] Cons.prems(2)
  have IH: "I z" "length (out t) \<le> length (out z)"
    "length ts + left z \<le> left t + Suc bound * (length (out z) - length (out t))" by (auto simp: z_def)
  have "step s t" using Cons.prems(2) by simp
  from progress [OF Cons.prems(1) this] show ?case unfolding z
  proof
    assume "out t = out s \<and> left t < left s"
    with IH show "I z \<and> length (out s) \<le> length (out z) \<and>
      length (t # ts) + left z \<le> left s + Suc bound * (length (out z) - length (out s))"
      by (auto simp del: mult_Suc)
  next
    assume "(\<exists>c. out t = out s @ [c]) \<and> left t \<le> bound"
    then have len: "length (out t) = Suc (length (out s))" and lt: "left t \<le> bound" by auto
    have "length (out z) - length (out s) = Suc (length (out z) - length (out t))" using len IH(2) by linarith
    with IH lt len show "I z \<and> length (out s) \<le> length (out z) \<and>
      length (t # ts) + left z \<le> left s + Suc bound * (length (out z) - length (out s))"
      by (simp only: mult_Suc_right list.size simp_thms) (intro conjI; linarith)
  qed
qed simp

lemma goes_on:
  assumes "I s"
  shows "\<exists>ts. length ts = k \<and> path_steps step s ts"
  using assms
proof (induction k arbitrary: s)
  case (Suc k)
  obtain t where t: "step s t" using enabled [OF Suc.prems] by blast
  from Suc.IH [OF I_step [OF Suc.prems t]] obtain ts where "length ts = k \<and> path_steps step t ts" by blast
  with t show ?case by (intro exI [of _ "t # ts"]) simp
qed simp

text \<open>Every run of enough steps prints, and there are such runs.\<close>

lemma prints_on:
  assumes "reach (\<lambda>s. s = start) (\<lambda>s t. step s t \<or> spurious s t) s"
  shows "(\<forall>ts. path_steps step s ts \<longrightarrow> Suc bound * k \<le> length ts \<longrightarrow> length (out s) + k \<le> length (out (last (s # ts)))) \<and>
    (\<exists>ts. length ts = Suc bound * k \<and> path_steps step s ts)"
proof -
  have I: "I s" by (rule I_reach [OF assms])
  have "length (out s) + k \<le> length (out (last (s # ts)))"
    if "path_steps step s ts" "Suc bound * k \<le> length ts" for ts
  proof (rule ccontr)
    let ?d = "length (out (last (s # ts))) - length (out s)"
    note p = prints [OF I that(1)]
    assume "\<not> ?thesis"
    then have "Suc ?d \<le> k" using p by linarith
    then have "Suc bound * Suc ?d \<le> Suc bound * k" by (rule mult_le_mono2)
    moreover have "length ts \<le> left s + Suc bound * ?d" using p by linarith
    ultimately show False using left_bound [OF I] that(2) by simp
  qed
  then show ?thesis using goes_on [OF I] by blast
qed

end

section \<open>Parentheses: the invariant\<close>

text \<open>How many parentheses are open, and strings in which at least none and at most \<open>n\<close> ever are.\<close>

definition depth :: "string \<Rightarrow> int" where
  "depth w = int (count_list w CHR ''('') - int (count_list w CHR '')'')"

definition nested :: "int \<Rightarrow> string \<Rightarrow> bool" where
  "nested n w \<longleftrightarrow> (\<forall>p. prefix p w \<longrightarrow> 0 \<le> depth p \<and> depth p \<le> n)"

lemma nested_snoc: "nested n w \<Longrightarrow> 0 \<le> depth (w @ [c]) \<Longrightarrow> depth (w @ [c]) \<le> n \<Longrightarrow> nested n (w @ [c])"
  by (auto simp: nested_def)

lemma depth_snoc: "depth (w @ ''('') = depth w + 1" "depth (w @ '')'') = depth w - 1"
  by (simp_all add: depth_def)

lemma nested_Nil: "0 \<le> n \<Longrightarrow> nested n []"
  by (simp add: nested_def depth_def)

text \<open>A thread waits only while it cannot go on.\<close>

definition cv_inv :: "int \<Rightarrow> cv_entry list \<Rightarrow> cv \<Rightarrow> bool" where
  "cv_inv n roles s \<longleftrightarrow>
    length (cv_pcs s) = length roles \<and> cv_count s = depth (cv_out s) \<and> 0 \<le> cv_count s \<and> cv_count s \<le> n \<and> nested n (cv_out s) \<and>
    (\<forall>j < length roles. cv_pcs s ! j = V_parked \<longrightarrow> \<not> cv_can n (roles ! j) s)"

lemma cv_act_out: "\<exists>c. cv_out (cv_act r s) = cv_out s @ [c]"
  by (cases r) auto

lemma cv_act_inv:
  assumes "cv_can n r s" and "cv_count s = depth (cv_out s)" and "0 \<le> cv_count s" and "cv_count s \<le> n" and "nested n (cv_out s)"
  shows "cv_count (cv_act r s) = depth (cv_out (cv_act r s)) \<and> 0 \<le> cv_count (cv_act r s) \<and> cv_count (cv_act r s) \<le> n \<and>
    nested n (cv_out (cv_act r s))"
  using assms by (cases r) (auto simp: depth_snoc intro!: nested_snoc)

lemma cv_broadcast_simps [simp]:
  "length (cv_broadcast pcs) = length pcs"
  "j < length pcs \<Longrightarrow> cv_broadcast pcs ! j \<noteq> V_parked"
  by (auto simp: cv_broadcast_def cond_broadcast_def)

lemma cv_can_pcs [simp]: "cv_can n r (s\<lparr>cv_pcs := pcs\<rparr>) = cv_can n r s"
  by (cases r) auto

lemma cv_while_inv:
  assumes "cv_inv n roles s" and "cv_while_step n roles s t"
  shows "cv_inv n roles t"
proof -
  obtain j where j: "j < length roles" "cv_while_thread n (roles ! j) j s = Some t"
    using assms(2) by (auto simp: cv_while_step_def)
  show ?thesis
  proof (cases "cv_can n (roles ! j) s")
    case True
    with j have "t = (cv_act (roles ! j) s)\<lparr>cv_pcs := cv_broadcast ((cv_pcs s)[j := V_lock])\<rparr>"
      by (auto simp: cv_while_thread_def split: if_splits)
    with cv_act_inv [OF True] assms(1) show ?thesis by (simp add: cv_inv_def)
  next
    case False
    with j have "t = s\<lparr>cv_pcs := (cv_pcs s)[j := V_parked]\<rparr>" by (auto simp: cv_while_thread_def split: if_splits)
    with False j(1) assms(1) show ?thesis by (simp add: cv_inv_def nth_list_update)
  qed
qed

lemma cv_spurious_inv: "cv_inv n roles s \<Longrightarrow> cv_spurious s t \<Longrightarrow> cv_inv n roles t"
  by (auto simp: cv_inv_def cv_spurious_def nth_list_update split: if_splits)

lemma length_cv_roles [simp]: "length (cv_roles T) = 2 * T"
  by (induction T) (auto simp: cv_roles_def)

lemma cv_roles_both: "0 < T \<Longrightarrow> cv_roles T ! 0 = Tproduce \<and> cv_roles T ! 1 = Tconsume"
  by (cases T) (auto simp: cv_roles_def)

text \<open>The steps until the next character: each thread that cannot go on waits.\<close>

definition cv_left :: "cv \<Rightarrow> nat" where
  "cv_left s = length (filter (\<lambda>p. p \<noteq> V_parked) (cv_pcs s))"

lemma filter_update_less:
  "j < length ps \<Longrightarrow> P (ps ! j) \<Longrightarrow> \<not> P x \<Longrightarrow> length (filter P (ps[j := x])) < length (filter P ps)"
proof (induction ps arbitrary: j)
  case (Cons p ps)
  then show ?case by (cases j) auto
qed simp

lemma cv_while_progress:
  assumes "cv_inv n roles s" and "cv_while_step n roles s t"
  shows "cv_out t = cv_out s \<and> cv_left t < cv_left s \<or> (\<exists>c. cv_out t = cv_out s @ [c]) \<and> cv_left t \<le> length roles"
proof -
  obtain j where j: "j < length roles" "cv_while_thread n (roles ! j) j s = Some t"
    using assms(2) by (auto simp: cv_while_step_def)
  have len: "length (cv_pcs s) = length roles" "length (cv_pcs t) = length roles"
    using assms(1) cv_while_inv [OF assms] by (simp_all add: cv_inv_def)
  show ?thesis
  proof (cases "cv_can n (roles ! j) s")
    case True
    with j have "cv_out t = cv_out (cv_act (roles ! j) s)" by (auto simp: cv_while_thread_def split: if_splits)
    with cv_act_out [of "roles ! j" s] len(2) show ?thesis
      using length_filter_le [of "\<lambda>p. p \<noteq> V_parked" "cv_pcs t"] by (auto simp: cv_left_def)
  next
    case False
    with j have "t = s\<lparr>cv_pcs := (cv_pcs s)[j := V_parked]\<rparr>" "cv_pcs s ! j \<noteq> V_parked"
      by (auto simp: cv_while_thread_def split: if_splits)
    with j(1) len(1) show ?thesis by (simp add: cv_left_def filter_update_less)
  qed
qed

lemma cv_while_enabled:
  assumes "cv_inv n (cv_roles T) s" and "0 < n" and "0 < T"
  shows "\<exists>t. cv_while_step n (cv_roles T) s t"
proof -
  note both = cv_roles_both [OF assms(3)]
  have "cv_pcs s ! 0 \<noteq> V_parked \<or> cv_pcs s ! 1 \<noteq> V_parked"
  proof (rule ccontr)
    assume "\<not> ?thesis"
    then have "\<not> cv_can n Tproduce s" "\<not> cv_can n Tconsume s" using assms(1,3) both
      by (auto simp: cv_inv_def dest: spec [of _ 0] spec [of _ "1 :: nat"])
    then show False using assms(2) by simp
  qed
  then obtain j where "j < length (cv_roles T)" "cv_pcs s ! j \<noteq> V_parked"
    using assms(3) by (cases "cv_pcs s ! 0 \<noteq> V_parked") (force, force)
  then have "\<exists>t. cv_while_thread n (cv_roles T ! j) j s = Some t" by (simp add: cv_while_thread_def)
  with \<open>j < length (cv_roles T)\<close> show ?thesis by (auto simp: cv_while_step_def)
qed

lemma cv_start_inv: "cv_start T = Some s \<Longrightarrow> 0 \<le> n \<Longrightarrow> cv_inv n (cv_roles T) s"
  by (auto simp: cv_start_def create_all_def cv_inv_def nested_Nil depth_def split: if_splits)

text \<open>A start that \<open>create\<close> allows.\<close>

definition cv_start_of :: "nat \<Rightarrow> cv" where
  "cv_start_of T = \<lparr>cv_count = 0, cv_pcs = replicate (2 * T) V_lock, cv_out = []\<rparr>"

lemma cv_start_of: "cv_start T = Some s \<longleftrightarrow> 2 * T \<le> NTHREAD \<and> s = cv_start_of T"
  by (auto simp: cv_start_def create_all_def cv_start_of_def)

text \<open>A program with at least one producer, one consumer and one place.\<close>

interpretation cv_while: keeps_printing "cv_start_of (Suc k)" "cv_while_step (int (Suc m)) (cv_roles (Suc k))" cv_spurious
  "cv_inv (int (Suc m)) (cv_roles (Suc k))" cv_out cv_left "2 * Suc k" for k m
proof
  show "cv_inv (int (Suc m)) (cv_roles (Suc k)) (cv_start_of (Suc k))"
    by (simp add: cv_inv_def cv_start_of_def nested_Nil depth_def del: replicate_Suc)
  show "cv_left s \<le> 2 * Suc k" if "cv_inv (int (Suc m)) (cv_roles (Suc k)) s" for s
    using that length_filter_le [of "\<lambda>p. p \<noteq> V_parked" "cv_pcs s"] by (simp add: cv_inv_def cv_left_def)
  show "\<exists>t. cv_while_step (int (Suc m)) (cv_roles (Suc k)) s t" if "cv_inv (int (Suc m)) (cv_roles (Suc k)) s" for s
    by (rule cv_while_enabled [OF that]) simp_all
  show "cv_out t = cv_out s \<and> cv_left t < cv_left s \<or> (\<exists>c. cv_out t = cv_out s @ [c]) \<and> cv_left t \<le> 2 * Suc k"
    if "cv_inv (int (Suc m)) (cv_roles (Suc k)) s" "cv_while_step (int (Suc m)) (cv_roles (Suc k)) s t" for s t
    using cv_while_progress [OF that] by simp
qed (fact cv_while_inv cv_spurious_inv)+

section \<open>Properties of the programs with parentheses\<close>

text \<open>
  C23. \<open>os_cv_while.c\<close> with at least one place and one pair of threads: in every reachable state, spurious
  wakeups included, the printed parentheses are nested at most \<open>n\<close> deep and \<open>count\<close> is the number of open
  ones, the threads can go on, and of any \<open>2 * T + 1\<close> further steps of the threads, spurious wakeups not counted, one prints.
\<close>

theorem cv_while_prints:
  assumes "0 < n" and "0 < T" and "cv_start T = Some s0"
    and "reach (\<lambda>s. s = s0) (\<lambda>s t. cv_while_step n (cv_roles T) s t \<or> cv_spurious s t) s"
  shows "nested n (cv_out s) \<and> cv_count s = depth (cv_out s) \<and>
    (\<forall>ts. path_steps (cv_while_step n (cv_roles T)) s ts \<longrightarrow> (2 * T + 1) * k \<le> length ts \<longrightarrow>
      length (cv_out s) + k \<le> length (cv_out (last (s # ts)))) \<and>
    (\<exists>ts. length ts = (2 * T + 1) * k \<and> path_steps (cv_while_step n (cv_roles T)) s ts)"
proof -
  obtain T' m where T: "T = Suc T'" and n: "n = int (Suc m)"
    using assms(1,2) by (metis Suc_pred' pos_int_cases)
  have s0: "s0 = cv_start_of (Suc T')" using assms(3) T cv_start_of by simp
  have "cv_inv n (cv_roles T) s" using cv_while.I_reach [of T' m s] assms(4) unfolding T n s0 .
  moreover have "Suc (2 * Suc T') = 2 * T + 1" using T by simp
  ultimately show ?thesis using cv_while.prints_on [of T' m s k] assms(4)
    unfolding T n s0 cv_inv_def by auto
qed

theorem cv_while_prints_witness:
  "\<exists>ts. length ts = 9 \<and> path_steps (cv_while_step 1 (cv_roles 1)) (cv_start_of 1) ts \<and> 3 \<le> length (cv_out (last (cv_start_of 1 # ts)))"
proof -
  have s0: "cv_start 1 = Some (cv_start_of 1)" by (simp add: cv_start_of)
  have "reach (\<lambda>s. s = cv_start_of 1) (\<lambda>s t. cv_while_step 1 (cv_roles 1) s t \<or> cv_spurious s t) (cv_start_of 1)"
    by (rule reach_start) simp
  from cv_while_prints [OF _ _ s0 this, of 3]
  have all: "\<forall>ts. path_steps (cv_while_step 1 (cv_roles 1)) (cv_start_of 1) ts \<longrightarrow> 9 \<le> length ts \<longrightarrow>
      length (cv_out (cv_start_of 1)) + 3 \<le> length (cv_out (last (cv_start_of 1 # ts)))"
    and ex: "\<exists>ts. length ts = 9 \<and> path_steps (cv_while_step 1 (cv_roles 1)) (cv_start_of 1) ts" by auto
  from ex obtain ts where ts: "length ts = 9" "path_steps (cv_while_step 1 (cv_roles 1)) (cv_start_of 1) ts" by blast
  with all have "3 \<le> length (cv_out (last (cv_start_of 1 # ts)))" by fastforce
  with ts show ?thesis by blast
qed

lemma cv_if_run:
  assumes "0 < n"
  shows "\<exists>s. reach (\<lambda>s. s = cv_start_of (Suc (Suc k))) (cv_if_step n (cv_roles (Suc (Suc k)))) s \<and>
    cv_count s = - 1 \<and> cv_out s = ''())''"
proof -
  let ?r = "cv_roles (Suc (Suc k))" and ?free = "replicate (2 * k) V_lock"
  let ?st = "\<lambda>c p1 out. \<lparr>cv_count = c, cv_pcs = V_lock # p1 # V_lock # V_lock # ?free, cv_out = out\<rparr>"
  have r: "?r ! 0 = Tproduce" "?r ! 1 = Tconsume" "?r ! 3 = Tconsume"
    by (simp_all add: cv_roles_def numeral_3_eq_3)
  have none: "\<not> list_ex (\<lambda>p. p = V_parked) (V_lock # V_woken # V_lock # V_lock # ?free)"
    "\<not> list_ex (\<lambda>p. p = V_parked) (V_lock # V_lock # V_lock # V_lock # ?free)" by (auto simp: list_ex_iff)
  have "cv_start_of (Suc (Suc k)) = ?st 0 V_lock []" by (simp add: cv_start_of_def)
  moreover have "cv_if_step n ?r (?st 0 V_lock []) (?st 0 V_parked [])"
    using if_wait [of 1 ?r "?st 0 V_lock []" n] r by simp
  moreover have "cv_if_step n ?r (?st 0 V_parked []) (?st 1 V_woken ''('')"
    using if_go [of 0 ?r "?st 0 V_parked []" n, OF _ _ signal_one [of 1]] r assms by simp
  moreover have "cv_if_step n ?r (?st 1 V_woken ''('') (?st 0 V_woken ''()'')"
    using if_go [of 3 ?r "?st 1 V_woken ''(''" n, OF _ _ signal_none] r none by (simp add: numeral_3_eq_3)
  moreover have "cv_if_step n ?r (?st 0 V_woken ''()'') (?st (- 1) V_lock ''())'')"
    using if_go [of 1 ?r "?st 0 V_woken ''()''" n, OF _ _ signal_none] r none by simp
  ultimately have "path_steps (cv_if_step n ?r) (cv_start_of (Suc (Suc k)))
      [?st 0 V_parked [], ?st 1 V_woken ''('', ?st 0 V_woken ''()'', ?st (- 1) V_lock ''())'']" by simp
  from reach_path [OF reach_start this, of "\<lambda>s. s = cv_start_of (Suc (Suc k))"]
  have "reach (\<lambda>s. s = cv_start_of (Suc (Suc k))) (cv_if_step n ?r) (?st (- 1) V_lock ''())'')" by simp
  then show ?thesis by (intro exI [of _ "?st (- 1) V_lock ''())''"]) simp
qed

text \<open>
  \<open>os_cv_if.c\<close> with two pairs of threads or more: a thread that was woken does not test again, and
  \<open>count\<close> can become negative, without any spurious wakeup, when another consumer comes first.
\<close>

lemma cv_if_underflows:
  assumes "0 < n" and "2 \<le> T" and "cv_start T = Some s0"
  shows "\<exists>s. reach (\<lambda>s. s = s0) (cv_if_step n (cv_roles T)) s \<and> cv_count s = - 1 \<and> cv_out s = ''())''"
proof -
  have "T = Suc (Suc (T - 2))" using assms(2) by simp
  with cv_if_run [OF assms(1), of "T - 2"] assms(3) cv_start_of show ?thesis by metis
qed

text \<open>
  \<open>os_prodcons8.c\<close> prints nested parentheses too, and some thread can print in every state.
\<close>

lemma cv_spin_prints:
  assumes "0 < n" and "0 < T" and "cv_start T = Some s0" and "reach (\<lambda>s. s = s0) (cv_spin_step n (cv_roles T)) s"
  shows "nested n (cv_out s) \<and> cv_count s = depth (cv_out s) \<and>
    (\<exists>t c. cv_spin_step n (cv_roles T) s t \<and> cv_out t = cv_out s @ [c])"
proof -
  have inv: "cv_count s = depth (cv_out s) \<and> 0 \<le> cv_count s \<and> cv_count s \<le> n \<and> nested n (cv_out s)"
    using assms(4)
  proof (induction rule: reach.induct)
    case (reach_start s)
    then show ?case using assms(1,3) by (simp add: cv_start_of cv_start_of_def nested_Nil depth_def)
  next
    case (reach_step s t)
    then obtain j where "t = cv_spin_thread n (cv_roles T ! j) s" by (auto simp: cv_spin_step_def)
    with reach_step.IH cv_act_inv [of n "cv_roles T ! j" s] show ?case
      by (cases "cv_can n (cv_roles T ! j) s") (simp_all add: cv_spin_thread_def)
  qed
  have "cv_can n Tproduce s \<or> cv_can n Tconsume s" using inv assms(1) by auto
  then obtain j where j: "j < length (cv_roles T)" "cv_can n (cv_roles T ! j) s"
  proof
    assume "cv_can n Tproduce s"
    then show thesis using that [of 0] cv_roles_both [OF assms(2)] assms(2) by simp
  next
    assume "cv_can n Tconsume s"
    then show thesis using that [of 1] cv_roles_both [OF assms(2)] assms(2) by simp
  qed
  then have "cv_spin_step n (cv_roles T) s (cv_act (cv_roles T ! j) s)"
    by (auto simp: cv_spin_step_def cv_spin_thread_def)
  with inv cv_act_out show ?thesis by blast
qed

section \<open>Fish: what is printed\<close>

fun fish_run :: "nat \<Rightarrow> string \<Rightarrow> nat" where
  "fish_run c [] = c"
| "fish_run c (ch # w) = fish_run (fish_next c ch) w"

lemma fish_run_snoc: "fish_run c (w @ [ch]) = fish_next (fish_run c w) ch"
  by (induction w arbitrary: c) auto

abbreviation (input) fishes :: "string set" where
  "fishes \<equiv> {''<><_'', ''><>_''}"

lemma fish_next_cases:
  "fish_next c ch \<noteq> 0 \<Longrightarrow>
    (c, ch, fish_next c ch) \<in> {(1, CHR ''<'', 2), (2, CHR ''>'', 3), (3, CHR ''<'', 4), (1, CHR ''>'', 5), (5, CHR ''<'', 6),
      (6, CHR ''>'', 4), (4, CHR ''_'', 1)}"
  by (auto simp: fish_next_def rules_def split: if_splits)

text \<open>The part of a fish that leads to a state.\<close>

definition fish_part :: "nat \<Rightarrow> string set" where
  "fish_part c =
    (if c = 1 then {[]} else if c = 2 then {''<''} else if c = 3 then {''<>''} else if c = 4 then {''<><'', ''><>''}
     else if c = 5 then {''>''} else if c = 6 then {''><''} else {})"

lemma fish_shape:
  "fish_run 1 w \<noteq> 0 \<Longrightarrow> \<exists>ws p. set ws \<subseteq> fishes \<and> p \<in> fish_part (fish_run 1 w) \<and> w = concat ws @ p"
proof (induction w rule: rev_induct)
  case Nil
  show ?case by (intro exI [of _ "[]"]) (simp add: fish_part_def)
next
  case (snoc ch w)
  have z: "fish_next 0 ch = 0" by (simp add: fish_next_def rules_def)
  let ?c = "fish_run 1 w"
  have nx: "fish_next ?c ch \<noteq> 0" using snoc.prems by (simp add: fish_run_snoc)
  then have "?c \<noteq> 0" using z by (metis)
  then obtain ws p where wp: "set ws \<subseteq> fishes" "p \<in> fish_part ?c" "w = concat ws @ p" using snoc.IH by blast
  show ?case
  proof (cases "ch = CHR ''_''")
    case True
    then have c: "?c = 4" "fish_next ?c ch = 1" using fish_next_cases [OF nx] by auto
    then have "set (ws @ [p @ ''_'']) \<subseteq> fishes" using wp by (auto simp: fish_part_def)
    moreover have "w @ [ch] = concat (ws @ [p @ ''_'']) @ []" using wp(3) True by simp
    moreover have "[] \<in> fish_part (fish_run 1 (w @ [ch]))" using c by (simp add: fish_run_snoc fish_part_def)
    ultimately show ?thesis by blast
  next
    case False
    then have "p @ [ch] \<in> fish_part (fish_next ?c ch)" using fish_next_cases [OF nx] wp(2) by (auto simp: fish_part_def)
    then have "p @ [ch] \<in> fish_part (fish_run 1 (w @ [ch]))" by (simp add: fish_run_snoc)
    moreover have "w @ [ch] = concat ws @ p @ [ch]" using wp(3) by simp
    ultimately show ?thesis using wp(1) by blast
  qed
qed

lemma fish_part_prefix: "p \<in> fish_part c \<Longrightarrow> \<exists>f \<in> fishes. prefix p f"
  by (auto simp: fish_part_def split: if_splits)

lemma fish_whole:
  assumes "fish_run 1 w \<noteq> 0"
  shows "\<exists>ws. set ws \<subseteq> fishes \<and> prefix w (concat ws)"
proof -
  from fish_shape [OF assms] obtain ws p where w: "set ws \<subseteq> fishes" "p \<in> fish_part (fish_run 1 w)" "w = concat ws @ p"
    by blast
  from fish_part_prefix [OF w(2)] obtain f where "f \<in> fishes" "prefix p f" by blast
  with w show ?thesis by (intro exI [of _ "ws @ [f]"]) auto
qed

section \<open>Fish: the invariant\<close>

definition fish_busy :: "fish \<Rightarrow> nat \<Rightarrow> bool" where
  "fish_busy s j \<longleftrightarrow> f_pcs s ! j = V_print \<or> f_pcs s ! j = V_after"

text \<open>Nobody prints, and there is a quota; or one thread has the quota, and may print or has printed.\<close>

definition fish_turn :: "fish \<Rightarrow> bool" where
  "fish_turn s \<longleftrightarrow>
    f_quota s = 1 \<and> (\<forall>j < 13. \<not> fish_busy s j) \<and> fish_run 1 (f_out s) = f_current s \<or>
    (\<exists>k < 13. f_quota s = 0 \<and> fish_busy s k \<and> (\<forall>j < 13. j \<noteq> k \<longrightarrow> \<not> fish_busy s j) \<and>
      fish_next (f_current s) (fish_roles ! k) \<noteq> 0 \<and>
      fish_run 1 (f_out s) = (if f_pcs s ! k = V_after then fish_next (f_current s) (fish_roles ! k) else f_current s))"

definition fish_inv :: "fish \<Rightarrow> bool" where
  "fish_inv s \<longleftrightarrow>
    length (f_pcs s) = 13 \<and> \<not> f_failed s \<and> f_current s \<in> {1..6} \<and> fish_turn s \<and>
    (\<forall>j < 13. f_pcs s ! j = V_parked \<longrightarrow> \<not> can_print (fish_roles ! j) s)"

lemma length_fish_roles [simp]: "length fish_roles = 13"
  by (simp add: fish_roles_def)

lemma fish_next_range: "fish_next c ch \<noteq> 0 \<Longrightarrow> fish_next c ch \<in> {1..6}"
  using fish_next_cases [of c ch] by auto

lemma fish_run_inv: "fish_inv s \<Longrightarrow> fish_run 1 (f_out s) \<noteq> 0"
  by (auto simp: fish_inv_def fish_turn_def split: if_splits)

lemma fish_step_inv:
  assumes "fish_inv s" and "fish_step s t"
  shows "fish_inv t"
proof -
  obtain j where j: "j < 13" "fish_thread (fish_roles ! j) j s = Some t" using assms(2) by (auto simp: fish_step_def)
  let ?ch = "fish_roles ! j"
  have len: "length (f_pcs s) = 13" and cur: "f_current s \<in> {1..6}" and ok: "\<not> f_failed s" and turn: "fish_turn s"
    and park: "\<forall>i < 13. f_pcs s ! i = V_parked \<longrightarrow> \<not> can_print (fish_roles ! i) s"
    using assms(1) by (simp_all add: fish_inv_def)
  consider (before) "f_pcs s ! j = V_lock \<or> f_pcs s ! j = V_woken" | (print) "f_pcs s ! j = V_print" | (after) "f_pcs s ! j = V_after"
    using j(2) ok by (cases "f_pcs s ! j") (auto simp: fish_thread_def)
  then show ?thesis
  proof cases
    case before
    then have t: "t = fish_before ?ch j s" using j(2) ok by (auto simp: fish_thread_def)
    have nb: "\<not> fish_busy s j" using before by (auto simp: fish_busy_def)
    show ?thesis
    proof (cases "can_print ?ch s")
      case True
      then have q: "f_quota s = 1" "\<forall>i < 13. \<not> fish_busy s i" "fish_run 1 (f_out s) = f_current s"
        "fish_next (f_current s) ?ch \<noteq> 0" using turn by (auto simp: fish_turn_def can_print_def)
      then have "fish_turn t" using True t j(1) len
        by (auto simp: fish_turn_def fish_before_def fish_busy_def nth_list_update intro!: exI [of _ j])
      with True t len cur ok q(1) show ?thesis by (simp add: fish_inv_def fish_before_def can_print_def)
    next
      case False
      have "fish_turn t" using turn False t j(1) len nb
        by (auto simp: fish_turn_def fish_before_def fish_busy_def nth_list_update split: if_splits)
      with False t len cur ok park j(1) show ?thesis by (auto simp: fish_inv_def fish_before_def can_print_def nth_list_update)
    qed
  next
    case print
    then have t: "t = s\<lparr>f_out := f_out s @ [?ch], f_pcs := (f_pcs s)[j := V_after]\<rparr>" using j(2) ok by (simp add: fish_thread_def)
    have "fish_busy s j" using print by (simp add: fish_busy_def)
    then have "fish_turn t" using turn t j(1) len print
      by (auto simp: fish_turn_def fish_busy_def nth_list_update fish_run_snoc intro!: exI [of _ j])
    with t len cur ok park j(1) show ?thesis by (auto simp: fish_inv_def can_print_def nth_list_update)
  next
    case after
    then have "fish_busy s j" by (simp add: fish_busy_def)
    then have q: "f_quota s = 0" "\<forall>i < 13. i \<noteq> j \<longrightarrow> \<not> fish_busy s i" "fish_next (f_current s) ?ch \<noteq> 0"
      "fish_run 1 (f_out s) = fish_next (f_current s) ?ch" using turn j(1) after by (auto simp: fish_turn_def)
    have t: "t = s\<lparr>f_quota := 1, f_current := fish_next (f_current s) ?ch, f_pcs := cv_broadcast ((f_pcs s)[j := V_lock])\<rparr>"
      using j(2) ok after q(1,3) by (simp add: fish_thread_def fish_after_def Let_def)
    have "\<not> fish_busy t i" if "i < 13" for i
      using q(2) that t len by (cases "i = j") (auto simp: fish_busy_def cv_broadcast_def cond_broadcast_def nth_list_update)
    then have "fish_turn t" using q t by (simp add: fish_turn_def)
    moreover have "f_pcs t ! i \<noteq> V_parked" if "i < 13" for i using that t len by simp
    ultimately show ?thesis using t len ok fish_next_range [OF q(3)] by (simp add: fish_inv_def)
  qed
qed

lemma fish_spurious_inv:
  assumes "fish_inv s" and "fish_spurious s t"
  shows "fish_inv t"
proof -
  obtain j where j: "j < 13" "f_pcs s ! j = V_parked" "t = s\<lparr>f_pcs := (f_pcs s)[j := V_woken]\<rparr>"
    using assms by (auto simp: fish_spurious_def fish_inv_def)
  have len: "length (f_pcs s) = 13" using assms(1) by (simp add: fish_inv_def)
  have busy: "fish_busy t i = fish_busy s i" "(f_pcs t ! i = V_after) = (f_pcs s ! i = V_after)" if "i < 13" for i
    using that j len by (auto simp: fish_busy_def nth_list_update)
  then have "fish_turn t = fish_turn s" using j(3) by (simp add: fish_turn_def cong: conj_cong)
  with assms(1) j len show ?thesis by (auto simp: fish_inv_def can_print_def nth_list_update split: if_splits)
qed

text \<open>In every state of the rules some role can print.\<close>

lemma fish_next_some: "c \<in> {1..6} \<Longrightarrow> \<exists>j < 13. fish_next c (fish_roles ! j) \<noteq> 0"
proof -
  assume "c \<in> {1..6}"
  then have "c \<in> {1, 2, 3, 4, 5, 6}" by auto
  moreover have "fish_roles ! 0 = CHR ''<''" "fish_roles ! 5 = CHR ''>''" "fish_roles ! 9 = CHR ''_''"
    by (simp_all add: fish_roles_def)
  ultimately have "fish_next c (fish_roles ! 0) \<noteq> 0 \<or> fish_next c (fish_roles ! 5) \<noteq> 0 \<or> fish_next c (fish_roles ! 9) \<noteq> 0"
    by (auto simp: fish_next_def rules_def)
  then show ?thesis by (elim disjE) (rule exI [of _ 0] exI [of _ 5] exI [of _ 9]; simp)+
qed

lemma fish_enabled:
  assumes "fish_inv s"
  shows "\<exists>t. fish_step s t"
proof -
  have "\<exists>j < 13. f_pcs s ! j \<noteq> V_parked"
  proof (cases "f_quota s = 1")
    case True
    obtain j where j: "j < 13" "fish_next (f_current s) (fish_roles ! j) \<noteq> 0"
      using fish_next_some [of "f_current s"] assms by (auto simp: fish_inv_def)
    then have "can_print (fish_roles ! j) s" using True by (simp add: can_print_def)
    with assms j(1) show ?thesis by (auto simp: fish_inv_def)
  next
    case False
    then show ?thesis using assms by (auto simp: fish_inv_def fish_turn_def fish_busy_def)
  qed
  then obtain j where "j < 13" "f_pcs s ! j \<noteq> V_parked" by blast
  then have "\<exists>t. fish_thread (fish_roles ! j) j s = Some t" using assms
    by (cases "f_pcs s ! j") (auto simp: fish_thread_def fish_inv_def)
  with \<open>j < 13\<close> show ?thesis by (auto simp: fish_step_def)
qed

text \<open>
  The steps until the next character: threads that cannot print wait; the one that printed wakes them;
  one of them takes the quota.
\<close>

definition fish_left :: "fish \<Rightarrow> nat" where
  "fish_left s =
    length (filter (\<lambda>p. p = V_lock \<or> p = V_woken) (f_pcs s)) +
    (if V_after \<in> set (f_pcs s) then 16 else if V_print \<in> set (f_pcs s) then 1 else 2)"

lemma fish_idle_le: "fish_inv s \<Longrightarrow> length (filter (\<lambda>p. p = V_lock \<or> p = V_woken) (f_pcs s)) \<le> 13"
  using length_filter_le [of "\<lambda>p. p = V_lock \<or> p = V_woken" "f_pcs s"] by (simp add: fish_inv_def)

lemma set_update_other: "x \<noteq> y \<Longrightarrow> j < length xs \<Longrightarrow> xs ! j \<noteq> x \<Longrightarrow> x \<in> set (xs[j := y]) \<longleftrightarrow> x \<in> set xs"
  by (metis in_set_conv_nth in_set_updateD length_list_update nth_list_update_neq)

lemma fish_busy_set:
  assumes "length (f_pcs s) = 13"
  shows "(\<exists>j < 13. fish_busy s j) \<longleftrightarrow> V_print \<in> set (f_pcs s) \<or> V_after \<in> set (f_pcs s)"
  using assms by (auto simp: fish_busy_def in_set_conv_nth)

lemma fish_progress:
  assumes "fish_inv s" and "fish_step s t"
  shows "f_out t = f_out s \<and> fish_left t < fish_left s \<or> (\<exists>c. f_out t = f_out s @ [c]) \<and> fish_left t \<le> 29"
proof -
  obtain j where j: "j < 13" "fish_thread (fish_roles ! j) j s = Some t" using assms(2) by (auto simp: fish_step_def)
  let ?ch = "fish_roles ! j" and ?idle = "\<lambda>p. p = V_lock \<or> p = V_woken"
  have len: "length (f_pcs s) = 13" and ok: "\<not> f_failed s" using assms(1) by (simp_all add: fish_inv_def)
  have t: "fish_inv t" by (rule fish_step_inv [OF assms])
  consider (before) "?idle (f_pcs s ! j)" | (print) "f_pcs s ! j = V_print" | (after) "f_pcs s ! j = V_after"
    using j(2) ok by (cases "f_pcs s ! j") (auto simp: fish_thread_def)
  then show ?thesis
  proof cases
    case before
    then have tb: "t = fish_before ?ch j s" using j(2) ok by (auto simp: fish_thread_def)
    let ?p = "if can_print ?ch s then V_print else V_parked"
    have pcs: "f_pcs t = (f_pcs s)[j := ?p]" and out: "f_out t = f_out s" using tb by (simp_all add: fish_before_def)
    have "length (filter ?idle (f_pcs t)) < length (filter ?idle (f_pcs s))"
      unfolding pcs using before j(1) len by (intro filter_update_less) auto
    moreover have "V_after \<in> set (f_pcs t) \<longleftrightarrow> V_after \<in> set (f_pcs s)"
      unfolding pcs using before j(1) len by (intro set_update_other) auto
    moreover have "V_print \<in> set (f_pcs s) \<longrightarrow> V_print \<in> set (f_pcs t)"
      unfolding pcs using before j(1) len by (auto simp: set_update_memI set_update_other)
    ultimately show ?thesis using out by (auto simp: fish_left_def)
  next
    case print
    then have "f_out t = f_out s @ [?ch]" using j(2) ok by (auto simp: fish_thread_def)
    then show ?thesis using fish_idle_le [OF t] by (simp add: fish_left_def)
  next
    case after
    then have old: "V_after \<in> set (f_pcs s)" using j(1) len by (metis nth_mem)
    have "f_out t = f_out s" using j(2) ok after by (auto simp: fish_thread_def fish_after_def Let_def)
    moreover have "f_quota t = 1" using assms(1) j after t
      by (auto simp: fish_inv_def fish_turn_def fish_busy_def fish_thread_def fish_after_def Let_def)
    then have "V_after \<notin> set (f_pcs t)" using t fish_busy_set [of t] by (auto simp: fish_inv_def fish_turn_def)
    ultimately show ?thesis using old fish_idle_le [OF t] by (auto simp: fish_left_def)
  qed
qed

definition fish_start_of :: fish where
  "fish_start_of = \<lparr>f_current = 1, f_quota = 1, f_pcs = replicate 13 V_lock, f_out = [], f_failed = False\<rparr>"

lemma fish_start_of: "fish_start = Some fish_start_of"
  by (simp add: fish_start_def create_all_def fish_start_of_def)

interpretation fish: keeps_printing fish_start_of fish_step fish_spurious fish_inv f_out fish_left 29
proof
  show "fish_inv fish_start_of" by (simp add: fish_inv_def fish_turn_def fish_start_of_def fish_busy_def)
  show "fish_left s \<le> 29" if "fish_inv s" for s using fish_idle_le [OF that] by (simp add: fish_left_def)
qed (fact fish_step_inv fish_spurious_inv fish_enabled fish_progress)+

text \<open>
  \<open>os_fish.c\<close> prints fish: in every reachable state the output is the beginning of a sequence of
  \<open><><_\<close> and \<open>><>_\<close>, the assertion has not failed, some thread can run, and of any 30 steps one prints.
\<close>

lemma fish_prints:
  assumes "fish_start = Some s0" and "reach (\<lambda>s. s = s0) (\<lambda>s t. fish_step s t \<or> fish_spurious s t) s"
  shows "(\<exists>ws. set ws \<subseteq> fishes \<and> prefix (f_out s) (concat ws)) \<and> \<not> f_failed s \<and>
    (\<forall>ts. path_steps fish_step s ts \<longrightarrow> 30 * k \<le> length ts \<longrightarrow> length (f_out s) + k \<le> length (f_out (last (s # ts)))) \<and>
    (\<exists>ts. length ts = 30 * k \<and> path_steps fish_step s ts)"
proof -
  have r: "reach (\<lambda>s. s = fish_start_of) (\<lambda>s t. fish_step s t \<or> fish_spurious s t) s"
    using assms unfolding fish_start_of by simp
  have inv: "fish_inv s" by (rule fish.I_reach [OF r])
  show ?thesis using fish_whole [OF fish_run_inv [OF inv]] fish.prints_on [OF r, of k] inv by (simp add: fish_inv_def)
qed

end
