(* ===== verification/Svsem_Lock.thy ===== *)
theory Svsem_Lock
  imports Ipc_Prelude
begin

text \<open>
  The lock of \<open>src/lock/locksvsem.c\<close> (and the same functions in \<open>locksvsemrace1.c\<close>): processes share a
  System V semaphore that the first of them creates. Creating a semaphore and giving it a value are two
  calls, and the value between them is not specified; the other processes look at \<open>sem_otime\<close>, which is 0
  until the first \<open>semop\<close>, to see whether the semaphore is ready.
\<close>

section \<open>The semaphore and the processes\<close>

record svlock_sem =
  sl_val :: nat
  sl_otime :: bool

text \<open>
  Where a process is: at the test of its loop, in \<open>my_lock\<close> at the first \<open>semget\<close>, at \<open>Semctl\<close> with \<open>SETVAL\<close>,
  at the second \<open>Semget\<close>, at the \<open>i\<close>-th look at \<open>sem_otime\<close>, at \<open>Semop\<close> with \<open>waitop\<close>; between \<open>my_lock\<close> and
  \<open>my_unlock\<close>; after its loop; in \<open>err_quit\<close>; or killed.
\<close>

datatype svlock_pc = S_test | S_get | S_setval | S_open | S_stat nat | S_wait | S_inside | S_done | S_quit | S_killed

record svlock_proc =
  sp_pc :: svlock_pc
  sp_i :: int
  sp_initflag :: bool

record svlock =
  sl_sem :: "svlock_sem option"
  sl_procs :: "svlock_proc list"

abbreviation (input) MAX_TRIES :: nat where "MAX_TRIES \<equiv> 10"

text \<open>\<open>semop\<close> sets \<open>sem_otime\<close>; it waits while the value would become negative.\<close>

definition svlock_semop :: "int \<Rightarrow> svlock_sem option \<Rightarrow> svlock_sem option" where
  "svlock_semop d ks =
    (case ks of
      None \<Rightarrow> None
    | Some k \<Rightarrow> if int (sl_val k) + d < 0 then None else Some \<lparr>sl_val = nat (int (sl_val k) + d), sl_otime = True\<rparr>)"

definition svlock_goto :: "nat \<Rightarrow> svlock_proc \<Rightarrow> svlock \<Rightarrow> svlock" where
  "svlock_goto j p s = s\<lparr>sl_procs := (sl_procs s)[j := p]\<rparr>"

text \<open>\<open>fresh\<close> is the value of a semaphore that \<open>semget\<close> has created and that was not set yet.\<close>

definition svlock_thread :: "nat \<Rightarrow> int \<Rightarrow> nat \<Rightarrow> svlock \<Rightarrow> svlock option" where
  "svlock_thread fresh nloop j s =
    (let p = sl_procs s ! j in
     case sp_pc p of
      S_test \<Rightarrow>
        Some (svlock_goto j (p\<lparr>sp_pc := (if nloop \<le> sp_i p then S_done else if sp_initflag p then S_wait else S_get)\<rparr>) s)
    | S_get \<Rightarrow>
        Some (case sl_sem s of
          None \<Rightarrow> svlock_goto j (p\<lparr>sp_pc := S_setval\<rparr>) (s\<lparr>sl_sem := Some \<lparr>sl_val = fresh, sl_otime = False\<rparr>\<rparr>)
        | Some k \<Rightarrow> svlock_goto j (p\<lparr>sp_pc := S_open\<rparr>) s)
    | S_setval \<Rightarrow>
        Some (svlock_goto j (p\<lparr>sp_pc := S_wait, sp_initflag := True\<rparr>)
          (s\<lparr>sl_sem := map_option (\<lambda>k. k\<lparr>sl_val := 1\<rparr>) (sl_sem s)\<rparr>))
    | S_open \<Rightarrow> Some (svlock_goto j (p\<lparr>sp_pc := S_stat 0\<rparr>) s)
    | S_stat i \<Rightarrow>
        Some (svlock_goto j
          (if MAX_TRIES \<le> i then p\<lparr>sp_pc := S_quit\<rparr>
           else if (case sl_sem s of None \<Rightarrow> False | Some k \<Rightarrow> sl_otime k) then p\<lparr>sp_pc := S_wait, sp_initflag := True\<rparr>
           else p\<lparr>sp_pc := S_stat (Suc i)\<rparr>) s)
    | S_wait \<Rightarrow>
        map_option (\<lambda>k. svlock_goto j (p\<lparr>sp_pc := S_inside\<rparr>) (s\<lparr>sl_sem := Some k\<rparr>)) (svlock_semop (- 1) (sl_sem s))
    | S_inside \<Rightarrow>
        map_option (\<lambda>k. svlock_goto j (p\<lparr>sp_pc := S_test, sp_i := sp_i p + 1\<rparr>) (s\<lparr>sl_sem := Some k\<rparr>)) (svlock_semop 1 (sl_sem s))
    | _ \<Rightarrow> None)"

text \<open>A process that is killed inside gives back what it took from the semaphore (\<open>SEM_UNDO\<close>).\<close>

definition svlock_kill :: "nat \<Rightarrow> svlock \<Rightarrow> svlock option" where
  "svlock_kill j s =
    (let p = sl_procs s ! j; dead = p\<lparr>sp_pc := S_killed\<rparr> in
     if sp_pc p = S_inside then map_option (\<lambda>k. svlock_goto j dead (s\<lparr>sl_sem := Some k\<rparr>)) (svlock_semop 1 (sl_sem s))
     else if sp_pc p \<in> {S_done, S_quit, S_killed} then None
     else Some (svlock_goto j dead s))"

definition svlock_step :: "nat \<Rightarrow> int \<Rightarrow> svlock \<Rightarrow> svlock \<Rightarrow> bool" where
  "svlock_step fresh nloop s t \<longleftrightarrow> (\<exists>j < length (sl_procs s). svlock_thread fresh nloop j s = Some t)"

definition svlock_dies :: "svlock \<Rightarrow> svlock \<Rightarrow> bool" where
  "svlock_dies s t \<longleftrightarrow> (\<exists>j < length (sl_procs s). svlock_kill j s = Some t)"

definition svlock_start :: "nat \<Rightarrow> svlock" where
  "svlock_start nproc = \<lparr>sl_sem = None, sl_procs = replicate nproc \<lparr>sp_pc = S_test, sp_i = 0, sp_initflag = False\<rparr>\<rparr>"

definition svlock_ended :: "svlock \<Rightarrow> bool" where
  "svlock_ended s \<longleftrightarrow> list_all (\<lambda>p. sp_pc p \<in> {S_done, S_quit, S_killed}) (sl_procs s)"

section \<open>The invariant\<close>

text \<open>How many processes are setting the value, are inside, and know that the semaphore is ready.\<close>

abbreviation (input) sl_setting :: "svlock_proc \<Rightarrow> int" where
  "sl_setting \<equiv> \<lambda>p. if sp_pc p = S_setval then 1 else 0"

abbreviation (input) sl_inside :: "svlock_proc \<Rightarrow> int" where
  "sl_inside \<equiv> \<lambda>p. if sp_pc p = S_inside then 1 else 0"

abbreviation (input) sl_knows :: "svlock_proc \<Rightarrow> int" where
  "sl_knows \<equiv> \<lambda>p. if sp_initflag p then 1 else 0"

text \<open>
  Before the first \<open>semop\<close> at most one process sets the value or has set it; afterwards the value and the
  processes inside add up to 1.
\<close>

definition svlock_counts :: "svlock \<Rightarrow> bool" where
  "svlock_counts s \<longleftrightarrow>
    (case sl_sem s of
      None \<Rightarrow> total_of sl_setting (sl_procs s) = 0 \<and> total_of sl_inside (sl_procs s) = 0 \<and> total_of sl_knows (sl_procs s) = 0
    | Some k \<Rightarrow>
        if sl_otime k then total_of sl_setting (sl_procs s) = 0 \<and> int (sl_val k) + total_of sl_inside (sl_procs s) = 1
        else total_of sl_inside (sl_procs s) = 0 \<and> total_of sl_setting (sl_procs s) + total_of sl_knows (sl_procs s) \<le> 1 \<and>
          (0 < total_of sl_knows (sl_procs s) \<longrightarrow> sl_val k = 1))"

definition svlock_proc_ok :: "int \<Rightarrow> svlock_proc \<Rightarrow> bool" where
  "svlock_proc_ok nloop p \<longleftrightarrow>
    (case sp_pc p of
      S_test \<Rightarrow> True
    | S_wait \<Rightarrow> sp_initflag p \<and> sp_i p < nloop
    | S_inside \<Rightarrow> sp_initflag p \<and> sp_i p < nloop
    | S_done \<Rightarrow> nloop \<le> sp_i p
    | S_quit \<Rightarrow> True
    | S_killed \<Rightarrow> True
    | _ \<Rightarrow> \<not> sp_initflag p \<and> sp_i p < nloop) \<and>
    (sp_initflag p \<or> sp_i p = 0)"

definition svlock_inv :: "int \<Rightarrow> svlock \<Rightarrow> bool" where
  "svlock_inv nloop s \<longleftrightarrow> svlock_counts s \<and> list_all (svlock_proc_ok nloop) (sl_procs s)"

lemma svlock_goto_simps [simp]:
  "sl_sem (svlock_goto j p s) = sl_sem s" "length (sl_procs (svlock_goto j p s)) = length (sl_procs s)"
  by (simp_all add: svlock_goto_def)

lemma total_goto:
  "j < length (sl_procs s) \<Longrightarrow> total_of f (sl_procs (svlock_goto j p s)) = total_of f (sl_procs s) - f (sl_procs s ! j) + f p"
  by (simp add: svlock_goto_def total_update)

lemma ok_goto:
  "list_all P (sl_procs s) \<Longrightarrow> P p \<Longrightarrow> list_all P (sl_procs (svlock_goto j p s))"
  by (auto simp: svlock_goto_def list_all_iff dest: in_set_updateD)

lemma svlock_totals:
  "0 \<le> total_of sl_setting ps" "0 \<le> total_of sl_inside ps" "0 \<le> total_of sl_knows ps"
  by (rule total_nonneg, simp)+

lemma svlock_member:
  assumes "j < length ps"
  shows "sp_pc (ps ! j) = S_setval \<Longrightarrow> 1 \<le> total_of sl_setting ps"
    and "sp_pc (ps ! j) = S_inside \<Longrightarrow> 1 \<le> total_of sl_inside ps"
    and "sp_initflag (ps ! j) \<Longrightarrow> 1 \<le> total_of sl_knows ps"
  using total_nth [of sl_setting j ps] total_nth [of sl_inside j ps] total_nth [of sl_knows j ps] assms by auto

lemma total_add: "total_of (\<lambda>p. f p + g p) ps = total_of f ps + total_of g ps"
  by (induction ps) (auto simp: total_of_def)

lemma total_two:
  assumes "\<And>p. 0 \<le> f p" and "i < length ps" and "j < length ps" and "i \<noteq> j"
  shows "f (ps ! i) + f (ps ! j) \<le> total_of f ps"
  using assms(2-)
proof (induction ps arbitrary: i j)
  case (Cons p ps)
  note le = total_nth [of f _ ps, OF assms(1)]
  show ?case
  proof (cases "i = 0 \<or> j = 0")
    case True
    with Cons.prems le [of "i - 1"] le [of "j - 1"] show ?thesis by (cases i; cases j) (auto simp: total_of_def)
  next
    case False
    with Cons.prems Cons.IH [of "i - 1" "j - 1"] assms(1) [of p] show ?thesis by (cases i; cases j) (auto simp: total_of_def)
  qed
qed simp

lemma length_filter_total: "int (length (filter P ps)) = total_of (\<lambda>p. if P p then 1 else 0) ps"
  by (induction ps) (auto simp: total_of_def)

lemma svlock_semop_up: "svlock_semop 1 (Some k) = Some \<lparr>sl_val = Suc (sl_val k), sl_otime = True\<rparr>"
  by (simp add: svlock_semop_def nat_add_distrib)

lemma svlock_semop_down:
  "svlock_semop (- 1) (Some k) = (if sl_val k = 0 then None else Some \<lparr>sl_val = sl_val k - 1, sl_otime = True\<rparr>)"
  by (auto simp: svlock_semop_def nat_diff_distrib)

lemmas svlock_simps = svlock_thread_def svlock_counts_def total_goto Let_def svlock_proc_ok_def svlock_semop_up svlock_semop_down

lemma svlock_step_inv:
  assumes inv: "svlock_inv nloop s" and step: "svlock_step fresh nloop s t"
  shows "svlock_inv nloop t"
proof -
  obtain j where j: "j < length (sl_procs s)" "svlock_thread fresh nloop j s = Some t"
    using step by (auto simp: svlock_step_def)
  let ?p = "sl_procs s ! j"
  note tot = svlock_totals [of "sl_procs s"] and mem = svlock_member [OF j(1)]
  have counts: "svlock_counts s" and ok: "list_all (svlock_proc_ok nloop) (sl_procs s)" using inv by (simp_all add: svlock_inv_def)
  have pok: "svlock_proc_ok nloop ?p" using ok j(1) by (simp add: list_all_length)
  have "svlock_counts t \<and> list_all (svlock_proc_ok nloop) (sl_procs t)"
  proof (cases "sp_pc ?p")
    case S_setval
    then show ?thesis using j counts ok pok tot mem by (auto simp: svlock_simps intro!: ok_goto split: option.splits if_splits)
  next
    case S_wait
    then show ?thesis using j counts ok pok tot mem by (auto simp: svlock_simps intro!: ok_goto split: option.splits if_splits)
  next
    case S_inside
    then show ?thesis using j counts ok pok tot mem by (auto simp: svlock_simps intro!: ok_goto split: option.splits if_splits)
  qed (use j counts ok pok in \<open>auto simp: svlock_simps intro!: ok_goto split: option.splits if_splits\<close>)
  then show ?thesis by (simp add: svlock_inv_def)
qed

lemma svlock_dies_inv:
  assumes inv: "svlock_inv nloop s" and step: "svlock_dies s t"
  shows "svlock_inv nloop t"
proof -
  obtain j where j: "j < length (sl_procs s)" "svlock_kill j s = Some t" using step by (auto simp: svlock_dies_def)
  note tot = svlock_totals [of "sl_procs s"] and mem = svlock_member [OF j(1)]
  have counts: "svlock_counts s" and ok: "list_all (svlock_proc_ok nloop) (sl_procs s)" using inv by (simp_all add: svlock_inv_def)
  have "svlock_proc_ok nloop (sl_procs s ! j)" using ok j(1) by (simp add: list_all_length)
  then have "svlock_counts t \<and> list_all (svlock_proc_ok nloop) (sl_procs t)" using counts ok j tot mem
    by (auto simp: svlock_kill_def svlock_simps intro!: ok_goto split: option.splits if_splits)
  then show ?thesis by (simp add: svlock_inv_def)
qed

lemma svlock_start_inv: "svlock_inv nloop (svlock_start nproc)"
  by (auto simp: svlock_inv_def svlock_counts_def svlock_start_def svlock_proc_ok_def list_all_iff)

section \<open>Some process can run, and not for ever\<close>

lemma svlock_enabled:
  assumes inv: "svlock_inv nloop s" and "\<not> svlock_ended s"
  shows "\<exists>t. svlock_step fresh nloop s t"
proof -
  obtain j where j: "j < length (sl_procs s)" "sp_pc (sl_procs s ! j) \<notin> {S_done, S_quit, S_killed}"
    using assms(2) by (auto simp: svlock_ended_def list_all_length)
  note counts = inv [unfolded svlock_inv_def, THEN conjunct1]
  have run: "\<exists>t. svlock_step fresh nloop s t" if "i < length (sl_procs s)" "svlock_thread fresh nloop i s \<noteq> None" for i
    using that by (auto simp: svlock_step_def)
  show ?thesis
  proof (cases "svlock_thread fresh nloop j s")
    case None
    then have "sp_pc (sl_procs s ! j) = S_wait \<or> sp_pc (sl_procs s ! j) = S_inside"
      using j(2) by (cases "sp_pc (sl_procs s ! j)") (auto simp: svlock_thread_def Let_def)
    moreover have "svlock_proc_ok nloop (sl_procs s ! j)" using inv j(1) by (simp add: svlock_inv_def list_all_length)
    ultimately have "sp_initflag (sl_procs s ! j)" by (auto simp: svlock_proc_ok_def)
    then have kn: "1 \<le> total_of sl_knows (sl_procs s)" using svlock_member [OF j(1)] by simp
    then obtain k where k: "sl_sem s = Some k" using counts by (auto simp: svlock_counts_def split: option.splits)
    have "sl_val k = 0" using None k j(2)
      by (cases "sp_pc (sl_procs s ! j)") (auto simp: svlock_thread_def Let_def svlock_semop_up svlock_semop_down split: if_splits)
    then have "total_of sl_inside (sl_procs s) = 1" using counts k kn by (auto simp: svlock_counts_def split: if_splits)
    then have "\<exists>i < length (sl_procs s). 0 < sl_inside (sl_procs s ! i)" by (intro total_pos) simp_all
    then obtain i where i: "i < length (sl_procs s)" "sp_pc (sl_procs s ! i) = S_inside" by (auto split: if_splits)
    then show ?thesis by (intro run [OF i(1)]) (simp add: svlock_thread_def Let_def k svlock_semop_up)
  qed (use run [OF j(1)] in auto)
qed

text \<open>The steps that a process has left at most.\<close>

definition svlock_rank :: "int \<Rightarrow> svlock_proc \<Rightarrow> int" where
  "svlock_rank nloop p =
    (let r = 3 * max 0 (nloop - sp_i p) in
     case sp_pc p of
      S_test \<Rightarrow> r + (if sp_initflag p then 1 else 17)
    | S_get \<Rightarrow> r + 16
    | S_setval \<Rightarrow> r + 1
    | S_open \<Rightarrow> r + 15
    | S_stat i \<Rightarrow> r + max 1 (13 - int i)
    | S_wait \<Rightarrow> r
    | S_inside \<Rightarrow> r - 1
    | _ \<Rightarrow> 0)"

definition svlock_left :: "int \<Rightarrow> svlock \<Rightarrow> int" where
  "svlock_left nloop s = total_of (svlock_rank nloop) (sl_procs s)"

lemma svlock_rank_pos: "svlock_proc_ok nloop p \<Longrightarrow> sp_pc p \<notin> {S_done, S_quit, S_killed} \<Longrightarrow> 0 < svlock_rank nloop p"
  by (cases "sp_pc p") (auto simp: svlock_rank_def svlock_proc_ok_def Let_def)

lemma svlock_left_step:
  assumes inv: "svlock_inv nloop s" and "svlock_step fresh nloop s t \<or> svlock_dies s t"
  shows "svlock_left nloop t < svlock_left nloop s"
  using assms(2)
proof
  assume "svlock_step fresh nloop s t"
  then obtain j where j: "j < length (sl_procs s)" "svlock_thread fresh nloop j s = Some t" by (auto simp: svlock_step_def)
  then have "svlock_proc_ok nloop (sl_procs s ! j)" using inv by (simp add: svlock_inv_def list_all_length)
  with j show ?thesis
    by (cases "sp_pc (sl_procs s ! j)")
      (auto simp: svlock_left_def svlock_thread_def total_goto svlock_rank_def svlock_proc_ok_def Let_def split: option.splits if_splits)
next
  assume "svlock_dies s t"
  then obtain j where j: "j < length (sl_procs s)" "svlock_kill j s = Some t" by (auto simp: svlock_dies_def)
  then have "svlock_proc_ok nloop (sl_procs s ! j)" using inv by (simp add: svlock_inv_def list_all_length)
  moreover have "sp_pc (sl_procs s ! j) \<notin> {S_done, S_quit, S_killed}" using j(2) by (auto simp: svlock_kill_def Let_def split: if_splits)
  ultimately have "0 < svlock_rank nloop (sl_procs s ! j)" by (rule svlock_rank_pos)
  moreover have "svlock_rank nloop ((sl_procs s ! j)\<lparr>sp_pc := S_killed\<rparr>) = 0" by (simp add: svlock_rank_def Let_def)
  ultimately show ?thesis using j
    by (auto simp: svlock_left_def svlock_kill_def total_goto Let_def split: if_splits)
qed

lemma svlock_left_nonneg:
  assumes "svlock_inv nloop s"
  shows "0 \<le> svlock_left nloop s"
proof -
  have "0 \<le> svlock_rank nloop p" if "p \<in> set (sl_procs s)" for p
    using that assms svlock_rank_pos [of nloop p]
    by (cases "sp_pc p \<in> {S_done, S_quit, S_killed}") (auto simp: svlock_inv_def list_all_iff svlock_rank_def Let_def)
  then have "0 \<le> x" if "x \<in> set (map (svlock_rank nloop) (sl_procs s))" for x using that by auto
  then have "0 \<le> sum_list (map (svlock_rank nloop) (sl_procs s))" by (rule sum_list_nonneg)
  then show ?thesis by (simp add: svlock_left_def total_of_def)
qed

interpretation svlock: ending_runs "\<lambda>s. s = svlock_start nproc" "\<lambda>s t. svlock_step fresh nloop s t \<or> svlock_dies s t"
  "svlock_inv nloop" "svlock_left nloop" svlock_ended for nproc fresh nloop
  using svlock_enabled by unfold_locales
    (blast intro: svlock_start_inv svlock_step_inv svlock_dies_inv svlock_left_step svlock_left_nonneg)+

section \<open>A semaphore whose creator was killed\<close>

definition svlock_orphan :: "svlock \<Rightarrow> bool" where
  "svlock_orphan s \<longleftrightarrow>
    (\<exists>k. sl_sem s = Some k \<and> \<not> sl_otime k) \<and>
    list_all (\<lambda>p. sp_pc p \<noteq> S_setval \<and> (sp_initflag p \<longrightarrow> sp_pc p = S_killed)) (sl_procs s)"

lemma svlock_orphan_step:
  assumes "svlock_inv nloop s" and "svlock_orphan s" and "svlock_step fresh nloop s t \<or> svlock_dies s t"
  shows "svlock_orphan t"
proof -
  obtain k where k: "sl_sem s = Some k" "\<not> sl_otime k" using assms(2) by (auto simp: svlock_orphan_def)
  have all: "list_all (\<lambda>p. sp_pc p \<noteq> S_setval \<and> (sp_initflag p \<longrightarrow> sp_pc p = S_killed)) (sl_procs s)"
    using assms(2) by (simp add: svlock_orphan_def)
  have p: "sp_pc p \<notin> {S_setval, S_wait, S_inside}" "sp_initflag p \<longrightarrow> sp_pc p = S_killed" if "p \<in> set (sl_procs s)" for p
  proof -
    have "svlock_proc_ok nloop p" "sp_pc p \<noteq> S_setval" "sp_initflag p \<longrightarrow> sp_pc p = S_killed"
      using that all assms(1) by (auto simp: list_all_iff svlock_inv_def)
    then show "sp_pc p \<notin> {S_setval, S_wait, S_inside}" "sp_initflag p \<longrightarrow> sp_pc p = S_killed"
      by (auto simp: svlock_proc_ok_def)
  qed
  from assms(3) show ?thesis
  proof
    assume "svlock_step fresh nloop s t"
    then obtain j where j: "j < length (sl_procs s)" "svlock_thread fresh nloop j s = Some t" by (auto simp: svlock_step_def)
    with p [of "sl_procs s ! j"] all k show ?thesis
      by (cases "sp_pc (sl_procs s ! j)")
        (auto simp: svlock_orphan_def svlock_thread_def Let_def intro!: ok_goto split: if_splits)
  next
    assume "svlock_dies s t"
    then obtain j where j: "j < length (sl_procs s)" "svlock_kill j s = Some t" by (auto simp: svlock_dies_def)
    with p [of "sl_procs s ! j"] all k show ?thesis
      by (auto simp: svlock_orphan_def svlock_kill_def Let_def intro!: ok_goto split: if_splits)
  qed
qed

lemma svlock_orphan_path:
  "svlock_inv nloop s \<Longrightarrow> svlock_orphan s \<Longrightarrow> path_steps (\<lambda>s t. svlock_step fresh nloop s t \<or> svlock_dies s t) s ts \<Longrightarrow>
    svlock_inv nloop (last (s # ts)) \<and> svlock_orphan (last (s # ts))"
proof (induction ts arbitrary: s)
  case (Cons t ts)
  then have "svlock_inv nloop t" "svlock_orphan t" by (auto intro: svlock_step_inv svlock_dies_inv svlock_orphan_step)
  from Cons.IH [OF this] Cons.prems show ?case by auto
qed simp

text \<open>The creator that has not done its first \<open>semop\<close> is the only process that can make the semaphore ready.\<close>

lemma svlock_orphan_kill:
  assumes inv: "svlock_inv nloop s" and k: "sl_sem s = Some k" "\<not> sl_otime k" and j: "j < length (sl_procs s)"
    and pc: "sp_pc (sl_procs s ! j) = S_setval \<or> sp_pc (sl_procs s ! j) = S_wait" and t: "svlock_kill j s = Some t"
  shows "svlock_orphan t"
proof -
  let ?f = "\<lambda>p. sl_setting p + sl_knows p"
  have one: "total_of ?f (sl_procs s) \<le> 1" using inv k by (simp add: svlock_inv_def svlock_counts_def total_add)
  have tt: "t = svlock_goto j ((sl_procs s ! j)\<lparr>sp_pc := S_killed\<rparr>) s" using t pc by (auto simp: svlock_kill_def Let_def)
  have "svlock_proc_ok nloop (sl_procs s ! j)" using inv j by (simp add: svlock_inv_def list_all_length)
  then have "1 \<le> ?f (sl_procs s ! j)" using pc by (auto simp: svlock_proc_ok_def)
  then have "?f (sl_procs s ! i) \<le> 0" if "i < length (sl_procs s)" "i \<noteq> j" for i
    using total_two [of ?f i "sl_procs s" j] that j one by fastforce
  then have "sp_pc (sl_procs s ! i) \<noteq> S_setval \<and> \<not> sp_initflag (sl_procs s ! i)"
    if "i < length (sl_procs s)" "i \<noteq> j" for i using that by (fastforce split: if_splits)
  then have "sp_pc (sl_procs t ! i) \<noteq> S_setval \<and> (sp_initflag (sl_procs t ! i) \<longrightarrow> sp_pc (sl_procs t ! i) = S_killed)"
    if "i < length (sl_procs t)" for i
    using that tt j by (cases "i = j") (auto simp: svlock_goto_def)
  then show ?thesis using k tt by (simp add: svlock_orphan_def list_all_length)
qed

section \<open>Properties\<close>

text \<open>
  C21. The lock of \<open>locksvsem.c\<close>, for any value of a fresh semaphore and with processes killed at any
  moment: at most one process is inside, no process waits on a semaphore before its value was set, some
  process can run until all have ended, and every run is finite.
\<close>

theorem svlock_excludes:
  assumes "path_steps (\<lambda>s t. svlock_step fresh nloop s t \<or> svlock_dies s t) (svlock_start nproc) ts"
    and "s = last (svlock_start nproc # ts)"
  shows "length (filter (\<lambda>p. sp_pc p = S_inside) (sl_procs s)) \<le> 1 \<and>
    (S_wait \<in> set (map sp_pc (sl_procs s)) \<longrightarrow> (\<exists>k. sl_sem s = Some k \<and> sl_val k \<le> 1)) \<and>
    (svlock_ended s \<or> (\<exists>t. svlock_step fresh nloop s t)) \<and>
    int (length ts) \<le> int nproc * (3 * max 0 nloop + 17)"
proof -
  have inv: "svlock_inv nloop s"
    using svlock.inv_reach [OF reach_path [OF reach_start assms(1)]] assms(2) by simp
  have "svlock_left nloop (svlock_start nproc) = int nproc * (3 * max 0 nloop + 17)"
    by (simp add: svlock_left_def svlock_start_def svlock_rank_def Let_def)
  then have "int (length ts) \<le> int nproc * (3 * max 0 nloop + 17)"
    using svlock.ends [OF svlock_start_inv assms(1)] by simp
  moreover have "int (length (filter (\<lambda>p. sp_pc p = S_inside) (sl_procs s))) \<le> 1"
    using inv by (auto simp: svlock_inv_def svlock_counts_def length_filter_total split: option.splits if_splits)
  moreover have "\<exists>k. sl_sem s = Some k \<and> sl_val k \<le> 1" if w: "S_wait \<in> set (map sp_pc (sl_procs s))"
  proof -
    obtain j where j: "j < length (sl_procs s)" "sp_pc (sl_procs s ! j) = S_wait" using w in_set_conv_nth [of S_wait "map sp_pc (sl_procs s)"] by auto
    then have "sp_initflag (sl_procs s ! j)" using inv by (auto simp: svlock_inv_def list_all_length svlock_proc_ok_def)
    with svlock_member(3) [OF j(1)] inv svlock_totals(2) [of "sl_procs s"] show ?thesis
      by (auto simp: svlock_inv_def svlock_counts_def split: option.splits if_splits)
  qed
  ultimately show ?thesis using svlock_enabled [OF inv] by auto
qed

theorem svlock_excludes_witness:
  "\<exists>s. path_steps (\<lambda>s t. svlock_step 7 1 s t \<or> svlock_dies s t) (svlock_start 1) [s] \<and>
    length (filter (\<lambda>p. sp_pc p = S_inside) (sl_procs s)) \<le> 1"
proof -
  let ?s = "\<lparr>sl_sem = None, sl_procs = [\<lparr>sp_pc = S_get, sp_i = 0, sp_initflag = False\<rparr>]\<rparr>"
  have "svlock_thread 7 1 0 (svlock_start 1) = Some ?s"
    by (simp add: svlock_thread_def svlock_start_def svlock_goto_def)
  then have "svlock_step 7 1 (svlock_start 1) ?s" by (auto simp: svlock_step_def svlock_start_def intro!: exI [of _ 0])
  then have "path_steps (\<lambda>s t. svlock_step 7 1 s t \<or> svlock_dies s t) (svlock_start 1) [?s]" by simp
  from this svlock_excludes [OF this, of ?s] show ?thesis by auto
qed

text \<open>
  When the process that created the semaphore is killed before its first \<open>semop\<close>, no process ever gets
  the lock again: nobody is inside later, and each of the others ends in \<open>err_quit\<close> or is killed.
\<close>

lemma svlock_orphaned:
  assumes "reach (\<lambda>s. s = svlock_start nproc) (\<lambda>s t. svlock_step fresh nloop s t \<or> svlock_dies s t) s" and "0 < nloop"
    and "sl_sem s = Some k" and "\<not> sl_otime k" and "j < length (sl_procs s)"
    and "sp_pc (sl_procs s ! j) = S_setval \<or> sp_pc (sl_procs s ! j) = S_wait" and "svlock_kill j s = Some t"
    and "path_steps (\<lambda>s t. svlock_step fresh nloop s t \<or> svlock_dies s t) t ts" and "u = last (t # ts)"
  shows "list_all (\<lambda>p. sp_pc p \<noteq> S_inside \<and> (svlock_ended u \<longrightarrow> sp_pc p = S_quit \<or> sp_pc p = S_killed)) (sl_procs u)"
proof -
  have inv: "svlock_inv nloop s" by (rule svlock.inv_reach [OF assms(1)])
  have "svlock_inv nloop t" using svlock_dies_inv [OF inv] assms(5,7) by (auto simp: svlock_dies_def)
  from svlock_orphan_path [OF this svlock_orphan_kill [OF inv assms(3-7)] assms(8)] assms(9)
  have u: "svlock_inv nloop u" "svlock_orphan u" by auto
  show ?thesis unfolding list_all_iff
  proof
    fix p assume p: "p \<in> set (sl_procs u)"
    then have ok: "svlock_proc_ok nloop p" and or: "sp_initflag p \<longrightarrow> sp_pc p = S_killed"
      using u by (auto simp: svlock_inv_def svlock_orphan_def list_all_iff)
    then have "sp_pc p \<noteq> S_inside" "sp_pc p \<noteq> S_done" using assms(2) by (auto simp: svlock_proc_ok_def)
    then show "sp_pc p \<noteq> S_inside \<and> (svlock_ended u \<longrightarrow> sp_pc p = S_quit \<or> sp_pc p = S_killed)"
      using p by (auto simp: svlock_ended_def list_all_iff)
  qed
qed

end
