(* ===== verification/Rw_Incr.thy ===== *)
theory Rw_Incr
  imports Rwlock_Threads Incr
begin

text \<open>
  The counting program \<open>incr_rwlock1.c\<close> of \<open>src/my_rwlock\<close> and \<open>src/my_rwlock_cancel\<close>: threads increment
  a counter under the write lock of the read-write locks of these directories. The functions of the lock
  run with their waiting and waking, section by section; the program refines the one over a mutex.
\<close>

section \<open>The program\<close>

text \<open>
  A worker is at a place of its loop and, while it is in \<open>Pthread_rwlock_wrlock\<close>, at a place of the lock.
  The last thread of the lock is the main thread, which has it at the start.
\<close>

record rwi =
  ri_sys :: rw_sys
  ri_counter :: int
  ri_workers :: "int worker list"

definition ri_goto :: "nat \<Rightarrow> int worker \<Rightarrow> rwi \<Rightarrow> rwi" where
  "ri_goto j w s = s\<lparr>ri_workers := (ri_workers s)[j := w]\<rparr>"

text \<open>What a call of \<open>wrlock\<close>, or its section after a wait, makes of thread \<open>j\<close>.\<close>

definition ri_locked :: "nat \<Rightarrow> int worker \<Rightarrow> rwi \<Rightarrow> rw_outcome \<Rightarrow> rwi option" where
  "ri_locked j w s res =
    (case res of
      Returns rw evs r \<Rightarrow>
        if r = 0 then Some ((ri_goto j (w\<lparr>w_pc := L_load\<rparr>) s)\<lparr>ri_sys := \<lparr>rw_lock = rw, rw_pcs = (rw_pcs (ri_sys s))[j := T_write]\<rparr>\<rparr>)
        else None
    | Waits rw \<Rightarrow> Some (s\<lparr>ri_sys := \<lparr>rw_lock = rw, rw_pcs = (rw_pcs (ri_sys s))[j := T_wrwait]\<rparr>\<rparr>)
    | _ \<Rightarrow> None)"

definition ri_thread :: "rw_ops \<Rightarrow> int \<Rightarrow> nat \<Rightarrow> rwi \<Rightarrow> rwi option" where
  "ri_thread ops nloop j s =
    (let w = ri_workers s ! j in
     case w_pc w of
      L_test \<Rightarrow> Some (ri_goto j (w\<lparr>w_pc := (if w_i w < nloop then L_lock else L_done)\<rparr>) s)
    | L_lock \<Rightarrow>
        (case rw_pcs (ri_sys s) ! j of
          T_out \<Rightarrow> ri_locked j w s (op_wrlock ops (rw_lock (ri_sys s)))
        | T_wrwoken \<Rightarrow> ri_locked j w s (op_wrwoken ops (rw_lock (ri_sys s)))
        | _ \<Rightarrow> None)
    | L_load \<Rightarrow> Some (ri_goto j (w\<lparr>w_pc := L_store, w_val := ri_counter s\<rparr>) s)
    | L_store \<Rightarrow> Some ((ri_goto j (w\<lparr>w_pc := L_unlock\<rparr>) s)\<lparr>ri_counter := w_val w + 1\<rparr>)
    | _ \<Rightarrow> None)"

text \<open>An unlock wakes a waiting writer, whichever; a waiting thread may also wake without a signal.\<close>

inductive ri_unlocks :: "rw_ops \<Rightarrow> nat \<Rightarrow> rwi \<Rightarrow> rwi \<Rightarrow> bool" for ops :: rw_ops and j :: nat where
  ri_unlock: "op_unlock ops (rw_lock (ri_sys s)) = Returns rw evs 0 \<Longrightarrow>
    rw_notified evs ((rw_pcs (ri_sys s))[j := T_out]) pcs \<Longrightarrow>
    ri_unlocks ops j s (s\<lparr>ri_sys := \<lparr>rw_lock = rw, rw_pcs = pcs\<rparr>\<rparr>)"

inductive ri_step :: "rw_ops \<Rightarrow> int \<Rightarrow> rwi \<Rightarrow> rwi \<Rightarrow> bool" for ops :: rw_ops and nloop :: int where
  ri_worker: "j < length (ri_workers s) \<Longrightarrow> ri_thread ops nloop j s = Some t \<Longrightarrow> ri_step ops nloop s t"
| ri_release: "j < length (ri_workers s) \<Longrightarrow> w = ri_workers s ! j \<Longrightarrow> w_pc w = L_unlock \<Longrightarrow> ri_unlocks ops j s t \<Longrightarrow>
    ri_step ops nloop s (ri_goto j (w\<lparr>w_pc := L_test, w_i := w_i w + 1\<rparr>) t)"
| ri_main: "rw_pcs (ri_sys s) ! length (ri_workers s) = T_write \<Longrightarrow> ri_unlocks ops (length (ri_workers s)) s t \<Longrightarrow>
    ri_step ops nloop s t"

definition ri_spurious :: "rwi \<Rightarrow> rwi \<Rightarrow> bool" where
  "ri_spurious s t \<longleftrightarrow>
    (\<exists>j < length (ri_workers s). rw_pcs (ri_sys s) ! j = T_wrwait \<and>
      t = s\<lparr>ri_sys := (ri_sys s)\<lparr>rw_pcs := (rw_pcs (ri_sys s))[j := T_wrwoken]\<rparr>\<rparr>)"

text \<open>\<open>main\<close> takes the lock and creates the threads.\<close>

definition ri_start :: "rw_ops \<Rightarrow> nat \<Rightarrow> rwi option" where
  "ri_start ops n =
    (case op_wrlock ops rwlock_initializer of
      Returns rw evs r \<Rightarrow>
        if r = 0 then Some \<lparr>ri_sys = \<lparr>rw_lock = rw, rw_pcs = replicate n T_out @ [T_write]\<rparr>, ri_counter = 0,
          ri_workers = replicate n \<lparr>w_pc = L_test, w_i = 0, w_val = 0\<rparr>\<rparr> else None
    | _ \<Rightarrow> None)"

definition ri_joined :: "rwi \<Rightarrow> bool" where
  "ri_joined s \<longleftrightarrow> rw_pcs (ri_sys s) ! length (ri_workers s) \<noteq> T_write \<and> list_all (\<lambda>w. w_pc w = L_done) (ri_workers s)"

section \<open>Its view as a program over a mutex\<close>

text \<open>The mutex of the other program belongs to the thread that has the lock for writing.\<close>

definition ri_rel :: "rwi \<Rightarrow> (nat option, int, int) crit \<Rightarrow> bool" where
  "ri_rel s a \<longleftrightarrow>
    cr_workers a = ri_workers s \<and> cr_data a = ri_counter s \<and>
    (cr_main a \<longleftrightarrow> rw_pcs (ri_sys s) ! length (ri_workers s) = T_write) \<and>
    (\<forall>j. cr_lock a = Some j \<longleftrightarrow> j \<le> length (ri_workers s) \<and> rw_pcs (ri_sys s) ! j = T_write)"

lemma ri_relI:
  assumes "cr_workers a = ri_workers s" and "cr_data a = ri_counter s"
    and "cr_main a \<longleftrightarrow> rw_pcs (ri_sys s) ! length (ri_workers s) = T_write"
    and "\<And>j. cr_lock a = Some j \<longleftrightarrow> j \<le> length (ri_workers s) \<and> rw_pcs (ri_sys s) ! j = T_write"
  shows "ri_rel s a"
  using assms by (simp add: ri_rel_def)

text \<open>Where a thread is in the lock, by where it is in its loop.\<close>

fun lock_pc :: "crit_pc \<Rightarrow> rw_pc set" where
  "lock_pc L_lock = {T_out, T_wrwait, T_wrwoken}"
| "lock_pc L_load = {T_write}"
| "lock_pc L_store = {T_write}"
| "lock_pc L_unlock = {T_write}"
| "lock_pc _ = {T_out}"

definition ri_places :: "rwi \<Rightarrow> bool" where
  "ri_places s \<longleftrightarrow>
    length (rw_pcs (ri_sys s)) = Suc (length (ri_workers s)) \<and>
    rw_pcs (ri_sys s) ! length (ri_workers s) \<in> {T_out, T_write} \<and>
    (\<forall>j < length (ri_workers s). rw_pcs (ri_sys s) ! j \<in> lock_pc (w_pc (ri_workers s ! j)))"

definition ri_inv :: "rwi \<Rightarrow> bool" where
  [inv_defs]: "ri_inv s \<longleftrightarrow> rw_inv (ri_sys s) \<and> rw_live (ri_sys s) \<and> ri_places s"

lemma ri_goto_simps [simp]:
  "ri_sys (ri_goto j w s) = ri_sys s" "ri_counter (ri_goto j w s) = ri_counter s"
  "ri_workers (ri_goto j w s) = (ri_workers s)[j := w]"
  by (simp_all add: ri_goto_def)

lemma no_readers: "ri_places s \<Longrightarrow> p \<in> {T_rdwait, T_rdwoken, T_read} \<Longrightarrow> p \<notin> set (rw_pcs (ri_sys s))"
proof
  assume s: "ri_places s" and p: "p \<in> {T_rdwait, T_rdwoken, T_read}" and "p \<in> set (rw_pcs (ri_sys s))"
  then obtain j where j: "j < Suc (length (ri_workers s))" "rw_pcs (ri_sys s) ! j = p"
    by (auto simp: in_set_conv_nth ri_places_def)
  have "p \<notin> lock_pc pc" for pc using p by (cases pc) auto
  with s p j show False by (cases "j = length (ri_workers s)") (auto simp: ri_places_def less_Suc_eq)
qed

lemma ex_cond_signal: "\<exists>pcs'. cond_signal waiting wakes pcs pcs'"
proof (cases "list_ex waiting pcs")
  case True
  then obtain i where "i < length pcs" "waiting (pcs ! i)" by (auto simp: list_ex_length)
  then show ?thesis by (blast intro: signal_one)
qed (blast intro: signal_none)

text \<open>When no reader waits, an unlock wakes one waiting writer or nobody.\<close>

lemma notified_writer:
  assumes "rw_notified evs pcs pcs'" and "T_rdwait \<notin> set pcs"
  shows "pcs' = pcs \<or> (\<exists>i < length pcs. pcs ! i = T_wrwait \<and> pcs' = pcs[i := T_wrwoken])"
proof -
  have "cond_broadcast (\<lambda>p. p = T_rdwait) (\<lambda>_. T_rdwoken) pcs = pcs"
    unfolding cond_broadcast_def using assms(2) by (intro map_idI) auto
  with assms(1) show ?thesis by (auto simp: rw_notified_def elim!: cond_signalE split: if_splits)
qed

section \<open>Each step of the lock\<close>

lemma ri_unlocks_step:
  assumes "ri_unlocks ops j s t" and "j < length (rw_pcs (ri_sys s))" and "rw_pcs (ri_sys s) ! j = T_write"
  shows "rw_step ops False (ri_sys s) (ri_sys t)"
  using assms
proof (cases rule: ri_unlocks.cases)
  case (ri_unlock rw evs pcs)
  obtain rw0 pcs0 where s: "ri_sys s = \<lparr>rw_lock = rw0, rw_pcs = pcs0\<rparr>" by (cases "ri_sys s") auto
  then have "rw_step ops False \<lparr>rw_lock = rw0, rw_pcs = pcs0\<rparr> \<lparr>rw_lock = rw, rw_pcs = pcs\<rparr>"
    using assms(2,3) ri_unlock(2,3) by (intro rw_step.unlock [of j]) auto
  then show ?thesis using ri_unlock(1) s by simp
qed

lemma ri_locked_step:
  assumes "ri_locked j w s res = Some t" and "j < length (rw_pcs (ri_sys s))"
    and "rw_pcs (ri_sys s) ! j = T_out \<and> res = op_wrlock ops (rw_lock (ri_sys s)) \<or>
      rw_pcs (ri_sys s) ! j = T_wrwoken \<and> res = op_wrwoken ops (rw_lock (ri_sys s))"
  shows "rw_step ops False (ri_sys s) (ri_sys t)"
proof -
  obtain rw pcs where s: "ri_sys s = \<lparr>rw_lock = rw, rw_pcs = pcs\<rparr>" by (cases "ri_sys s") auto
  show ?thesis
  proof (cases res)
    case (Returns rw' evs r)
    then have r: "r = 0" "ri_sys t = \<lparr>rw_lock = rw', rw_pcs = pcs[j := T_write]\<rparr>"
      using assms(1) s by (auto simp: ri_locked_def split: if_splits)
    from assms(3) show ?thesis
    proof
      assume "rw_pcs (ri_sys s) ! j = T_out \<and> res = op_wrlock ops (rw_lock (ri_sys s))"
      then show ?thesis unfolding s r(2) using Returns r(1) s assms(2)
        by (intro rw_step.enter [of j pcs "op_wrlock ops" T_write ops rw rw' evs]) auto
    next
      assume "rw_pcs (ri_sys s) ! j = T_wrwoken \<and> res = op_wrwoken ops (rw_lock (ri_sys s))"
      then show ?thesis unfolding s r(2) using Returns r(1) s assms(2) by (intro rw_step.wragain [of j pcs ops rw rw' evs]) auto
    qed
  next
    case (Waits rw')
    then have r: "ri_sys t = \<lparr>rw_lock = rw', rw_pcs = pcs[j := T_wrwait]\<rparr>" using assms(1) s by (auto simp: ri_locked_def)
    from assms(3) show ?thesis
    proof
      assume "rw_pcs (ri_sys s) ! j = T_out \<and> res = op_wrlock ops (rw_lock (ri_sys s))"
      then show ?thesis unfolding s r using Waits s assms(2) by (intro rw_step.wrpark) auto
    next
      assume "rw_pcs (ri_sys s) ! j = T_wrwoken \<and> res = op_wrwoken ops (rw_lock (ri_sys s))"
      then show ?thesis unfolding s r using Waits s assms(2) by (intro rw_step.wrrepark) auto
    qed
  qed (use assms(1) in \<open>auto simp: ri_locked_def\<close>)
qed

section \<open>The simulation\<close>

text \<open>How many threads of the lock are not parked.\<close>

abbreviation (input) unparked :: "rw_pc \<Rightarrow> int" where
  "unparked \<equiv> \<lambda>p. if p = T_wrwait then 0 else 1"

definition ri_awake :: "rwi \<Rightarrow> int" where
  "ri_awake s = total_of unparked (rw_pcs (ri_sys s))"

text \<open>
  A step of the program is a step of the one over a mutex, which may wake one thread, or parks a thread.
\<close>

definition ri_sim :: "int \<Rightarrow> rwi \<Rightarrow> rwi \<Rightarrow> (nat option, int, int) crit \<Rightarrow> bool" where
  "ri_sim nloop s t a \<longleftrightarrow>
    ri_rel t a \<and> ri_awake t < ri_awake s \<or>
    (\<exists>b. incr_pxmutex1 nloop a b \<and> ri_rel t b \<and> ri_awake t \<le> ri_awake s + 1)"

lemma ri_unlocks_pcs:
  assumes "ri_unlocks ops j s t" and "ri_places s" and "j \<le> length (ri_workers s)" and "rw_pcs (ri_sys s) ! j = T_write"
  shows "ri_workers t = ri_workers s \<and> ri_counter t = ri_counter s \<and>
    length (rw_pcs (ri_sys t)) = length (rw_pcs (ri_sys s)) \<and> rw_pcs (ri_sys t) ! j = T_out \<and>
    (\<forall>i < length (rw_pcs (ri_sys s)). i \<noteq> j \<longrightarrow>
      rw_pcs (ri_sys t) ! i = rw_pcs (ri_sys s) ! i \<or> rw_pcs (ri_sys s) ! i = T_wrwait \<and> rw_pcs (ri_sys t) ! i = T_wrwoken) \<and>
    ri_awake t \<le> ri_awake s + 1"
  using assms(1)
proof (cases rule: ri_unlocks.cases)
  case (ri_unlock rw evs pcs)
  let ?p = "(rw_pcs (ri_sys s))[j := T_out]"
  have j: "j < length (rw_pcs (ri_sys s))" using assms(2,3) by (simp add: ri_places_def)
  have "T_rdwait \<notin> set ?p" using no_readers [OF assms(2)] by (auto dest: in_set_updateD)
  from notified_writer [OF ri_unlock(3) this] show ?thesis
    using ri_unlock(1) j assms(4) by (auto simp: ri_awake_def total_update nth_list_update split: if_splits)
qed

lemma ri_rel_free:
  assumes "ri_rel s a" and "rw_inv (ri_sys s)" and "rw_refcount (rw_lock (ri_sys s)) = 0" and "ri_places s"
  shows "cr_lock a = None"
proof (rule ccontr)
  assume "cr_lock a \<noteq> None"
  then obtain i where i: "cr_lock a = Some i" by blast
  then have "i < length (rw_pcs (ri_sys s))" "rw_pcs (ri_sys s) ! i = T_write"
    using assms(1,4) by (auto simp: ri_rel_def ri_places_def)
  then have "1 \<le> cnt T_write (rw_pcs (ri_sys s))" by (rule cnt_pos_nth)
  then show False using assms(2,3) by (auto simp: rw_inv_def Let_def)
qed

lemma pmutex_worker:
  "j < length (cr_workers a) \<Longrightarrow> worker_step pmutex_lock pmutex_unlock id counter_next nloop j a = Some b \<Longrightarrow> incr_pxmutex1 nloop a b"
  by (auto simp: incr_pxmutex1_def crit_step_def)

context rw_version
begin

lemma ri_locked_sim:
  assumes inv: "ri_inv s" and rel: "ri_rel s a" and j: "j < length (ri_workers s)" and pc: "w_pc (ri_workers s ! j) = L_lock"
    and res: "rw_pcs (ri_sys s) ! j = T_out \<and> res = op_wrlock ops (rw_lock (ri_sys s)) \<or>
      rw_pcs (ri_sys s) ! j = T_wrwoken \<and> res = op_wrwoken ops (rw_lock (ri_sys s))"
    and t: "ri_locked j (ri_workers s ! j) s res = Some t"
  shows "ri_sim nloop s t a \<and> ri_places t"
proof -
  have magic: "rw_magic (rw_lock (ri_sys s)) = RW_MAGIC" using inv by (simp add: ri_inv_def rw_inv_def Let_def)
  have pl: "ri_places s" and jl: "j < length (rw_pcs (ri_sys s))" using inv j by (simp_all add: ri_inv_def ri_places_def)
  show ?thesis
  proof (cases "rw_refcount (rw_lock (ri_sys s)) = 0")
    case True
    then obtain rw where "res = Returns rw [] 0" using res magic wrlock_law wrwoken_law by auto
    then have tt: "t = (ri_goto j ((ri_workers s ! j)\<lparr>w_pc := L_load\<rparr>) s)\<lparr>ri_sys := \<lparr>rw_lock = rw, rw_pcs = (rw_pcs (ri_sys s))[j := T_write]\<rparr>\<rparr>"
      using t by (simp add: ri_locked_def)
    have free: "cr_lock a = None" using ri_rel_free [OF rel _ True pl] inv by (simp add: ri_inv_def)
    let ?b = "set_worker j ((cr_workers a ! j)\<lparr>w_pc := L_load\<rparr>) (a\<lparr>cr_lock := Some j\<rparr>)"
    have "incr_pxmutex1 nloop a ?b" using j pc rel free
      by (intro pmutex_worker [of j]) (auto simp: worker_step_def Let_def pmutex_lock_def ri_rel_def)
    moreover have "ri_rel t ?b"
    proof (rule ri_relI)
      show "cr_lock ?b = Some i \<longleftrightarrow> i \<le> length (ri_workers t) \<and> rw_pcs (ri_sys t) ! i = T_write" for i
        using rel free j jl tt by (cases "i = j") (auto simp: ri_rel_def set_worker_def)
    qed (use rel j tt nth_list_update_neq [OF less_imp_neq [OF j]] in \<open>simp_all add: ri_rel_def set_worker_def\<close>)
    moreover have "ri_awake t \<le> ri_awake s + 1" using tt jl by (auto simp: ri_awake_def total_update)
    moreover have "rw_pcs (ri_sys t) ! i \<in> lock_pc (w_pc (ri_workers t ! i))" if "i < length (ri_workers s)" for i
      using pl tt j jl that by (cases "i = j") (auto simp: ri_places_def)
    then have "ri_places t" using pl tt j by (simp add: ri_places_def)
    ultimately show ?thesis by (auto simp: ri_sim_def)
  next
    case False
    then obtain rw where "res = Waits rw" using res magic wrlock_law wrwoken_law by auto
    then have tt: "t = s\<lparr>ri_sys := \<lparr>rw_lock = rw, rw_pcs = (rw_pcs (ri_sys s))[j := T_wrwait]\<rparr>\<rparr>" using t by (simp add: ri_locked_def)
    have "rw_pcs (ri_sys s) ! j \<noteq> T_write" using res by auto
    then have "rw_pcs (ri_sys t) ! i = T_write \<longleftrightarrow> rw_pcs (ri_sys s) ! i = T_write" for i
      using tt jl by (cases "i = j") auto
    then have "ri_rel t a" using rel tt by (simp add: ri_rel_def)
    moreover have "ri_awake t < ri_awake s" using tt jl res by (auto simp: ri_awake_def total_update)
    moreover have "rw_pcs (ri_sys t) ! i \<in> lock_pc (w_pc (ri_workers t ! i))" if "i < length (ri_workers s)" for i
      using pl tt j jl that pc by (cases "i = j") (auto simp: ri_places_def)
    then have "ri_places t" using pl tt j by (simp add: ri_places_def)
    ultimately show ?thesis by (simp add: ri_sim_def)
  qed
qed

end

lemma ri_release_sim:
  assumes places: "ri_places s" and rel: "ri_rel s a" and j: "j < length (ri_workers s)"
    and pc: "w_pc (ri_workers s ! j) = L_unlock" and un: "ri_unlocks ops j s u"
    and t: "t = ri_goto j ((ri_workers s ! j)\<lparr>w_pc := L_test, w_i := w_i (ri_workers s ! j) + 1\<rparr>) u"
  shows "ri_sim nloop s t a \<and> ri_places t"
proof -
  have tw: "rw_pcs (ri_sys s) ! j = T_write" using places j pc by (auto simp: ri_places_def)
  note u = ri_unlocks_pcs [OF un places less_imp_le [OF j] tw]
  have len: "length (rw_pcs (ri_sys s)) = Suc (length (ri_workers s))" using places by (simp add: ri_places_def)
  have own: "cr_lock a = Some j" using rel j tw by (simp add: ri_rel_def)
  have notw: "rw_pcs (ri_sys u) ! i \<noteq> T_write" if "i \<le> length (ri_workers s)" for i
  proof (cases "i = j")
    case False
    have "cr_lock a \<noteq> Some i" using own False by simp
    then have "rw_pcs (ri_sys s) ! i \<noteq> T_write" using rel that by (simp add: ri_rel_def)
    moreover have "rw_pcs (ri_sys u) ! i = rw_pcs (ri_sys s) ! i \<or> rw_pcs (ri_sys u) ! i = T_wrwoken"
      using u len le_imp_less_Suc [OF that] False by auto
    ultimately show ?thesis by auto
  qed (use u in auto)
  let ?b = "set_worker j ((cr_workers a ! j)\<lparr>w_pc := L_test, w_i := w_i (cr_workers a ! j) + 1\<rparr>) (a\<lparr>cr_lock := None\<rparr>)"
  have "incr_pxmutex1 nloop a ?b" using j pc rel
    by (intro pmutex_worker [of j]) (auto simp: worker_step_def Let_def pmutex_unlock_def ri_rel_def)
  moreover have "cr_main a = False"
  proof -
    have "cr_lock a \<noteq> Some (length (ri_workers s))" using own j by simp
    then show ?thesis using rel by (auto simp: ri_rel_def)
  qed
  then have "ri_rel t ?b" using rel t u notw by (auto simp: ri_rel_def set_worker_def)
  moreover have "ri_awake t \<le> ri_awake s + 1" using u t by (simp add: ri_awake_def)
  moreover have "rw_pcs (ri_sys t) ! i \<in> lock_pc (w_pc (ri_workers t ! i))" if "i < length (ri_workers s)" for i
  proof (cases "i = j")
    case False
    have "rw_pcs (ri_sys s) ! i \<in> lock_pc (w_pc (ri_workers s ! i))" using places that by (simp add: ri_places_def)
    moreover have "rw_pcs (ri_sys u) ! i = rw_pcs (ri_sys s) ! i \<or> rw_pcs (ri_sys s) ! i = T_wrwait \<and> rw_pcs (ri_sys u) ! i = T_wrwoken"
      using u that False len by auto
    ultimately show ?thesis using t u False by (cases "w_pc (ri_workers s ! i)") auto
  qed (use t u j in auto)
  moreover have "rw_pcs (ri_sys u) ! length (ri_workers s) = rw_pcs (ri_sys s) ! length (ri_workers s)"
    using u places j len by (auto simp: ri_places_def)
  ultimately show ?thesis using t u places by (auto simp: ri_sim_def ri_places_def)
qed

lemma ri_main_sim:
  assumes places: "ri_places s" and rel: "ri_rel s a" and tw: "rw_pcs (ri_sys s) ! length (ri_workers s) = T_write"
    and un: "ri_unlocks ops (length (ri_workers s)) s t"
  shows "ri_sim nloop s t a \<and> ri_places t"
proof -
  let ?n = "length (ri_workers s)"
  note t = ri_unlocks_pcs [OF un places order_refl tw]
  have len: "length (rw_pcs (ri_sys s)) = Suc ?n" using places by (simp add: ri_places_def)
  have own: "cr_lock a = Some ?n" using rel tw by (simp add: ri_rel_def)
  have keep: "rw_pcs (ri_sys t) ! i = rw_pcs (ri_sys s) ! i \<or> rw_pcs (ri_sys s) ! i = T_wrwait \<and> rw_pcs (ri_sys t) ! i = T_wrwoken"
    if "i < ?n" for i using t len that by auto
  have "rw_pcs (ri_sys t) ! i \<noteq> T_write" if "i \<le> ?n" for i
  proof (cases "i = ?n")
    case False
    have "cr_lock a \<noteq> Some i" using own False by simp
    then have "rw_pcs (ri_sys s) ! i \<noteq> T_write" using rel that by (simp add: ri_rel_def)
    then show ?thesis using keep [of i] that False by auto
  qed (use t in auto)
  then have "ri_rel t (a\<lparr>cr_lock := None, cr_main := False\<rparr>)" using rel t by (auto simp: ri_rel_def)
  moreover have "incr_pxmutex1 nloop a (a\<lparr>cr_lock := None, cr_main := False\<rparr>)"
    using rel tw by (auto simp: incr_pxmutex1_def crit_step_def main_release_def pmutex_unlock_def ri_rel_def)
  moreover have "rw_pcs (ri_sys t) ! i \<in> lock_pc (w_pc (ri_workers t ! i))" if "i < ?n" for i
  proof -
    have "rw_pcs (ri_sys s) ! i \<in> lock_pc (w_pc (ri_workers s ! i))" using places that by (simp add: ri_places_def)
    then show ?thesis using t keep [OF that] by (cases "w_pc (ri_workers s ! i)") auto
  qed
  ultimately show ?thesis using t places by (auto simp: ri_sim_def ri_places_def)
qed

text \<open>The steps of a worker that do not touch the lock.\<close>

lemma ri_local_sim:
  assumes places: "ri_places s" and rel: "ri_rel s a" and j: "j < length (ri_workers s)"
    and t: "ri_thread ops nloop j s = Some t" and pc: "w_pc (ri_workers s ! j) \<noteq> L_lock"
  shows "ri_sim nloop s t a \<and> ri_places t \<and> ri_sys t = ri_sys s"
proof -
  let ?w = "ri_workers s ! j" and ?v = "cr_workers a ! j"
  have w: "?v = ?w" and n: "length (cr_workers a) = length (ri_workers s)" using rel by (simp_all add: ri_rel_def)
  have go: ?thesis
    if tt: "t = (ri_goto j w' s)\<lparr>ri_counter := c\<rparr>" and lp: "lock_pc (w_pc ?w) \<subseteq> lock_pc (w_pc w')"
      and b: "worker_step pmutex_lock pmutex_unlock id counter_next nloop j a =
        Some (set_worker j w' (a\<lparr>cr_data := c, cr_log := log\<rparr>))" for w' c log
  proof -
    have "ri_rel t (set_worker j w' (a\<lparr>cr_data := c, cr_log := log\<rparr>))" using rel tt by (simp add: ri_rel_def set_worker_def)
    moreover have "incr_pxmutex1 nloop a (set_worker j w' (a\<lparr>cr_data := c, cr_log := log\<rparr>))"
      using pmutex_worker [OF _ b] j n by simp
    moreover have "rw_pcs (ri_sys s) ! i \<in> lock_pc (w_pc ((ri_workers s)[j := w'] ! i))" if "i < length (ri_workers s)" for i
      using places that j lp by (cases "i = j") (auto simp: ri_places_def)
    ultimately show ?thesis using tt places by (auto simp: ri_sim_def ri_places_def ri_awake_def)
  qed
  show ?thesis
  proof (cases "w_pc ?w")
    case L_test
    then have "t = (ri_goto j (?w\<lparr>w_pc := (if w_i ?w < nloop then L_lock else L_done)\<rparr>) s)\<lparr>ri_counter := ri_counter s\<rparr>"
      using t by (auto simp: ri_thread_def Let_def ri_goto_def)
    then show ?thesis
      by (rule go [where log = "cr_log a"]) (use L_test w rel in \<open>auto simp: worker_step_def Let_def ri_rel_def set_worker_def\<close>)
  next
    case L_load
    then have "t = (ri_goto j (?w\<lparr>w_pc := L_store, w_val := ri_counter s\<rparr>) s)\<lparr>ri_counter := ri_counter s\<rparr>"
      using t by (auto simp: ri_thread_def Let_def ri_goto_def)
    then show ?thesis
      by (rule go [where log = "cr_log a @ [(j, ri_counter s)]"])
        (use L_load w rel in \<open>auto simp: worker_step_def Let_def ri_rel_def set_worker_def\<close>)
  next
    case L_store
    then have "t = (ri_goto j (?w\<lparr>w_pc := L_unlock\<rparr>) s)\<lparr>ri_counter := w_val ?w + 1\<rparr>"
      using t by (simp add: ri_thread_def Let_def)
    then show ?thesis
      by (rule go [where log = "cr_log a"]) (use L_store w in \<open>auto simp: worker_step_def Let_def set_worker_def\<close>)
  qed (use t pc in \<open>auto simp: ri_thread_def Let_def\<close>)
qed

section \<open>The program counts\<close>

context rw_version
begin

lemma ri_thread_lock:
  assumes "ri_thread ops nloop j s = Some t" and "w_pc (ri_workers s ! j) = L_lock"
  obtains res where "ri_locked j (ri_workers s ! j) s res = Some t"
    and "rw_pcs (ri_sys s) ! j = T_out \<and> res = op_wrlock ops (rw_lock (ri_sys s)) \<or>
      rw_pcs (ri_sys s) ! j = T_wrwoken \<and> res = op_wrwoken ops (rw_lock (ri_sys s))"
  using assms by (auto simp: ri_thread_def Let_def split: rw_pc.splits)

lemma ri_step_sim:
  assumes inv: "ri_inv s" and rel: "ri_rel s a" and step: "ri_step ops nloop s t"
  shows "ri_inv t \<and> ri_sim nloop s t a"
proof -
  have places: "ri_places s" and rw: "rw_inv (ri_sys s)" and live: "rw_live (ri_sys s)" using inv by (simp_all add: ri_inv_def)
  have len: "length (rw_pcs (ri_sys s)) = Suc (length (ri_workers s))" using places by (simp add: ri_places_def)
  have keep: "rw_inv (ri_sys t)" "rw_live (ri_sys t)" if "rw_step ops False (ri_sys s) (ri_sys t)"
    using step_inv [OF that rw] step_live [OF that rw live] by simp_all
  from step show ?thesis
  proof (cases rule: ri_step.cases)
    case (ri_worker j)
    show ?thesis
    proof (cases "w_pc (ri_workers s ! j) = L_lock")
      case True
      from ri_thread_lock [OF ri_worker(2) True] obtain res where res: "ri_locked j (ri_workers s ! j) s res = Some t"
        "rw_pcs (ri_sys s) ! j = T_out \<and> res = op_wrlock ops (rw_lock (ri_sys s)) \<or>
          rw_pcs (ri_sys s) ! j = T_wrwoken \<and> res = op_wrwoken ops (rw_lock (ri_sys s))" .
      have "rw_step ops False (ri_sys s) (ri_sys t)" using ri_locked_step [OF res(1) _ res(2)] ri_worker(1) len by simp
      with keep ri_locked_sim [OF inv rel ri_worker(1) True res(2,1)] show ?thesis by (simp add: ri_inv_def)
    next
      case False
      from ri_local_sim [OF places rel ri_worker False] rw live show ?thesis by (simp add: ri_inv_def)
    qed
  next
    case (ri_release j w u)
    then have pc: "w_pc (ri_workers s ! j) = L_unlock" by simp
    then have "rw_pcs (ri_sys s) ! j = T_write" using places ri_release(2) by (auto simp: ri_places_def)
    then have "rw_step ops False (ri_sys s) (ri_sys t)" using ri_unlocks_step [OF ri_release(5)] ri_release(1,2) len by simp
    with keep ri_release_sim [OF places rel ri_release(2) pc ri_release(5), of t] ri_release(1,3) show ?thesis
      by (simp add: ri_inv_def)
  next
    case ri_main
    then have "rw_step ops False (ri_sys s) (ri_sys t)" using ri_unlocks_step [OF ri_main(2)] len by simp
    with keep ri_main_sim [OF places rel ri_main] show ?thesis by (simp add: ri_inv_def)
  qed
qed

lemma ri_spurious_sim:
  assumes inv: "ri_inv s" and rel: "ri_rel s a" and step: "ri_spurious s t"
  shows "ri_inv t \<and> ri_rel t a"
proof -
  obtain j where j: "j < length (ri_workers s)" "rw_pcs (ri_sys s) ! j = T_wrwait"
    and t: "t = s\<lparr>ri_sys := (ri_sys s)\<lparr>rw_pcs := (rw_pcs (ri_sys s))[j := T_wrwoken]\<rparr>\<rparr>" using step by (auto simp: ri_spurious_def)
  have places: "ri_places s" using inv by (simp add: ri_inv_def)
  have len: "j < length (rw_pcs (ri_sys s))" using places j(1) by (simp add: ri_places_def)
  obtain rw pcs where s: "ri_sys s = \<lparr>rw_lock = rw, rw_pcs = pcs\<rparr>" by (cases "ri_sys s") auto
  have "rw_step ops False (ri_sys s) (ri_sys t)" unfolding t s using s len j(2) by (auto intro: rw_step.wrspurious)
  then have "rw_inv (ri_sys t)" "rw_live (ri_sys t)" using inv step_inv step_live by (auto simp: ri_inv_def)
  moreover have same: "rw_pcs (ri_sys t) ! i = T_write \<longleftrightarrow> rw_pcs (ri_sys s) ! i = T_write" for i
    using t j(2) len by (cases "i = j") auto
  then have "ri_rel t a" using rel t by (simp add: ri_rel_def)
  moreover have "rw_pcs (ri_sys t) ! i \<in> lock_pc (w_pc (ri_workers t ! i))" if "i < length (ri_workers s)" for i
  proof -
    have "rw_pcs (ri_sys s) ! i \<in> lock_pc (w_pc (ri_workers s ! i))" using places that by (simp add: ri_places_def)
    then show ?thesis using t j(2) len by (cases "i = j"; cases "w_pc (ri_workers s ! i)") auto
  qed
  then have "ri_places t" using places t by (simp add: ri_places_def nth_list_update_neq [OF less_imp_neq [OF j(1)]])
  ultimately show ?thesis by (simp add: ri_inv_def)
qed

lemma ri_unlock_enabled:
  assumes inv: "ri_inv s" and j: "j \<le> length (ri_workers s)" and tw: "rw_pcs (ri_sys s) ! j = T_write"
  shows "\<exists>t. ri_unlocks ops j s t"
proof -
  have "j < length (rw_pcs (ri_sys s))" using inv j by (simp add: ri_inv_def ri_places_def)
  moreover have "rw_inv \<lparr>rw_lock = rw_lock (ri_sys s), rw_pcs = rw_pcs (ri_sys s)\<rparr>"
    using inv by (simp add: ri_inv_def rw_inv_def Let_def)
  ultimately obtain rw where "release (rw_lock (ri_sys s)) = Some rw" using tw release_inv by blast
  moreover have "rw_magic (rw_lock (ri_sys s)) = RW_MAGIC" using inv by (simp add: ri_inv_def rw_inv_def Let_def)
  ultimately obtain evs where evs: "op_unlock ops (rw_lock (ri_sys s)) = Returns rw evs 0" using unlock_law by blast
  have "\<exists>pcs. rw_notified evs ((rw_pcs (ri_sys s))[j := T_out]) pcs"
    by (cases "Signal_writers \<in> set evs"; cases "Broadcast_readers \<in> set evs") (simp_all add: rw_notified_def ex_cond_signal)
  with evs show ?thesis by (blast intro: ri_unlock)
qed

lemma ri_lock_enabled:
  assumes inv: "ri_inv s" and j: "j < length (ri_workers s)" and pc: "w_pc (ri_workers s ! j) = L_lock"
    and out: "rw_pcs (ri_sys s) ! j \<noteq> T_wrwait"
  shows "\<exists>t. ri_step ops nloop s t"
proof -
  have magic: "rw_magic (rw_lock (ri_sys s)) = RW_MAGIC" using inv by (simp add: ri_inv_def rw_inv_def Let_def)
  have "rw_pcs (ri_sys s) ! j \<in> {T_out, T_wrwait, T_wrwoken}" using inv j pc by (auto simp: ri_inv_def ri_places_def)
  then have "\<exists>t. ri_thread ops nloop j s = Some t" using pc out magic
    by (auto simp: ri_thread_def Let_def ri_locked_def wrlock_law wrwoken_law)
  then show ?thesis using j by (blast intro: ri_worker)
qed

lemma ri_enabled:
  assumes inv: "ri_inv s" and "\<not> ri_joined s"
  shows "\<exists>t. ri_step ops nloop s t"
proof (cases "T_write \<in> set (rw_pcs (ri_sys s))")
  case True
  have len: "length (rw_pcs (ri_sys s)) = Suc (length (ri_workers s))" using inv by (simp add: ri_inv_def ri_places_def)
  obtain j where j: "j \<le> length (ri_workers s)" "rw_pcs (ri_sys s) ! j = T_write"
    using True len by (auto simp: in_set_conv_nth less_Suc_eq_le)
  obtain u where u: "ri_unlocks ops j s u" using ri_unlock_enabled [OF inv j] by blast
  show ?thesis
  proof (cases "j = length (ri_workers s)")
    case True
    then show ?thesis using j(2) u by (blast intro: ri_main)
  next
    case False
    then have jl: "j < length (ri_workers s)" using j(1) by simp
    have "T_write \<in> lock_pc (w_pc (ri_workers s ! j))" using inv jl j(2) by (auto simp: ri_inv_def ri_places_def)
    then consider "w_pc (ri_workers s ! j) = L_unlock" | "\<exists>t. ri_thread ops nloop j s = Some t"
      by (cases "w_pc (ri_workers s ! j)") (auto simp: ri_thread_def Let_def)
    then show ?thesis using jl u by cases (blast intro: ri_release ri_worker)+
  qed
next
  case False
  have pl: "ri_places s" and rw: "rw_inv (ri_sys s)" "rw_live (ri_sys s)" using inv by (simp_all add: ri_inv_def)
  have len: "length (rw_pcs (ri_sys s)) = Suc (length (ri_workers s))" using pl by (simp add: ri_places_def)
  have place: "rw_pcs (ri_sys s) ! i \<in> lock_pc (w_pc (ri_workers s ! i))" if "i < length (ri_workers s)" for i
    using pl that by (simp add: ri_places_def)
  have "rw_pcs (ri_sys s) ! length (ri_workers s) \<noteq> T_write" using False len by (metis lessI nth_mem)
  then obtain j where j: "j < length (ri_workers s)" "w_pc (ri_workers s ! j) \<noteq> L_done"
    using assms(2) by (auto simp: ri_joined_def list_all_length)
  have notw: "rw_pcs (ri_sys s) ! i \<noteq> T_write" if "i < length (ri_workers s)" for i
    using False len that by (metis less_SucI nth_mem)
  show ?thesis
  proof (cases "w_pc (ri_workers s ! j)")
    case L_test
    then show ?thesis using j(1) by (auto simp: ri_thread_def Let_def intro!: exI ri_worker [of j])
  next
    case L_lock
    show ?thesis
    proof (cases "rw_pcs (ri_sys s) ! j = T_wrwait")
      case True
      then have "T_wrwait \<in> set (rw_pcs (ri_sys s))" using len j(1) by (metis less_SucI nth_mem)
      moreover have "T_read \<notin> set (rw_pcs (ri_sys s))" "T_rdwoken \<notin> set (rw_pcs (ri_sys s))"
        using no_readers [OF pl] by simp_all
      ultimately have "T_wrwoken \<in> set (rw_pcs (ri_sys s))" using live_wakes [OF rw] False by auto
      then obtain i where i: "i < Suc (length (ri_workers s))" "rw_pcs (ri_sys s) ! i = T_wrwoken"
        using len by (auto simp: in_set_conv_nth)
      then have il: "i < length (ri_workers s)" using pl by (cases "i = length (ri_workers s)") (auto simp: ri_places_def)
      then have "w_pc (ri_workers s ! i) = L_lock" using place [OF il] i(2) by (cases "w_pc (ri_workers s ! i)") auto
      then show ?thesis using ri_lock_enabled [OF inv il] i(2) by simp
    next
      case False
      then show ?thesis by (rule ri_lock_enabled [OF inv j(1) L_lock])
    qed
  qed (use place [OF j(1)] notw [OF j(1)] j(2) in auto)
qed

text \<open>Every run has a run of the program over a mutex, and at most two steps for each of its steps and one for each thread.\<close>

lemma ri_run:
  "ri_inv s \<Longrightarrow> ri_rel s a \<Longrightarrow> path_steps (\<lambda>s t. ri_step ops nloop s t \<or> ri_spurious s t) s ts \<Longrightarrow>
    \<exists>us. path_steps (incr_pxmutex1 nloop) a us \<and> ri_inv (last (s # ts)) \<and> ri_rel (last (s # ts)) (last (a # us)) \<and>
      (path_steps (ri_step ops nloop) s ts \<longrightarrow> int (length ts) + ri_awake (last (s # ts)) \<le> 2 * int (length us) + ri_awake s)"
proof (induction ts arbitrary: s a)
  case Nil
  then show ?case by (intro exI [of _ "[]"]) simp
next
  case (Cons t ts)
  define z where "z = last (t # ts)"
  have z: "last (s # t # ts) = z" by (simp add: z_def)
  have run: "path_steps (\<lambda>s t. ri_step ops nloop s t \<or> ri_spurious s t) t ts" using Cons.prems(3) by simp
  have rest: "\<exists>us. path_steps (incr_pxmutex1 nloop) b us \<and> ri_inv z \<and> ri_rel z (last (b # us)) \<and>
      (path_steps (ri_step ops nloop) t ts \<longrightarrow> int (length ts) + ri_awake z \<le> 2 * int (length us) + ri_awake t)"
    if "ri_inv t" "ri_rel t b" for b using Cons.IH [OF that run] by (simp only: z_def)
  consider (step) "ri_step ops nloop s t" | (wake) "ri_spurious s t" "\<not> ri_step ops nloop s t" using Cons.prems(3) by auto
  then show ?case unfolding z
  proof cases
    case step
    from ri_step_sim [OF Cons.prems(1,2) this] have t: "ri_inv t" and sim: "ri_sim nloop s t a" by auto
    from sim consider "ri_rel t a" "ri_awake t < ri_awake s"
      | b where "incr_pxmutex1 nloop a b" "ri_rel t b" "ri_awake t \<le> ri_awake s + 1" by (auto simp: ri_sim_def)
    then show "\<exists>us. path_steps (incr_pxmutex1 nloop) a us \<and> ri_inv z \<and> ri_rel z (last (a # us)) \<and>
      (path_steps (ri_step ops nloop) s (t # ts) \<longrightarrow> int (length (t # ts)) + ri_awake z \<le> 2 * int (length us) + ri_awake s)"
    proof cases
      case 1
      from rest [OF t 1(1)] obtain us where us: "path_steps (incr_pxmutex1 nloop) a us" "ri_inv z" "ri_rel z (last (a # us))"
        "path_steps (ri_step ops nloop) t ts \<longrightarrow> int (length ts) + ri_awake z \<le> 2 * int (length us) + ri_awake t" by blast
      then have "path_steps (ri_step ops nloop) s (t # ts) \<longrightarrow> int (length (t # ts)) + ri_awake z \<le> 2 * int (length us) + ri_awake s"
        using 1(2) by auto
      with us(1-3) show ?thesis by blast
    next
      case (2 b)
      from rest [OF t 2(2)] obtain us where us: "path_steps (incr_pxmutex1 nloop) b us" "ri_inv z" "ri_rel z (last (b # us))"
        "path_steps (ri_step ops nloop) t ts \<longrightarrow> int (length ts) + ri_awake z \<le> 2 * int (length us) + ri_awake t" by blast
      then have "path_steps (ri_step ops nloop) s (t # ts) \<longrightarrow>
          int (length (t # ts)) + ri_awake z \<le> 2 * int (length (b # us)) + ri_awake s" using 2(3) by auto
      moreover have "path_steps (incr_pxmutex1 nloop) a (b # us)" "ri_rel z (last (a # b # us))" using us(1,3) 2(1) by simp_all
      ultimately show ?thesis using us(2) by blast
    qed
  next
    case wake
    from ri_spurious_sim [OF Cons.prems(1,2) wake(1)] rest obtain us where
      us: "path_steps (incr_pxmutex1 nloop) a us" "ri_inv z" "ri_rel z (last (a # us))" by blast
    with wake(2) show "\<exists>us. path_steps (incr_pxmutex1 nloop) a us \<and> ri_inv z \<and> ri_rel z (last (a # us)) \<and>
      (path_steps (ri_step ops nloop) s (t # ts) \<longrightarrow> int (length (t # ts)) + ri_awake z \<le> 2 * int (length us) + ri_awake s)"
      by (intro exI [of _ us]) simp
  qed
qed

lemma ri_start_inv:
  assumes "ri_start ops n = Some s"
  shows "ri_inv s \<and> ri_rel s (crit_start n (Some n) 0 0 True) \<and> ri_awake s = int n + 1"
proof -
  have "op_wrlock ops rwlock_initializer = Returns (rwlock_initializer\<lparr>rw_refcount := - 1\<rparr>) [] 0"
    using wrlock_law [of rwlock_initializer] by (simp add: rwlock_initializer_def)
  then have s: "s = \<lparr>ri_sys = \<lparr>rw_lock = rwlock_initializer\<lparr>rw_refcount := - 1\<rparr>, rw_pcs = replicate n T_out @ [T_write]\<rparr>,
      ri_counter = 0, ri_workers = replicate n \<lparr>w_pc = L_test, w_i = 0, w_val = 0\<rparr>\<rparr>" using assms by (simp add: ri_start_def)
  have cnts: "cnt p (replicate n T_out @ [T_write]) = (if p = T_out then int n else if p = T_write then 1 else 0)" for p
    by (induction n) (auto simp: cnt_def)
  have "ri_places s" using s by (auto simp: ri_places_def nth_append)
  moreover have "rw_inv (ri_sys s)" "rw_live (ri_sys s)" using s
    by (simp_all add: rw_inv_def rw_live_def Let_def cnts rwlock_initializer_def rd_blocked_def)
  moreover have "ri_rel s (crit_start n (Some n) 0 0 True)" using s by (auto simp: ri_rel_def crit_start_def nth_append)
  moreover have "ri_awake s = int n + 1" using s by (simp add: ri_awake_def total_of_def sum_list_replicate)
  ultimately show ?thesis by (simp add: ri_inv_def)
qed

lemma ri_counts:
  assumes "0 \<le> nloop" and "0 \<le> nthreads" and "nloop * min nthreads MAXNPROC < 2 ^ 31"
    and start: "ri_start ops (incr_workers nthreads) = Some s0"
    and run: "path_steps (\<lambda>s t. ri_step ops nloop s t \<or> ri_spurious s t) s0 ts" and s: "s = last (s0 # ts)"
  shows "(ri_joined s \<longrightarrow> ri_counter s = nloop * min nthreads MAXNPROC \<and> incr_error nloop nthreads (ri_counter s) = None) \<and>
    (ri_joined s \<or> (\<exists>t. ri_step ops nloop s t)) \<and>
    (path_steps (ri_step ops nloop) s0 ts \<longrightarrow> int (length ts) \<le> int (incr_workers nthreads) * (10 * nloop + 3) + 3)"
proof -
  let ?n = "incr_workers nthreads"
  note s0 = ri_start_inv [OF start]
  from ri_run [OF _ _ run, of "incr_start (Some ?n) nthreads"] s0
  obtain us where us: "path_steps (incr_pxmutex1 nloop) (incr_start (Some ?n) nthreads) us" "ri_inv s"
    "ri_rel s (last (incr_start (Some ?n) nthreads # us))"
    "path_steps (ri_step ops nloop) s0 ts \<longrightarrow> int (length ts) + ri_awake s \<le> 2 * int (length us) + int ?n + 1"
    unfolding s incr_start_def by (auto simp: algebra_simps)
  define a where "a = last (incr_start (Some ?n) nthreads # us)"
  have "counts_right (incr_pxmutex1 nloop) (Some ?n) nloop nthreads"
    unfolding incr_pxmutex1_def using assms(1-3) by (intro pmutex.exclusion_counts_right) auto
  from this [unfolded counts_right_def, rule_format, OF us(1) a_def]
  have a: "crit_joined a \<longrightarrow> cr_data a = nloop * min nthreads MAXNPROC \<and> incr_error nloop nthreads (cr_data a) = None"
    "int (length us) \<le> int ?n * (5 * nloop + 1) + 1" by blast+
  have rel: "ri_rel s a" using us(3) a_def by simp
  have "ri_joined s \<Longrightarrow> crit_joined a" using rel by (auto simp: ri_joined_def crit_joined_def ri_rel_def)
  moreover have "cr_data a = ri_counter s" using rel by (simp add: ri_rel_def)
  moreover have "0 \<le> ri_awake s" by (auto simp: ri_awake_def intro: total_nonneg)
  then have "path_steps (ri_step ops nloop) s0 ts \<longrightarrow> int (length ts) \<le> int ?n * (10 * nloop + 3) + 3"
    using us(4) a(2) by (auto simp: algebra_simps)
  ultimately show ?thesis using a(1) ri_enabled [OF us(2)] by auto
qed

end

section \<open>Properties\<close>

text \<open>
  C13. \<open>incr_rwlock1.c\<close> over the read-write locks of \<open>my_rwlock\<close> and of \<open>my_rwlock_cancel\<close>: whatever the
  threads do in between, spurious wakeups included, the counter at the end is the number of loops times
  the number of threads and \<open>main\<close> reports no error; some thread can run until all are joined; and every
  run without spurious wakeups is finite.
\<close>

theorem incr_rwlock1_counts:
  assumes "ops = my_rwlock_ops \<or> ops = my_rwlock_cancel_ops"
    and "0 \<le> nloop" and "0 \<le> nthreads" and "nloop * min nthreads MAXNPROC < 2 ^ 31"
    and "ri_start ops (incr_workers nthreads) = Some s0"
    and "path_steps (\<lambda>s t. ri_step ops nloop s t \<or> ri_spurious s t) s0 ts" and "s = last (s0 # ts)"
  shows "(ri_joined s \<longrightarrow> ri_counter s = nloop * min nthreads MAXNPROC \<and> incr_error nloop nthreads (ri_counter s) = None) \<and>
    (ri_joined s \<or> (\<exists>t. ri_step ops nloop s t)) \<and>
    (path_steps (ri_step ops nloop) s0 ts \<longrightarrow> int (length ts) \<le> int (incr_workers nthreads) * (10 * nloop + 3) + 3)"
proof -
  from assms(1) consider "ops = my_rwlock_ops" | "ops = my_rwlock_cancel_ops" by blast
  then show ?thesis
  proof cases
    case 1
    show ?thesis using my_rw.ri_counts [OF assms(2-4) assms(5-7) [unfolded 1]] unfolding 1 .
  next
    case 2
    show ?thesis using my_rw_cancel.ri_counts [OF assms(2-4) assms(5-7) [unfolded 2]] unfolding 2 .
  qed
qed

theorem incr_rwlock1_counts_witness:
  "\<exists>s0. ri_start my_rwlock_ops (incr_workers 2) = Some s0 \<and> \<not> ri_joined s0 \<and> (\<exists>t. ri_step my_rwlock_ops 3 s0 t)"
proof -
  obtain s0 where s0: "ri_start my_rwlock_ops (incr_workers 2) = Some s0" "\<not> ri_joined s0"
    by (simp add: ri_start_def ri_joined_def my_rwlock_ops_def my_pthread_rwlock_wrlock_def wrlock_test_def
      rwlock_initializer_def incr_workers_def nth_append numeral_2_eq_2)
  from incr_rwlock1_counts [OF _ _ _ _ s0(1), of 3 "[]" s0] s0 show ?thesis by auto
qed

end
