(* ===== verification/Mq_Disk.thy ===== *)
theory Mq_Disk
  imports Mqueue_Open Mqueue_Correct
begin

unbundle bit_operations_syntax

text \<open>
  A file for the queues of \<open>src/my_pxmsg_mmap\<close>, and \<open>mymq_open\<close> and \<open>mymq_unlink\<close> run against it. The answers
  to the system calls of these functions are those of a file system that holds the file or does not;
  \<open>disk_trace\<close> checks each answer against the call that was made and the state of the file at that
  moment, and gives the state after the call. What is in the file (its mode, its size, its
  contents) is the state that one open leaves for the next one.
\<close>

section \<open>A file and the calls on it\<close>

text \<open>\<open>FILE_MODE\<close> of \<open>unpipc.h\<close>: read and write for the user, read for all.\<close>

abbreviation (input) FILE_MODE :: uint where "FILE_MODE \<equiv> 420"

record mq_file =
  f_mode :: uint
  f_size :: int
  f_map :: mapped

text \<open>
  The file, if it exists, and the position of the descriptor that is open on it. A new file has length
  0 and reads as zeros; \<open>lseek\<close> and \<open>write\<close> make it longer. Only that part of a file that exists can be
  used through a mapping of it, so a longer mapping has no run. There is enough memory, and the calls
  of the thread library return 0.
\<close>

type_synonym disk = "mq_file option \<times> int"

definition disk_open_call :: "uint \<Rightarrow> uint \<Rightarrow> answer \<Rightarrow> disk \<Rightarrow> disk option" where
  "disk_open_call flags mode a d =
    (case fst d of
      Some f \<Rightarrow>
        if flags AND O_CREAT \<noteq> 0 \<and> flags AND O_EXCL \<noteq> 0 then (if a = Fails EEXIST then Some d else None)
        else (case a of Gives fd \<Rightarrow> if 0 \<le> fd then Some (Some f, 0) else None | _ \<Rightarrow> None)
    | None \<Rightarrow>
        if flags AND O_CREAT = 0 then (if a = Fails ENOENT then Some d else None)
        else (case a of
          Gives fd \<Rightarrow> if 0 \<le> fd then Some (Some \<lparr>f_mode = mode, f_size = 0, f_map = zero_file\<rparr>, 0) else None
        | _ \<Rightarrow> None))"

fun disk_call :: "string \<Rightarrow> sys_call \<Rightarrow> answer \<Rightarrow> disk \<Rightarrow> disk option" where
  "disk_call path (Open p flags mode) a d = (if p = path then disk_open_call flags mode a d else None)"
| "disk_call path (Lseek fd off) a (f, pos) = (if a = Gives off \<and> 0 \<le> off then Some (f, off) else None)"
| "disk_call path (Write fd n) a (f, pos) =
    (if a = Gives (int n)
     then Some (map_option (\<lambda>g. g\<lparr>f_size := max (f_size g) (pos + int n)\<rparr>) f, pos + int n) else None)"
| "disk_call path (Mmap len fd) a (f, pos) =
    (case (a, f) of (Gives p, Some g) \<Rightarrow> if int len \<le> f_size g then Some (f, pos) else None | _ \<Rightarrow> None)"
| "disk_call path (Malloc len) a d = (case a of Gives p \<Rightarrow> Some d | _ \<Rightarrow> None)"
| "disk_call path (Pthread f) a d = (if a = Gives 0 then Some d else None)"
| "disk_call path (Fchmod fd mode) a (f, pos) =
    (if a = Gives 0 then Some (map_option (\<lambda>g. g\<lparr>f_mode := mode\<rparr>) f, pos) else None)"
| "disk_call path (Close fd) a d = (if a = (if fd < 0 then Fails EBADF else Gives 0) then Some d else None)"
| "disk_call path (Stat p) a (f, pos) =
    (if p = path \<and> a = (case f of None \<Rightarrow> Fails ENOENT | Some g \<Rightarrow> Stats (f_mode g) (f_size g))
     then Some (f, pos) else None)"
| "disk_call path (Unlink p) a (f, pos) =
    (if p = path \<and> a = (if f = None then Fails ENOENT else Gives 0) then Some (None, pos) else None)"
| "disk_call path (Sleep n) a d = (if a = Gives 0 then Some d else None)"
| "disk_call path _ a d = None"

fun disk_trace :: "string \<Rightarrow> trace \<Rightarrow> disk \<Rightarrow> disk option" where
  "disk_trace path [] d = Some d"
| "disk_trace path ((c, a) # tr) d = (case disk_call path c a d of None \<Rightarrow> None | Some d' \<Rightarrow> disk_trace path tr d')"

section \<open>mymq_open and mymq_unlink on the file\<close>

text \<open>The descriptor and the addresses that the system hands out.\<close>

record handed =
  k_fd :: int
  k_map :: int
  k_info :: int

text \<open>The answers, in the order of the calls.\<close>

definition create_answers :: "nat \<Rightarrow> handed \<Rightarrow> mymq_attr option \<Rightarrow> answer list" where
  "create_answers hsz k attr =
    (if attr \<noteq> None \<and> (mq_maxmsg (the attr) \<le> 0 \<or> mq_msgsize (the attr) \<le> 0)
     then [Gives (k_fd k), Gives 0, Gives 0]
     else let a = (case attr of None \<Rightarrow> defattr | Some a \<Rightarrow> a) in
       [Gives (k_fd k), Gives (int (mq_filesize hsz (mq_maxmsg a) (mq_msgsize a)) - 1), Gives 1,
        Gives (k_map k), Gives (k_info k)] @ replicate 10 (Gives 0))"

definition exists_answers :: "handed \<Rightarrow> mq_file \<Rightarrow> answer list" where
  "exists_answers k f =
    (if f_mode f AND S_IXUSR = 0
     then [Gives (k_fd k), Stats (f_mode f) (f_size f), Gives (k_map k), Gives 0, Gives (k_info k)]
     else Gives (k_fd k) # concat (replicate MAX_TRIES [Stats (f_mode f) (f_size f), Gives 0]) @ [Gives 0])"

definition open_answers :: "nat \<Rightarrow> handed \<Rightarrow> uint \<Rightarrow> mymq_attr option \<Rightarrow> mq_file option \<Rightarrow> answer list" where
  "open_answers hsz k oflag attr file =
    (case file of
      None \<Rightarrow> if oflag AND O_CREAT \<noteq> 0 then create_answers hsz k attr else [Fails ENOENT, Fails EBADF]
    | Some f \<Rightarrow>
        if oflag AND O_CREAT = 0 then exists_answers k f
        else if oflag AND O_EXCL \<noteq> 0 then [Fails EEXIST] else Fails EEXIST # exists_answers k f)"

text \<open>The initialisation of the mapped file by the open that made it.\<close>

definition init_file :: "nat \<Rightarrow> mq_handle result \<Rightarrow> mq_file option \<Rightarrow> mq_file option" where
  "init_file hsz r file =
    (case r of
      Inr h \<Rightarrow> (case h_init h of None \<Rightarrow> file | Some a \<Rightarrow> map_option (\<lambda>f. f\<lparr>f_map := mq_init hsz a (f_map f)\<rparr>) file)
    | Inl e \<Rightarrow> file)"

definition disk_open ::
  "nat \<Rightarrow> handed \<Rightarrow> string \<Rightarrow> uint \<Rightarrow> uint \<Rightarrow> mymq_attr option \<Rightarrow> mq_file option \<Rightarrow> (mq_handle result \<times> mq_file option) option" where
  "disk_open hsz k path oflag mode attr file =
    (case mymq_open hsz path oflag mode attr (open_answers hsz k oflag attr file, []) of
      Some (r, ([], tr)) \<Rightarrow>
        (case disk_trace path tr (file, 0) of None \<Rightarrow> None | Some (file', pos) \<Rightarrow> Some (r, init_file hsz r file'))
    | _ \<Rightarrow> None)"

definition disk_unlink :: "string \<Rightarrow> mq_file option \<Rightarrow> (unit result \<times> mq_file option) option" where
  "disk_unlink path file =
    (case mymq_unlink path ([if file = None then Fails ENOENT else Gives 0], []) of
      Some (r, ([], tr)) \<Rightarrow>
        (case disk_trace path tr (file, 0) of None \<Rightarrow> None | Some (file', pos) \<Rightarrow> Some (r, file'))
    | _ \<Rightarrow> None)"

section \<open>The results\<close>

lemma disk_unlink_result:
  "disk_unlink path file = Some (if file = None then Inl ENOENT else Inr (), None)"
  by (simp add: disk_unlink_def mymq_unlink_def sys_def)

text \<open>\<open>O_CREAT\<close> is 64, \<open>O_EXCL\<close> 128, \<open>O_EXCL | O_RDWR\<close> 130, and \<open>- 2049\<close> the complement of \<open>O_NONBLOCK\<close>.\<close>

lemma nonblock_bits:
  "(oflag AND - 2049) AND 64 = (oflag :: uint) AND 64" "(oflag AND - 2049) AND 128 = (oflag :: uint) AND 128"
  by (simp_all add: and.assoc)

lemma creat_bits:
  "(oflag AND - 2049 OR 130) AND 128 \<noteq> (0 :: uint)" "(oflag AND - 2049 OR 130) AND 64 = (oflag :: uint) AND 64"
proof -
  have "(oflag AND - 2049 OR 130) AND 128 = (oflag AND 128) OR (128 :: uint)"
    by (simp add: bit.conj_disj_distrib2 and.assoc)
  also have "\<dots> = 128" by (rule bit_eqI) (auto simp: bit_simps)
  finally show "(oflag AND - 2049 OR 130) AND 128 \<noteq> (0 :: uint)" by simp
  show "(oflag AND - 2049 OR 130) AND 64 = (oflag :: uint) AND 64"
    by (simp add: bit.conj_disj_distrib2 and.assoc)
qed

lemmas disk_defs = disk_open_def mymq_open_def open_answers_def sys_def nonblock_bits creat_bits
  disk_open_call_def init_file_def

text \<open>\<open>O_EXCL\<close> on a file that is there, and no \<open>O_CREAT\<close> without the file.\<close>

lemma disk_open_excl:
  assumes "oflag AND O_CREAT \<noteq> 0" and "oflag AND O_EXCL \<noteq> 0"
  shows "disk_open hsz k path oflag mode attr (Some f) = Some (Inl EEXIST, Some f)"
  using assms by (simp add: disk_defs mq_open_again.simps)

lemma disk_open_absent:
  assumes "oflag AND O_CREAT = 0"
  shows "disk_open hsz k path oflag mode attr None = Some (Inl ENOENT, None)"
  using assms by (simp add: disk_defs mq_open_again.simps mq_open_err_def)

text \<open>A new file: initialised, with the mode that was asked for and without the user-execute bit.\<close>

lemma disk_open_new:
  assumes "oflag AND O_CREAT \<noteq> 0" and "0 \<le> k_fd k"
    and "a = (case attr of None \<Rightarrow> defattr | Some a \<Rightarrow> a)" and "0 < mq_maxmsg a" and "0 < mq_msgsize a"
    and "0 < mq_filesize hsz (mq_maxmsg a) (mq_msgsize a)"
  shows "disk_open hsz k path oflag mode attr None =
    Some (Inr \<lparr>h_info = k_info k, h_map = k_map k, h_flags = oflag AND O_NONBLOCK, h_init = Some a\<rparr>,
      Some \<lparr>f_mode = mode AND NOT S_IXUSR, f_size = int (mq_filesize hsz (mq_maxmsg a) (mq_msgsize a)),
        f_map = mq_init hsz a zero_file\<rparr>)"
  using assms
  by (cases attr)
    (simp_all add: disk_defs mq_open_again.simps create_answers_def mq_open_create_def mq_open_pthreads_def
      sys_pth_def Let_def numeral_eq_Suc)

text \<open>A file that is there and initialised, and one whose initialisation is never finished.\<close>

lemma disk_open_old:
  assumes "oflag AND O_CREAT = 0 \<or> oflag AND O_EXCL = 0" and "0 \<le> k_fd k" and "f_mode f AND S_IXUSR = 0" and "0 \<le> f_size f"
  shows "disk_open hsz k path oflag mode attr (Some f) =
    Some (Inr \<lparr>h_info = k_info k, h_map = k_map k, h_flags = oflag AND O_NONBLOCK, h_init = None\<rparr>, Some f)"
  using assms mq_open_tries.simps(2) [of 9]
  by (cases "oflag AND O_CREAT = 0")
    (simp_all add: disk_defs mq_open_again.simps exists_answers_def mq_open_map_def sys_stat_def)

lemma disk_open_busy:
  assumes "oflag AND O_CREAT = 0 \<or> oflag AND O_EXCL = 0" and "0 \<le> k_fd k" and "f_mode f AND S_IXUSR \<noteq> 0"
  shows "disk_open hsz k path oflag mode attr (Some f) = Some (Inl ETIMEDOUT, Some f)"
  using assms
  by (cases "oflag AND O_CREAT = 0")
    (simp_all add: disk_defs mq_open_again.simps exists_answers_def mq_open_err_def sys_stat_def numeral_eq_Suc)

text \<open>Unusable attributes: the file is removed again.\<close>

lemma disk_open_invalid:
  assumes "oflag AND O_CREAT \<noteq> 0" and "0 \<le> k_fd k" and "mq_maxmsg a \<le> 0 \<or> mq_msgsize a \<le> 0"
  shows "disk_open hsz k path oflag mode (Some a) None = Some (Inl EINVAL, None)"
  using assms
  by (auto simp: disk_defs mq_open_again.simps create_answers_def mq_open_create_def mq_open_err_def Let_def)

end
