(* ===== verification/Mq_Test.thy ===== *)
theory Mq_Test
  imports Mq_Disk Mqueue_Threads
begin

unbundle bit_operations_syntax

text \<open>
  The test program \<open>src/my_pxmsg_mmap/testmq.c\<close> run on the operations of \<open>Mqueue\<close>: its calls and checks as a list,
  in the order in which the calls take place (the program makes its child processes and itself wait for each
  other with \<open>sleep\<close> and \<open>Waitpid\<close>). \<open>mymq_open\<close> and \<open>mymq_unlink\<close> run with all their system calls on the file of
  \<open>Mq_Disk\<close>, so \<open>EEXIST\<close>, \<open>ENOENT\<close> and the second open of a queue are what these functions make of the file. A child that
  blocks in \<open>mymq_receive\<close> is parked and goes on only when a call has signalled the condition variable.
\<close>

section \<open>Calls and checks\<close>

text \<open>The length of a receive buffer: \<open>BUFFLEN\<close>, or \<open>info.mq_msgsize\<close>, or another number.\<close>

datatype buf_len = Len nat | Info_msgsize

abbreviation (input) BUFFLEN :: nat where "BUFFLEN \<equiv> 100"
abbreviation (input) SIGUSR1 :: int where "SIGUSR1 \<equiv> 10"

text \<open>
  The names with \<open>_fails\<close> are the calls that have to return an error; \<open>Try_unlink\<close> is the call whose result is not tested. \<open>Child_waits\<close> and \<open>Child_gets\<close> are the two halves of
  a call of \<open>Mymq_receive\<close> by a child that finds an empty queue.
\<close>

datatype mq_call =
    Try_unlink | Unlink | Unlink_fails errno | Open_new "mymq_attr option" | Open_new_fails errno | Open_old uint | Close
  | Getattr int int uint int | Setattr uint int int uint int
  | Send "byte list" uint | Send_fails "byte list" uint errno
  | Receive buf_len nat uint | Receive_fails buf_len errno
  | Notify | Notify_off | Notify_fails int errno
  | Clear_signals | Signals nat
  | Child_waits buf_len | Child_gets nat uint

text \<open>
  A child in \<open>pthread_cond_wait\<close>, and one that has been woken. The state: the file under the path of the command line, the
  descriptor, the variables \<open>info\<close> and \<open>sigusr1\<close>, and the child that waits.
\<close>

datatype child = No_child | Child_parked | Child_woken

record mq_test =
  tq_file :: "mq_file option"
  tq_mqd :: mymq_info
  tq_info :: mymq_attr
  tq_sigusr1 :: nat
  tq_child :: child

text \<open>What \<open>pthread_cond_signal\<close> does to the child, and the state after a call that changed the mapped file.\<close>

definition wake_child :: "mq_event list \<Rightarrow> child \<Rightarrow> child" where
  "wake_child evs c = (if Cond_signal \<in> set evs \<and> c = Child_parked then Child_woken else c)"

definition put_map :: "mapped \<Rightarrow> mq_event list \<Rightarrow> mq_test \<Rightarrow> mq_test" where
  "put_map m evs t = t\<lparr>tq_file := map_option (\<lambda>f. f\<lparr>f_map := m\<rparr>) (tq_file t), tq_child := wake_child evs (tq_child t)\<rparr>"

definition usr1_events :: "int \<Rightarrow> mq_event list \<Rightarrow> nat" where
  "usr1_events pid evs = length (filter (\<lambda>e. case e of Sigqueue p sig v \<Rightarrow> p = pid \<and> sig = SIGUSR1 | Cond_signal \<Rightarrow> False) evs)"

definition test_sigev :: sigevent where
  "test_sigev = \<lparr>sigev_notify = SIGEV_SIGNAL, sigev_signo = SIGUSR1, sigev_value = 0\<rparr>"

definition tq_len :: "buf_len \<Rightarrow> mq_test \<Rightarrow> nat" where
  "tq_len b t = (case b of Len n \<Rightarrow> n | Info_msgsize \<Rightarrow> ulong_of (mq_msgsize (tq_info t)))"

text \<open>The error that a call that should fail did not give: \<open>err_sys\<close>.\<close>

definition expect_error :: "errno \<Rightarrow> 'a result \<Rightarrow> mq_test \<Rightarrow> mq_test called option" where
  "expect_error e r t =
    (case r of Inl e' \<Rightarrow> Some (if e' = e then Done t else Err_sys ''expected another error'' e')
     | Inr _ \<Rightarrow> Some (Err_sys ''expected an error'' 0))"

definition check_received :: "nat \<Rightarrow> uint \<Rightarrow> (byte list \<times> uint) result \<Rightarrow> mq_test \<Rightarrow> mq_test called option" where
  "check_received rc prio r t =
    (case r of
      Inl e \<Rightarrow> Some (Err_sys ''mymq_receive error'' e)
    | Inr (data, p) \<Rightarrow>
        Some (if length data \<noteq> rc then Err_quit ''mq_receive returned''
              else if p \<noteq> prio then Err_quit ''mq_receive returned prio'' else Done t))"

text \<open>The attributes. The first test of them in the program only writes a message with \<open>err_msg\<close>; here all of them have to hold.\<close>

definition check_attr :: "int \<Rightarrow> int \<Rightarrow> uint \<Rightarrow> int \<Rightarrow> mq_test \<Rightarrow> mq_test called option" where
  "check_attr maxmsg msgsize flags curmsgs t =
    (let info = tq_info t in
     Some (if mq_maxmsg info \<noteq> maxmsg \<or> mq_msgsize info \<noteq> msgsize \<or> mq_flags info \<noteq> flags \<or> mq_curmsgs info \<noteq> curmsgs
           then Err_quit ''attributes'' else Done t))"

text \<open>
  \<open>mymq_open\<close> and \<open>mymq_unlink\<close> on the file, with the descriptor that the program then has; after an error it has none
  that can be used.
\<close>

definition test_open ::
  "nat \<Rightarrow> handed \<Rightarrow> string \<Rightarrow> uint \<Rightarrow> mymq_attr option \<Rightarrow> mq_test \<Rightarrow> (mq_handle result \<times> mq_test) option" where
  "test_open hsz k path oflag attr t =
    (case disk_open hsz k path oflag FILE_MODE attr (tq_file t) of
      None \<Rightarrow> None
    | Some (r, file') \<Rightarrow>
        Some (r, t\<lparr>tq_file := file', tq_mqd := (case r of Inr h \<Rightarrow> mq_opened (h_flags h) | Inl e \<Rightarrow> \<lparr>mqi_magic = 0, mqi_flags = 0\<rparr>)\<rparr>))"

definition test_unlink :: "string \<Rightarrow> mq_test \<Rightarrow> (unit result \<times> mq_test) option" where
  "test_unlink path t =
    (case disk_unlink path (tq_file t) of None \<Rightarrow> None | Some (r, file') \<Rightarrow> Some (r, t\<lparr>tq_file := file'\<rparr>))"

text \<open>A call that has to succeed, through its wrapper, and one that has to fail.\<close>

definition must_pass :: "string \<Rightarrow> ('a result \<times> mq_test) option \<Rightarrow> mq_test called option" where
  "must_pass msg res = (case res of None \<Rightarrow> None | Some (Inl e, t) \<Rightarrow> Some (Err_sys msg e) | Some (Inr _, t) \<Rightarrow> Some (Done t))"

definition must_fail :: "errno \<Rightarrow> ('a result \<times> mq_test) option \<Rightarrow> mq_test called option" where
  "must_fail e res = (case res of None \<Rightarrow> None | Some (r, t) \<Rightarrow> expect_error e r t)"

text \<open>
  One call with its checks; \<open>pid\<close> is the parent, which is alive, and the child shares the queue and has a copy of the
  descriptor. \<open>None\<close>: the call does not return. A child that is parked returns only after it has been woken.
\<close>

fun mq_call_on :: "nat \<Rightarrow> int \<Rightarrow> mq_call \<Rightarrow> mapped \<Rightarrow> mq_test \<Rightarrow> mq_test called option" where
  "mq_call_on hsz pid Close m t =
    (case mymq_close hsz 0 pid (\<lambda>_. Inr ()) (\<lambda>_. Inr ()) (tq_mqd t) m of
      (m', mqd, Inl e) \<Rightarrow> Some (Err_sys ''mymq_close error'' e)
    | (m', mqd, Inr _) \<Rightarrow> Some (Done ((put_map m' [] t)\<lparr>tq_mqd := mqd\<rparr>)))"
| "mq_call_on hsz pid (Getattr maxmsg msgsize flags curmsgs) m t =
    (case mymq_getattr 0 (tq_mqd t) m of
      Returns m' evs (Inr a) \<Rightarrow> check_attr maxmsg msgsize flags curmsgs (t\<lparr>tq_info := a\<rparr>)
    | Returns m' evs (Inl e) \<Rightarrow> Some (Err_sys ''mymq_getattr error'' e)
    | _ \<Rightarrow> None)"
| "mq_call_on hsz pid (Setattr newflags maxmsg msgsize flags curmsgs) m t =
    (case mymq_setattr 0 (tq_mqd t) \<lparr>mq_flags = newflags, mq_maxmsg = 4, mq_msgsize = 7, mq_curmsgs = 0\<rparr> m of
      (mqd, Inl e) \<Rightarrow> Some (Err_sys ''mymq_setattr error'' e)
    | (mqd, Inr a) \<Rightarrow> check_attr maxmsg msgsize flags curmsgs (t\<lparr>tq_mqd := mqd, tq_info := a\<rparr>))"
| "mq_call_on hsz pid (Send ptr prio) m t =
    (case mymq_send 0 (tq_mqd t) ptr prio m of
      Returns m' evs (Inr _) \<Rightarrow> Some (Done ((put_map m' evs t)\<lparr>tq_sigusr1 := tq_sigusr1 t + usr1_events pid evs\<rparr>))
    | Returns m' evs (Inl e) \<Rightarrow> Some (Err_sys ''mymq_send error'' e)
    | _ \<Rightarrow> None)"
| "mq_call_on hsz pid (Send_fails ptr prio e) m t =
    (case mymq_send 0 (tq_mqd t) ptr prio m of
      Returns m' evs r \<Rightarrow> expect_error e r (put_map m' evs t) | _ \<Rightarrow> None)"
| "mq_call_on hsz pid (Receive b rc prio) m t =
    (case mymq_receive 0 (tq_mqd t) (tq_len b t) m of
      Returns m' evs r \<Rightarrow> check_received rc prio r (put_map m' evs t) | _ \<Rightarrow> None)"
| "mq_call_on hsz pid (Receive_fails b e) m t =
    (case mymq_receive 0 (tq_mqd t) (tq_len b t) m of
      Returns m' evs r \<Rightarrow> expect_error e r (put_map m' evs t) | _ \<Rightarrow> None)"
| "mq_call_on hsz pid Notify m t =
    (case mymq_notify 0 pid (\<lambda>_. Inr ()) (tq_mqd t) (Some test_sigev) m of
      Returns m' evs (Inr _) \<Rightarrow> Some (Done (put_map m' evs t))
    | Returns m' evs (Inl e) \<Rightarrow> Some (Err_sys ''mymq_notify error'' e)
    | _ \<Rightarrow> None)"
| "mq_call_on hsz pid Notify_off m t =
    (case mymq_notify 0 pid (\<lambda>_. Inr ()) (tq_mqd t) None m of
      Returns m' evs (Inr _) \<Rightarrow> Some (Done (put_map m' evs t))
    | Returns m' evs (Inl e) \<Rightarrow> Some (Err_sys ''mymq_notify error'' e)
    | _ \<Rightarrow> None)"
| "mq_call_on hsz pid (Notify_fails caller e) m t =
    (case mymq_notify 0 (pid + caller) (\<lambda>_. Inr ()) (tq_mqd t) (Some test_sigev) m of
      Returns m' evs r \<Rightarrow> expect_error e r (put_map m' evs t) | _ \<Rightarrow> None)"
| "mq_call_on hsz pid (Child_waits b) m t =
    (if tq_child t \<noteq> No_child then None
     else case mymq_receive 0 (tq_mqd t) (tq_len b t) m of
       Waits m' \<Rightarrow> Some (Done ((put_map m' [] t)\<lparr>tq_child := Child_parked\<rparr>)) | _ \<Rightarrow> None)"
| "mq_call_on hsz pid (Child_gets rc prio) m t =
    (if tq_child t \<noteq> Child_woken then None
     else case mymq_receive_wakeup m of
       Returns m' evs r \<Rightarrow> check_received rc prio r ((put_map m' evs t)\<lparr>tq_child := No_child\<rparr>) | _ \<Rightarrow> None)"
| "mq_call_on hsz pid _ m t = None"

text \<open>The calls that do not need the file, and the others.\<close>

fun mq_call_step :: "nat \<Rightarrow> handed \<Rightarrow> string \<Rightarrow> int \<Rightarrow> mq_call \<Rightarrow> mq_test \<Rightarrow> mq_test called option" where
  "mq_call_step hsz k path pid Try_unlink t = map_option (\<lambda>(r, t'). Done t') (test_unlink path t)"
| "mq_call_step hsz k path pid Unlink t = must_pass ''mymq_unlink error'' (test_unlink path t)"
| "mq_call_step hsz k path pid (Unlink_fails e) t = must_fail e (test_unlink path t)"
| "mq_call_step hsz k path pid (Open_new attr) t =
    must_pass ''mymq_open error'' (test_open hsz k path (O_CREAT OR O_EXCL OR O_RDWR) attr t)"
| "mq_call_step hsz k path pid (Open_new_fails e) t =
    must_fail e (test_open hsz k path (O_CREAT OR O_EXCL OR O_RDWR) None t)"
| "mq_call_step hsz k path pid (Open_old nonblock) t =
    must_pass ''mymq_open error'' (test_open hsz k path (O_RDWR OR nonblock) None t)"
| "mq_call_step hsz k path pid Clear_signals t = Some (Done (t\<lparr>tq_sigusr1 := 0\<rparr>))"
| "mq_call_step hsz k path pid (Signals n) t = Some (if tq_sigusr1 t \<noteq> n then Err_quit ''sigusr1'' else Done t)"
| "mq_call_step hsz k path pid call t =
    (case tq_file t of None \<Rightarrow> None | Some f \<Rightarrow> mq_call_on hsz pid call (f_map f) t)"

fun mq_calls :: "nat \<Rightarrow> handed \<Rightarrow> string \<Rightarrow> int \<Rightarrow> mq_call list \<Rightarrow> mq_test \<Rightarrow> mq_test called option" where
  "mq_calls hsz k path pid [] t = Some (Done t)"
| "mq_calls hsz k path pid (c # cs) t =
    (case mq_call_step hsz k path pid c t of Some (Done t') \<Rightarrow> mq_calls hsz k path pid cs t' | stop \<Rightarrow> stop)"

section \<open>The program\<close>

text \<open>\<open>msg0\<close> to \<open>msg8\<close>: \<open>k\<close> times the digit \<open>k\<close>. A message sent with length \<open>k\<close> is without the null byte.\<close>

definition msg_text :: "nat \<Rightarrow> byte list" where
  "msg_text k = replicate k (word_of_nat (48 + k))"

abbreviation (input) sends :: "nat \<Rightarrow> mq_call" where "sends k \<equiv> Send (msg_text k) (word_of_nat k)"
abbreviation (input) gets :: "nat \<Rightarrow> mq_call" where "gets k \<equiv> Receive (Len BUFFLEN) k (word_of_nat k)"
abbreviation (input) gets_info :: "nat \<Rightarrow> mq_call" where "gets_info k \<equiv> Receive Info_msgsize k (word_of_nat k)"

definition test_attr :: mymq_attr where
  "test_attr = \<lparr>mq_flags = 0, mq_maxmsg = 4, mq_msgsize = 7, mq_curmsgs = 0\<rparr>"

definition testmq_create :: "mq_call list" where
  "testmq_create =
    [Try_unlink, Unlink_fails ENOENT,
     Open_new None, Getattr 128 1024 0 0, Close,
     Open_new_fails EEXIST, Unlink,
     Open_new (Some test_attr), Getattr 4 7 0 0]"

text \<open>Messages received in the reverse order and in the order in which they were sent.\<close>

definition testmq_order :: "mq_call list" where
  "testmq_order =
    [sends 1, gets 1, sends 0, gets 0,
     sends 1, sends 2, gets 2, gets 1,
     sends 1, sends 2, sends 3, gets 3, gets 2, gets 1,
     sends 1, sends 2, sends 3, sends 4, gets 4, gets 3, gets 2, gets 1,
     sends 4, gets 4,
     sends 4, sends 3, gets 4, gets 3,
     sends 4, sends 3, sends 2, gets 4, gets 3, gets 2]"

text \<open>The eight bytes at \<open>msg4\<close> are its text, a null byte, and what follows.\<close>

definition testmq_limits :: "byte list \<Rightarrow> mq_call list" where
  "testmq_limits rest =
    [Send_fails (msg_text 4 @ 0 # take 3 (rest @ [0, 0, 0])) 4 EMSGSIZE,
     sends 4, sends 3, sends 2, sends 1, gets 4, gets 3, gets 2, Receive_fails (Len 6) EMSGSIZE, gets 1,
     sends 1, sends 2, sends 4, sends 3, Close,
     Open_old O_NONBLOCK, Getattr 4 7 O_NONBLOCK 4, gets_info 4, gets_info 3, gets_info 2, gets_info 1,
     Receive_fails Info_msgsize EAGAIN,
     sends 1, sends 4, sends 2, sends 3, Send_fails (msg_text 5) 5 EAGAIN, Close]"

definition testmq_setattr :: "mq_call list" where
  "testmq_setattr =
    [Open_old 0, gets_info 4, Setattr O_NONBLOCK 4 7 0 3, Getattr 4 7 O_NONBLOCK 3,
     gets_info 3, gets_info 2, gets_info 1, Receive_fails Info_msgsize EAGAIN,
     Setattr 0 4 7 O_NONBLOCK 0, Getattr 4 7 0 0]"

text \<open>\<open>Notify_fails 0\<close> is the parent, \<open>Notify_fails 1\<close> the child that it forks.\<close>

definition testmq_notify :: "mq_call list" where
  "testmq_notify =
    [Notify, Notify_fails 0 EBUSY, Notify_off, Notify, Notify_fails 0 EBUSY, Notify_fails 1 EBUSY,
     Clear_signals, sends 5, Signals 1, gets_info 5,
     sends 2, Signals 1, gets_info 2,
     Notify, Child_waits Info_msgsize, sends 6, Child_gets 6 6, Signals 1]"

definition testmq_children :: "mq_call list" where
  "testmq_children =
    [sends 1, sends 3, gets_info 3, gets_info 1, Getattr 4 7 0 0,
     sends 3, sends 5, sends 1, gets_info 5, gets_info 3, gets_info 1, Getattr 4 7 0 0]"

definition testmq :: "byte list \<Rightarrow> mq_call list" where
  "testmq rest = testmq_create @ testmq_order @ testmq_limits rest @ testmq_setattr @ testmq_notify @ testmq_children"

section \<open>The abstract queue\<close>

text \<open>What the calls show of the mapped file: the messages in order, the limits, the waiting receivers and the registration.\<close>

record mq_view =
  qv_msgs :: "(uint \<times> byte list) list"
  qv_max :: int
  qv_size :: int
  qv_nwait :: int
  qv_pid :: int
  qv_event :: sigevent

definition view_of :: "mapped \<Rightarrow> mq_view" where
  "view_of m = \<lparr>qv_msgs = mq_abs m, qv_max = mq_maxmsg (attr_of m), qv_size = mq_msgsize (attr_of m),
    qv_nwait = mqh_nwait (mq_hdr m), qv_pid = mqh_pid (mq_hdr m), qv_event = mqh_event (mq_hdr m)\<rparr>"

lemma view_simps [simp]:
  "qv_msgs (view_of m) = mq_abs m" "qv_max (view_of m) = mq_maxmsg (attr_of m)" "qv_size (view_of m) = mq_msgsize (attr_of m)"
  "qv_nwait (view_of m) = mqh_nwait (mq_hdr m)" "qv_pid (view_of m) = mqh_pid (mq_hdr m)" "qv_event (view_of m) = mqh_event (mq_hdr m)"
  by (simp_all add: view_of_def)

text \<open>
  The results of the calls on a view: a send that has room, with the number of signals for \<open>pid\<close>, a receive that finds a
  message, and the errors.
\<close>

definition view_send :: "int \<Rightarrow> byte list \<Rightarrow> uint \<Rightarrow> mq_view \<Rightarrow> mq_view \<times> nat" where
  "view_send pid ptr prio q =
    (let tell = qv_msgs q = [] \<and> qv_pid q \<noteq> 0 \<and> qv_nwait q = 0;
         ev = qv_event q in
     (q\<lparr>qv_msgs := mq_insert prio ptr (qv_msgs q), qv_pid := (if tell then 0 else qv_pid q)\<rparr>,
      if tell \<and> sigev_notify ev = SIGEV_SIGNAL \<and> qv_pid q = pid \<and> sigev_signo ev = SIGUSR1 then 1 else 0))"

definition view_room :: "mq_view \<Rightarrow> bool" where
  "view_room q \<longleftrightarrow> int (length (qv_msgs q)) < qv_max q"

lemma view_send_ok:
  assumes wf: "mq_wf hsz m" and op: "is_open mqinfo" and len: "length ptr \<le> msgsize_of m" and room: "view_room (view_of m)"
  shows "\<exists>m' evs. mymq_send 0 mqinfo ptr prio m = Returns m' evs (Inr ()) \<and> mq_wf hsz m' \<and>
    view_send pid ptr prio (view_of m) = (view_of m', usr1_events pid evs) \<and> (Cond_signal \<in> set evs \<longleftrightarrow> mq_abs m = [])"
proof -
  have count: "mq_curmsgs (attr_of m) = int (length (mq_abs m))" by (rule mq_wf_count [OF wf])
  show ?thesis
  proof (cases "mq_abs m = []")
    case True
    let ?m = "fst (send_notify m)"
    have wf': "mq_wf hsz ?m" "mq_curmsgs (attr_of ?m) < mq_maxmsg (attr_of ?m)" "length ptr \<le> msgsize_of ?m"
      using wf room len count by (auto simp: send_notify_frame view_room_def)
    from send_put_correct [OF this, of prio "snd (send_notify m)"] obtain m' where
      put: "send_put ptr prio ?m (snd (send_notify m)) = Returns m' (snd (send_notify m) @ [Cond_signal]) (Inr ())"
      "mq_wf hsz m'" "mq_abs m' = mq_insert prio ptr (mq_abs m)" "same_setup ?m m'"
      using True count by (auto simp: send_notify_frame)
    moreover have "mymq_send 0 mqinfo ptr prio m = send_put ptr prio ?m (snd (send_notify m))"
      using wf op len True count by (simp add: mymq_send_def case_prod_beta)
    moreover have "view_send pid ptr prio (view_of m) = (view_of m', usr1_events pid (snd (send_notify m) @ [Cond_signal]))"
      using put(3,4) True
      by (auto simp: view_send_def view_of_def same_setup_def send_notify_def usr1_events_def Let_def)
    ultimately show ?thesis using True by auto
  next
    case False
    have "mymq_send 0 mqinfo ptr prio m = send_put ptr prio m []"
      using wf op len room False count by (simp add: mymq_send_def view_room_def)
    moreover obtain m' where "send_put ptr prio m [] = Returns m' [] (Inr ())"
      "mq_wf hsz m'" "mq_abs m' = mq_insert prio ptr (mq_abs m)" "same_setup m m'"
      using send_put_correct [OF wf _ len, of prio "[]"] room False count by (auto simp: view_room_def)
    ultimately show ?thesis using False
      by (auto simp: view_send_def view_of_def same_setup_def usr1_events_def Let_def)
  qed
qed

lemma receive_get_signals:
  "receive_get m = Returns m' evs r \<Longrightarrow> Cond_signal \<in> set evs \<longleftrightarrow> mq_curmsgs (attr_of m) = mq_maxmsg (attr_of m)"
  by (auto simp: receive_get_def Let_def set_msg_next_def split: if_splits)

lemma view_receive_ok:
  assumes "mq_wf hsz m" and "is_open mqinfo" and "msgsize_of m \<le> maxlen" and "mq_abs m = (prio, data) # q"
  shows "\<exists>m' evs. mymq_receive 0 mqinfo maxlen m = Returns m' evs (Inr (data, prio)) \<and> mq_wf hsz m' \<and>
    view_of m' = (view_of m)\<lparr>qv_msgs := q\<rparr> \<and> (Cond_signal \<in> set evs \<longleftrightarrow> \<not> view_room (view_of m))"
proof -
  obtain m' evs where recv: "mymq_receive 0 mqinfo maxlen m = Returns m' evs (Inr (data, prio))" "mq_wf hsz m'"
    "view_of m' = (view_of m)\<lparr>qv_msgs := q\<rparr>"
    using mymq_receive_ok [OF assms(1-3)] assms(4) by (fastforce simp: view_of_def same_setup_def)
  have count: "mq_curmsgs (attr_of m) = int (length (mq_abs m))" by (rule mq_wf_count [OF assms(1)])
  have "mymq_receive 0 mqinfo maxlen m = receive_get m"
    using assms mq_wf_attr(1) [OF assms(1)] count by (simp add: mymq_receive_def)
  with recv(1) have "Cond_signal \<in> set evs \<longleftrightarrow> mq_curmsgs (attr_of m) = mq_maxmsg (attr_of m)"
    by (simp add: receive_get_signals)
  moreover have "mq_curmsgs (attr_of m) \<le> mq_maxmsg (attr_of m)"
    using assms(1) mq_wf_lengths [OF assms(1)] by (auto simp: mq_wf_def attr_ok_def)
  ultimately show ?thesis using recv count by (auto simp: view_room_def)
qed

lemma view_wakeup_ok:
  assumes "mq_wf hsz m" and "mq_abs m = (prio, data) # q"
  shows "\<exists>m' evs. mymq_receive_wakeup m = Returns m' evs (Inr (data, prio)) \<and> mq_wf hsz m' \<and>
    view_of m' = (view_of m)\<lparr>qv_msgs := q, qv_nwait := mqh_nwait (mq_hdr m) - 1\<rparr>"
proof -
  let ?m = "set_nwait (mqh_nwait (mq_hdr m) - 1) m"
  have c: "mq_curmsgs (attr_of ?m) \<noteq> 0" using assms by (simp add: set_nwait_frame mq_wf_count)
  have "mq_wf hsz ?m" using assms(1) by (simp add: set_nwait_frame)
  from receive_get_correct [OF this c] obtain m' evs d p where
    get: "receive_get ?m = Returns m' evs (Inr (d, p))" "mq_wf hsz m'" "mq_abs ?m = (p, d) # mq_abs m'" "same_setup ?m m'" by auto
  have "mymq_receive_wakeup m = receive_get ?m" using c by (simp add: mymq_receive_wakeup_def set_nwait_frame)
  moreover have "view_of m' = (view_of m)\<lparr>qv_msgs := q, qv_nwait := mqh_nwait (mq_hdr m) - 1\<rparr>"
    using get(3,4) assms(2) unfolding set_nwait_frame by (simp add: view_of_def same_setup_def set_nwait_def)
  ultimately show ?thesis using get assms(2) by (simp add: set_nwait_frame)
qed

section \<open>The test on the abstract queue\<close>

record mq_atest =
  at_file :: "mq_view option"
  at_mqd :: mymq_info
  at_info :: mymq_attr
  at_sigusr1 :: nat
  at_child :: child

definition atest_of :: "mq_test \<Rightarrow> mq_atest" where
  "atest_of t = \<lparr>at_file = map_option (\<lambda>f. view_of (f_map f)) (tq_file t), at_mqd = tq_mqd t, at_info = tq_info t,
    at_sigusr1 = tq_sigusr1 t, at_child = tq_child t\<rparr>"

definition woken_if :: "bool \<Rightarrow> child \<Rightarrow> child" where
  "woken_if b c = (if b \<and> c = Child_parked then Child_woken else c)"

definition at_len :: "buf_len \<Rightarrow> mq_atest \<Rightarrow> nat" where
  "at_len b v = (case b of Len n \<Rightarrow> n | Info_msgsize \<Rightarrow> ulong_of (mq_msgsize (at_info v)))"

definition attr_view :: "mymq_info \<Rightarrow> mq_view \<Rightarrow> mymq_attr" where
  "attr_view mqd q = \<lparr>mq_flags = mqi_flags mqd, mq_maxmsg = qv_max q, mq_msgsize = qv_size q, mq_curmsgs = int (length (qv_msgs q))\<rparr>"

text \<open>The call passes its checks and leaves this state.\<close>

fun acall_on :: "int \<Rightarrow> mq_call \<Rightarrow> mq_view \<Rightarrow> mq_atest \<Rightarrow> mq_atest option" where
  "acall_on pid Close q v =
    Some (v\<lparr>at_file := Some (q\<lparr>qv_pid := (if qv_pid q = pid then 0 else qv_pid q)\<rparr>), at_mqd := (at_mqd v)\<lparr>mqi_magic := 0\<rparr>\<rparr>)"
| "acall_on pid (Getattr maxmsg msgsize flags curmsgs) q v =
    (let a = attr_view (at_mqd v) q in
     if a = \<lparr>mq_flags = flags, mq_maxmsg = maxmsg, mq_msgsize = msgsize, mq_curmsgs = curmsgs\<rparr>
     then Some (v\<lparr>at_info := a\<rparr>) else None)"
| "acall_on pid (Setattr newflags maxmsg msgsize flags curmsgs) q v =
    (let a = attr_view (at_mqd v) q; f = mqi_flags (at_mqd v) in
     if a = \<lparr>mq_flags = flags, mq_maxmsg = maxmsg, mq_msgsize = msgsize, mq_curmsgs = curmsgs\<rparr>
     then Some (v\<lparr>at_info := a, at_mqd := (at_mqd v)\<lparr>mqi_flags :=
       (if newflags AND O_NONBLOCK \<noteq> 0 then f OR O_NONBLOCK else f AND NOT O_NONBLOCK)\<rparr>\<rparr>) else None)"
| "acall_on pid (Send ptr prio) q v =
    (if length ptr \<le> nat (qv_size q) \<and> view_room q
     then (case view_send pid ptr prio q of (q', n) \<Rightarrow> Some (v\<lparr>at_file := Some q', at_sigusr1 := at_sigusr1 v + n,
       at_child := woken_if (qv_msgs q = []) (at_child v)\<rparr>)) else None)"
| "acall_on pid (Send_fails ptr prio e) q v =
    (if e = EMSGSIZE \<and> nat (qv_size q) < length ptr \<or>
        e = EAGAIN \<and> length ptr \<le> nat (qv_size q) \<and> qv_msgs q \<noteq> [] \<and> \<not> view_room q \<and> mqi_flags (at_mqd v) AND O_NONBLOCK \<noteq> 0
     then Some v else None)"
| "acall_on pid (Receive b rc prio) q v =
    (case qv_msgs q of
      (p, data) # rest \<Rightarrow>
        if nat (qv_size q) \<le> at_len b v \<and> length data = rc \<and> p = prio
        then Some (v\<lparr>at_file := Some (q\<lparr>qv_msgs := rest\<rparr>), at_child := woken_if (\<not> view_room q) (at_child v)\<rparr>) else None
    | [] \<Rightarrow> None)"
| "acall_on pid (Receive_fails b e) q v =
    (if e = EMSGSIZE \<and> at_len b v < nat (qv_size q) \<or>
        e = EAGAIN \<and> nat (qv_size q) \<le> at_len b v \<and> qv_msgs q = [] \<and> mqi_flags (at_mqd v) AND O_NONBLOCK \<noteq> 0
     then Some v else None)"
| "acall_on pid Notify q v =
    (if qv_pid q = 0 then Some (v\<lparr>at_file := Some (q\<lparr>qv_pid := pid, qv_event := test_sigev\<rparr>)\<rparr>) else None)"
| "acall_on pid Notify_off q v =
    Some (v\<lparr>at_file := Some (q\<lparr>qv_pid := (if qv_pid q = pid then 0 else qv_pid q)\<rparr>)\<rparr>)"
| "acall_on pid (Notify_fails caller e) q v = (if e = EBUSY \<and> qv_pid q \<noteq> 0 then Some v else None)"
| "acall_on pid (Child_waits b) q v =
    (if at_child v = No_child \<and> nat (qv_size q) \<le> at_len b v \<and> qv_msgs q = [] \<and> mqi_flags (at_mqd v) AND O_NONBLOCK = 0
     then Some (v\<lparr>at_file := Some (q\<lparr>qv_nwait := qv_nwait q + 1\<rparr>), at_child := Child_parked\<rparr>) else None)"
| "acall_on pid (Child_gets rc prio) q v =
    (case qv_msgs q of
      (p, data) # rest \<Rightarrow>
        if at_child v = Child_woken \<and> length data = rc \<and> p = prio
        then Some (v\<lparr>at_file := Some (q\<lparr>qv_msgs := rest, qv_nwait := qv_nwait q - 1\<rparr>), at_child := No_child\<rparr>) else None
    | [] \<Rightarrow> None)"
| "acall_on pid _ q v = None"

definition new_view :: "mymq_attr option \<Rightarrow> mq_view" where
  "new_view attr = (let a = (case attr of None \<Rightarrow> defattr | Some a \<Rightarrow> a) in
    \<lparr>qv_msgs = [], qv_max = mq_maxmsg a, qv_size = mq_msgsize a, qv_nwait = 0, qv_pid = 0,
     qv_event = \<lparr>sigev_notify = SIGEV_NONE, sigev_signo = 0, sigev_value = 0\<rparr>\<rparr>)"

fun acall_step :: "int \<Rightarrow> mq_call \<Rightarrow> mq_atest \<Rightarrow> mq_atest option" where
  "acall_step pid Try_unlink v = Some (v\<lparr>at_file := None\<rparr>)"
| "acall_step pid Unlink v = (if at_file v = None then None else Some (v\<lparr>at_file := None\<rparr>))"
| "acall_step pid (Unlink_fails e) v = (if at_file v = None \<and> e = ENOENT then Some v else None)"
| "acall_step pid (Open_new attr) v =
    (if at_file v = None then Some (v\<lparr>at_file := Some (new_view attr), at_mqd := mq_opened 0\<rparr>) else None)"
| "acall_step pid (Open_new_fails e) v =
    (if at_file v \<noteq> None \<and> e = EEXIST then Some (v\<lparr>at_mqd := \<lparr>mqi_magic = 0, mqi_flags = 0\<rparr>\<rparr>) else None)"
| "acall_step pid (Open_old nonblock) v =
    (if at_file v \<noteq> None \<and> (O_RDWR OR nonblock) AND O_CREAT = 0
     then Some (v\<lparr>at_mqd := mq_opened ((O_RDWR OR nonblock) AND O_NONBLOCK)\<rparr>) else None)"
| "acall_step pid Clear_signals v = Some (v\<lparr>at_sigusr1 := 0\<rparr>)"
| "acall_step pid (Signals n) v = (if at_sigusr1 v = n then Some v else None)"
| "acall_step pid call v =
    (case at_file v of None \<Rightarrow> None
     | Some q \<Rightarrow> if mqi_magic (at_mqd v) = MQI_MAGIC then acall_on pid call q v else None)"

fun acalls :: "int \<Rightarrow> mq_call list \<Rightarrow> mq_atest \<Rightarrow> mq_atest option" where
  "acalls pid [] v = Some v"
| "acalls pid (c # cs) v = (case acall_step pid c v of None \<Rightarrow> None | Some v' \<Rightarrow> acalls pid cs v')"

text \<open>The files that occur are well-formed and their initialisation is complete, and the new ones have usable attributes.\<close>

definition test_ok :: "nat \<Rightarrow> mq_test \<Rightarrow> bool" where
  "test_ok hsz t \<longleftrightarrow>
    (\<forall>f. tq_file t = Some f \<longrightarrow> mq_wf hsz (f_map f) \<and> f_mode f AND S_IXUSR = 0 \<and> 0 \<le> f_size f)"

fun attrs_ok :: "nat \<Rightarrow> mq_call \<Rightarrow> bool" where
  "attrs_ok hsz (Open_new attr) = (let a = (case attr of None \<Rightarrow> defattr | Some a \<Rightarrow> a) in attr_ok hsz (mq_maxmsg a) (mq_msgsize a))"
| "attrs_ok hsz _ = True"

text \<open>The parts of \<open>view_of\<close> that the other calls change.\<close>

lemma view_frame:
  assumes "mq_wf hsz m"
  shows "mq_wf hsz (m\<lparr>mq_hdr := (mq_hdr m)\<lparr>mqh_pid := p\<rparr>\<rparr>)"
    and "view_of (m\<lparr>mq_hdr := (mq_hdr m)\<lparr>mqh_pid := p\<rparr>\<rparr>) = (view_of m)\<lparr>qv_pid := p\<rparr>"
    and "mq_wf hsz (m\<lparr>mq_hdr := (mq_hdr m)\<lparr>mqh_pid := p, mqh_event := ev\<rparr>\<rparr>)"
    and "view_of (m\<lparr>mq_hdr := (mq_hdr m)\<lparr>mqh_pid := p, mqh_event := ev\<rparr>\<rparr>) = (view_of m)\<lparr>qv_pid := p, qv_event := ev\<rparr>"
    and "view_of (set_nwait k m) = (view_of m)\<lparr>qv_nwait := k\<rparr>"
proof -
  have "mq_abs (m\<lparr>mq_hdr := (mq_hdr m)\<lparr>mqh_pid := p\<rparr>\<rparr>) = mq_abs m" by (rule mq_frame_hdr(2)) simp_all
  then show "view_of (m\<lparr>mq_hdr := (mq_hdr m)\<lparr>mqh_pid := p\<rparr>\<rparr>) = (view_of m)\<lparr>qv_pid := p\<rparr>" by (simp add: view_of_def)
  have "mq_abs (m\<lparr>mq_hdr := (mq_hdr m)\<lparr>mqh_pid := p, mqh_event := ev\<rparr>\<rparr>) = mq_abs m" by (rule mq_frame_hdr(2)) simp_all
  then show "view_of (m\<lparr>mq_hdr := (mq_hdr m)\<lparr>mqh_pid := p, mqh_event := ev\<rparr>\<rparr>) = (view_of m)\<lparr>qv_pid := p, qv_event := ev\<rparr>"
    by (simp add: view_of_def)
  show "view_of (set_nwait k m) = (view_of m)\<lparr>qv_nwait := k\<rparr>"
    using set_nwait_frame(2) [of k m] by (simp add: view_of_def set_nwait_def)
  show "mq_wf hsz (m\<lparr>mq_hdr := (mq_hdr m)\<lparr>mqh_pid := p\<rparr>\<rparr>)"
    "mq_wf hsz (m\<lparr>mq_hdr := (mq_hdr m)\<lparr>mqh_pid := p, mqh_event := ev\<rparr>\<rparr>)"
    using assms by (subst mq_frame_hdr(1) [of _ m]; simp)+
qed

text \<open>A call that passes on the abstract queue passes on the mapped file.\<close>

definition passes :: "nat \<Rightarrow> mq_test called option \<Rightarrow> mq_atest \<Rightarrow> bool" where
  "passes hsz r v \<longleftrightarrow> (\<exists>t. r = Some (Done t) \<and> test_ok hsz t \<and> atest_of t = v)"

lemma passesI: "test_ok hsz t \<Longrightarrow> atest_of t = v \<Longrightarrow> passes hsz (Some (Done t)) v"
  by (auto simp: passes_def)

lemma atest_simps [simp]:
  "at_file (atest_of t) = map_option (\<lambda>f. view_of (f_map f)) (tq_file t)" "at_mqd (atest_of t) = tq_mqd t"
  "at_info (atest_of t) = tq_info t" "at_sigusr1 (atest_of t) = tq_sigusr1 t" "at_child (atest_of t) = tq_child t"
  "at_len b (atest_of t) = tq_len b t"
  by (simp_all add: atest_of_def at_len_def tq_len_def split: buf_len.split)

lemma wake_child_woken: "wake_child evs c = woken_if (Cond_signal \<in> set evs) c"
  by (simp add: wake_child_def woken_if_def)

lemma woken_if_simps [simp]: "woken_if False c = c" "woken_if b No_child = No_child" "woken_if True Child_parked = Child_woken"
  by (simp_all add: woken_if_def)

lemma test_updates:
  "test_ok hsz (t\<lparr>tq_mqd := d\<rparr>) = test_ok hsz t" "test_ok hsz (t\<lparr>tq_info := a\<rparr>) = test_ok hsz t"
  "test_ok hsz (t\<lparr>tq_sigusr1 := n\<rparr>) = test_ok hsz t" "test_ok hsz (t\<lparr>tq_child := c\<rparr>) = test_ok hsz t"
  "test_ok hsz (t\<lparr>tq_file := None\<rparr>)"
  "atest_of (t\<lparr>tq_mqd := d\<rparr>) = (atest_of t)\<lparr>at_mqd := d\<rparr>"
  "atest_of (t\<lparr>tq_info := a\<rparr>) = (atest_of t)\<lparr>at_info := a\<rparr>"
  "atest_of (t\<lparr>tq_sigusr1 := n\<rparr>) = (atest_of t)\<lparr>at_sigusr1 := n\<rparr>"
  "atest_of (t\<lparr>tq_child := c\<rparr>) = (atest_of t)\<lparr>at_child := c\<rparr>"
  "atest_of (t\<lparr>tq_file := f\<rparr>) = (atest_of t)\<lparr>at_file := map_option (\<lambda>f. view_of (f_map f)) f\<rparr>"
  by (simp_all add: test_ok_def atest_of_def)

text \<open>The state after a call on the file \<open>f\<close>.\<close>

lemma put_map_ok:
  assumes "test_ok hsz t" and "tq_file t = Some f" and "mq_wf hsz m"
  shows "test_ok hsz (put_map m evs t)"
  using assms by (auto simp: test_ok_def put_map_def)

lemma put_map_view:
  assumes "tq_file t = Some f"
  shows "atest_of (put_map m evs t) =
    (atest_of t)\<lparr>at_file := Some (view_of m), at_child := woken_if (Cond_signal \<in> set evs) (tq_child t)\<rparr>"
  using assms by (simp add: atest_of_def put_map_def wake_child_woken)

lemma put_map_quiet: "tq_file t = Some f \<Longrightarrow> atest_of (put_map m [] t) = (atest_of t)\<lparr>at_file := Some (view_of m)\<rparr>"
  by (simp add: atest_of_def put_map_def wake_child_def)

lemma atest_same_file: "tq_file t = Some f \<Longrightarrow> (atest_of t)\<lparr>at_file := Some (view_of (f_map f))\<rparr> = atest_of t"
  by (simp add: atest_of_def)

lemma view_same_pid: "(view_of m)\<lparr>qv_pid := mqh_pid (mq_hdr m)\<rparr> = view_of m"
  by (simp add: view_of_def)

lemma acall_messages:
  assumes t: "tq_file t = Some f" "f_map f = m" "test_ok hsz t" and op: "is_open (tq_mqd t)"
    and a: "acall_on pid call (view_of m) (atest_of t) = Some v"
    and call: "(\<exists>ptr prio. call = Send ptr prio) \<or> (\<exists>b rc prio. call = Receive b rc prio) \<or> (\<exists>rc prio. call = Child_gets rc prio)"
  shows "passes hsz (mq_call_on hsz pid call m t) v"
proof -
  have wf: "mq_wf hsz m" using t by (auto simp: test_ok_def)
  note put = put_map_ok [OF t(3,1)] put_map_view [OF t(1)] test_updates
  from call show ?thesis
  proof (elim disjE exE)
    fix ptr prio
    assume call: "call = Send ptr prio"
    with a have "length ptr \<le> msgsize_of m" "view_room (view_of m)" by (auto split: if_splits)
    moreover from view_send_ok [OF wf op this, of prio pid] obtain m' evs where
      "mymq_send 0 (tq_mqd t) ptr prio m = Returns m' evs (Inr ())" "mq_wf hsz m'"
      "view_send pid ptr prio (view_of m) = (view_of m', usr1_events pid evs)" "Cond_signal \<in> set evs \<longleftrightarrow> mq_abs m = []" by blast
    ultimately show ?thesis using call a by (auto simp: put intro!: passesI)
  next
    fix b rc prio
    assume call: "call = Receive b rc prio"
    with a obtain data rest where "mq_abs m = (prio, data) # rest" "msgsize_of m \<le> tq_len b t" "length data = rc"
      "v = (atest_of t)\<lparr>at_file := Some ((view_of m)\<lparr>qv_msgs := rest\<rparr>), at_child := woken_if (\<not> view_room (view_of m)) (tq_child t)\<rparr>"
      by (auto split: list.splits if_splits)
    with view_receive_ok [OF wf op, of "tq_len b t" prio data rest] call t show ?thesis
      by (auto simp: check_received_def put intro!: passesI)
  next
    fix rc prio
    assume call: "call = Child_gets rc prio"
    with a obtain data rest where "mq_abs m = (prio, data) # rest" "length data = rc" "tq_child t = Child_woken"
      "v = (atest_of t)\<lparr>at_file := Some ((view_of m)\<lparr>qv_msgs := rest, qv_nwait := mqh_nwait (mq_hdr m) - 1\<rparr>), at_child := No_child\<rparr>"
      by (auto split: list.splits if_splits)
    with view_wakeup_ok [OF wf, of prio data rest] call t show ?thesis
      by (auto simp: check_received_def put intro!: passesI)
  qed
qed

lemma acall_errors:
  assumes t: "tq_file t = Some f" "f_map f = m" "test_ok hsz t" and op: "is_open (tq_mqd t)"
    and a: "acall_on pid call (view_of m) (atest_of t) = Some v"
    and call: "(\<exists>ptr prio e. call = Send_fails ptr prio e) \<or> (\<exists>b e. call = Receive_fails b e) \<or> (\<exists>c e. call = Notify_fails c e)"
  shows "passes hsz (mq_call_on hsz pid call m t) v"
proof -
  have wf: "mq_wf hsz m" using t by (auto simp: test_ok_def)
  have count: "mq_curmsgs (attr_of m) = int (length (mq_abs m))" by (rule mq_wf_count [OF wf])
  note facts = t(1,3) op a count mq_wf_attr(1) [OF wf] wf
  note put = put_map_ok [OF t(3,1)] put_map_quiet [OF t(1)] atest_same_file [OF t(1), unfolded t(2)] test_updates
  from call show ?thesis
  proof (elim disjE exE)
    fix ptr prio e
    assume "call = Send_fails ptr prio e"
    with facts show ?thesis
      by (auto simp: mymq_send_def view_room_def expect_error_def put split: if_splits intro!: passesI)
  next
    fix b e
    assume "call = Receive_fails b e"
    with facts show ?thesis
      by (auto simp: mymq_receive_def expect_error_def put split: if_splits intro!: passesI)
  next
    fix c e
    assume "call = Notify_fails c e"
    with facts show ?thesis
      by (auto simp: mymq_notify_def expect_error_def put Let_def split: if_splits intro!: passesI)
  qed
qed

lemma acall_others:
  assumes t: "tq_file t = Some f" "f_map f = m" "test_ok hsz t" and op: "is_open (tq_mqd t)"
    and a: "acall_on pid call (view_of m) (atest_of t) = Some v"
  shows "passes hsz (mq_call_on hsz pid call m t) v"
proof -
  have wf: "mq_wf hsz m" using t by (auto simp: test_ok_def)
  have count: "mq_curmsgs (attr_of m) = int (length (mq_abs m))" by (rule mq_wf_count [OF wf])
  note facts = t(1,3) op a count mq_wf_attr(1) [OF wf] wf
  note frames = view_frame [OF wf] view_same_pid set_nwait_frame put_map_ok [OF t(3,1)] put_map_quiet [OF t(1)]
    atest_same_file [OF t(1), unfolded t(2)] test_updates Let_def
  show ?thesis
  proof (cases call)
    case Close
    with facts show ?thesis by (auto simp: mymq_close_def mymq_notify_def frames intro!: passesI)
  next
    case (Getattr a b c d)
    with facts show ?thesis
      by (auto simp: mymq_getattr_def attr_view_def check_attr_def frames split: if_splits intro!: passesI)
  next
    case (Setattr a b c d e)
    with facts show ?thesis
      by (auto simp: mymq_setattr_def attr_view_def check_attr_def frames split: if_splits intro!: passesI)
  next
    case Notify
    with facts show ?thesis by (auto simp: mymq_notify_def frames split: if_splits intro!: passesI)
  next
    case Notify_off
    with facts show ?thesis by (auto simp: mymq_notify_def frames intro!: passesI)
  next
    case (Child_waits b)
    with facts show ?thesis by (auto simp: mymq_receive_def frames split: if_splits intro!: passesI)
  qed (use a in simp_all, use acall_messages [OF t op a] acall_errors [OF t op a] in auto)
qed

lemma test_open_new:
  assumes "tq_file t = None" and "0 \<le> k_fd k" and "attr_ok hsz (mq_maxmsg a) (mq_msgsize a)"
    and "a = (case attr of None \<Rightarrow> defattr | Some a \<Rightarrow> a)"
  shows "passes hsz (mq_call_step hsz k path pid (Open_new attr) t)
    ((atest_of t)\<lparr>at_file := Some (new_view attr), at_mqd := mq_opened 0\<rparr>)"
proof -
  have wf: "mq_wf hsz (mq_init hsz a zero_file)" "mq_abs (mq_init hsz a zero_file) = []"
    using mq_init_correct [OF assms(3), of zero_file] by auto
  then have v: "view_of (mq_init hsz a zero_file) = new_view attr"
    using assms(4) by (simp add: view_of_def new_view_def mq_init_def zero_file_def Let_def)
  have a: "0 < mq_maxmsg a" "0 < mq_msgsize a" using assms(3) by (auto simp: attr_ok_def)
  have "0 < mq_filesize hsz (mq_maxmsg a) (mq_msgsize a)"
    using mq_filesize_ok [OF assms(3)] assms(3) by (simp add: attr_ok_def)
  from disk_open_new [OF _ assms(2,4) a this, of "O_CREAT OR O_EXCL OR O_RDWR" path FILE_MODE] assms(1)
  show ?thesis using wf(1) v
    by (auto simp: must_pass_def test_open_def test_updates test_ok_def intro!: passesI)
qed

lemma test_open_old:
  assumes "tq_file t = Some f" and "test_ok hsz t" and "0 \<le> k_fd k" and "(O_RDWR OR x) AND O_CREAT = 0"
  shows "passes hsz (mq_call_step hsz k path pid (Open_old x) t) ((atest_of t)\<lparr>at_mqd := mq_opened ((O_RDWR OR x) AND O_NONBLOCK)\<rparr>)"
proof -
  have "f_mode f AND S_IXUSR = 0" "0 \<le> f_size f" using assms(1,2) by (auto simp: test_ok_def)
  with disk_open_old [of "O_RDWR OR x" k f hsz path FILE_MODE None] assms show ?thesis
    by (auto simp: must_pass_def test_open_def test_updates test_ok_def atest_of_def intro!: passesI)
qed

lemma acall_step_ok:
  assumes ok: "test_ok hsz t" and attrs: "attrs_ok hsz call" and fd: "0 \<le> k_fd k"
    and a: "acall_step pid call (atest_of t) = Some v"
  shows "passes hsz (mq_call_step hsz k path pid call t) v"
proof -
  have on: "passes hsz (mq_call_on hsz pid call (f_map f) t) v"
    if "tq_file t = Some f" "acall_on pid call (view_of (f_map f)) (atest_of t) = Some v" "is_open (tq_mqd t)" for f
    using acall_others [OF that(1) refl ok that(3,2)] .
  show ?thesis
  proof (cases call)
    case (Open_new attr)
    with a attrs test_open_new [of t k hsz _ attr path pid] fd show ?thesis
      by (auto simp: Let_def split: if_splits)
  next
    case (Open_old x)
    with a test_open_old [OF _ ok fd] show ?thesis by (auto split: if_splits)
  next
    case (Open_new_fails e)
    with a obtain f where "tq_file t = Some f" "e = EEXIST" "v = (atest_of t)\<lparr>at_mqd := \<lparr>mqi_magic = 0, mqi_flags = 0\<rparr>\<rparr>"
      by (auto split: if_splits)
    with Open_new_fails ok disk_open_excl [of "O_CREAT OR O_EXCL OR O_RDWR" hsz k path FILE_MODE None f] show ?thesis
      by (auto simp: must_fail_def test_open_def expect_error_def test_updates test_ok_def atest_of_def intro!: passesI)
  qed (use a on ok in \<open>auto simp: test_unlink_def disk_unlink_result must_pass_def must_fail_def expect_error_def test_updates
      split: if_splits option.splits intro!: passesI\<close>)
qed

lemma acalls_ok:
  "test_ok hsz t \<Longrightarrow> 0 \<le> k_fd k \<Longrightarrow> list_all (attrs_ok hsz) cs \<Longrightarrow> acalls pid cs (atest_of t) = Some v \<Longrightarrow>
    passes hsz (mq_calls hsz k path pid cs t) v"
proof (induction cs arbitrary: t)
  case (Cons c cs)
  then obtain v' where v': "acall_step pid c (atest_of t) = Some v'" "acalls pid cs v' = Some v"
    by (auto split: option.splits)
  with acall_step_ok [of hsz t c k pid v' path] Cons.prems obtain t' where
    "mq_call_step hsz k path pid c t = Some (Done t')" "test_ok hsz t'" "atest_of t' = v'" by (auto simp: passes_def)
  with Cons.IH [of t'] Cons.prems v' show ?case by simp
qed (simp add: passesI)

lemma acalls_append: "acalls pid (xs @ ys) v = (case acalls pid xs v of None \<Rightarrow> None | Some v' \<Rightarrow> acalls pid ys v')"
  by (induction xs arbitrary: v) (auto split: option.splits)

definition test_state :: "(uint \<times> byte list) list \<Rightarrow> int \<Rightarrow> sigevent \<Rightarrow> uint \<Rightarrow> mymq_attr \<Rightarrow> nat \<Rightarrow> mq_atest" where
  "test_state q pid ev flags info n =
    \<lparr>at_file = Some \<lparr>qv_msgs = q, qv_max = 4, qv_size = 7, qv_nwait = 0, qv_pid = pid, qv_event = ev\<rparr>,
     at_mqd = mq_opened flags, at_info = info, at_sigusr1 = n, at_child = No_child\<rparr>"

definition no_event :: sigevent where
  "no_event = \<lparr>sigev_notify = SIGEV_NONE, sigev_signo = 0, sigev_value = 0\<rparr>"

lemmas test_eval = test_state_def test_attr_def new_view_def defattr_def attr_view_def at_len_def mq_opened_def view_room_def
  view_send_def mq_insert_def msg_text_def no_event_def test_sigev_def word_le_nat_alt Let_def

lemma testmq_create_ok:
  "at_child v = No_child \<Longrightarrow> acalls pid testmq_create v = Some (test_state [] 0 no_event 0 test_attr (at_sigusr1 v))"
  by (cases v) (simp add: testmq_create_def test_eval)

lemma testmq_order_ok:
  "acalls pid testmq_order (test_state [] 0 no_event 0 test_attr n) = Some (test_state [] 0 no_event 0 test_attr n)"
  by (simp add: testmq_order_def test_eval)

lemma testmq_limits_ok:
  "\<exists>info. acalls pid (testmq_limits rest) (test_state [] 0 no_event 0 test_attr n) =
    Some ((test_state [(4, msg_text 4), (3, msg_text 3), (2, msg_text 2), (1, msg_text 1)] 0 no_event O_NONBLOCK info n)
      \<lparr>at_mqd := \<lparr>mqi_magic = 0, mqi_flags = O_NONBLOCK\<rparr>\<rparr>) \<and> mq_msgsize info = 7"
  by (simp add: testmq_limits_def test_eval)

lemma testmq_setattr_ok:
  assumes "mq_msgsize info = 7"
  shows "acalls pid testmq_setattr ((test_state [(4, msg_text 4), (3, msg_text 3), (2, msg_text 2), (1, msg_text 1)] 0 no_event f info n)
      \<lparr>at_mqd := d\<rparr>) = Some (test_state [] 0 no_event 0 test_attr n)"
  using assms by (simp add: testmq_setattr_def test_eval)

lemma testmq_notify_ok:
  assumes "pid \<noteq> 0"
  shows "acalls pid testmq_notify (test_state [] 0 no_event 0 test_attr n) = Some (test_state [] pid test_sigev 0 test_attr 1)"
  using assms by (simp add: testmq_notify_def test_eval)

lemma testmq_children_ok:
  "\<exists>k. acalls pid testmq_children (test_state [] pid test_sigev 0 test_attr 1) = Some (test_state [] 0 test_sigev 0 test_attr k)"
  by (simp add: testmq_children_def test_eval)

lemma testmq_abstract:
  assumes "pid \<noteq> 0" and "at_child v = No_child"
  shows "\<exists>k. acalls pid (testmq rest) v = Some (test_state [] 0 test_sigev 0 test_attr k)"
proof -
  obtain info where "acalls pid (testmq_limits rest) (test_state [] 0 no_event 0 test_attr (at_sigusr1 v)) =
    Some ((test_state [(4, msg_text 4), (3, msg_text 3), (2, msg_text 2), (1, msg_text 1)] 0 no_event O_NONBLOCK info (at_sigusr1 v))
      \<lparr>at_mqd := \<lparr>mqi_magic = 0, mqi_flags = O_NONBLOCK\<rparr>\<rparr>)" "mq_msgsize info = 7"
    using testmq_limits_ok by blast
  moreover obtain k where "acalls pid testmq_children (test_state [] pid test_sigev 0 test_attr 1) =
    Some (test_state [] 0 test_sigev 0 test_attr k)" using testmq_children_ok by blast
  ultimately have "acalls pid (testmq rest) v = Some (test_state [] 0 test_sigev 0 test_attr k)" using assms
    by (simp add: testmq_def acalls_append testmq_create_ok testmq_order_ok testmq_setattr_ok testmq_notify_ok del: One_nat_def)
  then show ?thesis by blast
qed

lemma testmq_attrs:
  assumes "0 < hsz" and "hsz < 2 ^ 62"
  shows "list_all (attrs_ok hsz) (testmq rest)"
  using assms
  by (simp add: testmq_def testmq_create_def testmq_order_def testmq_limits_def testmq_setattr_def testmq_notify_def
      testmq_children_def attr_ok_def defattr_def test_attr_def MSGSIZE_def)

section \<open>Properties\<close>

text \<open>
  C27. The test program \<open>testmq.c\<close> passes on the model of the message queues: whatever file is under the path of the command
  line, for any size of the header, any descriptor and addresses that the system hands out and whatever bytes follow
  \<open>msg4\<close>, every call that should succeed succeeds, every call that should fail gives the error that is asked for
  (with \<open>mymq_open\<close> and \<open>mymq_unlink\<close> running on the file), every message has the length and the priority that are
  compared, the signals are counted as expected, no call hangs (the child that blocks in \<open>mymq_receive\<close> is woken by the
  signal of \<open>mymq_send\<close>), and at the end the queue is well-formed and empty and no child waits.
\<close>

theorem testmq_passes:
  assumes "0 < hsz" and "hsz < 2 ^ 62" and "pid \<noteq> 0" and "0 \<le> k_fd k" and "tq_child t = No_child"
  shows "\<exists>t' f. mq_calls hsz k path pid (testmq rest) t = Some (Done t') \<and> tq_file t' = Some f \<and>
    mq_wf hsz (f_map f) \<and> mq_abs (f_map f) = [] \<and> tq_child t' = No_child"
proof -
  let ?t = "t\<lparr>tq_file := None\<rparr>"
  have "mq_calls hsz k path pid (testmq rest) t = mq_calls hsz k path pid (testmq rest) ?t"
    by (simp add: testmq_def testmq_create_def test_unlink_def disk_unlink_result)
  moreover obtain n where "acalls pid (testmq rest) (atest_of ?t) = Some (test_state [] 0 test_sigev 0 test_attr n)"
    using testmq_abstract [OF assms(3), of "atest_of ?t"] assms(5) by auto
  then have "passes hsz (mq_calls hsz k path pid (testmq rest) ?t) (test_state [] 0 test_sigev 0 test_attr n)"
    using acalls_ok testmq_attrs [OF assms(1,2)] assms(4) by (simp add: test_ok_def)
  ultimately obtain t' where t': "mq_calls hsz k path pid (testmq rest) t = Some (Done t')" "test_ok hsz t'"
    "atest_of t' = test_state [] 0 test_sigev 0 test_attr n" by (auto simp: passes_def)
  then obtain f where "tq_file t' = Some f" "tq_child t' = No_child"
    "view_of (f_map f) = \<lparr>qv_msgs = [], qv_max = 4, qv_size = 7, qv_nwait = 0, qv_pid = 0, qv_event = test_sigev\<rparr>"
    by (auto simp: atest_of_def test_state_def)
  with t' show ?thesis by (auto simp: test_ok_def view_of_def)
qed

theorem testmq_passes_witness:
  "\<exists>t' f. mq_calls 200 \<lparr>k_fd = 3, k_map = 4096, k_info = 8192\<rparr> ''/tmp/mq'' 77 (testmq [])
      \<lparr>tq_file = None, tq_mqd = mq_opened 0, tq_info = defattr, tq_sigusr1 = 0, tq_child = No_child\<rparr> = Some (Done t') \<and>
    tq_file t' = Some f \<and> mq_wf 200 (f_map f) \<and> mq_abs (f_map f) = [] \<and> tq_child t' = No_child"
  by (rule testmq_passes) simp_all

end
