(* ===== verification/Mq_Tools.thy ===== *)
theory Mq_Tools
  imports Mq_Disk Mqueue_Threads Sysv_Tools
begin

unbundle bit_operations_syntax

text \<open>
  The programs of \<open>src/my_pxmsg_mmap\<close> that make, use and remove one message queue: \<open>mqcreate\<close>, \<open>mqgetattr\<close>,
  \<open>mqsend\<close>, \<open>mqreceive\<close>, \<open>mqunlink\<close> and \<open>mqnotify1\<close>. They run on the operations of \<open>Mqueue\<close> and on a directory: the
  files of \<open>Mq_Disk\<close> by their names, on which \<open>mymq_open\<close> and \<open>mymq_unlink\<close> run with all their system calls. A program is
  a function of its arguments, of what the system hands out and of the directory.
\<close>

section \<open>The programs\<close>

type_synonym mq_files = "path \<rightharpoonup> mq_file"

definition path_string :: "path \<Rightarrow> string" where
  "path_string p = map (\<lambda>b. char_of (unat b)) p"

text \<open>\<open>Mymq_open\<close> on the file of that name; \<open>None\<close> when the answers of the system do not fit the calls.\<close>

definition open_mq ::
  "nat \<Rightarrow> handed \<Rightarrow> uint \<Rightarrow> mymq_attr option \<Rightarrow> path \<Rightarrow> mq_files \<Rightarrow> (mq_handle result \<times> mq_files) option" where
  "open_mq hsz k oflag attr p fs =
    (case disk_open hsz k (path_string p) oflag FILE_MODE attr (fs p) of
      None \<Rightarrow> None | Some (r, file') \<Rightarrow> Some (r, fs(p := file')))"

text \<open>
  All programs but \<open>mqnotify1\<close> keep the pointer that \<open>Mymq_open\<close> returns in an \<open>mqd_t\<close>, which is an \<open>int\<close> on Linux: a call
  gets the pointer back only when its value fits in 32 bits. With any other value the call reads memory
  that is not the descriptor, and the run of the program has no defined end (\<open>Overrun\<close>).
\<close>

definition in_mqd_t :: "mq_handle \<Rightarrow> bool" where
  "in_mqd_t h \<longleftrightarrow> signed_take_bit 31 (h_info h) = h_info h"

text \<open>
  A program that opens the queue, keeps the descriptor in an \<open>mqd_t\<close> and goes on with it and with the mapped file.
\<close>

definition with_mq ::
  "nat \<Rightarrow> handed \<Rightarrow> uint \<Rightarrow> mymq_attr option \<Rightarrow> path \<Rightarrow> mq_files
    \<Rightarrow> (mymq_info \<Rightarrow> mapped \<Rightarrow> 'o tool_end \<times> mapped) \<Rightarrow> 'o tool_end \<times> mq_files" where
  "with_mq hsz k oflag attr p fs body =
    (case open_mq hsz k oflag attr p fs of
      None \<Rightarrow> (Blocked, fs)
    | Some (Inl err, fs') \<Rightarrow> (Fails err, fs')
    | Some (Inr h, fs') \<Rightarrow>
        if \<not> in_mqd_t h then (Overrun, fs')
        else case fs' p of
          None \<Rightarrow> (Overrun, fs')
        | Some f \<Rightarrow> (case body (mq_opened (h_flags h)) (f_map f) of (r, m') \<Rightarrow> (r, fs'(p \<mapsto> f\<lparr>f_map := m'\<rparr>))))"

text \<open>\<open>Mymq_close\<close> at the end of a program; \<open>pid\<close> is the process.\<close>

definition close_mq :: "nat \<Rightarrow> int \<Rightarrow> mymq_info \<Rightarrow> mapped \<Rightarrow> mapped" where
  "close_mq hsz pid mqd m = fst (mymq_close hsz 0 pid (\<lambda>_. Inr ()) (\<lambda>_. Inr ()) mqd m)"

definition mqcreate :: "nat \<Rightarrow> handed \<Rightarrow> int \<Rightarrow> bool \<Rightarrow> int \<Rightarrow> int \<Rightarrow> path list \<Rightarrow> mq_files \<Rightarrow> unit tool_end \<times> mq_files" where
  "mqcreate hsz k pid e m z args fs =
    (if length args \<noteq> 1 then (Usage, fs)
     else if m \<noteq> 0 \<and> z = 0 \<or> m = 0 \<and> z \<noteq> 0 then (Usage, fs)
     else
       let attr = \<lparr>mq_flags = 0, mq_maxmsg = m, mq_msgsize = z, mq_curmsgs = 0\<rparr> in
       with_mq hsz k (if e then O_RDWR OR O_CREAT OR O_EXCL else O_RDWR OR O_CREAT)
         (if m \<noteq> 0 then Some attr else None) (args ! 0) fs
         (\<lambda>mqd q. (Exits (), close_mq hsz pid mqd q)))"

definition mqgetattr :: "nat \<Rightarrow> handed \<Rightarrow> int \<Rightarrow> path list \<Rightarrow> mq_files \<Rightarrow> (int \<times> int \<times> int) tool_end \<times> mq_files" where
  "mqgetattr hsz k pid args fs =
    (if length args \<noteq> 1 then (Usage, fs)
     else with_mq hsz k O_RDONLY None (args ! 0) fs (\<lambda>mqd q.
       case mymq_getattr 0 mqd q of
         Returns q' evs (Inr a) \<Rightarrow> (Exits (mq_maxmsg a, mq_msgsize a, mq_curmsgs a), close_mq hsz pid mqd q')
       | Returns q' evs (Inl err) \<Rightarrow> (Fails err, q')
       | _ \<Rightarrow> (Blocked, q)))"

text \<open>
  The message of \<open>mqsend\<close> is what \<open>Malloc\<close> returns, whatever it holds: \<open>junk\<close>. A negative number of bytes is
  more than there is memory.
\<close>

definition mqsend :: "nat \<Rightarrow> handed \<Rightarrow> (nat \<Rightarrow> byte) \<Rightarrow> path list \<Rightarrow> mq_files \<Rightarrow> unit tool_end \<times> mq_files" where
  "mqsend hsz k junk args fs =
    (if length args \<noteq> 3 then (Usage, fs)
     else let len = atoi (args ! 1); prio = word_of_int (atoi (args ! 2)) in
       with_mq hsz k O_WRONLY None (args ! 0) fs (\<lambda>mqd q.
         if len < 0 then (Fails ENOMEM, q)
         else case mymq_send 0 mqd (map junk [0..<nat len]) prio q of
           Returns q' evs (Inr _) \<Rightarrow> (Exits (), q')
         | Returns q' evs (Inl err) \<Rightarrow> (Fails err, q')
         | Waits q' \<Rightarrow> (Blocked, q')
         | _ \<Rightarrow> (Overrun, q)))"

text \<open>\<open>mqreceive\<close> prints the length of the message in \<open>buff\<close> and its priority; the output has the message itself.\<close>

definition mqreceive :: "nat \<Rightarrow> handed \<Rightarrow> bool \<Rightarrow> path list \<Rightarrow> mq_files \<Rightarrow> (byte list \<times> uint) tool_end \<times> mq_files" where
  "mqreceive hsz k n args fs =
    (if length args \<noteq> 1 then (Usage, fs)
     else with_mq hsz k (if n then O_RDONLY OR O_NONBLOCK else O_RDONLY) None (args ! 0) fs (\<lambda>mqd q.
       case mymq_getattr 0 mqd q of
         Returns q' evs (Inr a) \<Rightarrow>
           (case mymq_receive 0 mqd (ulong_of (mq_msgsize a)) q' of
             Returns q'' evs (Inr got) \<Rightarrow> (Exits got, q'')
           | Returns q'' evs (Inl err) \<Rightarrow> (Fails err, q'')
           | Waits q'' \<Rightarrow> (Blocked, q'')
           | _ \<Rightarrow> (Overrun, q))
       | Returns q' evs (Inl err) \<Rightarrow> (Fails err, q')
       | _ \<Rightarrow> (Blocked, q)))"

definition mqunlink :: "path list \<Rightarrow> mq_files \<Rightarrow> unit tool_end \<times> mq_files" where
  "mqunlink args fs =
    (if length args \<noteq> 1 then (Usage, fs)
     else case disk_unlink (path_string (args ! 0)) (fs (args ! 0)) of
       None \<Rightarrow> (Blocked, fs)
     | Some (Inl err, file') \<Rightarrow> (Fails err, fs(args ! 0 := file'))
     | Some (Inr _, file') \<Rightarrow> (Exits (), fs(args ! 0 := file')))"

text \<open>
  \<open>mqnotify1\<close>, which keeps the descriptor in a \<open>mymqd_t\<close>, registers and waits for signals for ever (\<open>Blocked\<close>); its handler
  prints and registers again. \<open>alive\<close> tells which processes there are.
\<close>

definition notify_usr1 :: "int \<Rightarrow> (int \<Rightarrow> bool) \<Rightarrow> path \<Rightarrow> mq_files \<Rightarrow> unit tool_end \<times> mq_files" where
  "notify_usr1 pid alive p fs =
    (case fs p of
      None \<Rightarrow> (Fails ENOENT, fs)
    | Some f \<Rightarrow>
        (case mymq_notify 0 pid (\<lambda>p. if alive p then Inr () else Inl ESRCH) (mq_opened 0)
            (Some \<lparr>sigev_notify = SIGEV_SIGNAL, sigev_signo = 10, sigev_value = 0\<rparr>) (f_map f) of
          Returns q' evs (Inr _) \<Rightarrow> (Blocked, fs(p \<mapsto> f\<lparr>f_map := q'\<rparr>))
        | Returns q' evs (Inl err) \<Rightarrow> (Fails err, fs(p \<mapsto> f\<lparr>f_map := q'\<rparr>))
        | _ \<Rightarrow> (Overrun, fs)))"

definition mqnotify1 :: "nat \<Rightarrow> handed \<Rightarrow> int \<Rightarrow> (int \<Rightarrow> bool) \<Rightarrow> path list \<Rightarrow> mq_files \<Rightarrow> unit tool_end \<times> mq_files" where
  "mqnotify1 hsz k pid alive args fs =
    (if length args \<noteq> 1 then (Usage, fs)
     else case open_mq hsz k O_RDONLY None (args ! 0) fs of
       None \<Rightarrow> (Blocked, fs)
     | Some (Inl err, fs') \<Rightarrow> (Fails err, fs')
     | Some (Inr h, fs') \<Rightarrow> notify_usr1 pid alive (args ! 0) fs')"

definition mqnotify1_sig_usr1 :: "int \<Rightarrow> (int \<Rightarrow> bool) \<Rightarrow> path \<Rightarrow> mq_files \<Rightarrow> unit tool_end \<times> mq_files" where
  "mqnotify1_sig_usr1 pid alive p fs = notify_usr1 pid alive p fs"

section \<open>The programs use a priority queue\<close>

text \<open>
  A file whose initialisation is complete, and a system whose descriptors and addresses the programs can use.
\<close>

definition ready_mq :: "nat \<Rightarrow> path \<Rightarrow> mq_files \<Rightarrow> bool" where
  "ready_mq hsz p fs \<longleftrightarrow> (\<exists>f. fs p = Some f \<and> mq_wf hsz (f_map f) \<and> f_mode f AND S_IXUSR = 0 \<and> 0 \<le> f_size f)"

definition fitting :: "handed \<Rightarrow> bool" where
  "fitting k \<longleftrightarrow> 0 \<le> k_fd k \<and> signed_take_bit 31 (k_info k) = k_info k"

lemma with_mq_old:
  assumes "fs p = Some f" and "f_mode f AND S_IXUSR = 0" and "0 \<le> f_size f" and "fitting k" and "oflag AND O_CREAT = 0"
  shows "with_mq hsz k oflag None p fs body =
    (case body (mq_opened (oflag AND O_NONBLOCK)) (f_map f) of (r, m') \<Rightarrow> (r, fs(p \<mapsto> f\<lparr>f_map := m'\<rparr>)))"
proof -
  have "fs(p \<mapsto> f) = fs" using assms(1) by auto
  with assms disk_open_old [of oflag k f hsz "path_string p" FILE_MODE None] show ?thesis
    by (auto simp: with_mq_def open_mq_def in_mqd_t_def fitting_def split: prod.splits)
qed

text \<open>
  What the \<open>int\<close> does: with a descriptor at an address that does not fit, no program gets past its first call.
\<close>

lemma with_mq_truncated:
  assumes "fs p = Some f" and "f_mode f AND S_IXUSR = 0" and "0 \<le> f_size f" and "oflag AND O_CREAT = 0" and "0 \<le> k_fd k"
    and "2 ^ 31 \<le> k_info k"
  shows "with_mq hsz k oflag None p fs body = (Overrun, fs)"
proof -
  have "fs(p \<mapsto> f) = fs" using assms(1) by auto
  moreover have "signed_take_bit 31 (k_info k) < 2 ^ 31" by (rule signed_take_bit_int_less_exp)
  ultimately show ?thesis using assms disk_open_old [of oflag k f hsz "path_string p" FILE_MODE None]
    by (auto simp: with_mq_def open_mq_def in_mqd_t_def)
qed

text \<open>A run of \<open>mqsend\<close> and a run of \<open>mqreceive\<close> that exit, on the file \<open>p\<close>.\<close>

definition run_mqsend :: "nat \<Rightarrow> handed \<Rightarrow> path \<Rightarrow> byte list \<Rightarrow> uint \<Rightarrow> mq_files \<Rightarrow> mq_files option" where
  "run_mqsend hsz k p d prio fs =
    (case mqsend hsz k (\<lambda>k. d ! k) [p, dec (length d), dec (unat prio)] fs of (Exits _, fs') \<Rightarrow> Some fs' | _ \<Rightarrow> None)"

definition run_mqreceive :: "nat \<Rightarrow> handed \<Rightarrow> path \<Rightarrow> mq_files \<Rightarrow> ((uint \<times> byte list) \<times> mq_files) option" where
  "run_mqreceive hsz k p fs =
    (case mqreceive hsz k False [p] fs of (Exits (d, prio), fs') \<Rightarrow> Some ((prio, d), fs') | _ \<Rightarrow> None)"

lemma atoi_dec: "n < 2 ^ 31 \<Longrightarrow> atoi (dec n) = int n"
  by (simp add: atoi_def atol_dec signed_take_bit_int_eq_self)

lemma atoi_dec_prio: "word_of_int (atoi (dec (unat (w :: uint)))) = w"
proof -
  have "(word_of_int (signed_take_bit 31 (uint w)) :: uint) = word_of_int (uint w)"
    unfolding word_of_int_eq_iff by (simp add: take_bit_signed_take_bit)
  then show ?thesis by (simp add: atoi_def atol_dec)
qed

lemma run_mqsend_ok:
  assumes "fs p = Some f" and "f_mode f AND S_IXUSR = 0" and "0 \<le> f_size f" and k: "fitting k"
    and wf: "mq_wf hsz (f_map f)" and len: "length d \<le> msgsize_of (f_map f)" "length d < 2 ^ 31"
    and room: "length (mq_abs (f_map f)) < maxmsg_of (f_map f)"
  shows "\<exists>m'. run_mqsend hsz k p d prio fs = Some (fs(p \<mapsto> f\<lparr>f_map := m'\<rparr>)) \<and> mq_wf hsz m' \<and>
    mq_abs m' = mq_insert prio d (mq_abs (f_map f)) \<and>
    mq_maxmsg (attr_of m') = mq_maxmsg (attr_of (f_map f)) \<and> mq_msgsize (attr_of m') = mq_msgsize (attr_of (f_map f))"
proof -
  have "\<not> is_full (f_map f)" using mq_wf_count [OF wf] room by auto
  then obtain m' evs where send: "mymq_send 0 (mq_opened 0) d prio (f_map f) = Returns m' evs (Inr ())" "mq_wf hsz m'"
    "mq_abs m' = mq_insert prio d (mq_abs (f_map f))" "mq_maxmsg (attr_of m') = mq_maxmsg (attr_of (f_map f))"
    "mq_msgsize (attr_of m') = mq_msgsize (attr_of (f_map f))"
    using mymq_send_ok [OF wf _ len(1), of "mq_opened 0" prio] by (auto simp: mq_opened_def)
  moreover have "mqsend hsz k (\<lambda>k. d ! k) [p, dec (length d), dec (unat prio)] fs = (Exits (), fs(p \<mapsto> f\<lparr>f_map := m'\<rparr>))"
    using send(1) len(2)
    by (simp add: mqsend_def with_mq_old [of fs p f k, OF assms(1-4)] atoi_dec atoi_dec_prio map_nth)
  ultimately show ?thesis by (auto simp: run_mqsend_def)
qed

lemma run_mqreceive_ok:
  assumes "fs p = Some f" and "f_mode f AND S_IXUSR = 0" and "0 \<le> f_size f" and k: "fitting k"
    and wf: "mq_wf hsz (f_map f)" and ne: "mq_abs (f_map f) = x # q"
  shows "\<exists>m'. run_mqreceive hsz k p fs = Some (x, fs(p \<mapsto> f\<lparr>f_map := m'\<rparr>)) \<and> mq_wf hsz m' \<and> mq_abs m' = q"
proof -
  let ?m = "f_map f"
  obtain m' evs data prio where recv: "mymq_receive 0 (mq_opened 0) (msgsize_of ?m) ?m = Returns m' evs (Inr (data, prio))"
    "mq_wf hsz m'" "mq_abs ?m = (prio, data) # mq_abs m'"
    using mymq_receive_ok [OF wf, of "mq_opened 0" "msgsize_of ?m"] ne by (auto simp: mq_opened_def)
  moreover have "mymq_getattr 0 (mq_opened 0) ?m = Returns ?m [] (Inr \<lparr>mq_flags = 0, mq_maxmsg = mq_maxmsg (attr_of ?m),
      mq_msgsize = mq_msgsize (attr_of ?m), mq_curmsgs = mq_curmsgs (attr_of ?m)\<rparr>)"
    by (simp add: mymq_getattr_def mq_opened_def)
  ultimately have "mqreceive hsz k False [p] fs = (Exits (data, prio), fs(p \<mapsto> f\<lparr>f_map := m'\<rparr>))"
    using wf by (simp add: mqreceive_def with_mq_old [of fs p f k, OF assms(1-4)])
  with recv ne show ?thesis by (auto simp: run_mqreceive_def)
qed

abbreviation map_at :: "path \<Rightarrow> mq_files \<Rightarrow> mapped" where
  "map_at p fs \<equiv> f_map (the (fs p))"

text \<open>The programs as a queue: with addresses that do not fit, nothing is promised.\<close>

interpretation tools: prio_queue "\<lambda>fs. fitting k \<and> ready_mq hsz p fs" "\<lambda>fs. mq_abs (map_at p fs)"
  "\<lambda>fs. maxmsg_of (map_at p fs)" "\<lambda>fs. min (msgsize_of (map_at p fs)) (2 ^ 31 - 1)"
  "run_mqsend hsz k p" "run_mqreceive hsz k p" for hsz k p
proof
  fix fs :: mq_files and d :: "byte list" and prio
  assume ok: "fitting k \<and> ready_mq hsz p fs" and len: "length d \<le> min (msgsize_of (map_at p fs)) (2 ^ 31 - 1)"
    and room: "length (mq_abs (map_at p fs)) < maxmsg_of (map_at p fs)"
  then obtain f where f: "fs p = Some f" "f_mode f AND S_IXUSR = 0" "0 \<le> f_size f" "fitting k" "mq_wf hsz (f_map f)"
    by (auto simp: ready_mq_def)
  moreover have "length d \<le> msgsize_of (f_map f)" "length d < 2 ^ 31" "length (mq_abs (f_map f)) < maxmsg_of (f_map f)"
    using len room f(1) by auto
  ultimately show "\<exists>fs'. run_mqsend hsz k p d prio fs = Some fs' \<and> (fitting k \<and> ready_mq hsz p fs') \<and>
      mq_abs (map_at p fs') = mq_insert prio d (mq_abs (map_at p fs)) \<and> maxmsg_of (map_at p fs') = maxmsg_of (map_at p fs) \<and>
      min (msgsize_of (map_at p fs')) (2 ^ 31 - 1) = min (msgsize_of (map_at p fs)) (2 ^ 31 - 1)"
    using run_mqsend_ok [of fs p f k hsz d prio, OF f] by (auto simp: ready_mq_def)
next
  fix fs :: mq_files
  assume ok: "fitting k \<and> ready_mq hsz p fs" and ne: "mq_abs (map_at p fs) \<noteq> []"
  then obtain f where f: "fs p = Some f" "f_mode f AND S_IXUSR = 0" "0 \<le> f_size f" "fitting k" "mq_wf hsz (f_map f)"
    by (auto simp: ready_mq_def)
  with ne obtain x q where "mq_abs (f_map f) = x # q" by (cases "mq_abs (f_map f)") auto
  with run_mqreceive_ok [of fs p f k hsz, OF f this] f show "\<exists>fs'. run_mqreceive hsz k p fs = Some (hd (mq_abs (map_at p fs)), fs') \<and>
      (fitting k \<and> ready_mq hsz p fs') \<and> mq_abs (map_at p fs') = tl (mq_abs (map_at p fs))"
    by (auto simp: ready_mq_def)
qed

section \<open>The programs one after the other\<close>

lemma close_mq_frame:
  assumes "mq_wf hsz m"
  shows "mq_wf hsz (close_mq hsz pid (mq_opened f) m) \<and> mq_abs (close_mq hsz pid (mq_opened f) m) = mq_abs m \<and>
    attr_of (close_mq hsz pid (mq_opened f) m) = attr_of m"
proof -
  let ?m = "if mqh_pid (mq_hdr m) = pid then m\<lparr>mq_hdr := (mq_hdr m)\<lparr>mqh_pid := 0\<rparr>\<rparr> else m"
  have "close_mq hsz pid (mq_opened f) m = ?m" by (simp add: close_mq_def mymq_close_def mymq_notify_def mq_opened_def Let_def)
  moreover have "mq_wf hsz ?m \<longleftrightarrow> mq_wf hsz m" "mq_abs ?m = mq_abs m" by (rule mq_frame_hdr; simp)+
  ultimately show ?thesis using assms by simp
qed

lemma mqcreate_new:
  assumes "fs p = None" and ok: "attr_ok hsz m z" and k: "fitting k"
  shows "\<exists>f. mqcreate hsz k pid e m z [p] fs = (Exits (), fs(p \<mapsto> f)) \<and> ready_mq hsz p (fs(p \<mapsto> f)) \<and>
    mq_abs (f_map f) = [] \<and> mq_maxmsg (attr_of (f_map f)) = m \<and> mq_msgsize (attr_of (f_map f)) = z"
proof -
  let ?a = "\<lparr>mq_flags = 0, mq_maxmsg = m, mq_msgsize = z, mq_curmsgs = 0\<rparr>"
  let ?q = "mq_init hsz ?a zero_file" and ?fl = "if e then O_RDWR OR O_CREAT OR O_EXCL else O_RDWR OR O_CREAT"
  let ?f = "\<lparr>f_mode = FILE_MODE AND NOT S_IXUSR, f_size = int (mq_filesize hsz m z), f_map = close_mq hsz pid (mq_opened 0) ?q\<rparr>"
  have mz: "0 < m" "0 < z" using ok by (auto simp: attr_ok_def)
  have sz: "0 < mq_filesize hsz m z" using mq_filesize_ok [OF ok] ok by (simp add: attr_ok_def)
  have "disk_open hsz k (path_string p) ?fl FILE_MODE (Some ?a) None =
    Some (Inr \<lparr>h_info = k_info k, h_map = k_map k, h_flags = 0, h_init = Some ?a\<rparr>, Some (?f\<lparr>f_map := ?q\<rparr>))"
    using disk_open_new [of ?fl k ?a "Some ?a" hsz "path_string p" FILE_MODE] mz sz k
    by (cases e) (simp_all add: fitting_def)
  then have "mqcreate hsz k pid e m z [p] fs = (Exits (), fs(p \<mapsto> ?f))"
    using assms(1) mz k by (simp add: mqcreate_def with_mq_def open_mq_def in_mqd_t_def fitting_def Let_def)
  moreover have "mq_wf hsz ?q" "mq_abs ?q = []" using mq_init_correct [of hsz ?a zero_file] ok by simp_all
  moreover have "mq_maxmsg (attr_of ?q) = m" "mq_msgsize (attr_of ?q) = z" by (simp_all add: mq_init_def)
  ultimately show ?thesis using close_mq_frame [of hsz ?q pid 0] by (auto simp: ready_mq_def)
qed

text \<open>
  The programs \<open>mqcreate\<close>, \<open>mqsend\<close>, \<open>mqreceive\<close> and \<open>mqunlink\<close> one after the other, where the descriptor fits in an
  \<open>mqd_t\<close>: on a new queue, runs of \<open>mqsend\<close> for at most \<open>maxmsg\<close> messages of at most \<open>msgsize\<close> bytes all exit; as many runs of
  \<open>mqreceive\<close> exit and report exactly these messages, in order of decreasing priority and in the order of
  sending within a priority, with the lengths and priorities of the command lines; \<open>mqunlink\<close> then removes the file.
\<close>

lemma mq_tools_deliver:
  assumes "fs p = None" and "attr_ok hsz m z" and k: "fitting k" and "length ms \<le> nat m"
    and "\<forall>x \<in> set ms. length (snd x) \<le> nat z \<and> length (snd x) < 2 ^ 31"
  shows "\<exists>fs0 fs1 fs2. mqcreate hsz k pid e m z [p] fs = (Exits (), fs0) \<and>
    Mqueue_Correct.send_all (run_mqsend hsz k p) ms fs0 = Some fs1 \<and>
    Mqueue_Correct.recv_all (run_mqreceive hsz k p) (length ms) fs1 = Some (sort_key prio_key ms, fs2) \<and>
    ready_mq hsz p fs2 \<and> mq_abs (map_at p fs2) = [] \<and> fst (mqunlink [p] fs2) = Exits () \<and> snd (mqunlink [p] fs2) p = None"
proof -
  obtain f where f: "mqcreate hsz k pid e m z [p] fs = (Exits (), fs(p \<mapsto> f))" "ready_mq hsz p (fs(p \<mapsto> f))"
    "mq_abs (f_map f) = []" "mq_maxmsg (attr_of (f_map f)) = m" "mq_msgsize (attr_of (f_map f)) = z"
    using mqcreate_new [of fs p hsz m z k pid e, OF assms(1-3)] by blast
  with tools.delivery_order [of k hsz p "fs(p \<mapsto> f)" ms] assms(3-5) obtain fs1 fs2 where
    run: "Mqueue_Correct.send_all (run_mqsend hsz k p) ms (fs(p \<mapsto> f)) = Some fs1"
    "Mqueue_Correct.recv_all (run_mqreceive hsz k p) (length ms) fs1 = Some (sort_key prio_key ms, fs2)"
    "ready_mq hsz p fs2" "mq_abs (map_at p fs2) = []" by fastforce
  moreover from run(3) have "fst (mqunlink [p] fs2) = Exits ()" "snd (mqunlink [p] fs2) p = None"
    by (auto simp: mqunlink_def disk_unlink_result ready_mq_def)
  ultimately show ?thesis using f(1) by blast
qed

end
