(* ===== verification/Sem_Test.thy ===== *)
theory Sem_Test
  imports Pxsem
begin

text \<open>
  The test program \<open>testsem.c\<close> of \<open>src/my_pxsem_mmap\<close> and \<open>src/my_pxsem_svsem\<close>: threads open the same semaphores,
  and together take from each of them almost its initial value. It works over any semaphore that meets \<open>counting_sem\<close>
  and that can be made with a given value; both implementations are interpretations.
\<close>

section \<open>The threads\<close>

text \<open>\<open>doit\<close>: at \<open>Mysem_open\<close> of semaphore \<open>i\<close>, at round \<open>i\<close> of the waits and semaphore \<open>j\<close> in it, or returned.\<close>

datatype ts_pc = Ts_open nat | Ts_wait nat nat | Ts_done

record 's semtest =
  st_sems :: "'s option list"
  st_pcs :: "ts_pc list"

text \<open>The heads of the two loops around \<open>Mysem_wait\<close>, and of the loop of \<open>Mysem_open\<close>.\<close>

definition ts_enter :: "nat \<Rightarrow> nat \<Rightarrow> nat \<Rightarrow> nat \<Rightarrow> ts_pc" where
  "ts_enter nsems nwaits i j =
    (if nsems = 0 \<or> nwaits \<le> i then Ts_done
     else if j < nsems then Ts_wait i j
     else if i + 1 < nwaits then Ts_wait (i + 1) 0 else Ts_done)"

definition ts_opening :: "nat \<Rightarrow> nat \<Rightarrow> nat \<Rightarrow> ts_pc" where
  "ts_opening nsems nwaits k = (if k < nsems then Ts_open k else ts_enter nsems nwaits 0 0)"

text \<open>
  A step of thread \<open>t\<close>; \<open>mk initval\<close> is the semaphore that the first \<open>Mysem_open\<close> of a name makes, without \<open>O_EXCL\<close>, and
  \<open>wait\<close> is \<open>Mysem_wait\<close> where it completes.
\<close>

definition semtest_thread ::
  "(nat \<Rightarrow> 's) \<Rightarrow> ('s \<Rightarrow> 's option) \<Rightarrow> nat \<Rightarrow> nat \<Rightarrow> nat \<Rightarrow> nat \<Rightarrow> 's semtest \<Rightarrow> 's semtest option" where
  "semtest_thread mk wait nsems nwaits initval t s =
    (case st_pcs s ! t of
      Ts_open k \<Rightarrow>
        Some (s\<lparr>st_sems := (st_sems s)[k := Some (case st_sems s ! k of None \<Rightarrow> mk initval | Some sem \<Rightarrow> sem)],
                st_pcs := (st_pcs s)[t := ts_opening nsems nwaits (k + 1)]\<rparr>)
    | Ts_wait i j \<Rightarrow>
        (case st_sems s ! j of
          None \<Rightarrow> None
        | Some sem \<Rightarrow> map_option (\<lambda>sem'. s\<lparr>st_sems := (st_sems s)[j := Some sem'],
                        st_pcs := (st_pcs s)[t := ts_enter nsems nwaits i (j + 1)]\<rparr>) (wait sem))
    | Ts_done \<Rightarrow> None)"

definition semtest_step ::
  "(nat \<Rightarrow> 's) \<Rightarrow> ('s \<Rightarrow> 's option) \<Rightarrow> nat \<Rightarrow> nat \<Rightarrow> nat \<Rightarrow> 's semtest \<Rightarrow> 's semtest \<Rightarrow> bool" where
  "semtest_step mk wait nsems nwaits initval s s' \<longleftrightarrow>
    (\<exists>t < length (st_pcs s). semtest_thread mk wait nsems nwaits initval t s = Some s')"

text \<open>\<open>main\<close> removes the semaphores that are left around and starts the threads.\<close>

definition semtest_start :: "nat \<Rightarrow> nat \<Rightarrow> nat \<Rightarrow> 's semtest" where
  "semtest_start nsems nwaits nthreads =
    \<lparr>st_sems = replicate nsems None, st_pcs = replicate nthreads (ts_opening nsems nwaits 0)\<rparr>"

definition semtest_joined :: "'s semtest \<Rightarrow> bool" where
  "semtest_joined s \<longleftrightarrow> list_all (\<lambda>pc. pc = Ts_done) (st_pcs s)"

text \<open>\<open>nwaits\<close> as \<open>main\<close> computes it.\<close>

definition semtest_nwaits :: "nat \<Rightarrow> nat \<Rightarrow> nat" where
  "semtest_nwaits initval nthreads = initval div nthreads"

section \<open>What the threads have taken\<close>

fun taken :: "nat \<Rightarrow> nat \<Rightarrow> ts_pc \<Rightarrow> int" where
  "taken nwaits j (Ts_open k) = 0"
| "taken nwaits j (Ts_wait i j') = int i + (if j < j' then 1 else 0)"
| "taken nwaits j Ts_done = int nwaits"

fun ts_left :: "nat \<Rightarrow> nat \<Rightarrow> ts_pc \<Rightarrow> int" where
  "ts_left nsems nwaits (Ts_open k) = int nsems - int k + int nwaits * int nsems"
| "ts_left nsems nwaits (Ts_wait i j) = (int nwaits - int i) * int nsems - int j"
| "ts_left nsems nwaits Ts_done = 0"

text \<open>Where a thread can be, and what it has opened by then.\<close>

fun ts_ok :: "nat \<Rightarrow> nat \<Rightarrow> 's option list \<Rightarrow> ts_pc \<Rightarrow> bool" where
  "ts_ok nsems nwaits sems (Ts_open k) = (k < nsems \<and> (\<forall>j < k. sems ! j \<noteq> None))"
| "ts_ok nsems nwaits sems (Ts_wait i j) = (i < nwaits \<and> j < nsems \<and> (\<forall>j < nsems. sems ! j \<noteq> None))"
| "ts_ok nsems nwaits sems Ts_done = (\<forall>j < nsems. sems ! j \<noteq> None)"

lemma nth_update_Some: "xs ! k \<noteq> None \<Longrightarrow> xs[j := Some x] ! k \<noteq> None"
  by (cases "j < length xs"; cases "j = k") (auto simp: list_update_beyond)

lemma ts_ok_update:
  "ts_ok nsems nwaits sems pc \<Longrightarrow> ts_ok nsems nwaits (sems[j := Some x]) pc"
  using nth_update_Some [of sems] by (cases pc) (simp_all del: not_None_eq)

lemma ts_enter_ok:
  assumes "\<forall>j < nsems. sems ! j \<noteq> None" and "j \<le> nsems" and "i \<le> nwaits"
  shows "ts_ok nsems nwaits sems (ts_enter nsems nwaits i j)"
  using assms by (auto simp: ts_enter_def)

lemma ts_enter_taken:
  assumes "i < nwaits" and "j < nsems" and "j' < nsems"
  shows "taken nwaits j' (ts_enter nsems nwaits i (j + 1)) = taken nwaits j' (Ts_wait i j) + (if j' = j then 1 else 0)"
  using assms by (auto simp: ts_enter_def)

lemma ts_enter_left:
  assumes "i < nwaits" and "j < nsems"
  shows "ts_left nsems nwaits (ts_enter nsems nwaits i (j + 1)) < ts_left nsems nwaits (Ts_wait i j)"
proof (cases "j + 1 < nsems")
  case False
  then have n: "nsems = Suc j" using assms by simp
  show ?thesis
  proof (cases "i + 1 < nwaits")
    case True
    with n show ?thesis by (simp add: ts_enter_def algebra_simps)
  next
    case False
    with assms have "nwaits = Suc i" by simp
    with n show ?thesis by (simp add: ts_enter_def)
  qed
qed (use assms in \<open>auto simp: ts_enter_def\<close>)

lemma ts_opening_left:
  "k < nsems \<Longrightarrow> ts_left nsems nwaits (ts_opening nsems nwaits (k + 1)) < ts_left nsems nwaits (Ts_open k)"
  by (auto simp: ts_opening_def ts_enter_def)

lemma ts_left_nonneg: "ts_ok nsems nwaits sems pc \<Longrightarrow> 0 \<le> ts_left nsems nwaits pc"
proof (cases pc)
  case (Ts_wait i j)
  assume ok: "ts_ok nsems nwaits sems pc"
  with Ts_wait have "1 * int nsems \<le> (int nwaits - int i) * int nsems" by (intro mult_right_mono) auto
  moreover have "int j < int nsems" using ok Ts_wait by simp
  ultimately have "int j \<le> (int nwaits - int i) * int nsems" by linarith
  then show ?thesis using Ts_wait by simp
qed auto

lemma taken_bounds: "ts_ok nsems nwaits sems pc \<Longrightarrow> 0 \<le> taken nwaits j pc \<and> taken nwaits j pc \<le> int nwaits"
  by (cases pc) auto

lemma total_le: "(\<And>p. p \<in> set ps \<Longrightarrow> f p \<le> c) \<Longrightarrow> total_of f ps \<le> int (length ps) * c"
proof (induction ps)
  case (Cons p ps)
  have "total_of f ps \<le> int (length ps) * c" and "f p \<le> c" using Cons by auto
  then show ?case by (simp add: total_of_def algebra_simps)
qed (simp add: total_of_def)

section \<open>Over any counting semaphore\<close>

locale sem_maker = counting_sem sval swait spost usable limit
  for sval :: "'s \<Rightarrow> nat" and swait spost :: "'s \<Rightarrow> 's option" and usable :: "'s \<Rightarrow> bool" and limit :: nat +
  fixes mk :: "nat \<Rightarrow> 's"
  assumes makes: "n \<le> limit \<Longrightarrow> usable (mk n) \<and> sval (mk n) = n"
begin

definition semtest_inv :: "nat \<Rightarrow> nat \<Rightarrow> nat \<Rightarrow> nat \<Rightarrow> 's semtest \<Rightarrow> bool" where
  "semtest_inv nsems nwaits nthreads initval s \<longleftrightarrow>
    length (st_sems s) = nsems \<and> length (st_pcs s) = nthreads \<and>
    (\<forall>pc \<in> set (st_pcs s). ts_ok nsems nwaits (st_sems s) pc) \<and>
    (\<forall>j < nsems. \<forall>sem. st_sems s ! j = Some sem \<longrightarrow>
      usable sem \<and> int (sval sem) = int initval - total_of (taken nwaits j) (st_pcs s))"

text \<open>While a thread is before its wait on \<open>j\<close> the semaphore is positive.\<close>

lemma semtest_positive:
  assumes inv: "semtest_inv nsems nwaits nthreads initval s" and room: "nthreads * nwaits \<le> initval"
    and t: "t < length (st_pcs s)" "st_pcs s ! t = Ts_wait i j"
  shows "\<exists>sem sem'. st_sems s ! j = Some sem \<and> swait sem = Some sem' \<and> usable sem' \<and> int (sval sem') = int (sval sem) - 1"
proof -
  have ok: "ts_ok nsems nwaits (st_sems s) (st_pcs s ! t)" using inv t(1) by (auto simp: semtest_inv_def)
  then obtain sem where sem: "st_sems s ! j = Some sem" and ij: "i < nwaits" "j < nsems" using t(2) by auto
  have val: "usable sem" "int (sval sem) = int initval - total_of (taken nwaits j) (st_pcs s)"
    using inv sem ij by (auto simp: semtest_inv_def)
  have "total_of (taken nwaits j) ((st_pcs s)[t := Ts_done]) \<le> int (length ((st_pcs s)[t := Ts_done])) * int nwaits"
    using inv by (intro total_le) (auto simp: semtest_inv_def dest!: in_set_updateD dest: taken_bounds)
  then have "total_of (taken nwaits j) (st_pcs s) + (int nwaits - int i) \<le> int (nthreads * nwaits)"
    using t inv by (simp add: total_update semtest_inv_def)
  moreover have "int (nthreads * nwaits) \<le> int initval" using room by (simp only: of_nat_le_iff)
  ultimately have "0 < sval sem" using val(2) ij(1) by linarith
  with wait_takes [OF val(1)] sem show ?thesis by auto
qed

lemma semtest_open_keeps:
  assumes inv: "semtest_inv nsems nwaits nthreads initval s" and lim: "initval \<le> limit"
    and t: "t < length (st_pcs s)" "st_pcs s ! t = Ts_open k"
  shows "semtest_inv nsems nwaits nthreads initval (the (semtest_thread mk swait nsems nwaits initval t s))"
proof -
  let ?pc = "ts_opening nsems nwaits (k + 1)"
    and ?sems = "(st_sems s)[k := Some (case st_sems s ! k of None \<Rightarrow> mk initval | Some sem \<Rightarrow> sem)]"
  have ok: "ts_ok nsems nwaits (st_sems s) (Ts_open k)" using inv t by (metis semtest_inv_def nth_mem)
  have len: "length (st_sems s) = nsems" "length (st_pcs s) = nthreads" using inv by (auto simp: semtest_inv_def)
  have upto: "?sems ! j \<noteq> None" if "j < k + 1" for j
    using ok that len by (cases "j = k") auto
  then have "ts_ok nsems nwaits ?sems ?pc"
    using ok ts_enter_ok [of nsems ?sems 0 0 nwaits] by (auto simp: ts_opening_def)
  then have pcs: "\<forall>pc \<in> set ((st_pcs s)[t := ?pc]). ts_ok nsems nwaits ?sems pc"
    using inv by (auto simp: semtest_inv_def dest!: in_set_updateD intro: ts_ok_update)
  have "taken nwaits j ?pc = 0" if "j < nsems" for j using that by (auto simp: ts_opening_def ts_enter_def)
  then have same: "total_of (taken nwaits j) ((st_pcs s)[t := ?pc]) = total_of (taken nwaits j) (st_pcs s)" if "j < nsems" for j
    using that t by (simp add: total_update)
  have none: "total_of (taken nwaits j) (st_pcs s) = 0" if "st_sems s ! j = None" "j < nsems" for j
  proof (rule total_eq_0)
    fix pc assume "pc \<in> set (st_pcs s)"
    with inv have "ts_ok nsems nwaits (st_sems s) pc" by (simp add: semtest_inv_def)
    with that show "taken nwaits j pc = 0" by (cases pc) auto
  qed
  have vals: "usable sem \<and> int (sval sem) = int initval - total_of (taken nwaits j) (st_pcs s)"
    if "j < nsems" "?sems ! j = Some sem" for j sem
    using that inv none [of k] makes [OF lim] ok len
    by (cases "j = k") (auto simp: semtest_inv_def split: option.splits)
  show ?thesis using t pcs len same vals by (simp add: semtest_inv_def semtest_thread_def)
qed

lemma semtest_wait_keeps:
  assumes inv: "semtest_inv nsems nwaits nthreads initval s" and room: "nthreads * nwaits \<le> initval"
    and t: "t < length (st_pcs s)" "st_pcs s ! t = Ts_wait i j"
  shows "\<exists>s'. semtest_thread mk swait nsems nwaits initval t s = Some s' \<and> semtest_inv nsems nwaits nthreads initval s'"
proof -
  let ?pc = "ts_enter nsems nwaits i (j + 1)"
  obtain sem sem' where sem: "st_sems s ! j = Some sem" "swait sem = Some sem'" "usable sem'" "int (sval sem') = int (sval sem) - 1"
    using semtest_positive [OF inv room t] by blast
  let ?sems = "(st_sems s)[j := Some sem']"
  have ok: "ts_ok nsems nwaits (st_sems s) (Ts_wait i j)" using inv t by (metis semtest_inv_def nth_mem)
  have len: "length (st_sems s) = nsems" "length (st_pcs s) = nthreads" using inv by (auto simp: semtest_inv_def)
  have "ts_ok nsems nwaits ?sems (Ts_wait i j)" using ok by (rule ts_ok_update)
  then have "ts_ok nsems nwaits ?sems ?pc" by (intro ts_enter_ok) auto
  then have pcs: "\<forall>pc \<in> set ((st_pcs s)[t := ?pc]). ts_ok nsems nwaits ?sems pc"
    using inv by (auto simp: semtest_inv_def dest!: in_set_updateD intro: ts_ok_update)
  have one: "total_of (taken nwaits j') ((st_pcs s)[t := ?pc]) = total_of (taken nwaits j') (st_pcs s) + (if j' = j then 1 else 0)"
    if "j' < nsems" for j'
    using that t ok ts_enter_taken [of i nwaits j nsems j'] by (simp add: total_update)
  have vals: "usable x \<and> int (sval x) = int initval - total_of (taken nwaits j') ((st_pcs s)[t := ?pc])"
    if "j' < nsems" "?sems ! j' = Some x" for j' x
    using that inv one [of j'] sem len by (cases "j' = j") (auto simp: semtest_inv_def)
  show ?thesis using t sem pcs len vals by (simp add: semtest_inv_def semtest_thread_def)
qed

text \<open>No thread waits: each that has not returned can take a step.\<close>

lemma semtest_thread_ok:
  assumes inv: "semtest_inv nsems nwaits nthreads initval s" and room: "nthreads * nwaits \<le> initval" "initval \<le> limit"
    and t: "t < length (st_pcs s)" "st_pcs s ! t \<noteq> Ts_done"
  shows "\<exists>s'. semtest_thread mk swait nsems nwaits initval t s = Some s' \<and> semtest_inv nsems nwaits nthreads initval s'"
proof (cases "st_pcs s ! t")
  case (Ts_open k)
  moreover have "semtest_thread mk swait nsems nwaits initval t s \<noteq> None" using Ts_open by (simp add: semtest_thread_def)
  ultimately show ?thesis using semtest_open_keeps [OF inv room(2) t(1)] by auto
next
  case (Ts_wait i j)
  then show ?thesis using semtest_wait_keeps [OF inv room(1) t(1)] by blast
qed (use t in simp)

definition semtest_left :: "nat \<Rightarrow> nat \<Rightarrow> 's semtest \<Rightarrow> int" where
  "semtest_left nsems nwaits s = total_of (ts_left nsems nwaits) (st_pcs s)"

lemma semtest_left_step:
  assumes inv: "semtest_inv nsems nwaits nthreads initval s" and t: "t < length (st_pcs s)"
    and step: "semtest_thread mk swait nsems nwaits initval t s = Some s'"
  shows "semtest_left nsems nwaits s' < semtest_left nsems nwaits s"
proof -
  have ok: "ts_ok nsems nwaits (st_sems s) (st_pcs s ! t)" using inv t by (auto simp: semtest_inv_def)
  show ?thesis
  proof (cases "st_pcs s ! t")
    case (Ts_open k)
    with step ok t ts_opening_left [of k nsems nwaits] show ?thesis
      by (auto simp: semtest_thread_def semtest_left_def total_update)
  next
    case (Ts_wait i j)
    with step ok t ts_enter_left [of i nwaits j nsems] show ?thesis
      by (auto simp: semtest_thread_def semtest_left_def total_update split: option.splits)
  qed (use step in \<open>simp add: semtest_thread_def\<close>)
qed

end

sublocale sem_maker \<subseteq> semtest: ending_runs
  "\<lambda>s. s = semtest_start nsems nwaits nthreads \<and> nthreads * nwaits \<le> initval \<and> initval \<le> limit"
  "semtest_step mk swait nsems nwaits initval"
  "\<lambda>s. semtest_inv nsems nwaits nthreads initval s \<and> nthreads * nwaits \<le> initval \<and> initval \<le> limit"
  "semtest_left nsems nwaits" semtest_joined for nsems nwaits nthreads initval
proof
  fix s s'
  assume inv: "semtest_inv nsems nwaits nthreads initval s \<and> nthreads * nwaits \<le> initval \<and> initval \<le> limit"
  have "0 \<le> ts_left nsems nwaits pc" if "pc \<in> set (st_pcs s)" for pc
    using that inv ts_left_nonneg [of nsems nwaits "st_sems s" pc] by (auto simp: semtest_inv_def)
  then show "0 \<le> semtest_left nsems nwaits s" by (auto simp: semtest_left_def total_of_def intro!: sum_list_nonneg)
  show "\<exists>t. semtest_step mk swait nsems nwaits initval s t" if "\<not> semtest_joined s"
    using that inv semtest_thread_ok by (fastforce simp: semtest_joined_def semtest_step_def list_all_iff in_set_conv_nth)
  assume "semtest_step mk swait nsems nwaits initval s s'"
  then obtain t where t: "t < length (st_pcs s)" "semtest_thread mk swait nsems nwaits initval t s = Some s'"
    by (auto simp: semtest_step_def)
  then have "st_pcs s ! t \<noteq> Ts_done" by (auto simp: semtest_thread_def)
  with t inv semtest_thread_ok [of nsems nwaits nthreads initval s t] semtest_left_step
  show "semtest_inv nsems nwaits nthreads initval s' \<and> nthreads * nwaits \<le> initval \<and> initval \<le> limit"
    "semtest_left nsems nwaits s' < semtest_left nsems nwaits s" by auto
next
  fix s :: "'s semtest"
  assume s: "s = semtest_start nsems nwaits nthreads \<and> nthreads * nwaits \<le> initval \<and> initval \<le> limit"
  have "ts_ok nsems nwaits (replicate nsems None :: 's option list) (ts_opening nsems nwaits 0)"
    by (auto simp: ts_opening_def ts_enter_def)
  with s show "semtest_inv nsems nwaits nthreads initval s \<and> nthreads * nwaits \<le> initval \<and> initval \<le> limit"
    by (auto simp: semtest_start_def semtest_inv_def)
qed

context sem_maker
begin

lemma semtest_runs:
  assumes "nthreads * nwaits \<le> initval" and "initval \<le> limit"
    and run: "path_steps (semtest_step mk swait nsems nwaits initval) (semtest_start nsems nwaits nthreads) ts"
    and s: "s = last (semtest_start nsems nwaits nthreads # ts)"
  shows "length ts \<le> nthreads * (nsems + nwaits * nsems) \<and>
    (\<forall>t < nthreads. st_pcs s ! t \<noteq> Ts_done \<longrightarrow> semtest_thread mk swait nsems nwaits initval t s \<noteq> None) \<and>
    (semtest_joined s \<longrightarrow> (\<forall>j < nsems. 0 < nthreads \<longrightarrow>
      (\<exists>sem. st_sems s ! j = Some sem \<and> usable sem \<and> int (sval sem) = int initval - int (nwaits * nthreads))))"
proof -
  have "ts_ok nsems nwaits (replicate nsems None :: 's option list) (ts_opening nsems nwaits 0)"
    by (auto simp: ts_opening_def ts_enter_def)
  then have "semtest_inv nsems nwaits nthreads initval (semtest_start nsems nwaits nthreads)"
    by (auto simp: semtest_start_def semtest_inv_def)
  with semtest.ends [of nsems nwaits nthreads initval "semtest_start nsems nwaits nthreads" ts] assms
  have inv: "semtest_inv nsems nwaits nthreads initval s"
    and left: "int (length ts) \<le> semtest_left nsems nwaits (semtest_start nsems nwaits nthreads)" by auto
  have "ts_left nsems nwaits (ts_opening nsems nwaits 0) \<le> int nsems + int nwaits * int nsems"
    by (auto simp: ts_opening_def ts_enter_def)
  then have "int nthreads * ts_left nsems nwaits (ts_opening nsems nwaits 0) \<le> int nthreads * (int nsems + int nwaits * int nsems)"
    by (rule mult_left_mono) simp
  with left have "int (length ts) \<le> int (nthreads * (nsems + nwaits * nsems))"
    by (simp add: semtest_left_def semtest_start_def)
  then have "length ts \<le> nthreads * (nsems + nwaits * nsems)" by (simp only: of_nat_le_iff)
  moreover have "\<forall>t < nthreads. st_pcs s ! t \<noteq> Ts_done \<longrightarrow> semtest_thread mk swait nsems nwaits initval t s \<noteq> None"
    using semtest_thread_ok [OF inv assms(1,2)] inv by (fastforce simp: semtest_inv_def)
  moreover have "\<exists>sem. st_sems s ! j = Some sem \<and> usable sem \<and> int (sval sem) = int initval - int (nwaits * nthreads)"
    if "semtest_joined s" "j < nsems" "0 < nthreads" for j
  proof -
    have pcs: "st_pcs s = replicate nthreads Ts_done"
      using that inv by (auto simp: semtest_joined_def semtest_inv_def list_all_iff intro: replicate_eqI)
    then have "ts_ok nsems nwaits (st_sems s) Ts_done" using inv that(3) by (auto simp: semtest_inv_def)
    with that(2) obtain sem where "st_sems s ! j = Some sem" by auto
    with inv that(2) pcs show ?thesis by (auto simp: semtest_inv_def)
  qed
  ultimately show ?thesis by blast
qed

end

section \<open>The two implementations\<close>

interpretation mmap_made: sem_maker "\<lambda>sem. unat (sem_count sem)" mmap_wait mmap_post "\<lambda>sem. sem_magic sem = SEM_MAGIC"
  4294967295 mysem_of
  by unfold_locales (simp add: mysem_of_def unat_of_nat)

interpretation sv_made: sem_maker sv_value sv_wait sv_post sv_usable SEMVMX sv_sem_of
  by unfold_locales (simp add: sv_sem_of_def sv_usable_def sv_value_def)

section \<open>Properties\<close>

lemma nwaits_room: "nthreads * semtest_nwaits initval nthreads \<le> initval"
  by (simp add: semtest_nwaits_def)

text \<open>
  \<open>testsem.c\<close> over both implementations, for any number of threads, of semaphores and any initial value that fits the
  implementation, under every interleaving: no thread ever waits, the run ends, and the value that
  \<open>mysem_getvalue\<close> gives for every semaphore is the one that the program announces, \<open>initval - nwaits * nthreads\<close>.
\<close>

lemma testsem_final_values:
  assumes "0 < nthreads" and "initval < 2 ^ 31" and nw: "nw = semtest_nwaits initval nthreads"
    and "path_steps (semtest_step mysem_of mmap_wait nsems nw initval) (semtest_start nsems nw nthreads) ts"
    and "s = last (semtest_start nsems nw nthreads # ts)"
    and "initval' \<le> SEMVMX" and nw': "nw' = semtest_nwaits initval' nthreads"
    and "path_steps (semtest_step sv_sem_of sv_wait nsems nw' initval') (semtest_start nsems nw' nthreads) ts'"
    and "s' = last (semtest_start nsems nw' nthreads # ts')"
  shows "(length ts \<le> nthreads * (nsems + nw * nsems) \<and>
      (\<forall>t < nthreads. st_pcs s ! t \<noteq> Ts_done \<longrightarrow> semtest_thread mysem_of mmap_wait nsems nw initval t s \<noteq> None) \<and>
      (semtest_joined s \<longrightarrow> (\<forall>j < nsems. \<exists>sem. st_sems s ! j = Some sem \<and>
        mysem_getvalue 0 sem = Inr (int initval - int (nw * nthreads))))) \<and>
    length ts' \<le> nthreads * (nsems + nw' * nsems) \<and>
    (\<forall>t < nthreads. st_pcs s' ! t \<noteq> Ts_done \<longrightarrow> semtest_thread sv_sem_of sv_wait nsems nw' initval' t s' \<noteq> None) \<and>
    (semtest_joined s' \<longrightarrow> (\<forall>j < nsems. \<exists>sem ks. st_sems s' ! j = Some (sem, ks) \<and>
      mysem_getvalue_sv sem ks = Inr (int initval' - int (nw' * nthreads))))"
proof -
  have small: "sint (sem_count sem) = int initval - int (nw * nthreads)"
    if "int (unat (sem_count sem)) = int initval - int (nw * nthreads)" for sem
  proof -
    have "int initval < 2 ^ 31" and "0 \<le> int (nw * nthreads)" using assms(2) by simp_all
    then have "int (unat (sem_count sem)) < 2 ^ 31" using that by linarith
    then have "uint (sem_count sem) < 2 ^ 31" by simp
    moreover have "- (2 ^ 31) \<le> uint (sem_count sem)" by (rule order_trans [of _ 0]) simp_all
    ultimately have "signed_take_bit 31 (uint (sem_count sem)) = uint (sem_count sem)" by (simp only: signed_take_bit_int_eq_self)
    then have "sint (sem_count sem) = uint (sem_count sem)" by (simp add: sint_uint)
    with that show ?thesis by simp
  qed
  have mval: "mysem_getvalue 0 sem = Inr (int initval - int (nw * nthreads))"
    if "sem_magic sem = SEM_MAGIC \<and> int (unat (sem_count sem)) = int initval - int (nw * nthreads)" for sem
    using small [of sem] that by (simp add: mysem_getvalue_def)
  have sval: "\<exists>sem ks. x = (sem, ks) \<and> mysem_getvalue_sv sem ks = Inr (int initval' - int (nw' * nthreads))"
    if "sv_usable x \<and> int (sv_value x) = int initval' - int (nw' * nthreads)" for x
    using that by (cases x) (auto simp: mysem_getvalue_sv_def sv_usable_def sv_value_def)
  have room: "nthreads * nw \<le> initval" "nthreads * nw' \<le> initval'" using nw nw' nwaits_room by auto
  have "initval \<le> 4294967295" using assms(2) by simp
  from mmap_made.semtest_runs [OF room(1) this assms(4,5)] sv_made.semtest_runs [OF room(2) assms(6,8,9)]
  show ?thesis using assms(1) mval sval by (intro conjI) (blast, blast, blast, blast, blast, metis)
qed

end
