(* ===== verification/Lock_Tests.thy ===== *)
theory Lock_Tests
  imports C_Text
begin

text \<open>
  Programs of \<open>src/lock\<close> over record locks of \<open>fcntl\<close> on a whole file: \<open>test1.c\<close> to \<open>test4.c\<close>, in which a parent and its
  children read-lock and write-lock one file, and \<open>onedaemon.c\<close>, in which a lock on a file keeps a second copy of a daemon
  from running. The pauses of \<open>sleep\<close> are not modelled: the statements are for every interleaving.
\<close>

section \<open>Processes that lock a file\<close>

datatype fl_mode = Fl_read | Fl_write

text \<open>
  The calls: a lock, by \<open>fcntl\<close> with \<open>F_SETLKW\<close> (it waits) or with \<open>F_SETLK\<close> (it fails), \<open>Un_lock\<close>, a line of output, \<open>Fork\<close>
  of the process with this number, \<open>exit\<close>.
\<close>

datatype fl_act = Fl_lock fl_mode bool | Fl_unlock | Fl_print string | Fl_fork nat | Fl_exit

text \<open>The lock each process holds, what it has still to do (\<open>None\<close> before it is forked), whether \<open>err_sys\<close> was called, the output.\<close>

record flocks =
  fl_held :: "fl_mode option list"
  fl_rest :: "fl_act list option list"
  fl_failed :: bool
  fl_out :: "(nat \<times> string) list"

text \<open>A lock is granted when no other process has one that conflicts.\<close>

definition fl_free :: "nat \<Rightarrow> fl_mode \<Rightarrow> fl_mode option list \<Rightarrow> bool" where
  "fl_free j w held \<longleftrightarrow>
    (\<forall>k < length held. k \<noteq> j \<longrightarrow> held ! k \<noteq> Some Fl_write \<and> (w = Fl_write \<longrightarrow> held ! k = None))"

definition fl_act_step :: "fl_act list list \<Rightarrow> nat \<Rightarrow> fl_act \<Rightarrow> fl_act list \<Rightarrow> flocks \<Rightarrow> flocks option" where
  "fl_act_step progs j a as s =
    (case a of
      Fl_lock w waits \<Rightarrow>
        if fl_free j w (fl_held s) then Some (s\<lparr>fl_held := (fl_held s)[j := Some w], fl_rest := (fl_rest s)[j := Some as]\<rparr>)
        else if waits then None
        else Some (s\<lparr>fl_held := (fl_held s)[j := None], fl_rest := (fl_rest s)[j := Some []], fl_failed := True\<rparr>)
    | Fl_unlock \<Rightarrow> Some (s\<lparr>fl_held := (fl_held s)[j := None], fl_rest := (fl_rest s)[j := Some as]\<rparr>)
    | Fl_print msg \<Rightarrow> Some (s\<lparr>fl_rest := (fl_rest s)[j := Some as], fl_out := fl_out s @ [(j, msg)]\<rparr>)
    | Fl_fork k \<Rightarrow> Some (s\<lparr>fl_rest := (fl_rest s)[j := Some as, k := Some (progs ! k)]\<rparr>)
    | Fl_exit \<Rightarrow> Some (s\<lparr>fl_held := (fl_held s)[j := None], fl_rest := (fl_rest s)[j := Some []]\<rparr>))"

definition fl_proc :: "fl_act list list \<Rightarrow> nat \<Rightarrow> flocks \<Rightarrow> flocks option" where
  "fl_proc progs j s =
    (case fl_rest s ! j of Some (a # as) \<Rightarrow> fl_act_step progs j a as s | _ \<Rightarrow> None)"

definition fl_step :: "fl_act list list \<Rightarrow> flocks \<Rightarrow> flocks \<Rightarrow> bool" where
  "fl_step progs s t \<longleftrightarrow> (\<exists>j < length progs. fl_proc progs j s = Some t)"

definition fl_start :: "fl_act list list \<Rightarrow> flocks" where
  "fl_start progs =
    \<lparr>fl_held = replicate (length progs) None, fl_rest = Some (hd progs) # replicate (length progs - 1) None,
     fl_failed = False, fl_out = []\<rparr>"

definition fl_ended :: "flocks \<Rightarrow> bool" where
  "fl_ended s \<longleftrightarrow> list_all (\<lambda>r. r = Some []) (fl_rest s)"

section \<open>The programs\<close>

definition fl_test1 :: "fl_act list list" where
  "fl_test1 =
    [[Fl_lock Fl_read False, Fl_print ''parent has read lock'', Fl_fork 1, Fl_unlock, Fl_print ''parent releases read lock'', Fl_exit],
     [Fl_lock Fl_read False, Fl_print ''child has read lock'', Fl_unlock, Fl_print ''child releases read lock'',
      Fl_lock Fl_read False, Fl_print ''child has read lock'', Fl_exit]]"

text \<open>The two children of \<open>test2.c\<close>, \<open>test3.c\<close> and \<open>test4.c\<close>, which differ in their pauses only.\<close>

definition first_child :: "fl_act list" where
  "first_child =
    [Fl_print ''first child tries to obtain write lock'', Fl_lock Fl_write True, Fl_print ''first child obtains write lock'',
     Fl_unlock, Fl_print ''first child releases write lock'', Fl_exit]"

definition second_child :: "fl_act list" where
  "second_child =
    [Fl_print ''second child tries to obtain read lock'', Fl_lock Fl_read True, Fl_print ''second child obtains read lock'',
     Fl_unlock, Fl_print ''second child releases read lock'', Fl_exit]"

definition fl_test2 :: "fl_act list list" where
  "fl_test2 =
    [[Fl_lock Fl_read False, Fl_print ''parent has read lock'', Fl_fork 1, Fl_fork 2, Fl_unlock, Fl_print ''parent releases read lock'', Fl_exit],
     first_child, second_child]"

definition fl_test3 :: "fl_act list list" where
  "fl_test3 =
    [[Fl_lock Fl_write False, Fl_print ''parent has write lock'', Fl_fork 1, Fl_fork 2, Fl_unlock, Fl_print ''parent releases write lock'', Fl_exit],
     first_child, second_child]"

definition fl_test4 :: "fl_act list list" where
  "fl_test4 = fl_test3"

section \<open>Programs that do not deadlock\<close>

text \<open>Between a lock and the unlock there is no other lock.\<close>

fun fl_shape :: "bool \<Rightarrow> fl_act list \<Rightarrow> bool" where
  "fl_shape h [] = (\<not> h)"
| "fl_shape h (Fl_lock w b # as) = (\<not> h \<and> fl_shape True as)"
| "fl_shape h (Fl_unlock # as) = fl_shape False as"
| "fl_shape h (Fl_exit # as) = (as = [])"
| "fl_shape h (_ # as) = fl_shape h as"

fun forks :: "fl_act list \<Rightarrow> nat list" where
  "forks [] = []"
| "forks (Fl_fork k # as) = k # forks as"
| "forks (_ # as) = forks as"

text \<open>The locks that may fail (\<open>F_SETLK\<close>).\<close>

fun waits_only :: "fl_act list \<Rightarrow> bool" where
  "waits_only [] = True"
| "waits_only (Fl_lock w b # as) = (b \<and> waits_only as)"
| "waits_only (_ # as) = waits_only as"

fun fails_early :: "fl_act list \<Rightarrow> bool" where
  "fails_early [] = True"
| "fails_early (Fl_fork k # as) = waits_only as"
| "fails_early (_ # as) = fails_early as"

fun reads_only :: "fl_act list \<Rightarrow> bool" where
  "reads_only [] = True"
| "reads_only (Fl_lock w b # as) = (w = Fl_read \<and> reads_only as)"
| "reads_only (_ # as) = reads_only as"

text \<open>The parent forks every child once; all locks are read locks, or only the parent, before it forks, uses one that may fail.\<close>

definition fl_program :: "fl_act list list \<Rightarrow> bool" where
  "fl_program progs \<longleftrightarrow>
    progs \<noteq> [] \<and> list_all (fl_shape False) progs \<and> forks (hd progs) = [1..<length progs] \<and>
    list_all (\<lambda>as. forks as = []) (tl progs) \<and>
    (list_all reads_only progs \<or> fails_early (hd progs) \<and> list_all waits_only (tl progs))"

text \<open>The state of one process, the locks and the forks that are left.\<close>

definition fl_excl :: "fl_mode option list \<Rightarrow> bool" where
  "fl_excl held \<longleftrightarrow> (\<forall>j < length held. held ! j = Some Fl_write \<longrightarrow> (\<forall>k < length held. k \<noteq> j \<longrightarrow> held ! k = None))"

definition fl_calm :: "fl_act list list \<Rightarrow> flocks \<Rightarrow> bool" where
  "fl_calm progs s \<longleftrightarrow>
    (if list_all reads_only progs
     then (\<forall>j < length progs. fl_held s ! j \<noteq> Some Fl_write \<and> (\<forall>as. fl_rest s ! j = Some as \<longrightarrow> reads_only as))
     else (\<forall>as. fl_rest s ! 0 = Some as \<longrightarrow>
            fails_early as \<and> (waits_only as \<or> (\<forall>j < length progs. j \<noteq> 0 \<longrightarrow> fl_rest s ! j = None))) \<and>
          (\<forall>j < length progs. j \<noteq> 0 \<longrightarrow> (\<forall>as. fl_rest s ! j = Some as \<longrightarrow> waits_only as)))"

definition fl_local :: "fl_act list list \<Rightarrow> flocks \<Rightarrow> nat \<Rightarrow> bool" where
  "fl_local progs s j \<longleftrightarrow>
    (case fl_rest s ! j of
      None \<Rightarrow> j \<noteq> 0 \<and> fl_held s ! j = None
    | Some as \<Rightarrow> fl_shape (fl_held s ! j \<noteq> None) as \<and> (j \<noteq> 0 \<longrightarrow> forks as = []))"

definition fl_inv :: "fl_act list list \<Rightarrow> flocks \<Rightarrow> bool" where
  "fl_inv progs s \<longleftrightarrow>
    fl_program progs \<and> length (fl_held s) = length progs \<and> length (fl_rest s) = length progs \<and> fl_excl (fl_held s) \<and>
    (\<forall>j < length progs. fl_local progs s j) \<and> fl_calm progs s \<and> \<not> fl_failed s \<and>
    (\<exists>as. fl_rest s ! 0 = Some as \<and> distinct (forks as) \<and> set (forks as) = {k. k < length progs \<and> fl_rest s ! k = None})"

definition fl_left :: "fl_act list list \<Rightarrow> flocks \<Rightarrow> int" where
  "fl_left progs s =
    (\<Sum>j<length progs. case fl_rest s ! j of None \<Rightarrow> int (length (progs ! j)) | Some as \<Rightarrow> int (length as))"

lemma fl_tests_program: "fl_program fl_test1" "fl_program fl_test2" "fl_program fl_test3" "fl_program fl_test4"
  by (simp_all add: fl_program_def fl_test1_def fl_test2_def fl_test3_def fl_test4_def first_child_def second_child_def
      upt_rec [of 1] numeral_2_eq_2 numeral_3_eq_3)

lemma fl_start_inv:
  assumes "fl_program progs"
  shows "fl_inv progs (fl_start progs)"
proof -
  obtain p ps where progs: "progs = p # ps" using assms by (cases progs) (auto simp: fl_program_def)
  have rest: "fl_rest (fl_start progs) ! j = (if j = 0 then Some p else None)" if "j < length progs" for j
    using that progs by (cases j) (auto simp: fl_start_def)
  have "forks p = [1..<length progs]" using assms progs by (simp add: fl_program_def)
  then have forks: "distinct (forks p)" "set (forks p) = {k. k < length progs \<and> fl_rest (fl_start progs) ! k = None}"
    using rest by (auto split: if_splits)
  have parts: "fl_shape False p" "list_all reads_only progs \<or> fails_early p" "\<forall>x \<in> set progs. list_all reads_only progs \<longrightarrow> reads_only x"
    using assms progs by (auto simp: fl_program_def list_all_iff)
  have held: "fl_held (fl_start progs) = replicate (length progs) None" by (simp add: fl_start_def)
  then have "fl_excl (fl_held (fl_start progs))" by (simp add: fl_excl_def)
  moreover have "fl_local progs (fl_start progs) j" if "j < length progs" for j
    using that rest [of j] parts(1) by (auto simp: fl_local_def held)
  moreover have "fl_calm progs (fl_start progs)" using rest parts held progs by (auto simp: fl_calm_def)
  ultimately show ?thesis using assms forks rest [of 0] progs by (simp add: fl_inv_def fl_start_def)
qed

text \<open>What a step leaves of the program of a process.\<close>

definition fl_suffix :: "fl_act list \<Rightarrow> fl_act list \<Rightarrow> bool" where
  "fl_suffix as bs \<longleftrightarrow> forks bs = forks as \<and> (reads_only as \<longrightarrow> reads_only bs) \<and> (waits_only as \<longrightarrow> waits_only bs) \<and>
    (fails_early as \<longrightarrow> fails_early bs)"

lemma fl_update:
  assumes inv: "fl_inv progs s" and j: "j < length progs" "fl_rest s ! j = Some as"
    and suf: "fl_suffix as bs" and shape: "fl_shape (h \<noteq> None) bs" and excl: "fl_excl ((fl_held s)[j := h])"
    and w: "list_all reads_only progs \<Longrightarrow> h \<noteq> Some Fl_write"
    and s': "fl_held s' = (fl_held s)[j := h]" "fl_rest s' = (fl_rest s)[j := Some bs]" "fl_failed s' = fl_failed s"
  shows "fl_inv progs s'"
proof -
  have len: "length (fl_held s') = length progs" "length (fl_rest s') = length progs" using inv s' by (auto simp: fl_inv_def)
  have upd: "fl_rest s' ! k = (if k = j then Some bs else fl_rest s ! k)" "fl_held s' ! k = (if k = j then h else fl_held s ! k)"
    if "k < length progs" for k using that len s' by auto
  have loc: "fl_local progs s' k" if "k < length progs" for k
  proof -
    have "fl_local progs s k" "fl_local progs s j" using inv that j by (auto simp: fl_inv_def)
    then show ?thesis using upd [OF that] j suf shape by (cases "k = j") (simp_all add: fl_local_def fl_suffix_def cong: option.case_cong)
  qed
  have pos: "0 < length progs" using j by auto
  have calm: "fl_calm progs s'"
  proof (cases "list_all reads_only progs")
    case True
    then show ?thesis using inv upd w suf j by (auto simp: fl_inv_def fl_calm_def fl_suffix_def)
  next
    case False
    have c: "fl_calm progs s" using inv by (simp add: fl_inv_def)
    show ?thesis
    proof (cases "j = 0")
      case True
      with c False upd upd [OF pos] j suf show ?thesis by (auto simp: fl_calm_def fl_suffix_def)
    next
      case other: False
      with c False upd upd [OF pos] j suf show ?thesis by (auto simp: fl_calm_def fl_suffix_def)
    qed
  qed
  obtain p where p: "fl_rest s ! 0 = Some p" "distinct (forks p)" "set (forks p) = {k. k < length progs \<and> fl_rest s ! k = None}"
    using inv by (auto simp: fl_inv_def)
  have same: "{k. k < length progs \<and> fl_rest s' ! k = None} = {k. k < length progs \<and> fl_rest s ! k = None}"
    using upd j by (auto split: if_splits)
  have "\<exists>p'. fl_rest s' ! 0 = Some p' \<and> forks p' = forks p"
    using upd(1) [OF pos] p(1) j(2) suf by (cases "j = 0") (simp_all add: fl_suffix_def)
  with p same have "\<exists>as. fl_rest s' ! 0 = Some as \<and> distinct (forks as) \<and> set (forks as) = {k. k < length progs \<and> fl_rest s' ! k = None}"
    by auto
  with inv len loc calm excl s' show ?thesis by (simp add: fl_inv_def)
qed

lemma fl_exclI:
  "(\<And>a b. a < length held \<Longrightarrow> b < length held \<Longrightarrow> b \<noteq> a \<Longrightarrow> held ! a = Some Fl_write \<Longrightarrow> held ! b = None) \<Longrightarrow> fl_excl held"
  unfolding fl_excl_def by blast

lemma fl_exclD:
  "fl_excl held \<Longrightarrow> a < length held \<Longrightarrow> b < length held \<Longrightarrow> b \<noteq> a \<Longrightarrow> held ! a = Some Fl_write \<Longrightarrow> held ! b = None"
  unfolding fl_excl_def by blast

lemma fl_free_excl:
  assumes "fl_excl held" and free: "fl_free j w held" and j: "j < length held"
  shows "fl_excl (held[j := Some w])"
proof (rule fl_exclI)
  fix a b
  assume ab: "a < length (held[j := Some w])" "b < length (held[j := Some w])" "b \<noteq> a" "held[j := Some w] ! a = Some Fl_write"
  show "held[j := Some w] ! b = None"
  proof (cases "a = j")
    case True
    with ab j free show ?thesis by (simp add: fl_free_def)
  next
    case False
    with ab free show ?thesis by (simp add: fl_free_def)
  qed
qed

lemma fl_none_excl:
  assumes "fl_excl held" and j: "j < length held"
  shows "fl_excl (held[j := None])"
proof (rule fl_exclI)
  fix a b
  assume ab: "a < length (held[j := None])" "b < length (held[j := None])" "b \<noteq> a" "held[j := None] ! a = Some Fl_write"
  then have "a \<noteq> j" using j by auto
  with ab fl_exclD [OF assms(1), of a b] show "held[j := None] ! b = None" by (cases "b = j") simp_all
qed

text \<open>A call that may fail does not: nobody has a lock in the way.\<close>

lemma fl_granted:
  assumes inv: "fl_inv progs s" and j: "j < length progs" "fl_rest s ! j = Some (Fl_lock w False # as)"
  shows "fl_free j w (fl_held s)"
proof -
  have c: "fl_calm progs s" and len: "length (fl_held s) = length progs" and loc: "\<forall>k < length progs. fl_local progs s k"
    using inv by (auto simp: fl_inv_def)
  show ?thesis
  proof (cases "list_all reads_only progs")
    case True
    then have "w = Fl_read" "\<forall>k < length progs. fl_held s ! k \<noteq> Some Fl_write" using c j by (auto simp: fl_calm_def)
    then show ?thesis by (simp add: fl_free_def len)
  next
    case False
    then have zero: "j = 0" using c j by (auto simp: fl_calm_def)
    then have "\<forall>k < length progs. k \<noteq> 0 \<longrightarrow> fl_rest s ! k = None" using c j False by (auto simp: fl_calm_def)
    then have "fl_held s ! k = None" if "k < length progs" "k \<noteq> 0" for k using that loc by (auto simp: fl_local_def)
    then show ?thesis using zero by (auto simp: fl_free_def len)
  qed
qed

lemma fl_fork_keeps:
  assumes inv: "fl_inv progs s" and j: "j < length progs" "fl_rest s ! j = Some (Fl_fork k # as)"
  shows "fl_inv progs (s\<lparr>fl_rest := (fl_rest s)[j := Some as, k := Some (progs ! k)]\<rparr>)"
    and "fl_rest s ! k = None" and "k < length progs" and "k \<noteq> j"
proof -
  have len: "length (fl_held s) = length progs" "length (fl_rest s) = length progs" and prog: "fl_program progs"
    and c: "fl_calm progs s" and loc: "fl_local progs s i" if "i < length progs" for i
    using inv that by (auto simp: fl_inv_def)
  have zero: "j = 0" using inv j by (auto simp: fl_inv_def fl_local_def)
  then have f: "distinct (k # forks as)" "set (k # forks as) = {k. k < length progs \<and> fl_rest s ! k = None}"
    using inv j by (auto simp: fl_inv_def)
  then show k: "fl_rest s ! k = None" "k < length progs" by auto
  then show kj: "k \<noteq> j" using j by auto
  define s' where "s' = s\<lparr>fl_rest := (fl_rest s)[j := Some as, k := Some (progs ! k)]\<rparr>"
  have upd: "fl_rest s' ! i = (if i = k then Some (progs ! k) else if i = j then Some as else fl_rest s ! i)" "fl_held s' ! i = fl_held s ! i"
    if "i < length progs" for i using that inv by (auto simp: s'_def fl_inv_def nth_list_update)
  have kid: "fl_shape False (progs ! k)" "forks (progs ! k) = []" "list_all reads_only progs \<Longrightarrow> reads_only (progs ! k)"
    "\<not> list_all reads_only progs \<Longrightarrow> waits_only (progs ! k)"
    using inv k(2) kj zero by (cases progs; auto simp: fl_inv_def fl_program_def list_all_length nth_Cons')+
  have heldk: "fl_held s ! k = None" using inv k by (auto simp: fl_inv_def fl_local_def)
  have "fl_local progs s' i" if "i < length progs" for i
  proof -
    have "fl_local progs s i" "fl_local progs s j" using inv that j by (auto simp: fl_inv_def)
    then show ?thesis using upd [OF that] j kid heldk zero
      by (cases "i = k"; cases "i = j") (auto simp: fl_local_def cong: option.case_cong)
  qed
  moreover have "fl_calm progs s'"
  proof (cases "list_all reads_only progs")
    case True
    with inv upd kid(3) j show ?thesis by (auto simp: fl_inv_def fl_calm_def)
  next
    case False
    have "waits_only as" "\<forall>i < length progs. i \<noteq> 0 \<longrightarrow> (\<forall>as. fl_rest s ! i = Some as \<longrightarrow> waits_only as)"
      using inv False j zero by (auto simp: fl_inv_def fl_calm_def)
    moreover from this(1) have "fails_early as" by (induction as rule: fails_early.induct) auto
    ultimately show ?thesis using False upd kid(4) zero kj j(1) by (auto simp: fl_calm_def)
  qed
  moreover have "\<exists>as. fl_rest s' ! 0 = Some as \<and> distinct (forks as) \<and> set (forks as) = {k. k < length progs \<and> fl_rest s' ! k = None}"
  proof -
    have "fl_rest s' ! 0 = Some as" using upd [OF j(1)] zero kj by simp
    moreover have "set (forks as) = {i. i < length progs \<and> fl_rest s' ! i = None}"
    proof -
      have "set (forks as) = {i. i < length progs \<and> fl_rest s ! i = None} - {k}" using f by auto
      also have "\<dots> = {i. i < length progs \<and> fl_rest s' ! i = None}" using upd j by (auto split: if_splits)
      finally show ?thesis .
    qed
    ultimately show ?thesis using f by simp
  qed
  ultimately have "fl_inv progs s'" using inv by (simp add: fl_inv_def s'_def)
  then show "fl_inv progs (s\<lparr>fl_rest := (fl_rest s)[j := Some as, k := Some (progs ! k)]\<rparr>)" by (simp add: s'_def)
qed

lemma fl_act_keeps:
  assumes inv: "fl_inv progs s" and j: "j < length progs" "fl_rest s ! j = Some (a # as)"
    and step: "fl_act_step progs j a as s = Some t"
  shows "fl_inv progs t"
proof -
  have len: "length (fl_held s) = length progs" and excl: "fl_excl (fl_held s)" and loc: "fl_local progs s j" and calm: "fl_calm progs s"
    using inv j by (auto simp: fl_inv_def)
  have shape: "fl_shape (fl_held s ! j \<noteq> None) (a # as)" using loc j by (simp add: fl_local_def)
  note upd = fl_update [OF inv j]
  show ?thesis
  proof (cases a)
    case (Fl_lock w b)
    have "fl_free j w (fl_held s)"
      using step fl_granted [OF inv j(1), of w as] j Fl_lock by (cases b) (auto simp: fl_act_step_def split: if_splits)
    moreover have "w \<noteq> Fl_write" if "list_all reads_only progs" using that calm j Fl_lock by (auto simp: fl_calm_def)
    ultimately show ?thesis
      using step Fl_lock shape len excl j
      by (intro upd [where bs = as and h = "Some w"]) (auto simp: fl_act_step_def fl_suffix_def intro: fl_free_excl)
  next
    case Fl_unlock
    with step shape len excl j show ?thesis
      by (intro upd [where bs = as and h = None]) (auto simp: fl_act_step_def fl_suffix_def intro: fl_none_excl)
  next
    case (Fl_print msg)
    have "(fl_held s)[j := fl_held s ! j] = fl_held s" by simp
    moreover have "fl_held s ! j \<noteq> Some Fl_write" if "list_all reads_only progs" using that calm j by (auto simp: fl_calm_def)
    ultimately show ?thesis using Fl_print step shape len excl j
      by (intro upd [where bs = as and h = "fl_held s ! j"]) (auto simp: fl_act_step_def fl_suffix_def)
  next
    case (Fl_fork k)
    with step fl_fork_keeps(1) [OF inv j(1), of k as] j show ?thesis by (auto simp: fl_act_step_def)
  next
    case Fl_exit
    with shape have "as = []" by simp
    with Fl_exit step len excl j show ?thesis
      by (intro upd [where bs = "[]" and h = None]) (auto simp: fl_act_step_def fl_suffix_def intro: fl_none_excl)
  qed
qed

lemma fl_step_cases:
  assumes "fl_step progs s t"
  obtains j a as where "j < length progs" "fl_rest s ! j = Some (a # as)" "fl_act_step progs j a as s = Some t"
proof -
  from assms obtain j where "j < length progs" "fl_proc progs j s = Some t" by (auto simp: fl_step_def)
  then show thesis by (cases "fl_rest s ! j"; cases "the (fl_rest s ! j)") (auto simp: fl_proc_def intro: that)
qed

lemma fl_keeps: "fl_inv progs s \<Longrightarrow> fl_step progs s t \<Longrightarrow> fl_inv progs t"
  by (erule fl_step_cases) (rule fl_act_keeps)

lemma sum_update:
  fixes f g :: "nat \<Rightarrow> int"
  assumes "j < n" and "\<And>k. k < n \<Longrightarrow> k \<noteq> j \<Longrightarrow> g k = f k" and "g j < f j"
  shows "(\<Sum>k<n. g k) < (\<Sum>k<n. f k)"
  by (rule sum_strict_mono_ex1) (use assms in \<open>auto simp: le_less\<close>)

lemma fl_left_step:
  assumes inv: "fl_inv progs s" and "fl_step progs s t"
  shows "fl_left progs t < fl_left progs s"
proof -
  obtain j a as where j: "j < length progs" "fl_rest s ! j = Some (a # as)" and step: "fl_act_step progs j a as s = Some t"
    using assms(2) by (rule fl_step_cases)
  have len: "length (fl_rest s) = length progs" using inv by (simp add: fl_inv_def)
  show ?thesis
  proof (cases "\<exists>k. a = Fl_fork k")
    case True
    then obtain k where k: "a = Fl_fork k" by blast
    note f = fl_fork_keeps(2-4) [OF inv j(1), of k as]
    show ?thesis unfolding fl_left_def
      by (rule sum_update [OF j(1)]) (use step k j f len in \<open>auto simp: fl_act_step_def nth_list_update\<close>)
  next
    case False
    then obtain bs where "fl_rest t = (fl_rest s)[j := Some bs]" "length bs \<le> length as"
      using step by (cases a) (auto simp: fl_act_step_def split: if_splits)
    then show ?thesis unfolding fl_left_def
      by (intro sum_update [OF j(1)]) (use j len in \<open>auto simp: nth_list_update\<close>)
  qed
qed

text \<open>A process that holds a lock does not wait; when nobody holds one, nobody waits.\<close>

lemma fl_goes_on:
  assumes inv: "fl_inv progs s" and "\<not> fl_ended s"
  shows "\<exists>t. fl_step progs s t"
proof -
  have len: "length (fl_held s) = length progs" "length (fl_rest s) = length progs" and loc: "\<And>j. j < length progs \<Longrightarrow> fl_local progs s j"
    using inv by (auto simp: fl_inv_def)
  have go: "\<exists>t. fl_step progs s t" if "j < length progs" "fl_rest s ! j = Some (a # as)"
    "\<And>w b. a = Fl_lock w b \<Longrightarrow> fl_free j w (fl_held s)" for j a as
  proof -
    have "fl_proc progs j s \<noteq> None" using that by (cases a) (auto simp: fl_proc_def fl_act_step_def)
    then show ?thesis using that(1) by (auto simp: fl_step_def)
  qed
  show ?thesis
  proof (cases "\<exists>j < length progs. fl_held s ! j \<noteq> None")
    case True
    then obtain j where j: "j < length progs" "fl_held s ! j \<noteq> None" by blast
    with loc [OF j(1)] obtain as where as: "fl_rest s ! j = Some as" "fl_shape True as" by (auto simp: fl_local_def split: option.splits)
    then obtain a bs where ab: "as = a # bs" by (cases as) auto
    with as(2) have "\<forall>w b. a \<noteq> Fl_lock w b" by (cases a) auto
    with ab as go [OF j(1), of a bs] show ?thesis by auto
  next
    case False
    then have free: "fl_free j w (fl_held s)" for j w by (auto simp: fl_free_def len)
    have "\<exists>j < length progs. \<exists>a as. fl_rest s ! j = Some (a # as)"
    proof (rule ccontr)
      assume none: "\<not> ?thesis"
      then have ended: "fl_rest s ! j = None \<or> fl_rest s ! j = Some []" if "j < length progs" for j
        using that by (metis list.exhaust option.exhaust)
      moreover have "0 < length progs" using inv by (auto simp: fl_inv_def fl_program_def)
      moreover obtain as where "fl_rest s ! 0 = Some as" using inv by (auto simp: fl_inv_def)
      ultimately have "fl_rest s ! 0 = Some []" using ended [of 0] by auto
      then have "fl_rest s ! j \<noteq> None" if "j < length progs" for j using inv that by (auto simp: fl_inv_def)
      with ended have "fl_ended s" using len by (auto simp: fl_ended_def list_all_length)
      with assms(2) show False by simp
    qed
    with go free show ?thesis by blast
  qed
qed

text \<open>The lines of a process are those of its program, in its order.\<close>

fun fl_lines :: "fl_act list \<Rightarrow> string list" where
  "fl_lines [] = []"
| "fl_lines (Fl_print msg # as) = msg # fl_lines as"
| "fl_lines (_ # as) = fl_lines as"

definition fl_said :: "nat \<Rightarrow> flocks \<Rightarrow> string list" where
  "fl_said j s = map snd (filter (\<lambda>p. fst p = j) (fl_out s))"

definition fl_wrote :: "fl_act list list \<Rightarrow> flocks \<Rightarrow> bool" where
  "fl_wrote progs s \<longleftrightarrow>
    (\<forall>j < length progs. fl_said j s @ fl_lines (case fl_rest s ! j of None \<Rightarrow> progs ! j | Some as \<Rightarrow> as) = fl_lines (progs ! j))"

lemma fl_wrote_keeps:
  assumes inv: "fl_inv progs s" and wrote: "fl_wrote progs s" and "fl_step progs s t"
  shows "fl_wrote progs t"
proof -
  obtain j a as where j: "j < length progs" "fl_rest s ! j = Some (a # as)" and step: "fl_act_step progs j a as s = Some t"
    using assms(3) by (rule fl_step_cases)
  have len: "length (fl_rest s) = length progs" and loc: "fl_local progs s j" using inv j by (auto simp: fl_inv_def)
  show ?thesis
  proof (cases "\<exists>k. a = Fl_fork k")
    case True
    then obtain k where k: "a = Fl_fork k" by blast
    note f = fl_fork_keeps(2-4) [OF inv j(1), of k as]
    have "fl_said i s @ fl_lines (case fl_rest s ! i of None \<Rightarrow> progs ! i | Some as \<Rightarrow> as) = fl_lines (progs ! i)"
      if "i < length progs" for i using wrote that by (simp add: fl_wrote_def)
    note each = this [of j] this [of k] this
    have t: "t = s\<lparr>fl_rest := (fl_rest s)[j := Some as, k := Some (progs ! k)]\<rparr>" using step k by (simp add: fl_act_step_def)
    show ?thesis unfolding fl_wrote_def
    proof (intro allI impI)
      fix i assume "i < length progs"
      then show "fl_said i t @ fl_lines (case fl_rest t ! i of None \<Rightarrow> progs ! i | Some as \<Rightarrow> as) = fl_lines (progs ! i)"
        using each j k f len by (cases "i = j"; cases "i = k") (simp_all add: fl_said_def t)
    qed
  next
    case False
    have "fl_rest t = (fl_rest s)[j := Some as] \<and>
        fl_out t = fl_out s @ (case a of Fl_print msg \<Rightarrow> [(j, msg)] | _ \<Rightarrow> [])"
      using False step loc j fl_granted [OF inv j(1)]
      by (cases a) (auto simp: fl_act_step_def fl_local_def split: if_splits)
    then show ?thesis using wrote j len False
      by (cases a) (auto simp: fl_wrote_def fl_said_def nth_list_update)
  qed
qed

interpretation fl: ending_runs "\<lambda>s. s = fl_start progs \<and> fl_program progs" "fl_step progs"
  "\<lambda>s. fl_inv progs s \<and> fl_wrote progs s" "fl_left progs" fl_ended
  for progs
proof
  show "0 \<le> fl_left progs s" for s by (auto simp: fl_left_def intro!: sum_nonneg split: option.split)
  show "fl_inv progs s \<and> fl_wrote progs s" if "s = fl_start progs \<and> fl_program progs" for s
    using that fl_start_inv [of progs] by (cases progs) (auto simp: fl_wrote_def fl_said_def fl_start_def nth_Cons')
qed (auto simp: fl_left_step fl_goes_on intro: fl_keeps fl_wrote_keeps)

section \<open>One daemon\<close>

text \<open>
  \<open>onedaemon.c\<close>: any number of copies, each started and killed at any time. A copy opens the file, tries to lock it, and
  quits when another has the lock; else it cuts the file to length 0, writes its process id and pauses.
\<close>

datatype od_pc = Od_open | Od_lock | Od_trunc | Od_write | Od_pause | Od_quit | Od_killed

record onedaemon =
  od_file :: "byte list"
  od_holder :: "nat option"
  od_pcs :: "od_pc list"

definition od_line :: "nat \<Rightarrow> byte list" where
  "od_line pid = dec pid @ [10]"

text \<open>\<open>Write\<close> at the offset 0 of a descriptor that was not used before.\<close>

definition od_proc :: "(nat \<Rightarrow> nat) \<Rightarrow> nat \<Rightarrow> onedaemon \<Rightarrow> onedaemon option" where
  "od_proc pid j s =
    (let go = (\<lambda>pc. (od_pcs s)[j := pc]) in
     case od_pcs s ! j of
       Od_open \<Rightarrow> Some (s\<lparr>od_pcs := go Od_lock\<rparr>)
     | Od_lock \<Rightarrow> if od_holder s = None then Some (s\<lparr>od_holder := Some j, od_pcs := go Od_trunc\<rparr>) else Some (s\<lparr>od_pcs := go Od_quit\<rparr>)
     | Od_trunc \<Rightarrow> Some (s\<lparr>od_file := [], od_pcs := go Od_write\<rparr>)
     | Od_write \<Rightarrow> Some (s\<lparr>od_file := od_line (pid j) @ drop (length (od_line (pid j))) (od_file s), od_pcs := go Od_pause\<rparr>)
     | _ \<Rightarrow> None)"

text \<open>A signal ends a copy; its lock goes with it.\<close>

definition od_kill :: "nat \<Rightarrow> onedaemon \<Rightarrow> onedaemon" where
  "od_kill j s = s\<lparr>od_holder := (if od_holder s = Some j then None else od_holder s), od_pcs := (od_pcs s)[j := Od_killed]\<rparr>"

definition od_step :: "(nat \<Rightarrow> nat) \<Rightarrow> onedaemon \<Rightarrow> onedaemon \<Rightarrow> bool" where
  "od_step pid s t \<longleftrightarrow> (\<exists>j < length (od_pcs s). od_proc pid j s = Some t \<or> t = od_kill j s)"

definition od_start :: "byte list \<Rightarrow> nat \<Rightarrow> onedaemon" where
  "od_start old n = \<lparr>od_file = old, od_holder = None, od_pcs = replicate n Od_open\<rparr>"

fun od_inside :: "od_pc \<Rightarrow> bool" where
  "od_inside Od_trunc = True"
| "od_inside Od_write = True"
| "od_inside Od_pause = True"
| "od_inside _ = False"

definition od_inv :: "(nat \<Rightarrow> nat) \<Rightarrow> onedaemon \<Rightarrow> bool" where
  "od_inv pid s \<longleftrightarrow>
    (\<forall>j < length (od_pcs s).
      (od_inside (od_pcs s ! j) \<longleftrightarrow> od_holder s = Some j) \<and>
      (od_pcs s ! j = Od_write \<longrightarrow> od_file s = []) \<and> (od_pcs s ! j = Od_pause \<longrightarrow> od_file s = od_line (pid j))) \<and>
    (\<forall>j. od_holder s = Some j \<longrightarrow> j < length (od_pcs s))"

lemma od_update:
  assumes inv: "od_inv pid s" and j: "j < length (od_pcs s)"
    and t: "od_pcs t = (od_pcs s)[j := pc]" "od_holder t = h" "od_file t = f"
    and h: "od_inside pc \<longleftrightarrow> h = Some j" "\<And>k. k \<noteq> j \<Longrightarrow> h = Some k \<longleftrightarrow> od_holder s = Some k"
    and f: "pc = Od_write \<Longrightarrow> f = []" "pc = Od_pause \<Longrightarrow> f = od_line (pid j)" "f = od_file s \<or> od_holder s = Some j"
  shows "od_inv pid t"
proof -
  have old: "od_inside (od_pcs s ! k) \<longleftrightarrow> od_holder s = Some k" "od_pcs s ! k = Od_write \<Longrightarrow> od_file s = []"
    "od_pcs s ! k = Od_pause \<Longrightarrow> od_file s = od_line (pid k)" if "k < length (od_pcs s)" for k using inv that by (auto simp: od_inv_def)
  have "f = od_file s" if "k < length (od_pcs s)" "k \<noteq> j" "od_pcs s ! k = Od_write \<or> od_pcs s ! k = Od_pause" for k
    using old(1) [OF that(1)] that f(3) by auto
  with old have "(od_inside (od_pcs t ! k) \<longleftrightarrow> h = Some k) \<and> (od_pcs t ! k = Od_write \<longrightarrow> f = []) \<and>
      (od_pcs t ! k = Od_pause \<longrightarrow> f = od_line (pid k))" if "k < length (od_pcs s)" for k
    using that j h(1) h(2) [of k] f(1,2) by (cases "k = j") (auto simp: t)
  moreover have "k < length (od_pcs s)" if "h = Some k" for k
    using that j h(2) [of k] inv by (cases "k = j") (auto simp: od_inv_def)
  ultimately show ?thesis by (simp add: od_inv_def t)
qed

lemma od_proc_keeps:
  assumes inv: "od_inv pid s" and j: "j < length (od_pcs s)" and step: "od_proc pid j s = Some t"
  shows "od_inv pid t"
proof -
  have at_j: "od_inside (od_pcs s ! j) \<longleftrightarrow> od_holder s = Some j" "od_pcs s ! j = Od_write \<Longrightarrow> od_file s = []"
    using inv j by (auto simp: od_inv_def)
  note upd = od_update [OF inv j, OF _ refl refl]
  show ?thesis
  proof (cases "od_pcs s ! j")
    case Od_lock
    then show ?thesis using step at_j
      by (cases "od_holder s") (auto simp: od_proc_def intro: upd [where pc = Od_trunc] upd [where pc = Od_quit])
  qed (use step at_j in \<open>auto simp: od_proc_def intro: upd\<close>)
qed

lemma od_kill_keeps: "od_inv pid s \<Longrightarrow> j < length (od_pcs s) \<Longrightarrow> od_inv pid (od_kill j s)"
  by (rule od_update [OF _ _ _ refl refl, where pc = Od_killed]) (auto simp: od_kill_def)

interpretation daemon: inductive_invariant "\<lambda>s. s = od_start old n" "od_step pid" "od_inv pid" for old n pid
proof
  show "od_inv pid s" if "s = od_start old n" for s using that by (auto simp: od_start_def od_inv_def)
  show "od_inv pid t" if "od_inv pid s" "od_step pid s t" for s t
    using that od_proc_keeps od_kill_keeps by (auto simp: od_step_def)
qed

section \<open>Properties\<close>

text \<open>
  Each of \<open>test1.c\<close> to \<open>test4.c\<close>, run for any pauses: at every moment a process that has a write lock is the only one with
  a lock, and no call that does not wait fails; no run is longer than the calls of its processes, and a run that cannot go on has
  ended, each process with all its lines written in their order.
\<close>

lemma lock_tests_end:
  assumes "progs \<in> {fl_test1, fl_test2, fl_test3, fl_test4}" and "path_steps (fl_step progs) (fl_start progs) ts"
  defines "s \<equiv> last (fl_start progs # ts)"
  shows "(fl_held s ! j = Some Fl_write \<and> j < length progs \<and> k < length progs \<and> k \<noteq> j \<longrightarrow> fl_held s ! k = None) \<and>
    \<not> fl_failed s \<and> int (length ts) \<le> fl_left progs (fl_start progs) \<and>
    (fl_ended s \<and> (\<forall>i < length progs. fl_said i s = fl_lines (progs ! i)) \<or> (\<exists>t. fl_step progs s t))"
proof -
  have "fl_program progs" using assms(1) fl_tests_program by auto
  then have start: "fl_inv progs (fl_start progs) \<and> fl_wrote progs (fl_start progs)" by (intro fl.inv_start) simp
  note run = fl.ends [OF start assms(2), folded s_def]
  then have len: "length (fl_held s) = length progs" "length (fl_rest s) = length progs" "fl_excl (fl_held s)" "\<not> fl_failed s"
    by (auto simp: fl_inv_def)
  have "fl_said i s = fl_lines (progs ! i)" if "fl_ended s" "i < length progs" for i
    using that run len by (simp add: fl_wrote_def fl_ended_def list_all_length)
  with run len fl_exclD [OF len(3), of j k] show ?thesis by auto
qed

text \<open>
  C24. \<open>onedaemon.c\<close>, with any number of copies started and killed in any order and any contents of the old file: two copies
  are never both past the lock; while one pauses the file is the line with its process id and nothing else; a copy that tries
  the lock goes on if no copy is past it, and quits if one is.
\<close>

theorem onedaemon_alone:
  assumes "reach (\<lambda>s. s = od_start old n) (od_step pid) s" and "j < length (od_pcs s)" and "k < length (od_pcs s)"
  shows "(od_inside (od_pcs s ! j) \<and> od_inside (od_pcs s ! k) \<longrightarrow> j = k) \<and>
    (od_pcs s ! j = Od_pause \<longrightarrow> od_file s = dec (pid j) @ [10]) \<and>
    (od_pcs s ! j = Od_lock \<longrightarrow>
      map_option (\<lambda>t. od_pcs t ! j) (od_proc pid j s) =
        Some (if \<exists>i < length (od_pcs s). od_inside (od_pcs s ! i) then Od_quit else Od_trunc))"
proof -
  have inv: "od_inv pid s" using assms(1) by (rule daemon.inv_reach)
  then have inside: "od_inside (od_pcs s ! i) \<longleftrightarrow> od_holder s = Some i" if "i < length (od_pcs s)" for i
    using that by (simp add: od_inv_def)
  have held: "(\<exists>i < length (od_pcs s). od_inside (od_pcs s ! i)) \<longleftrightarrow> od_holder s \<noteq> None"
    using inv inside by (auto simp: od_inv_def)
  show ?thesis
    using inv inside [OF assms(2)] inside [OF assms(3)] held assms(2) by (auto simp: od_inv_def od_line_def od_proc_def)
qed

theorem onedaemon_alone_witness:
  "od_file (the (od_proc (\<lambda>j. 71 + j) 0 (the (od_proc (\<lambda>j. 71 + j) 0 (the (od_proc (\<lambda>j. 71 + j) 0
     (the (od_proc (\<lambda>j. 71 + j) 0 (od_start [49, 50, 51, 52, 10] 2))))))))) = dec 71 @ [10]"
proof -
  let ?old = "[49, 50, 51, 52, 10]" and ?pid = "\<lambda>j. 71 + j"
  let ?s = "\<lambda>f pcs h. \<lparr>od_file = f, od_holder = h, od_pcs = pcs\<rparr>"
  let ?paused = "?s (od_line 71) [Od_pause, Od_open] (Some 0)"
  have step: "od_proc ?pid 0 (?s ?old [Od_open, Od_open] None) = Some (?s ?old [Od_lock, Od_open] None)"
    "od_proc ?pid 0 (?s ?old [Od_lock, Od_open] None) = Some (?s ?old [Od_trunc, Od_open] (Some 0))"
    "od_proc ?pid 0 (?s ?old [Od_trunc, Od_open] (Some 0)) = Some (?s [] [Od_write, Od_open] (Some 0))"
    "od_proc ?pid 0 (?s [] [Od_write, Od_open] (Some 0)) = Some ?paused"
    by (simp_all add: od_proc_def)
  have start: "od_start ?old 2 = ?s ?old [Od_open, Od_open] None" by (simp add: od_start_def numeral_2_eq_2)
  let ?r = "reach (\<lambda>s. s = od_start ?old 2) (od_step ?pid)"
  have next_state: "?r t" if "?r s" "od_proc ?pid 0 s = Some t" "0 < length (od_pcs s)" for s t
    by (rule reach.intros(2) [OF that(1)]) (use that in \<open>auto simp: od_step_def\<close>)
  have "?r (od_start ?old 2)" by (rule reach.intros(1)) simp
  then have "?r (?s ?old [Od_open, Od_open] None)" by (simp only: start)
  from next_state [OF next_state [OF next_state [OF next_state [OF this step(1)] step(2)] step(3)] step(4)]
  have "?r ?paused" by simp
  from onedaemon_alone [OF this, of 0 0] have "od_file ?paused = dec 71 @ [10]" by simp
  then show ?thesis unfolding start using step by simp
qed

end
