(* ===== verification/Mutex_Race.thy ===== *)
theory Mutex_Race
  imports Ipc_Prelude
begin

text \<open>
  \<open>src/mutex/prodcons1.c\<close>, the program that the others of the directory correct: its producers test, store and count
  without the mutex. Each load and each store of a shared variable is a step of its thread. With one producer the program
  is right; with two, a run stores behind the end of the array.
\<close>

section \<open>The program\<close>

abbreviation (input) MAX_N_ITEMS :: int where "MAX_N_ITEMS \<equiv> 1000000"

text \<open>
  \<open>produce\<close>: at the test, at the loads of \<open>nput\<close> and \<open>nval\<close> and the store of \<open>buff[nput] = nval\<close>, at the load and the
  store of each increment, at the count of the thread, or returned. The arguments are what the thread has loaded.
\<close>

datatype race_pc =
  R_test | R_index | R_value int | R_store int int | R_nput | R_nput_add int | R_nval | R_nval_add int | R_count | R_done

text \<open>The array, \<open>nput\<close>, \<open>nval\<close>, the threads with their counts, and whether a store was outside of the array.\<close>

record race =
  ra_buff :: "int list"
  ra_nput :: int
  ra_nval :: int
  ra_pcs :: "race_pc list"
  ra_counts :: "int list"
  ra_outside :: bool

definition race_goto :: "nat \<Rightarrow> race_pc \<Rightarrow> race \<Rightarrow> race" where
  "race_goto j pc s = s\<lparr>ra_pcs := (ra_pcs s)[j := pc]\<rparr>"

definition race_store :: "int \<Rightarrow> int \<Rightarrow> race \<Rightarrow> race" where
  "race_store k v s =
    (if 0 \<le> k \<and> k < MAX_N_ITEMS then s\<lparr>ra_buff := (ra_buff s)[nat k := v]\<rparr> else s\<lparr>ra_outside := True\<rparr>)"

definition race_produce :: "int \<Rightarrow> nat \<Rightarrow> race \<Rightarrow> race option" where
  "race_produce nitems j s =
    (case ra_pcs s ! j of
      R_test \<Rightarrow> Some (race_goto j (if nitems \<le> ra_nput s then R_done else R_index) s)
    | R_index \<Rightarrow> Some (race_goto j (R_value (ra_nput s)) s)
    | R_value k \<Rightarrow> Some (race_goto j (R_store k (ra_nval s)) s)
    | R_store k v \<Rightarrow> Some (race_goto j R_nput (race_store k v s))
    | R_nput \<Rightarrow> Some (race_goto j (R_nput_add (ra_nput s)) s)
    | R_nput_add n \<Rightarrow> Some (race_goto j R_nval (s\<lparr>ra_nput := n + 1\<rparr>))
    | R_nval \<Rightarrow> Some (race_goto j (R_nval_add (ra_nval s)) s)
    | R_nval_add n \<Rightarrow> Some (race_goto j R_count (s\<lparr>ra_nval := n + 1\<rparr>))
    | R_count \<Rightarrow> Some (race_goto j R_test (s\<lparr>ra_counts := (ra_counts s)[j := ra_counts s ! j + 1]\<rparr>))
    | R_done \<Rightarrow> None)"

definition race_step :: "int \<Rightarrow> race \<Rightarrow> race \<Rightarrow> bool" where
  "race_step nitems s t \<longleftrightarrow> (\<exists>j < length (ra_pcs s). race_produce nitems j s = Some t)"

definition race_start :: "nat \<Rightarrow> race" where
  "race_start nthreads =
    \<lparr>ra_buff = replicate (nat MAX_N_ITEMS) 0, ra_nput = 0, ra_nval = 0, ra_pcs = replicate nthreads R_test,
     ra_counts = replicate nthreads 0, ra_outside = False\<rparr>"

definition race_joined :: "race \<Rightarrow> bool" where
  "race_joined s \<longleftrightarrow> list_all (\<lambda>pc. pc = R_done) (ra_pcs s)"

text \<open>\<open>main\<close> starts the consumer when the producers have ended; what it prints.\<close>

definition race_consume :: "int \<Rightarrow> int list \<Rightarrow> (int \<times> int) list" where
  "race_consume nitems buff =
    filter (\<lambda>(i, v). v \<noteq> i) (map (\<lambda>i. (int i, buff ! i)) [0..<nat nitems])"

section \<open>One producer\<close>

text \<open>How far the thread is in its round: \<open>nput\<close> and \<open>nval\<close> less the count, and the store of the item.\<close>

fun race_local :: "int \<Rightarrow> int \<Rightarrow> int \<Rightarrow> int \<Rightarrow> race_pc \<Rightarrow> bool" where
  "race_local nitems n v c R_test = (n = c \<and> v = c)"
| "race_local nitems n v c R_index = (n = c \<and> v = c \<and> c < nitems)"
| "race_local nitems n v c (R_value k) = (n = c \<and> v = c \<and> k = c \<and> c < nitems)"
| "race_local nitems n v c (R_store k w) = (n = c \<and> v = c \<and> k = c \<and> w = c \<and> c < nitems)"
| "race_local nitems n v c R_nput = (n = c \<and> v = c \<and> c < nitems)"
| "race_local nitems n v c (R_nput_add k) = (n = c \<and> v = c \<and> k = c \<and> c < nitems)"
| "race_local nitems n v c R_nval = (n = c + 1 \<and> v = c \<and> c < nitems)"
| "race_local nitems n v c (R_nval_add k) = (n = c + 1 \<and> v = c \<and> k = c \<and> c < nitems)"
| "race_local nitems n v c R_count = (n = c + 1 \<and> v = c + 1 \<and> c < nitems)"
| "race_local nitems n v c R_done = (n = c \<and> v = c \<and> c = nitems)"

text \<open>The item of this round is in its place already.\<close>

fun race_stored :: "race_pc \<Rightarrow> int" where
  "race_stored R_nput = 1"
| "race_stored (R_nput_add k) = 1"
| "race_stored R_nval = 1"
| "race_stored (R_nval_add k) = 1"
| "race_stored R_count = 1"
| "race_stored _ = 0"

fun race_rank :: "race_pc \<Rightarrow> int" where
  "race_rank R_test = 9"
| "race_rank R_index = 8"
| "race_rank (R_value k) = 7"
| "race_rank (R_store k v) = 6"
| "race_rank R_nput = 5"
| "race_rank (R_nput_add k) = 4"
| "race_rank R_nval = 3"
| "race_rank (R_nval_add k) = 2"
| "race_rank R_count = 1"
| "race_rank R_done = 0"

definition race_inv :: "int \<Rightarrow> race \<Rightarrow> bool" where
  "race_inv nitems s \<longleftrightarrow>
    0 \<le> nitems \<and> nitems \<le> MAX_N_ITEMS \<and> \<not> ra_outside s \<and> length (ra_buff s) = nat MAX_N_ITEMS \<and>
    (\<exists>pc c. ra_pcs s = [pc] \<and> ra_counts s = [c] \<and> 0 \<le> c \<and> c \<le> nitems \<and> race_local nitems (ra_nput s) (ra_nval s) c pc \<and>
      (\<forall>i. 0 \<le> i \<and> i < c + race_stored pc \<longrightarrow> ra_buff s ! nat i = i))"

definition race_left :: "int \<Rightarrow> race \<Rightarrow> int" where
  "race_left nitems s = 10 * (nitems - hd (ra_counts s)) + race_rank (hd (ra_pcs s))"

lemmas race_defs = race_produce_def race_goto_def race_store_def

lemma race_keeps:
  assumes inv: "race_inv nitems s" and step: "race_step nitems s t"
  shows "race_inv nitems t \<and> race_left nitems t < race_left nitems s"
proof -
  from inv obtain pc c where s: "ra_pcs s = [pc]" "ra_counts s = [c]" "0 \<le> c" "c \<le> nitems"
    "race_local nitems (ra_nput s) (ra_nval s) c pc" "\<And>i. 0 \<le> i \<Longrightarrow> i < c + race_stored pc \<Longrightarrow> ra_buff s ! nat i = i"
    and rest: "0 \<le> nitems" "nitems \<le> MAX_N_ITEMS" "\<not> ra_outside s" "length (ra_buff s) = nat MAX_N_ITEMS"
    unfolding race_inv_def by blast
  from step s(1) have t: "race_produce nitems 0 s = Some t" by (auto simp: race_step_def)
  show ?thesis
  proof (cases pc)
    case (R_store k v)
    with s rest t have "t = s\<lparr>ra_buff := (ra_buff s)[nat c := c], ra_pcs := [R_nput]\<rparr>" by (auto simp: race_defs)
    moreover have "(ra_buff s)[nat c := c] ! nat i = i" if "0 \<le> i" "i < c + 1" for i
      using that s rest R_store by (cases "i = c") (auto simp: nth_list_update)
    ultimately show ?thesis using s rest R_store by (simp add: race_inv_def race_left_def)
  qed (use s rest t in \<open>auto simp: race_defs race_inv_def race_left_def split: if_splits\<close>)
qed

lemma race_goes_on:
  assumes "race_inv nitems s" and "\<not> race_joined s"
  shows "\<exists>t. race_step nitems s t"
proof -
  obtain pc where pc: "ra_pcs s = [pc]" using assms(1) by (auto simp: race_inv_def)
  with assms(2) have "race_produce nitems 0 s \<noteq> None" by (cases pc) (auto simp: race_joined_def race_produce_def)
  with pc show ?thesis by (auto simp: race_step_def)
qed

lemma race_start_inv: "0 \<le> nitems \<Longrightarrow> nitems \<le> MAX_N_ITEMS \<Longrightarrow> race_inv nitems (race_start 1)"
  by (simp add: race_inv_def race_start_def)

interpretation race_one: ending_runs "\<lambda>s. s = race_start 1 \<and> 0 \<le> nitems \<and> nitems \<le> MAX_N_ITEMS" "race_step nitems"
  "race_inv nitems" "race_left nitems" race_joined for nitems
proof
  show "0 \<le> race_left nitems s" if "race_inv nitems s" for s
  proof -
    have "0 \<le> race_rank pc" for pc by (cases pc) auto
    with that show ?thesis by (auto simp: race_inv_def race_left_def)
  qed
qed (auto simp: race_start_inv [unfolded One_nat_def] race_keeps race_goes_on)

lemma race_consume_right:
  "(\<And>i. 0 \<le> i \<Longrightarrow> i < nitems \<Longrightarrow> buff ! nat i = i) \<Longrightarrow> race_consume nitems buff = []"
proof -
  assume all: "\<And>i. 0 \<le> i \<Longrightarrow> i < nitems \<Longrightarrow> buff ! nat i = i"
  have "buff ! i = int i" if "i < nat nitems" for i using all [of "int i"] that by simp
  then show ?thesis by (auto simp: race_consume_def filter_empty_conv)
qed

section \<open>Two producers\<close>

text \<open>Thread 0 alone for \<open>k\<close> rounds.\<close>

definition race_at :: "int \<Rightarrow> race \<Rightarrow> bool" where
  "race_at k s \<longleftrightarrow> ra_nput s = k \<and> ra_pcs s = [R_test, R_test]"

abbreviation (input) race_reach :: "int \<Rightarrow> race \<Rightarrow> bool" where
  "race_reach nitems \<equiv> reach (\<lambda>s. s = race_start 2) (race_step nitems)"

lemma race_thread:
  assumes "race_reach nitems s" and "race_produce nitems j s = Some t" and "j < length (ra_pcs s)"
  shows "race_reach nitems t"
  by (rule reach_step [OF assms(1)]) (use assms in \<open>auto simp: race_step_def\<close>)

text \<open>A thread from its test to the store of \<open>nput\<close> and back to the test.\<close>

lemma race_steps_to:
  assumes "race_reach nitems s" and "ra_pcs s = [R_index, p]"
  shows "\<exists>t. race_reach nitems t \<and> ra_nput t = ra_nput s + 1 \<and> ra_pcs t = [R_nval, p]"
proof -
  obtain s1 where s1: "race_reach nitems s1" "ra_nput s1 = ra_nput s" "ra_pcs s1 = [R_value (ra_nput s), p]"
    using race_thread [OF assms(1), of 0] assms(2) by (auto simp: race_defs)
  obtain v s2 where s2: "race_reach nitems s2" "ra_nput s2 = ra_nput s" "ra_pcs s2 = [R_store (ra_nput s) v, p]"
    using race_thread [OF s1(1), of 0] s1 by (auto simp: race_defs)
  obtain s3 where s3: "race_reach nitems s3" "ra_nput s3 = ra_nput s" "ra_pcs s3 = [R_nput, p]"
    using race_thread [OF s2(1), of 0] s2 by (auto simp: race_defs split: if_splits)
  obtain s4 where s4: "race_reach nitems s4" "ra_pcs s4 = [R_nput_add (ra_nput s), p]"
    using race_thread [OF s3(1), of 0] s3 by (auto simp: race_defs)
  show ?thesis using race_thread [OF s4(1), of 0] s4 by (auto simp: race_defs)
qed

lemma race_round:
  assumes "race_reach nitems s" and "race_at k s" and "k < nitems"
  shows "\<exists>t. race_reach nitems t \<and> race_at (k + 1) t"
proof -
  obtain s1 where s1: "race_reach nitems s1" "ra_nput s1 = k" "ra_pcs s1 = [R_index, R_test]"
    using race_thread [OF assms(1), of 0] assms(2,3) by (auto simp: race_defs race_at_def)
  obtain s2 where s2: "race_reach nitems s2" "ra_nput s2 = k + 1" "ra_pcs s2 = [R_nval, R_test]"
    using race_steps_to [OF s1(1,3)] s1(2) by auto
  obtain v s3 where s3: "race_reach nitems s3" "ra_nput s3 = k + 1" "ra_pcs s3 = [R_nval_add v, R_test]"
    using race_thread [OF s2(1), of 0] s2 by (auto simp: race_defs)
  obtain s4 where s4: "race_reach nitems s4" "ra_nput s4 = k + 1" "ra_pcs s4 = [R_count, R_test]"
    using race_thread [OF s3(1), of 0] s3 by (auto simp: race_defs)
  show ?thesis using race_thread [OF s4(1), of 0] s4 by (auto simp: race_defs race_at_def)
qed

lemma race_rounds: "int k \<le> nitems \<Longrightarrow> \<exists>s. race_reach nitems s \<and> race_at (int k) s"
proof (induction k)
  case 0
  have "race_reach nitems (race_start 2)" by (rule reach_start) simp
  moreover have "race_at 0 (race_start 2)" by (simp add: race_at_def race_start_def numeral_2_eq_2)
  ultimately show ?case by auto
next
  case (Suc k)
  then obtain s where "race_reach nitems s" "race_at (int k) s" by auto
  from race_round [OF this] Suc.prems show ?case by (auto simp: algebra_simps)
qed

text \<open>Both threads pass the test for the last item; one is done with \<open>nput\<close> before the other loads it.\<close>

lemma race_second_store:
  assumes "0 < nitems"
  shows "\<exists>s v. race_reach nitems s \<and> ra_pcs s ! 1 = R_store nitems v \<and> length (ra_pcs s) = 2"
proof -
  obtain s where s: "race_reach nitems s" "ra_nput s = nitems - 1" "ra_pcs s = [R_test, R_test]"
    using race_rounds [of "nat (nitems - 1)" nitems] assms by (auto simp: race_at_def)
  obtain s1 where s1: "race_reach nitems s1" "ra_nput s1 = nitems - 1" "ra_pcs s1 = [R_index, R_test]"
    using race_thread [OF s(1), of 0] s by (auto simp: race_defs)
  obtain s2 where s2: "race_reach nitems s2" "ra_nput s2 = nitems - 1" "ra_pcs s2 = [R_index, R_index]"
    using race_thread [OF s1(1), of 1] s1 by (auto simp: race_defs)
  obtain s3 where s3: "race_reach nitems s3" "ra_nput s3 = nitems" "ra_pcs s3 = [R_nval, R_index]"
    using race_steps_to [OF s2(1,3)] s2(2) by auto
  obtain s4 where s4: "race_reach nitems s4" "ra_pcs s4 = [R_nval, R_value nitems]"
    using race_thread [OF s3(1), of 1] s3 by (auto simp: race_defs)
  show ?thesis using race_thread [OF s4(1), of 1] s4 by (auto simp: race_defs)
qed

section \<open>Properties\<close>

text \<open>
  With one producer every run of \<open>prodcons1.c\<close> is bounded and ends with all items stored: the consumer prints nothing.
  With two producers and any number of items there is a run in which a producer is about to store at the index \<open>nitems\<close>, and
  with \<open>MAX_N_ITEMS\<close> items that store is outside of the array.
\<close>

lemma prodcons1_race:
  assumes "0 < nitems" and "nitems \<le> MAX_N_ITEMS" and "path_steps (race_step nitems) (race_start 1) ts"
  defines "s \<equiv> last (race_start 1 # ts)"
  shows "int (length ts) \<le> 10 * nitems + 9 \<and>
    (race_joined s \<and> ra_counts s = [nitems] \<and> race_consume nitems (ra_buff s) = [] \<or> (\<exists>t. race_step nitems s t)) \<and>
    (\<exists>t v. reach (\<lambda>s. s = race_start 2) (race_step nitems) t \<and> ra_pcs t ! 1 = R_store nitems v \<and>
      (nitems = MAX_N_ITEMS \<longrightarrow> (\<exists>u. race_produce nitems 1 t = Some u \<and> ra_outside u)))"
proof (intro conjI)
  have start: "race_inv nitems (race_start 1)" using assms(1,2) by (intro race_start_inv) simp_all
  note run = race_one.ends [OF start assms(3), folded s_def]
  show "int (length ts) \<le> 10 * nitems + 9" using run by (simp add: race_left_def race_start_def)
  have "ra_counts s = [nitems] \<and> race_consume nitems (ra_buff s) = []" if "race_joined s"
    using run that by (auto simp: race_inv_def race_joined_def intro!: race_consume_right)
  with run show "race_joined s \<and> ra_counts s = [nitems] \<and> race_consume nitems (ra_buff s) = [] \<or> (\<exists>t. race_step nitems s t)" by blast
  obtain t v where t: "race_reach nitems t" "ra_pcs t ! 1 = R_store nitems v" "length (ra_pcs t) = 2"
    using race_second_store [OF assms(1)] by blast
  have "\<exists>u. race_produce nitems 1 t = Some u \<and> ra_outside u" if "nitems = MAX_N_ITEMS"
    using t that by (simp add: race_defs)
  with t show "\<exists>t v. race_reach nitems t \<and> ra_pcs t ! 1 = R_store nitems v \<and>
      (nitems = MAX_N_ITEMS \<longrightarrow> (\<exists>u. race_produce nitems 1 t = Some u \<and> ra_outside u))" by blast
qed

end
