(* ===== verification/Bench_Pipe.thy ===== *)
theory Bench_Pipe
  imports Ipc_Prelude
begin

text \<open>
  \<open>src/bench/bw_pipe.c\<close>: a parent asks its child over one pipe for a number of bytes and reads them from another pipe,
  \<open>nloop\<close> times. A \<open>read\<close> gives any number of the bytes that are there, and a \<open>write\<close> puts its bytes into the pipe in any
  portions for which there is room. The times, and what the bytes are, are not modelled.
\<close>

section \<open>Reader and writer\<close>

text \<open>The writer waits for a request, or has \<open>ntowrite\<close> left after this \<open>Write\<close>, of which some bytes are still to go into the pipe.\<close>

datatype bp_writer_pc = Bp_wait | Bp_write int int
datatype bp_reader_pc = Bp_ask | Bp_read int | Bp_exit

text \<open>The requests in \<open>contpipe\<close>, the number of bytes in \<open>datapipe\<close>, the two processes, and \<open>i\<close> of \<open>main\<close>.\<close>

record bwpipe =
  bp_cont :: "int list"
  bp_data :: int
  bp_writer :: bp_writer_pc
  bp_reader :: bp_reader_pc
  bp_i :: int

definition bp_loop :: "int \<Rightarrow> int \<Rightarrow> bp_reader_pc" where
  "bp_loop nloop i = (if i < nloop then Bp_ask else Bp_exit)"

text \<open>A step of the parent; a read gives \<open>m\<close> bytes. \<open>contpipe\<close> has room for \<open>cap\<close> requests.\<close>

definition bp_reads :: "nat \<Rightarrow> int \<Rightarrow> int \<Rightarrow> int \<Rightarrow> int \<Rightarrow> bwpipe \<Rightarrow> bwpipe option" where
  "bp_reads cap xfersize totalnbytes nloop m s =
    (case bp_reader s of
      Bp_ask \<Rightarrow>
        if length (bp_cont s) < cap then Some (s\<lparr>bp_cont := bp_cont s @ [totalnbytes], bp_reader := Bp_read totalnbytes\<rparr>) else None
    | Bp_read nbytes \<Rightarrow>
        if 0 < nbytes
        then (if 0 < m \<and> m \<le> xfersize \<and> m \<le> bp_data s
              then Some (s\<lparr>bp_data := bp_data s - m, bp_reader := Bp_read (nbytes - m)\<rparr>) else None)
        else Some (s\<lparr>bp_i := bp_i s + 1, bp_reader := bp_loop nloop (bp_i s + 1)\<rparr>)
    | Bp_exit \<Rightarrow> None)"

text \<open>A step of the child; \<open>m\<close> bytes of its \<open>Write\<close> go into \<open>datapipe\<close>, which has room for \<open>room\<close> bytes.\<close>

definition bp_writes :: "int \<Rightarrow> int \<Rightarrow> int \<Rightarrow> bwpipe \<Rightarrow> bwpipe option" where
  "bp_writes room xfersize m s =
    (case bp_writer s of
      Bp_wait \<Rightarrow> (case bp_cont s of [] \<Rightarrow> None | r # rs \<Rightarrow> Some (s\<lparr>bp_cont := rs, bp_writer := Bp_write r 0\<rparr>))
    | Bp_write ntowrite left \<Rightarrow>
        if 0 < left
        then (if 0 < m \<and> m \<le> left \<and> bp_data s + m \<le> room
              then Some (s\<lparr>bp_data := bp_data s + m, bp_writer := Bp_write ntowrite (left - m)\<rparr>) else None)
        else if 0 < ntowrite then Some (s\<lparr>bp_writer := Bp_write (ntowrite - xfersize) xfersize\<rparr>)
        else Some (s\<lparr>bp_writer := Bp_wait\<rparr>))"

definition bw_pipe :: "nat \<Rightarrow> int \<Rightarrow> int \<Rightarrow> int \<Rightarrow> int \<Rightarrow> bwpipe \<Rightarrow> bwpipe \<Rightarrow> bool" where
  "bw_pipe cap room xfersize totalnbytes nloop s t \<longleftrightarrow>
    (\<exists>m. bp_reads cap xfersize totalnbytes nloop m s = Some t \<or> bp_writes room xfersize m s = Some t)"

definition bp_start :: "int \<Rightarrow> bwpipe" where
  "bp_start nloop = \<lparr>bp_cont = [], bp_data = 0, bp_writer = Bp_wait, bp_reader = bp_loop nloop 0, bp_i = 0\<rparr>"

section \<open>A size that divides the total\<close>

text \<open>What the writer still puts into the pipe, and what the reader still takes out of it.\<close>

fun bp_coming :: "bp_writer_pc \<Rightarrow> int" where
  "bp_coming Bp_wait = 0"
| "bp_coming (Bp_write k left) = k + left"

fun bp_needed :: "bp_reader_pc \<Rightarrow> int" where
  "bp_needed (Bp_read nb) = nb"
| "bp_needed _ = 0"

fun bp_writer_ok :: "int \<Rightarrow> bp_writer_pc \<Rightarrow> bool" where
  "bp_writer_ok x Bp_wait = True"
| "bp_writer_ok x (Bp_write k left) = (0 \<le> k \<and> x dvd k \<and> 0 \<le> left)"

definition bp_inv :: "int \<Rightarrow> int \<Rightarrow> int \<Rightarrow> bwpipe \<Rightarrow> bool" where
  "bp_inv x tot nloop s \<longleftrightarrow>
    0 < x \<and> 0 \<le> tot \<and> x dvd tot \<and> 0 \<le> bp_data s \<and> bp_writer_ok x (bp_writer s) \<and> list_all (\<lambda>r. r = tot) (bp_cont s) \<and>
    0 \<le> bp_needed (bp_reader s) \<and> bp_data s + bp_coming (bp_writer s) + int (length (bp_cont s)) * tot = bp_needed (bp_reader s) \<and>
    0 \<le> bp_i s \<and> bp_i s \<le> max 0 nloop \<and> (bp_reader s = Bp_exit \<longleftrightarrow> bp_i s = max 0 nloop)"

fun bp_writer_left :: "bp_writer_pc \<Rightarrow> int" where
  "bp_writer_left Bp_wait = 0"
| "bp_writer_left (Bp_write k left) = 2 * k + left + 1"

fun bp_reader_left :: "int \<Rightarrow> bp_reader_pc \<Rightarrow> int" where
  "bp_reader_left tot (Bp_read nb) = nb + 1 - (3 * tot + 5)"
| "bp_reader_left tot _ = 0"

definition bp_left :: "int \<Rightarrow> int \<Rightarrow> bwpipe \<Rightarrow> int" where
  "bp_left tot nloop s =
    (max 0 nloop - bp_i s) * (3 * tot + 5) + bp_reader_left tot (bp_reader s) + bp_writer_left (bp_writer s) +
    int (length (bp_cont s)) * (2 * tot + 2)"

lemma bp_data_le:
  assumes "bp_inv x tot nloop s"
  shows "bp_data s \<le> bp_needed (bp_reader s)"
proof -
  define q where "q = int (length (bp_cont s)) * tot"
  have "0 \<le> bp_coming (bp_writer s)" using assms by (cases "bp_writer s") (auto simp: bp_inv_def)
  moreover have "0 \<le> q" using assms by (simp add: bp_inv_def q_def)
  moreover have "bp_data s + bp_coming (bp_writer s) + q = bp_needed (bp_reader s)" using assms by (simp add: bp_inv_def q_def)
  ultimately show ?thesis by linarith
qed

lemma bp_reads_ok:
  assumes inv: "bp_inv x tot nloop s" and step: "bp_reads cap x tot nloop m s = Some t"
  shows "bp_inv x tot nloop t \<and> bp_left tot nloop t < bp_left tot nloop s"
proof (cases "bp_reader s")
  case Bp_ask
  with step have "t = s\<lparr>bp_cont := bp_cont s @ [tot], bp_reader := Bp_read tot\<rparr>"
    by (simp add: bp_reads_def split: if_splits)
  with Bp_ask inv show ?thesis by (auto simp: bp_inv_def bp_left_def algebra_simps)
next
  case (Bp_read nb)
  show ?thesis
  proof (cases "0 < nb")
    case True
    then have "m \<le> bp_data s" "0 < m" "t = s\<lparr>bp_data := bp_data s - m, bp_reader := Bp_read (nb - m)\<rparr>"
      using Bp_read step by (auto simp: bp_reads_def split: if_splits)
    moreover have "m \<le> nb" using bp_data_le [OF inv] Bp_read calculation(1) by simp
    ultimately show ?thesis using Bp_read inv by (simp add: bp_inv_def bp_left_def)
  qed (use Bp_read step inv in \<open>auto simp: bp_reads_def bp_inv_def bp_left_def bp_loop_def algebra_simps split: if_splits\<close>)
qed (use step in \<open>simp add: bp_reads_def\<close>)

lemma bp_writes_ok:
  assumes inv: "bp_inv x tot nloop s" and step: "bp_writes room x m s = Some t"
  shows "bp_inv x tot nloop t \<and> bp_left tot nloop t < bp_left tot nloop s"
proof (cases "bp_writer s")
  case Bp_wait
  then obtain rs where "bp_cont s = tot # rs" "t = s\<lparr>bp_cont := rs, bp_writer := Bp_write tot 0\<rparr>"
    using step inv by (auto simp: bp_writes_def bp_inv_def split: list.splits)
  with Bp_wait inv show ?thesis by (auto simp: bp_inv_def bp_left_def algebra_simps)
next
  case (Bp_write k l)
  have "x \<le> k" if "0 < k" using that inv Bp_write by (auto simp: bp_inv_def intro: zdvd_imp_le)
  then show ?thesis using Bp_write step inv
    by (auto simp: bp_writes_def bp_inv_def bp_left_def algebra_simps split: if_splits)
qed

lemma bp_goes_on:
  assumes inv: "bp_inv x tot nloop s" and "bp_reader s \<noteq> Bp_exit" and "1 \<le> cap" and "1 \<le> room"
  shows "\<exists>t. bw_pipe cap room x tot nloop s t"
proof -
  have reads: ?thesis if "bp_reads cap x tot nloop 1 s \<noteq> None" using that by (auto simp: bw_pipe_def)
  have writes: ?thesis if "bp_writes room x 1 s \<noteq> None" using that by (auto simp: bw_pipe_def)
  show ?thesis
  proof (cases "bp_reads cap x tot nloop 1 s")
    case None
    have "bp_data s = 0" and more: "bp_cont s \<noteq> [] \<or> bp_writer s \<noteq> Bp_wait"
    proof -
      have sum: "bp_data s + bp_coming (bp_writer s) + int (length (bp_cont s)) * tot = bp_needed (bp_reader s)"
        "0 \<le> bp_data s" "0 \<le> bp_coming (bp_writer s)" "0 \<le> int (length (bp_cont s)) * tot" "0 < x"
        using inv by (cases "bp_writer s"; auto simp: bp_inv_def)+
      consider "bp_reader s = Bp_ask" "bp_cont s \<noteq> []" | nb where "bp_reader s = Bp_read nb" "0 < nb" "bp_data s = 0"
        using None assms(2,3) sum by (cases "bp_reader s"; cases "bp_cont s") (auto simp: bp_reads_def split: if_splits)
      then show "bp_data s = 0" "bp_cont s \<noteq> [] \<or> bp_writer s \<noteq> Bp_wait" using sum by (cases; auto)+
    qed
    then have "bp_writes room x 1 s \<noteq> None"
      using assms(4) by (cases "bp_writer s"; cases "bp_cont s") (auto simp: bp_writes_def)
    then show ?thesis by (rule writes)
  qed (use reads in auto)
qed

lemma bp_left_nonneg:
  assumes inv: "bp_inv x tot nloop s"
  shows "0 \<le> bp_left tot nloop s"
proof -
  have T: "0 \<le> tot" using inv by (simp add: bp_inv_def)
  have w: "0 \<le> bp_writer_left (bp_writer s)" using inv by (cases "bp_writer s") (auto simp: bp_inv_def)
  have q: "0 \<le> int (length (bp_cont s)) * (2 * tot + 2)" using T by simp
  have "0 \<le> (max 0 nloop - bp_i s) * (3 * tot + 5) + bp_reader_left tot (bp_reader s)"
  proof (cases "bp_reader s")
    case (Bp_read nb)
    then have "1 \<le> max 0 nloop - bp_i s" using inv by (auto simp: bp_inv_def)
    define p where "p = (max 0 nloop - bp_i s) * (3 * tot + 5)"
    have "1 * (3 * tot + 5) \<le> p" unfolding p_def using T \<open>1 \<le> max 0 nloop - bp_i s\<close> by (intro mult_right_mono) auto
    moreover have "0 \<le> nb" using Bp_read inv by (simp add: bp_inv_def)
    ultimately show ?thesis unfolding Bp_read bp_reader_left.simps p_def [symmetric] by simp
  qed (use inv T in \<open>auto simp: bp_inv_def\<close>)
  with w q show ?thesis by (simp add: bp_left_def)
qed

lemma bp_start_inv: "0 < x \<Longrightarrow> 0 \<le> tot \<Longrightarrow> x dvd tot \<Longrightarrow> bp_inv x tot nloop (bp_start nloop)"
  by (auto simp: bp_inv_def bp_start_def bp_loop_def)

interpretation bwp: ending_runs
  "\<lambda>s. s = bp_start nloop \<and> 0 < x \<and> 0 \<le> tot \<and> x dvd tot \<and> 1 \<le> cap \<and> 1 \<le> room" "bw_pipe cap room x tot nloop"
  "\<lambda>s. bp_inv x tot nloop s \<and> 1 \<le> cap \<and> 1 \<le> room" "bp_left tot nloop" "\<lambda>s. bp_reader s = Bp_exit"
  for cap room x tot nloop
  by unfold_locales
    (auto simp: bp_start_inv bw_pipe_def bp_left_nonneg dest: bp_reads_ok bp_writes_ok intro: bp_goes_on [unfolded bw_pipe_def])

section \<open>A size that does not\<close>

text \<open>A run as a list of steps: \<open>Inl m\<close> of the parent, \<open>Inr m\<close> of the child.\<close>

fun bp_run :: "nat \<Rightarrow> int \<Rightarrow> int \<Rightarrow> int \<Rightarrow> int \<Rightarrow> (int + int) list \<Rightarrow> bwpipe \<Rightarrow> bwpipe option" where
  "bp_run cap room x tot nloop [] s = Some s"
| "bp_run cap room x tot nloop (a # as) s =
    (case (case a of Inl m \<Rightarrow> bp_reads cap x tot nloop m s | Inr m \<Rightarrow> bp_writes room x m s) of
      None \<Rightarrow> None | Some t \<Rightarrow> bp_run cap room x tot nloop as t)"

lemma bp_run_reach:
  "reach start (bw_pipe cap room x tot nloop) s \<Longrightarrow> bp_run cap room x tot nloop as s = Some t \<Longrightarrow>
    reach start (bw_pipe cap room x tot nloop) t"
proof (induction as arbitrary: s)
  case (Cons a as)
  then obtain u where u: "(case a of Inl m \<Rightarrow> bp_reads cap x tot nloop m s | Inr m \<Rightarrow> bp_writes room x m s) = Some u"
    "bp_run cap room x tot nloop as u = Some t" by (auto split: option.splits)
  then have "bw_pipe cap room x tot nloop s u" by (auto simp: bw_pipe_def split: sum.splits)
  with Cons.IH u(2) Cons.prems(1) show ?case by (blast intro: reach_step)
qed simp

text \<open>
  A megabyte in blocks of two: what the child writes too much is read in the next round, so that the parent needs less of the
  child than it asks for. The requests fill their pipe while the child cannot write.
\<close>

abbreviation (input) MB :: int where "MB \<equiv> 1048576"

definition bp_schedule :: "(int + int) list" where
  "bp_schedule =
    [Inl 1, Inr 1, Inr 1, Inr MB, Inl MB, Inl 1,
     Inl 1, Inr MB, Inl MB, Inl 1, Inr 1, Inr 1, Inr 1, Inr MB,
     Inl 1, Inl MB, Inl 1, Inr MB, Inr 1, Inr 1, Inr 1,
     Inl 1, Inl MB, Inl 1, Inr MB]"

definition bp_stuck :: "bwpipe" where
  "bp_stuck = \<lparr>bp_cont = [MB], bp_data = MB, bp_writer = Bp_write (- MB) MB, bp_reader = Bp_ask, bp_i = 4\<rparr>"

lemma bp_schedule_run: "5 \<le> nloop \<Longrightarrow> bp_run 1 MB (2 * MB) MB nloop bp_schedule (bp_start nloop) = Some bp_stuck"
  by (simp add: bp_schedule_def bp_start_def bp_stuck_def bp_reads_def bp_writes_def bp_loop_def)

section \<open>Properties\<close>

text \<open>
  \<open>bw_pipe\<close> with a size of the writes that divides the number of bytes, for any capacity of the two pipes, any portions of
  the reads and writes and any interleaving: the parent reads all the bytes of its \<open>nloop\<close> rounds and leaves the data pipe
  empty; a run is bounded, and until the parent is done one of the two processes can go on.
\<close>

lemma bw_pipe_ends:
  assumes "0 < x" and "0 \<le> tot" and "x dvd tot" and "1 \<le> cap" and "1 \<le> room"
    and "path_steps (bw_pipe cap room x tot nloop) (bp_start nloop) ts"
  defines "s \<equiv> last (bp_start nloop # ts)"
  shows "int (length ts) \<le> max 0 nloop * (3 * tot + 5) \<and>
    (bp_reader s = Bp_exit \<and> bp_i s = max 0 nloop \<and> bp_data s = 0 \<or> (\<exists>t. bw_pipe cap room x tot nloop s t))"
proof -
  have start: "bp_inv x tot nloop (bp_start nloop) \<and> 1 \<le> cap \<and> 1 \<le> room" using assms(1-5) by (simp add: bp_start_inv)
  note run = bwp.ends [OF start assms(6), folded s_def]
  have "int (length ts) \<le> max 0 nloop * (3 * tot + 5)"
    using run by (auto simp: bp_left_def bp_start_def bp_loop_def split: if_splits)
  moreover have "bp_i s = max 0 nloop \<and> bp_data s = 0" if "bp_reader s = Bp_exit"
    using run that bp_data_le [of x tot nloop s] by (auto simp: bp_inv_def)
  ultimately show ?thesis using run by blast
qed

text \<open>
  With a size that does not divide it, the two processes can come to wait for each other: here blocks of two megabytes,
  one megabyte for each round, and pipes for one request and for one megabyte.
\<close>

lemma bw_pipe_deadlocks:
  "\<exists>t. reach (\<lambda>s. s = bp_start 5) (bw_pipe 1 MB (2 * MB) MB 5) t \<and> bp_reader t \<noteq> Bp_exit \<and> (\<forall>u. \<not> bw_pipe 1 MB (2 * MB) MB 5 t u)"
proof (intro exI conjI)
  show "reach (\<lambda>s. s = bp_start 5) (bw_pipe 1 MB (2 * MB) MB 5) bp_stuck"
    by (rule bp_run_reach [OF reach_start bp_schedule_run]) simp_all
  show "bp_reader bp_stuck \<noteq> Bp_exit" by (simp add: bp_stuck_def)
  show "\<forall>u. \<not> bw_pipe 1 MB (2 * MB) MB 5 bp_stuck u"
    by (auto simp: bw_pipe_def bp_stuck_def bp_reads_def bp_writes_def)
qed

end
