(* ===== verification/Mesg_Serv.thy ===== *)
theory Mesg_Serv
  imports Mesg Pipe_Serv
begin

text \<open>
  The client and the server of \<open>src/pipemesg\<close> over the pipes of \<open>mainpipe.c\<close>, with the functions of \<open>Mesg\<close>. The client
  reads a pathname and sends it, the server answers with the lines of the file and an empty message. \<open>Mesg_send\<close>
  compares the wrong numbers: neither gets any further than its first message.
\<close>

section \<open>The program\<close>

text \<open>The structure with a text in its data; what follows the text is not sent.\<close>

definition pm_mesg :: "byte list \<Rightarrow> mymesg" where
  "pm_mesg text =
    \<lparr>mesg_len = word_of_nat (length text), mesg_type = 1, mesg_data = take MAXMESGDATA (text @ replicate MAXMESGDATA 0)\<rparr>"

text \<open>
  A process sends, receives, is in \<open>err_quit\<close> after a call, or has ended. The server has a list of messages to send; \<open>Pm_killed\<close> is
  a \<open>SIGPIPE\<close>: there is no reader.
\<close>

datatype pm_pc = Pm_recv | Pm_send "byte list list" | Pm_quits | Pm_ended | Pm_killed

record pmserv =
  pm_pipe1 :: "byte list"
  pm_pipe2 :: "byte list"
  pm_client :: pm_pc
  pm_server :: pm_pc
  pm_out :: "byte list"

fun pm_gone :: "pm_pc \<Rightarrow> bool" where
  "pm_gone Pm_ended = True"
| "pm_gone Pm_killed = True"
| "pm_gone _ = False"

text \<open>
  \<open>Mesg_send\<close> of the first of the messages: the pipe after it and where the process is. A pipe has room for \<open>cap\<close> bytes, and
  a message goes into it as a whole. \<open>next\<close> is where the process is after its last message.
\<close>

definition pm_sends :: "nat \<Rightarrow> bool \<Rightarrow> pm_pc \<Rightarrow> byte list \<Rightarrow> byte list list \<Rightarrow> byte list \<Rightarrow> (byte list \<times> pm_pc) option" where
  "pm_sends cap broken next text texts pipe =
    (if broken then Some (pipe, Pm_killed)
     else if cap < length pipe + MESGHDRSIZE + length text then None
     else case Mesg_send (Inr ()) (pm_mesg text) pipe of
       Some (Done _, pipe') \<Rightarrow> Some (pipe', if texts = [] then next else Pm_send texts)
     | Some (_, pipe') \<Rightarrow> Some (pipe', Pm_quits)
     | None \<Rightarrow> None)"

definition pm_client_step :: "nat \<Rightarrow> pmserv \<Rightarrow> pmserv option" where
  "pm_client_step cap s =
    (case pm_client s of
      Pm_send (text # texts) \<Rightarrow>
        map_option (\<lambda>(p, pc). s\<lparr>pm_pipe1 := p, pm_client := pc\<rparr>) (pm_sends cap (pm_gone (pm_server s)) Pm_recv text texts (pm_pipe1 s))
    | Pm_recv \<Rightarrow>
        if pm_pipe2 s = [] \<and> \<not> pm_gone (pm_server s) then None
        else (case Mesg_recv (pm_mesg []) (pm_pipe2 s) of
          Some (Done (n, m), p) \<Rightarrow>
            Some (if 0 < n then s\<lparr>pm_pipe2 := p, pm_out := pm_out s @ take n (mesg_data m)\<rparr>
                  else s\<lparr>pm_pipe2 := p, pm_client := Pm_ended\<rparr>)
        | Some (_, p) \<Rightarrow> Some (s\<lparr>pm_pipe2 := p, pm_client := Pm_quits\<rparr>)
        | None \<Rightarrow> None)
    | Pm_quits \<Rightarrow> Some (s\<lparr>pm_client := Pm_ended\<rparr>)
    | _ \<Rightarrow> None)"

text \<open>The server: an empty request ends it too; the answer is that of the server over message queues.\<close>

definition pm_server_step :: "nat \<Rightarrow> (byte list \<Rightarrow> byte list + byte list) \<Rightarrow> pmserv \<Rightarrow> pmserv option" where
  "pm_server_step cap opened s =
    (case pm_server s of
      Pm_recv \<Rightarrow>
        if pm_pipe1 s = [] \<and> \<not> pm_gone (pm_client s) then None
        else (case Mesg_recv (pm_mesg []) (pm_pipe1 s) of
          Some (Done (n, m), p) \<Rightarrow>
            Some (if n = 0 then s\<lparr>pm_pipe1 := p, pm_server := Pm_quits\<rparr>
                  else let data = take n (mesg_data m) in
                    s\<lparr>pm_pipe1 := p, pm_server := Pm_send (server_reply opened data (cstr data))\<rparr>)
        | Some (_, p) \<Rightarrow> Some (s\<lparr>pm_pipe1 := p, pm_server := Pm_quits\<rparr>)
        | None \<Rightarrow> None)
    | Pm_send (text # texts) \<Rightarrow>
        map_option (\<lambda>(p, pc). s\<lparr>pm_pipe2 := p, pm_server := pc\<rparr>) (pm_sends cap (pm_gone (pm_client s)) Pm_ended text texts (pm_pipe2 s))
    | Pm_quits \<Rightarrow> Some (s\<lparr>pm_server := Pm_ended\<rparr>)
    | _ \<Rightarrow> None)"

definition pm_step :: "nat \<Rightarrow> (byte list \<Rightarrow> byte list + byte list) \<Rightarrow> pmserv \<Rightarrow> pmserv \<Rightarrow> bool" where
  "pm_step cap opened s t \<longleftrightarrow> pm_client_step cap s = Some t \<or> pm_server_step cap opened s = Some t"

definition pm_start :: "byte list \<Rightarrow> pmserv" where
  "pm_start req = \<lparr>pm_pipe1 = [], pm_pipe2 = [], pm_client = Pm_send [req], pm_server = Pm_recv, pm_out = []\<rparr>"

section \<open>Every message is the last\<close>

lemma pm_mesg_wf: "length text \<le> MAXMESGDATA \<Longrightarrow> mesg_wf (pm_mesg text) \<and> unat (mesg_len (pm_mesg text)) = length text"
proof -
  assume "length text \<le> MAXMESGDATA"
  then have "length text < 2 ^ 64" by (rule order.strict_trans1) simp
  then have "unat (word_of_nat (length text) :: long) = length text" by (simp add: unsigned_of_nat take_bit_nat_eq_self)
  with \<open>length text \<le> MAXMESGDATA\<close> show ?thesis by (simp add: mesg_wf_def pm_mesg_def)
qed

lemma pm_sends_quits:
  assumes "length text \<le> MAXMESGDATA" and "\<not> cap < length pipe + MESGHDRSIZE + length text"
  shows "pm_sends cap False nxt text texts pipe = Some (pipe @ mesg_wire (pm_mesg text), Pm_quits)"
proof -
  obtain pipe' where send: "Mesg_send (Inr ()) (pm_mesg text) pipe = Some (Err_quit ''mesg_send error'', pipe')"
    using Mesg_send_always_quits pm_mesg_wf [OF assms(1)] by blast
  moreover have "pipe' = pipe @ mesg_wire (pm_mesg text)"
    using send mesg_send_wire pm_mesg_wf [OF assms(1)] by (auto simp: Mesg_send_def)
  ultimately show ?thesis using assms(2) by (simp add: pm_sends_def)
qed

fun pm_server_ok :: "byte list \<Rightarrow> pmserv \<Rightarrow> pm_pc \<Rightarrow> bool" where
  "pm_server_ok req s Pm_recv = (pm_pipe1 s = mesg_wire (pm_mesg req) \<and> pm_pipe2 s = [])"
| "pm_server_ok req s (Pm_send texts) = (texts \<noteq> [] \<and> list_all (\<lambda>m. length m \<le> MAXMESGDATA) texts \<and> pm_pipe2 s = [])"
| "pm_server_ok req s _ = True"

definition pm_inv :: "nat \<Rightarrow> byte list \<Rightarrow> pmserv \<Rightarrow> bool" where
  "pm_inv cap req s \<longleftrightarrow>
    PIPE_BUF \<le> cap \<and> length req < MAXMESGDATA \<and> pm_out s = [] \<and>
    (s = pm_start req \<or> pm_client s \<in> {Pm_quits, Pm_ended} \<and> pm_server_ok req s (pm_server s))"

fun pm_rank :: "pm_pc \<Rightarrow> int" where
  "pm_rank Pm_recv = 3"
| "pm_rank (Pm_send texts) = 2"
| "pm_rank Pm_quits = 1"
| "pm_rank _ = 0"

definition pm_left :: "pmserv \<Rightarrow> int" where
  "pm_left s = pm_rank (pm_client s) + pm_rank (pm_server s)"

definition pm_finished :: "pmserv \<Rightarrow> bool" where
  "pm_finished s \<longleftrightarrow> pm_client s = Pm_ended \<and> pm_gone (pm_server s)"

lemma pm_client_ok:
  assumes inv: "pm_inv cap req s" and step: "pm_client_step cap s = Some t"
  shows "pm_inv cap req t \<and> pm_left t < pm_left s"
proof (cases "s = pm_start req")
  case True
  then have "t = s\<lparr>pm_pipe1 := mesg_wire (pm_mesg req), pm_client := Pm_quits\<rparr>"
    using inv step pm_sends_quits [of req cap "[]" Pm_recv "[]"] by (auto simp: pm_inv_def pm_client_step_def pm_start_def)
  with True inv show ?thesis by (simp add: pm_inv_def pm_start_def pm_left_def)
next
  case False
  then have c: "pm_client s \<in> {Pm_quits, Pm_ended}" "pm_server_ok req s (pm_server s)" using inv by (auto simp: pm_inv_def)
  with step have "pm_client s = Pm_quits" "t = s\<lparr>pm_client := Pm_ended\<rparr>" by (auto simp: pm_client_step_def)
  moreover from this c have "pm_server_ok req t (pm_server t)" by (cases "pm_server s") simp_all
  ultimately show ?thesis using inv by (simp add: pm_inv_def pm_left_def)
qed

lemma pm_receives:
  assumes "length req < MAXMESGDATA"
  shows "\<exists>m. Mesg_recv (pm_mesg []) (mesg_wire (pm_mesg req)) = Some (Done (length req, m), [])"
  using mesg_recv_wire [of "pm_mesg req" "pm_mesg []" "[]"] pm_mesg_wf [of req] assms
  by (auto simp: Mesg_recv_def pm_mesg_def)

lemma pm_server_ok_step:
  assumes inv: "pm_inv cap req s" and step: "pm_server_step cap opened s = Some t"
  shows "pm_inv cap req t \<and> pm_left t < pm_left s"
proof -
  have "s \<noteq> pm_start req" using step by (auto simp: pm_server_step_def pm_start_def)
  then have c: "pm_client s \<in> {Pm_quits, Pm_ended}" "pm_server_ok req s (pm_server s)" and req: "length req < MAXMESGDATA"
    using inv by (auto simp: pm_inv_def)
  show ?thesis
  proof (cases "pm_server s")
    case Pm_recv
    obtain n m where recv: "Mesg_recv (pm_mesg []) (pm_pipe1 s) = Some (Done (n, m), [])" "n = length req"
      using pm_receives [OF req] c(2) Pm_recv by auto
    let ?d = "take n (mesg_data m)"
    have "length ?d < MAXMESGDATA" using recv(2) req by simp
    then have "list_all (\<lambda>m. length m \<le> MAXMESGDATA) (server_reply opened ?d (cstr ?d))" by (simp add: list_all_iff reply_length)
    moreover have "server_reply opened ?d (cstr ?d) \<noteq> []" by (simp add: server_reply_def)
    ultimately show ?thesis using step Pm_recv recv c inv
      by (auto simp: pm_server_step_def pm_inv_def pm_left_def Let_def split: if_splits)
  next
    case (Pm_send texts)
    then obtain m ms where texts: "texts = m # ms" "length m \<le> MAXMESGDATA" "pm_pipe2 s = []" using c(2) by (cases texts) auto
    show ?thesis
    proof (cases "pm_gone (pm_client s)")
      case True
      with step Pm_send texts inv c show ?thesis by (auto simp: pm_server_step_def pm_sends_def pm_inv_def pm_left_def)
    next
      case False
      then have "pm_server t = Pm_quits \<and> pm_client t = pm_client s \<and> pm_out t = pm_out s"
        using step Pm_send texts inv pm_sends_quits [of m cap "[]" Pm_ended ms] by (auto simp: pm_server_step_def pm_inv_def)
      with Pm_send inv c show ?thesis by (simp add: pm_inv_def pm_left_def)
    qed
  qed (use step inv c in \<open>auto simp: pm_server_step_def pm_inv_def pm_left_def\<close>)
qed

lemma pm_goes_on:
  assumes inv: "pm_inv cap req s" and "\<not> pm_finished s"
  shows "\<exists>t. pm_step cap opened s t"
proof -
  have client: ?thesis if "pm_client_step cap s \<noteq> None" using that by (auto simp: pm_step_def)
  have server: ?thesis if "pm_server_step cap opened s \<noteq> None" using that by (auto simp: pm_step_def)
  have req: "length req < MAXMESGDATA" "PIPE_BUF \<le> cap" using inv by (auto simp: pm_inv_def)
  consider "s = pm_start req" | "pm_client s = Pm_quits" | "pm_client s = Pm_ended" "pm_server_ok req s (pm_server s)" "\<not> pm_gone (pm_server s)"
    using inv assms(2) by (auto simp: pm_inv_def pm_finished_def)
  then show ?thesis
  proof cases
    case 1
    then have "pm_client_step cap s \<noteq> None"
      using req pm_sends_quits [of req cap "[]" Pm_recv "[]"] by (simp add: pm_client_step_def pm_start_def)
    then show ?thesis by (rule client)
  next
    case 2
    then have "pm_client_step cap s \<noteq> None" by (simp add: pm_client_step_def)
    then show ?thesis by (rule client)
  next
    case 3
    have "pm_server_step cap opened s \<noteq> None"
    proof (cases "pm_server s")
      case Pm_recv
      obtain n m where "Mesg_recv (pm_mesg []) (pm_pipe1 s) = Some (Done (n, m), [])" using pm_receives [OF req(1)] 3(2) Pm_recv by auto
      with Pm_recv 3 show ?thesis by (simp add: pm_server_step_def)
    next
      case (Pm_send texts)
      with 3 show ?thesis by (cases texts) (auto simp: pm_server_step_def pm_sends_def)
    qed (use 3 in \<open>auto simp: pm_server_step_def\<close>)
    then show ?thesis by (rule server)
  qed
qed

interpretation pm: ending_runs "\<lambda>s. s = pm_start req \<and> PIPE_BUF \<le> cap \<and> length req < MAXMESGDATA" "pm_step cap opened"
  "pm_inv cap req" pm_left pm_finished for req cap opened
proof
  show "0 \<le> pm_left s" for s
  proof -
    have "0 \<le> pm_rank p" for p by (cases p) auto
    then show ?thesis by (simp add: pm_left_def add_nonneg_nonneg)
  qed
  show "pm_inv cap req s" if "s = pm_start req \<and> PIPE_BUF \<le> cap \<and> length req < MAXMESGDATA" for s
    using that by (simp add: pm_inv_def) (simp add: pm_start_def)
qed (auto simp: pm_step_def dest: pm_client_ok pm_server_ok_step intro: pm_goes_on [unfolded pm_step_def])

section \<open>Properties\<close>

text \<open>
  \<open>src/pipemesg\<close> with any line and any files: no byte of an answer is ever printed; the client ends after it has sent its
  request, the server after its first message or for want of a reader, within five steps of the two.
\<close>

lemma pipemesg_prints_nothing:
  assumes "q_request stdin = Some req" and "PIPE_BUF \<le> cap" and "path_steps (pm_step cap opened) (pm_start req) ts"
  defines "s \<equiv> last (pm_start req # ts)"
  shows "pm_out s = [] \<and> length ts \<le> 5 \<and> (pm_finished s \<or> (\<exists>t. pm_step cap opened s t))"
proof -
  let ?line = "line_of (MAXMESGDATA - 1) stdin"
  obtain k where "?line = take k stdin" "k \<le> MAXMESGDATA - 1" using line_of_take by blast
  then have "length (cstr ?line) \<le> MAXMESGDATA - 1"
    using length_takeWhile_le [of "\<lambda>c. c \<noteq> 0" ?line] by (simp add: cstr_def)
  moreover have "length req \<le> length (cstr ?line)"
    using assms(1) unfolding q_request_def Let_def by (auto split: if_splits)
  ultimately have "length req < MAXMESGDATA" by simp
  then have start: "pm_inv cap req (pm_start req)" using assms(2) by (intro pm.inv_start) simp
  from pm.ends [OF start assms(3), folded s_def] show ?thesis by (auto simp: pm_inv_def pm_left_def pm_start_def)
qed

end
