(* ===== verification/Spec2Isabelle.thy ===== *)
theory Spec2Isabelle
  imports Mqueue_Threads Mqueue_Open Pxsem_Threads Pxsem_Park Pxsem_Open Wrappers Rwlock_Threads
    Lib_IO Lib_Misc Lib_Wrap Mutex_Prodcons Px_Multi Px_Mycat Px_Shm Svmsg_Serv Seqno Mq_Notify Fifo_Open
    Svmsg_Nq Px_Many Bench_Messages Sysv_Tools Os_Sync Svsem_Lock Rw_Incr
    Mq_Test Mq_Tools Sem_Test Lock_Tests Mutex_Race Bench_Pipe Mesg_Serv
begin

text \<open>
  A verification library of the programs of \<open>UNIX Network Programming, Volume 2\<close> in \<open>src/\<close>: the
  implementations of POSIX message queues, semaphores and read-write locks, the library they use, and the
  programs that work with these and with the mechanisms of the system.

  \<^bold>\<open>The parts and the theories.\<close> Every theory names the source files it models; a definition has the name of
  the C function where the language allows it.

  \<^item> \<open>Ipc_Prelude\<close>: the C types and error numbers, results of calls (\<open>Returns\<close> with the conditions
    signalled, \<open>Waits\<close>), runs of step relations (\<open>path_steps\<close>), reachable states, the locale
    \<open>inductive_invariant\<close> and its extension \<open>ending_runs\<close> for programs whose runs all end. \<open>Syscall\<close>: code with system calls runs against a list of answers and keeps the
    trace of its calls.
  \<^item> \<open>src/my_pxmsg_mmap\<close>: \<open>Mqueue\<close> has the mapped file (header, messages by offset, the two linked lists) and
    the sections that \<open>mymq_send\<close>, \<open>mymq_receive\<close>, \<open>mymq_notify\<close>, \<open>mymq_getattr\<close> and \<open>mymq_setattr\<close> run
    under the lock. \<open>Mqueue_Correct\<close> proves that they implement a list of messages in order of priority
    (locale \<open>prio_queue\<close>), and what they return on every branch. \<open>Mqueue_Threads\<close> interleaves any number of
    threads and shows that every operation keeps the type of the image. \<open>Mqueue_Open\<close> is \<open>mymq_open\<close> with all its system calls.
    \<open>Mq_Disk\<close> runs \<open>mymq_open\<close> and \<open>mymq_unlink\<close> on the file of a queue: the system answers their calls from the
    file and the calls change it. On it, \<open>Mq_Test\<close> runs the calls and checks of \<open>testmq.c\<close>, with the child that a signal
    wakes, and \<open>Mq_Tools\<close> has the programs that make, use and remove a queue, and shows what an \<open>mqd_t\<close> does to the descriptor.
  \<^item> \<open>src/my_pxsem_mmap\<close>, \<open>src/my_pxsem_svsem\<close>, \<open>src/my_pxsem_fifo\<close>: \<open>Pxsem\<close> has the operations of the three
    implementations and the locale \<open>counting_sem\<close>, which all three interpret. \<open>Pxsem_Threads\<close> interleaves
    threads on the mapped semaphore, \<open>Pxsem_Open\<close> has the \<open>mysem_open\<close> functions with their system calls,
    \<open>Pxsem_Prodcons\<close> the producer and consumer program over any semaphore that meets the contract, \<open>Pxsem_Park\<close> the same
    over the mapped semaphores with threads that park and are woken by the signal of \<open>mysem_post\<close>,
    \<open>Sem_Test\<close> the threads of \<open>testsem.c\<close> over both implementations that it is written for.
  \<^item> \<open>src/my_rwlock\<close>, \<open>src/my_rwlock_cancel\<close>: \<open>Rwlock\<close> has the operations, \<open>Rwlock_Threads\<close> the interleavings
    with waiting and cancellation (locale \<open>rw_version\<close>). \<open>Rw_Incr\<close> composes the locks with the counting program
    \<open>incr_rwlock1.c\<close> and shows that it refines the one over a mutex.
  \<^item> \<open>Wrappers\<close> and \<open>Lib_Wrap\<close>: the wrapper functions that end the process on an error. \<open>Lib_IO\<close>: \<open>readn\<close>,
    \<open>writen\<close>, \<open>readline\<close> of \<open>src/lib\<close>, each \<open>read\<close> and \<open>write\<close> moving any part of what is asked for.
    \<open>Lib_Misc\<close>: the other functions of \<open>src/lib\<close>.
  \<^item> \<open>src/mutex\<close>: \<open>Mutex_Prodcons\<close>, producers and a consumer under mutexes and condition variables;
    \<open>Mutex_Race\<close>, the version without the mutex; \<open>Os_Sync\<close>,
    the programs over \<open>thread.h\<close> that print parentheses and fish for ever (locale \<open>keeps_printing\<close>).
    \<open>src/pxsem\<close>: \<open>Px_Prodcons\<close>, \<open>Px_Multi\<close>, \<open>Px_Many\<close>, \<open>Px_Mycat\<close> (with the lines that its \<open>DEBUG\<close> prints to the same output). \<open>src/pxshm\<close>: \<open>Px_Shm\<close>.
  \<^item> \<open>Critical\<close>: programs that repeat a critical section, over any lock that excludes (locale \<open>exclusion\<close>);
    a semaphore of \<open>counting_sem\<close> that starts at 0 or 1 is one (locale \<open>binary_sem\<close>). \<open>Incr\<close>: the counters of
    \<open>src/bench\<close> and \<open>src/shm\<close>. \<open>Seqno\<close>: the sequence number of \<open>src/lock\<close> under the locks of
    \<open>lockfcntl.c\<close>, \<open>lockopen.c\<close>, \<open>lockopen2.c\<close>, \<open>locklink.c\<close>, \<open>lockpxsem.c\<close> and \<open>locknone.c\<close>.
    \<open>Bench_Lat\<close>, \<open>Bench_Bw\<close> and \<open>Bench_Messages\<close>: the programs of \<open>src/bench\<close> that pass messages between a parent and a
    child, over any channel that meets the contract (locales \<open>ping_pong\<close> and \<open>message_channel\<close>), and the pipes and queues that do;
    \<open>Bench_Pipe\<close>: \<open>bw_pipe.c\<close>, whose pipe moves bytes and not messages.
    \<open>Svsem_Lock\<close>: the lock of \<open>locksvsem.c\<close> with the creation of its semaphore and processes that die.
    \<open>Lock_Tests\<close>: the processes of \<open>test1.c\<close> to \<open>test4.c\<close> that read-lock and write-lock a file, and \<open>onedaemon.c\<close>.
  \<^item> \<open>Sysv_Tools\<close>: the programs of \<open>src/svsem\<close>, \<open>src/svmsg\<close>, \<open>src/svshm\<close> and \<open>src/pxshm\<close> that make, use and remove one
    semaphore set, queue or segment, as functions of their arguments.
  \<^item> \<open>Mq_Notify\<close>: the programs of \<open>src/pxmsg\<close> that a signal or a thread tells of messages (locale \<open>draining\<close>).
  \<^item> \<open>C_Text\<close>: strings, numbers and lines. \<open>Mesg\<close>: the messages of \<open>src/pipemesg\<close> down to their bytes; \<open>Mesg_Serv\<close>: its client and server.
    \<open>Svmsg_Serv\<close>: the file server of \<open>src/svmsgmpx1q\<close>; \<open>Svmsg_Nq\<close>: the one of \<open>src/svmsgmpxnq\<close>. \<open>Fifo_Serv\<close>: the one of \<open>src/fifocliserv\<close>.
    \<open>Pipe_Serv\<close>: the client and the server of \<open>src/pipe\<close> and of \<open>src/svmsgcliserv\<close>;
    \<open>Fifo_Open\<close>: those of \<open>src/pipe\<close> over FIFOs, with the order in which they are opened.

  \<^bold>\<open>How state and concurrency are modelled.\<close> A structure is a record, an enumeration of the places in a
  function a datatype. A section that a function runs under a mutex is one definition, and a function that
  waits has another for the section after the wait; a machine interleaves these sections. Programs that use
  semaphores have one step for each statement that touches shared data. A blocking call of the system that cannot
  complete is \<open>None\<close>, so that a deadlock is a state without a step; a thread in \<open>pthread_cond_wait\<close> is parked and goes on
  only after a signal or a spurious wakeup. Machine integers have their width where
  the source computes with them (offsets and sizes of the mapped queue, counts of semaphores); loop counters
  bounded by an argument are integers.

  \<^bold>\<open>What the lemmas show.\<close> Refinement of a priority queue and of a counter; invariants of the interleaved
  machines (well-formed lists, counts of waiters, mutual exclusion); for each producer and consumer, counting
  and client-server program that no wrong result is printed, that some thread can run until all are joined,
  and a bound on the length of every run; the result of each operation on every branch; what the open
  functions leave behind on every error path for every answer of the system; and where a program does not do
  this, a reachable state that shows it: lost wakeups, a deadlock on a full queue, a race of two clients, a
  message that nobody is told of, a write behind a buffer.

  \<^bold>\<open>Bounds and fuel.\<close> Loops over a linked list have the length of the list, bounded by the number of messages
  in the file, as fuel; that it is enough is part of the refinement lemmas. The loops of \<open>mymq_open\<close> and
  \<open>mysem_open\<close> that start again after a race have a number of rounds; statements hold for every number.
  Functions that read run on a schedule of reads; the lemmas that say they return ask for a schedule with at
  least as many reads that move bytes as there are bytes to move, and allow any interruptions between.

  \<^bold>\<open>Not modelled.\<close> What the programs of \<open>src/bench\<close> measure; the programs that only pass their
  arguments to one call and print the result (the tools of \<open>src/pxmsg\<close> and \<open>src/svipc\<close>) or print limits of the system; the programs over doors and RPC, whose behaviour is that of libraries the
  repository does not contain; the configuration of the build.
\<close>

end
